(* ===== verification/Prelude.thy ===== *)
theory Prelude
  imports Main "HOL-Library.Word" "HOL-Library.AList" "HOL-Library.Multiset"
begin

text \<open>
  What every component shares: the names of the machine types of the C sources, the
  errors and warnings the server reports, the little-endian image of an integer in memory,
  C's \<open>strcmp\<close>, the exchange sort that four functions of the sources repeat, and the
  bounded hash table behind the shared-memory maps.  Two interfaces are stated as locales
  here and interpreted on the definitions of this theory: the sorting loop, over any
  comparison that is a strict weak order, and the hash table.
\<close>

section \<open>Machine types\<close>

type_synonym u8 = "8 word"
type_synonym u32 = "32 word"
type_synonym u64 = "64 word"
type_synonym i32 = "32 word"
type_synonym i64 = "64 word"
type_synonym oid = "32 word"
type_synonym XLogRecPtr = "64 word"
type_synonym XLogSegNo = "64 word"
type_synonym TimeLineID = "32 word"
type_synonym bytes = "8 word list"

abbreviation InvalidXLogRecPtr :: XLogRecPtr where
  "InvalidXLogRecPtr \<equiv> 0"

abbreviation InvalidOid :: oid where
  "InvalidOid \<equiv> 0"

named_theorems store_simps \<open>how the file-system calls change the fields of the store\<close>
named_theorems faultless \<open>the file-system calls when no fault is pending\<close>

section \<open>Errors and warnings\<close>

text \<open>\<open>ereport(ERROR, ...)\<close> leaves the function with the state changed so far: an operation
  that can raise returns \<open>Inl\<close> of one of these together with the state.\<close>

datatype pg_error =
    ErrFileAccess
  | ErrDiskFull
  | ErrPrerequisite
  | ErrOutOfSharedMemory
  | ErrOutOfMemory
  | ErrRemoteWrite oid i32
  | ErrNodeDown oid
  | ErrSpi
  | ErrFeatureNotSupported
  | ErrDatatypeMismatch

datatype pg_warning =
    WarnUnlink oid string
  | WarnFsync oid
  | WarnRecordTooShort nat
  | WarnBadMagic u32
  | WarnCacheFull oid
  | WarnNoWriter oid
  | WarnStalling oid
  | WarnInitDirectory oid
  | WarnRootDirectory
  | WarnReadError XLogRecPtr string
  | WarnFlushTimeout XLogRecPtr

section \<open>Little-endian images\<close>

primrec nat_le :: "nat \<Rightarrow> nat \<Rightarrow> bytes" where
  "nat_le 0 k = []"
| "nat_le (Suc n) k = word_of_nat (k mod 256) # nat_le n (k div 256)"

primrec le_nat :: "bytes \<Rightarrow> nat" where
  "le_nat [] = 0"
| "le_nat (b # bs) = unat b + 256 * le_nat bs"

lemma length_nat_le [simp]: "length (nat_le n k) = n"
  by (induction n arbitrary: k) auto

lemma unat_bound: "unat (w :: 'a::len word) < 2 ^ LENGTH('a)"
  by (rule unsigned_less)

lemma unat_byte_bound: "unat (b :: u8) < 256"
  using unat_bound [of b] by simp

lemma le_nat_bound: "le_nat bs < 256 ^ length bs"
proof (induction bs)
  case Nil
  then show ?case by simp
next
  case (Cons b bs)
  then show ?case using unat_byte_bound [of b] by simp
qed

lemma le_nat_nat_le: "le_nat (nat_le n k) = k mod 256 ^ n"
proof (induction n arbitrary: k)
  case 0
  then show ?case by simp
next
  case (Suc n)
  have "unat (word_of_nat (k mod 256) :: u8) = k mod 256"
    by (simp add: unat_of_nat)
  then show ?case
    using Suc.IH by (simp add: mod_mult2_eq)
qed

lemma nat_le_le_nat: "length bs = n \<Longrightarrow> nat_le n (le_nat bs) = bs"
proof (induction bs arbitrary: n)
  case Nil
  then show ?case by simp
next
  case (Cons b bs)
  have "(unat b + 256 * le_nat bs) mod 256 = unat b"
    and "(unat b + 256 * le_nat bs) div 256 = le_nat bs"
    using unat_byte_bound [of b] by simp_all
  with Cons show ?case by auto
qed

text \<open>A field of \<open>n\<close> bytes: what is read back is the value that was stored.\<close>

lemma field_roundtrip:
  fixes w :: "'a::len word"
  assumes "2 ^ LENGTH('a) = (256::nat) ^ n"
  shows "word_of_nat (le_nat (nat_le n (unat w))) = w"
  using assms unat_bound [of w] by (simp add: le_nat_nat_le)

lemma field_inverse:
  assumes "2 ^ LENGTH('a::len) = (256::nat) ^ n" and "length bs = n"
  shows "nat_le n (unat (word_of_nat (le_nat bs) :: 'a word)) = bs"
proof -
  have "unat (word_of_nat (le_nat bs) :: 'a word) = le_nat bs"
    using le_nat_bound [of bs] assms by (simp add: unat_of_nat)
  then show ?thesis using assms by (simp add: nat_le_le_nat)
qed

section \<open>C's string comparison\<close>

fun strcmp :: "string \<Rightarrow> string \<Rightarrow> int" where
  "strcmp [] [] = 0"
| "strcmp [] (d # ds) = - 1"
| "strcmp (c # cs) [] = 1"
| "strcmp (c # cs) (d # ds) =
     (if c = d then strcmp cs ds
      else if (of_char c :: nat) < of_char d then - 1 else 1)"

lemma strcmp_refl [simp]: "strcmp s s = 0"
  by (induction s) auto

lemma strcmp_0_iff: "strcmp s t = 0 \<longleftrightarrow> s = t"
  by (induction s t rule: strcmp.induct) auto

lemma strcmp_swap: "strcmp t s = - strcmp s t"
proof (induction s t rule: strcmp.induct)
  case (4 c cs d ds)
  have "c \<noteq> d \<Longrightarrow> (of_char c :: nat) \<noteq> of_char d" by simp
  with 4 show ?case by auto
qed auto

lemma strcmp_trans: "strcmp s t \<le> 0 \<Longrightarrow> strcmp t u \<le> 0 \<Longrightarrow> strcmp s u \<le> 0"
proof (induction s t arbitrary: u rule: strcmp.induct)
  case 1
  then show ?case by simp
next
  case (2 d ds)
  then show ?case by (cases u) auto
next
  case (3 c cs)
  then show ?case by simp
next
  case (4 c cs d ds)
  show ?case
  proof (cases u)
    case Nil
    with 4 show ?thesis by simp
  next
    case (Cons e es)
    with 4 show ?thesis
      by (auto split: if_splits)
  qed
qed

lemma strcmp_append:
  "length xs = length ys \<Longrightarrow>
     strcmp (xs @ us) (ys @ vs) = (if strcmp xs ys = 0 then strcmp us vs else strcmp xs ys)"
  by (induction xs ys rule: list_induct2) (auto simp: strcmp_0_iff)

section \<open>The exchange sort of the segment listings\<close>

text \<open>
  \<^verbatim>\<open>
  for (i = 0; i < nfiles - 1; i++)
      for (j = i + 1; j < nfiles; j++)
          if (strcmp(segfiles[i], segfiles[j]) > 0)   -- or < 0
              swap segfiles[i], segfiles[j]
  \<close>
  The guard of the swap is the parameter \<open>out\<close>.
\<close>

function exch_inner :: "('a \<Rightarrow> 'a \<Rightarrow> bool) \<Rightarrow> nat \<Rightarrow> nat \<Rightarrow> 'a list \<Rightarrow> 'a list" where
  "exch_inner out i j xs =
     (if j < length xs
      then exch_inner out i (Suc j)
             (if out (xs ! i) (xs ! j) then xs[i := xs ! j, j := xs ! i] else xs)
      else xs)"
  by pat_completeness auto
termination
  by (relation "measure (\<lambda>(out, i, j, xs). length xs - j)") auto

declare exch_inner.simps [simp del]

lemma length_exch_inner [simp]: "length (exch_inner out i j xs) = length xs"
proof (induction out i j xs rule: exch_inner.induct)
  case (1 out i j xs)
  then show ?case by (subst exch_inner.simps) auto
qed

function exch_outer :: "('a \<Rightarrow> 'a \<Rightarrow> bool) \<Rightarrow> nat \<Rightarrow> 'a list \<Rightarrow> 'a list" where
  "exch_outer out i xs =
     (if Suc i < length xs then exch_outer out (Suc i) (exch_inner out i (Suc i) xs) else xs)"
  by pat_completeness auto
termination
  by (relation "measure (\<lambda>(out, i, xs). length xs - i)") auto

declare exch_outer.simps [simp del]

definition exchange_sort :: "('a \<Rightarrow> 'a \<Rightarrow> bool) \<Rightarrow> 'a list \<Rightarrow> 'a list" where
  "exchange_sort out xs = exch_outer out 0 xs"

lemma mset_exch_inner: "i < length xs \<Longrightarrow> mset (exch_inner out i j xs) = mset xs"
proof (induction out i j xs rule: exch_inner.induct)
  case (1 out i j xs)
  show ?case
  proof (cases "j < length xs")
    case True
    let ?ys = "if out (xs ! i) (xs ! j) then xs[i := xs ! j, j := xs ! i] else xs"
    from True 1(2) have "mset ?ys = mset xs" by (simp add: mset_swap)
    with True 1 show ?thesis by (subst exch_inner.simps) simp
  qed (simp add: exch_inner.simps)
qed

lemma mset_exch_outer: "mset (exch_outer out i xs) = mset xs"
proof (induction out i xs rule: exch_outer.induct)
  case (1 out i xs)
  then show ?case
    by (cases "Suc i < length xs") (simp_all add: exch_outer.simps mset_exch_inner)
qed

lemma mset_exchange_sort [simp]: "mset (exchange_sort out xs) = mset xs"
  by (simp add: exchange_sort_def mset_exch_outer)

lemma set_exchange_sort [simp]: "set (exchange_sort out xs) = set xs"
  using mset_exchange_sort [of out xs] by (metis set_mset_mset)

lemma length_exchange_sort [simp]: "length (exchange_sort out xs) = length xs"
  using mset_exchange_sort [of out xs] by (metis size_mset)

lemma exch_inner_below: "k < i \<Longrightarrow> k < j \<Longrightarrow> exch_inner out i j xs ! k = xs ! k"
proof (induction out i j xs rule: exch_inner.induct)
  case (1 out i j xs)
  then show ?case by (subst exch_inner.simps) auto
qed

text \<open>What the loop needs of its guard: it is a strict weak order, read backwards.\<close>

locale exchange_order =
  fixes out :: "'a \<Rightarrow> 'a \<Rightarrow> bool"
  assumes out_asym: "out x y \<Longrightarrow> \<not> out y x"
    and out_negtrans: "\<not> out x y \<Longrightarrow> \<not> out y z \<Longrightarrow> \<not> out x z"
begin

lemma out_irrefl: "\<not> out x x"
  using out_asym by blast

lemma exch_inner_least:
  assumes "i < j" and "i < length xs"
    and "\<And>k. i < k \<Longrightarrow> k < j \<Longrightarrow> k < length xs \<Longrightarrow> \<not> out (xs ! i) (xs ! k)"
  shows "i < k \<Longrightarrow> k < length xs \<Longrightarrow>
    \<not> out (exch_inner out i j xs ! i) (exch_inner out i j xs ! k)"
  using assms
proof (induction "length xs - j" arbitrary: j xs)
  case 0
  then show ?case by (simp add: exch_inner.simps)
next
  case (Suc n)
  let ?ys = "if out (xs ! i) (xs ! j) then xs[i := xs ! j, j := xs ! i] else xs"
  have "j < length xs" using Suc.hyps(2) by simp
  then have step: "exch_inner out i j xs = exch_inner out i (Suc j) ?ys"
    by (simp add: exch_inner.simps [of out i j xs])
  have "\<not> out (?ys ! i) (?ys ! l)" if "i < l" "l < Suc j" "l < length ?ys" for l
  proof (cases "out (xs ! i) (xs ! j)")
    case True
    have "\<not> out (xs ! j) (xs ! l)" if "l < j"
      using True Suc.prems(5) [of l] that \<open>i < l\<close> \<open>j < length xs\<close> out_asym out_negtrans
      by (metis order_less_trans)
    with True that Suc.prems(3) \<open>j < length xs\<close> show ?thesis
      by (cases "l = j") (auto simp: nth_list_update out_asym)
  next
    case False
    with that Suc.prems(5) [of l] show ?thesis by (cases "l = j") auto
  qed
  then show ?case
    unfolding step using Suc.hyps Suc.prems by (intro Suc.hyps(1)) auto
qed

lemma exch_inner_suffix:
  assumes "i < length xs" and "i \<le> b" and "b < length xs"
  shows "\<exists>k. i \<le> k \<and> k < length xs \<and> exch_inner out i (Suc i) xs ! b = xs ! k"
proof -
  let ?ys = "exch_inner out i (Suc i) xs"
  have "take i ?ys = take i xs"
    by (rule nth_equalityI) (use assms in \<open>auto simp: exch_inner_below\<close>)
  moreover have "mset (take i ?ys @ drop i ?ys) = mset (take i xs @ drop i xs)"
    using assms by (simp only: append_take_drop_id mset_exch_inner)
  ultimately have "set (drop i ?ys) = set (drop i xs)"
    by (metis add_left_cancel mset_append set_mset_mset)
  moreover have "?ys ! b \<in> set (drop i ?ys)"
    using assms by (auto simp: in_set_conv_nth intro!: exI [of _ "b - i"])
  ultimately have "?ys ! b \<in> set (drop i xs)" by simp
  then obtain k where "k < length xs - i" "?ys ! b = xs ! (i + k)"
    by (auto simp: in_set_conv_nth)
  then show ?thesis by (intro exI [of _ "i + k"]) auto
qed

lemma exch_outer_ordered:
  assumes "\<And>a b. a < i \<Longrightarrow> a < b \<Longrightarrow> b < length xs \<Longrightarrow> \<not> out (xs ! a) (xs ! b)"
  shows "sorted_wrt (\<lambda>x y. \<not> out x y) (exch_outer out i xs)"
  using assms
proof (induction "length xs - i" arbitrary: i xs rule: less_induct)
  case less
  show ?case
  proof (cases "Suc i < length xs")
    case False
    with less.prems show ?thesis
      by (auto simp: exch_outer.simps [of out i xs] sorted_wrt_iff_nth_less)
  next
    case True
    let ?ys = "exch_inner out i (Suc i) xs"
    have "\<not> out (?ys ! a) (?ys ! b)" if ab: "a < Suc i" "a < b" "b < length ?ys" for a b
    proof (cases "a = i")
      case eq: True
      show ?thesis unfolding eq by (rule exch_inner_least) (use True ab eq in auto)
    next
      case False
      with ab have "a < i" by simp
      then have a: "?ys ! a = xs ! a" by (simp add: exch_inner_below)
      show ?thesis
      proof (cases "b < i")
        case True
        with a less.prems [OF \<open>a < i\<close> \<open>a < b\<close>] ab show ?thesis
          by (simp add: exch_inner_below)
      next
        case False
        then obtain k where "i \<le> k" "k < length xs" "?ys ! b = xs ! k"
          using exch_inner_suffix [of i xs b] True ab by auto
        with a less.prems [of a k] \<open>a < i\<close> show ?thesis by simp
      qed
    qed
    then show ?thesis
      using True by (subst exch_outer.simps) (auto intro!: less.hyps)
  qed
qed

lemma exchange_sort_ordered: "sorted_wrt (\<lambda>x y. \<not> out x y) (exchange_sort out xs)"
  unfolding exchange_sort_def by (rule exch_outer_ordered) simp

text \<open>Where only equal elements are unordered, there is one sorted arrangement.\<close>

lemma ordered_unique:
  assumes total: "\<And>x y. \<not> out x y \<Longrightarrow> \<not> out y x \<Longrightarrow> x = y"
  shows "sorted_wrt (\<lambda>x y. \<not> out x y) as \<Longrightarrow> sorted_wrt (\<lambda>x y. \<not> out x y) bs \<Longrightarrow>
    mset as = mset bs \<Longrightarrow> as = bs"
proof (induction as arbitrary: bs)
  case Nil
  then show ?case by simp
next
  case (Cons a as)
  then obtain b bs' where bs: "bs = b # bs'" by (cases bs) auto
  have sets: "set (a # as) = set (b # bs')"
    using Cons.prems(3) unfolding bs by (metis set_mset_mset)
  have "a = b"
  proof (rule total)
    have "b \<in> set (a # as)" and "a \<in> set (b # bs')" using sets by auto
    then show "\<not> out a b" and "\<not> out b a"
      using Cons.prems(1,2) out_irrefl unfolding bs by auto
  qed
  with Cons bs show ?case by auto
qed

lemma exchange_sort_eq:
  assumes "\<And>x y. \<not> out x y \<Longrightarrow> \<not> out y x \<Longrightarrow> x = y"
    and "mset xs = mset ys" and "sorted_wrt (\<lambda>x y. \<not> out x y) ys"
  shows "exchange_sort out xs = ys"
  using assms by (intro ordered_unique) (simp_all add: exchange_sort_ordered)

lemma exchange_sort_cong:
  assumes "\<And>x y. \<not> out x y \<Longrightarrow> \<not> out y x \<Longrightarrow> x = y" and "mset xs = mset ys"
  shows "exchange_sort out xs = exchange_sort out ys"
  using assms by (intro exchange_sort_eq) (simp_all add: exchange_sort_ordered)

end

definition names_ascending :: "string \<Rightarrow> string \<Rightarrow> bool" where
  "names_ascending s t \<longleftrightarrow> strcmp s t > 0"

definition names_descending :: "string \<Rightarrow> string \<Rightarrow> bool" where
  "names_descending s t \<longleftrightarrow> strcmp s t < 0"

interpretation asc: exchange_order names_ascending
proof
  show "\<not> names_ascending t s" if "names_ascending s t" for s t
    using that strcmp_swap [of s t] by (simp add: names_ascending_def)
  show "\<not> names_ascending s u" if "\<not> names_ascending s t" "\<not> names_ascending t u" for s t u
    using that strcmp_trans [of s t u] by (simp add: names_ascending_def)
qed

interpretation desc: exchange_order names_descending
proof
  show "\<not> names_descending t s" if "names_descending s t" for s t
    using that strcmp_swap [of s t] by (simp add: names_descending_def)
  show "\<not> names_descending s u" if "\<not> names_descending s t" "\<not> names_descending t u" for s t u
    using that strcmp_trans [of u t s] strcmp_swap [of s t] strcmp_swap [of t u] strcmp_swap [of s u]
    by (simp add: names_descending_def)
qed

lemma names_ascending_total: "\<not> names_ascending s t \<Longrightarrow> \<not> names_ascending t s \<Longrightarrow> s = t"
  using strcmp_swap [of s t] strcmp_0_iff [of s t] by (simp add: names_ascending_def)

lemma names_descending_total: "\<not> names_descending s t \<Longrightarrow> \<not> names_descending t s \<Longrightarrow> s = t"
  using strcmp_swap [of s t] strcmp_0_iff [of s t] by (simp add: names_descending_def)

lemma names_descending_swap: "names_descending s t \<longleftrightarrow> names_ascending t s"
  using strcmp_swap [of s t] by (simp add: names_descending_def names_ascending_def)

text \<open>The descending listing is the ascending one, backwards.\<close>

lemma descending_rev: "exchange_sort names_descending xs = rev (exchange_sort names_ascending xs)"
  by (rule desc.exchange_sort_eq)
    (auto simp: names_descending_total sorted_wrt_rev names_descending_swap
      asc.exchange_sort_ordered)

section \<open>The bounded hash table\<close>

text \<open>
  A shared-memory \<open>HTAB\<close> made with \<open>HASH_FIXED_SIZE\<close> (\<open>utils/hsearch.h\<close>: the initial size
  is a hard limit) is an association list with distinct keys and at most \<open>max\<close> entries.
  \<open>HASH_ENTER\<close> returns the entry of the key, new or old; a new key in a full table is an error.
\<close>

record ('k, 'v) htab =
  max_entries :: nat
  entries :: "('k \<times> 'v) list"

definition hash_find :: "'k \<Rightarrow> ('k, 'v) htab \<Rightarrow> 'v option" where
  "hash_find k t = map_of (entries t) k"

definition hash_enter :: "'k \<Rightarrow> 'v \<Rightarrow> ('k, 'v) htab \<Rightarrow> pg_error + ('k, 'v) htab" where
  "hash_enter k v t =
     (if map_of (entries t) k = None \<and> max_entries t \<le> length (entries t)
      then Inl ErrOutOfSharedMemory
      else Inr (t\<lparr>entries := AList.update k v (entries t)\<rparr>))"

definition hash_remove :: "'k \<Rightarrow> ('k, 'v) htab \<Rightarrow> ('k, 'v) htab" where
  "hash_remove k t = t\<lparr>entries := AList.delete k (entries t)\<rparr>"

definition hash_inv :: "('k, 'v) htab \<Rightarrow> bool" where
  "hash_inv t \<longleftrightarrow> distinct (map fst (entries t)) \<and> length (entries t) \<le> max_entries t"

text \<open>The interface the shared-memory maps rely on.\<close>

locale bounded_map =
  fixes find :: "'k \<Rightarrow> 't \<Rightarrow> 'v option"
    and enter :: "'k \<Rightarrow> 'v \<Rightarrow> 't \<Rightarrow> pg_error + 't"
    and remove :: "'k \<Rightarrow> 't \<Rightarrow> 't"
    and inv :: "'t \<Rightarrow> bool"
  assumes find_enter: "inv t \<Longrightarrow> enter k v t = Inr t' \<Longrightarrow> find l t' = (if l = k then Some v else find l t)"
    and find_remove: "inv t \<Longrightarrow> find l (remove k t) = (if l = k then None else find l t)"
    and enter_present: "inv t \<Longrightarrow> find k t \<noteq> None \<Longrightarrow> \<exists>t'. enter k v t = Inr t'"
    and inv_enter: "inv t \<Longrightarrow> enter k v t = Inr t' \<Longrightarrow> inv t'"
    and inv_remove: "inv t \<Longrightarrow> inv (remove k t)"
begin

lemma enter_twice:
  assumes "inv t" and "enter k v t = Inr t'"
  shows "\<exists>t''. enter k w t' = Inr t''"
  using assms by (intro enter_present) (auto simp: find_enter inv_enter)

lemma remove_enter:
  assumes "inv t" and "enter k v (remove k t) = Inr t'"
  shows "find l t' = (if l = k then Some v else find l t)"
  using find_enter [OF inv_remove [OF assms(1)] assms(2)] find_remove [OF assms(1)]
  by simp

end

lemma length_alist_update:
  "length (AList.update k v xs) = (if k \<in> fst ` set xs then length xs else Suc (length xs))"
  by (induction xs) auto

interpretation ht: bounded_map hash_find hash_enter hash_remove hash_inv
proof
  fix t t' :: "('a, 'b) htab" and k l :: 'a and v :: 'b
  assume inv: "hash_inv t"
  show "hash_find l t' = (if l = k then Some v else hash_find l t)" if "hash_enter k v t = Inr t'"
    using that by (auto simp: hash_find_def hash_enter_def update_conv' split: if_splits)
  show "hash_find l (hash_remove k t) = (if l = k then None else hash_find l t)"
    by (simp add: hash_find_def hash_remove_def delete_conv')
  show "\<exists>t'. hash_enter k v t = Inr t'" if "hash_find k t \<noteq> None"
    using that by (auto simp: hash_find_def hash_enter_def)
  show "hash_inv t'" if "hash_enter k v t = Inr t'"
    using that inv
    by (fastforce simp: hash_inv_def hash_enter_def distinct_update length_alist_update
        map_of_eq_None_iff image_iff split: if_splits)
  show "hash_inv (hash_remove k t)"
    using inv length_delete_le [of k "entries t"]
    by (auto simp: hash_inv_def hash_remove_def distinct_delete)
qed

lemma hash_enter_error:
  "hash_enter k v t = Inl e \<longleftrightarrow>
     e = ErrOutOfSharedMemory \<and> hash_find k t = None \<and> max_entries t \<le> length (entries t)"
  by (auto simp: hash_enter_def hash_find_def)

end
