(* ===== verification/XLogNames.thy ===== *)
theory XLogNames
  imports Prelude
begin

unbundle bit_operations_syntax

text \<open>
  Segment arithmetic and segment file names: the macros and inline functions of
  \<open>access/xlog_internal.h\<close> that the sources use, and \<open>GetPartitionWALPath\<close> of
  \<open>src/wal/partition_wal.c\<close>.  \<open>wss\<close> is the server's \<open>wal_segment_size\<close>.  The lemmas show that
  a name can be read back, that names of one timeline are ordered as their segment numbers,
  that paths are never cut and that two partitions never share a path.
\<close>

section \<open>Segment arithmetic\<close>

definition XLOG_BLCKSZ :: nat where
  "XLOG_BLCKSZ = 8192"

definition IsPowerOf2 :: "u64 \<Rightarrow> bool" where
  "IsPowerOf2 x \<longleftrightarrow> x > 0 \<and> x AND (x - 1) = 0"

definition IsValidWalSegSize :: "u64 \<Rightarrow> bool" where
  "IsValidWalSegSize sz \<longleftrightarrow>
     IsPowerOf2 sz \<and> 1024 * 1024 \<le> sz \<and> sz \<le> 1024 * 1024 * 1024"

definition XLogSegmentsPerXLogId :: "u64 \<Rightarrow> u64" where
  "XLogSegmentsPerXLogId wss = 0x100000000 div wss"

definition XLogSegNoOffsetToRecPtr :: "XLogSegNo \<Rightarrow> u64 \<Rightarrow> u64 \<Rightarrow> XLogRecPtr" where
  "XLogSegNoOffsetToRecPtr segno offset wss = segno * wss + offset"

definition XLogSegmentOffset :: "XLogRecPtr \<Rightarrow> u64 \<Rightarrow> u64" where
  "XLogSegmentOffset ptr wss = ptr AND (wss - 1)"

definition XLByteToSeg :: "XLogRecPtr \<Rightarrow> u64 \<Rightarrow> XLogSegNo" where
  "XLByteToSeg lsn wss = lsn div wss"

lemma and_pred_nat:
  "0 < n \<Longrightarrow> n AND (n - 1) = (0::nat) \<Longrightarrow> \<exists>k. n = 2 ^ k"
proof (induction n rule: less_induct)
  case (less n)
  show ?case
  proof (cases "even n")
    case True
    then obtain m where m: "n = 2 * m" by blast
    with less.prems have "0 < m" by simp
    have "(n - 1) div 2 = m - 1" using m \<open>0 < m\<close> by arith
    with m less.prems(2) have "m AND (m - 1) = 0"
      by (subst (asm) and_rec) simp
    with less.IH [of m] m \<open>0 < m\<close> obtain k where "m = 2 ^ k" by auto
    with m have "n = 2 ^ Suc k" by simp
    then show ?thesis by blast
  next
    case False
    then obtain m where m: "n = 2 * m + 1" by (elim oddE)
    with less.prems(2) have "m AND m = 0"
      by (subst (asm) and_rec) simp
    with m have "n = 2 ^ 0" by simp
    then show ?thesis by blast
  qed
qed

lemma valid_seg_size_power:
  assumes "IsValidWalSegSize wss"
  obtains k where "unat wss = 2 ^ k" and "20 \<le> k" and "k \<le> 30"
proof -
  have pos: "0 < unat wss" and z: "wss AND (wss - 1) = 0"
    using assms by (auto simp: IsValidWalSegSize_def IsPowerOf2_def word_less_nat_alt)
  have "unat (wss - 1) = unat wss - 1"
    using pos by (simp add: unat_minus_one unat_0_iff [symmetric])
  moreover have "unat (wss AND (wss - 1)) = unat wss AND unat (wss - 1)"
    by (simp add: unsigned_and_eq)
  ultimately have "unat wss AND (unat wss - 1) = 0"
    using z by simp
  with pos obtain k where k: "unat wss = 2 ^ k"
    using and_pred_nat by blast
  have "(2::nat) ^ 20 \<le> 2 ^ k" and "(2::nat) ^ k \<le> 2 ^ 30"
    using assms by (simp_all add: IsValidWalSegSize_def word_le_nat_alt flip: k)
  then have "20 \<le> k" and "k \<le> 30"
    using power_le_imp_le_exp [of "2::nat" 20 k] power_le_imp_le_exp [of "2::nat" k 30] by auto
  with k show thesis by (rule that)
qed

text \<open>The default size, for the examples.\<close>

lemma wss_16MB: "IsValidWalSegSize 0x1000000"
  by (simp add: IsValidWalSegSize_def IsPowerOf2_def)

lemma valid_seg_size_bounds:
  assumes "IsValidWalSegSize wss"
  shows "0 < unat wss" and "unat wss * (2 ^ 32 div unat wss) = 2 ^ 32"
proof -
  from assms obtain k where k: "unat wss = 2 ^ k" "20 \<le> k" "k \<le> 30"
    by (rule valid_seg_size_power)
  then show "0 < unat wss" by simp
  have "(2::nat) ^ 32 div 2 ^ k = 2 ^ (32 - k)"
    using k by (intro power_diff [symmetric]) auto
  then show "unat wss * (2 ^ 32 div unat wss) = 2 ^ 32"
    unfolding k(1) using k(3) by (simp only: power_add [symmetric]) simp
qed

lemma unat_segments_per_id: "unat (XLogSegmentsPerXLogId wss) = 2 ^ 32 div unat wss"
  by (simp add: XLogSegmentsPerXLogId_def unat_div_distrib)

lemma unat_byte_to_seg: "unat (XLByteToSeg lsn wss) = unat lsn div unat wss"
  by (simp add: XLByteToSeg_def unat_div_distrib)

text \<open>The segment number of an LSN: its high word is a 32-bit value, so the name keeps it.\<close>

lemma seg_of_lsn_high_word:
  assumes "IsValidWalSegSize wss"
  shows "unat (XLByteToSeg lsn wss) div unat (XLogSegmentsPerXLogId wss) < 2 ^ 32"
proof -
  have "unat lsn div unat wss div (2 ^ 32 div unat wss) = unat lsn div 2 ^ 32"
    using valid_seg_size_bounds [OF assms] by (simp flip: div_mult2_eq)
  also have "\<dots> < 2 ^ 32"
    using unat_bound [of lsn] by (simp add: less_mult_imp_div_less)
  finally show ?thesis
    by (simp add: unat_byte_to_seg unat_segments_per_id)
qed

lemma byte_to_seg_mono: "a \<le> b \<Longrightarrow> XLByteToSeg a wss \<le> XLByteToSeg b wss"
  by (simp add: word_le_nat_alt unat_byte_to_seg div_le_mono)

text \<open>An LSN lies in its segment.\<close>

lemma byte_in_segment:
  assumes "0 < wss"
  shows "unat (XLByteToSeg lsn wss) * unat wss \<le> unat lsn"
    and "unat lsn < Suc (unat (XLByteToSeg lsn wss)) * unat wss"
proof -
  have "0 < unat wss" using assms by (simp add: word_less_nat_alt)
  then show "unat (XLByteToSeg lsn wss) * unat wss \<le> unat lsn"
    and "unat lsn < Suc (unat (XLByteToSeg lsn wss)) * unat wss"
    using dividend_less_div_times [of "unat wss" "unat lsn"]
    by (simp_all add: unat_byte_to_seg)
qed

section \<open>Printing numbers\<close>

definition hexchars :: string where
  "hexchars = ''0123456789ABCDEF''"

definition hexval :: "char \<Rightarrow> nat" where
  "hexval c = (if of_char c < (58::nat) then of_char c - 48 else of_char c - 55)"

text \<open>\<open>%08X\<close> of a 32-bit value, and the \<open>%08X\<close> conversion of \<open>sscanf\<close> on such digits.\<close>

primrec hexn :: "nat \<Rightarrow> nat \<Rightarrow> string" where
  "hexn 0 k = []"
| "hexn (Suc n) k = hexn n (k div 16) @ [hexchars ! (k mod 16)]"

definition hex8 :: "u32 \<Rightarrow> string" where
  "hex8 w = hexn 8 (unat w)"

definition unhex :: "string \<Rightarrow> nat" where
  "unhex s = foldl (\<lambda>n c. 16 * n + hexval c) 0 s"

text \<open>\<open>%u\<close>.\<close>

fun decimal :: "nat \<Rightarrow> string" where
  "decimal n = (if n < 10 then [''0123456789'' ! n] else decimal (n div 10) @ [''0123456789'' ! (n mod 10)])"

declare decimal.simps [simp del]

lemma length_hexn [simp]: "length (hexn n k) = n"
  by (induction n arbitrary: k) auto

lemma length_hexchars [simp]: "length hexchars = 16"
  by (simp add: hexchars_def)

lemma hexval_hexchars: "k < 16 \<Longrightarrow> hexval (hexchars ! k) = k"
proof -
  have "\<forall>k\<in>set [0..<16]. hexval (hexchars ! k) = k" by code_simp
  then show "k < 16 \<Longrightarrow> hexval (hexchars ! k) = k" by simp
qed

lemma hexchars_mono:
  assumes "b < 16" and "a < b"
  shows "(of_char (hexchars ! a) :: nat) < of_char (hexchars ! b)"
proof -
  have "\<forall>b\<in>set [0..<16]. \<forall>a\<in>set [0..<b]. (of_char (hexchars ! a) :: nat) < of_char (hexchars ! b)"
    by code_simp
  with assms show ?thesis by simp
qed

lemma hexchars_inj: "a < 16 \<Longrightarrow> b < 16 \<Longrightarrow> hexchars ! a = hexchars ! b \<Longrightarrow> a = b"
  by (metis hexval_hexchars)

lemma set_hexn: "set (hexn n k) \<subseteq> set hexchars"
  by (induction n arbitrary: k) auto

lemma unhex_snoc: "unhex (s @ [c]) = 16 * unhex s + hexval c"
  by (simp add: unhex_def)

lemma unhex_hexn: "unhex (hexn n k) = k mod 16 ^ n"
proof (induction n arbitrary: k)
  case 0
  then show ?case by (simp add: unhex_def)
next
  case (Suc n)
  then show ?case by (simp add: unhex_snoc hexval_hexchars mod_mult2_eq)
qed

lemma unhex_hex8: "unhex (hex8 w) = unat w"
  using unat_bound [of w] by (simp add: hex8_def unhex_hexn)

lemma base16_less:
  "r < 16 \<Longrightarrow> r' < 16 \<Longrightarrow> q * 16 + r < q' * 16 + r' \<longleftrightarrow> q < q' \<or> q = q' \<and> r < (r' :: nat)"
  by linarith

lemma strcmp_hexn:
  "a < 16 ^ n \<Longrightarrow> b < 16 ^ n \<Longrightarrow>
     strcmp (hexn n a) (hexn n b) = (if a < b then - 1 else if a = b then 0 else 1)"
proof (induction n arbitrary: a b)
  case 0
  then show ?case by simp
next
  case (Suc n)
  have digit: "strcmp [hexchars ! i] [hexchars ! j] = (if i < j then - 1 else if i = j then 0 else 1)"
    if "i < 16" "j < 16" for i j
    using hexchars_mono [of j i] hexchars_mono [of i j] hexchars_inj [of i j] that
    by (cases i j rule: linorder_cases) auto
  have "a div 16 < 16 ^ n" and "b div 16 < 16 ^ n"
    using Suc.prems by (auto simp: less_mult_imp_div_less mult.commute)
  note IH = Suc.IH [OF this]
  have lex: "a < b \<longleftrightarrow> a div 16 < b div 16 \<or> a div 16 = b div 16 \<and> a mod 16 < b mod 16"
    and eq: "a = b \<longleftrightarrow> a div 16 = b div 16 \<and> a mod 16 = b mod 16"
    using base16_less [of "a mod 16" "b mod 16" "a div 16" "b div 16"]
    by (simp_all only: div_mult_mod_eq mod_less_divisor zero_less_numeral)
      (metis div_mult_mod_eq)
  have "strcmp (hexn (Suc n) a) (hexn (Suc n) b) =
      (if strcmp (hexn n (a div 16)) (hexn n (b div 16)) = 0
       then strcmp [hexchars ! (a mod 16)] [hexchars ! (b mod 16)]
       else strcmp (hexn n (a div 16)) (hexn n (b div 16)))"
    unfolding hexn.simps by (rule strcmp_append) simp
  also have "\<dots> = (if a < b then - 1 else if a = b then 0 else 1)"
    using lex eq by (simp add: IH digit del: strcmp.simps)
  finally show ?case .
qed

lemma decimal_inj: "decimal m = decimal n \<Longrightarrow> m = n"
proof (induction m arbitrary: n rule: decimal.induct)
  case (1 m)
  have "\<forall>a\<in>set [0..<10]. \<forall>b\<in>set [0..<10]. ''0123456789'' ! a = ''0123456789'' ! b \<longrightarrow> a = b"
    by code_simp
  then have digits: "a = b" if "a < 10" "b < 10" "''0123456789'' ! a = ''0123456789'' ! b" for a b
    using that by simp
  have ne: "decimal k \<noteq> []" for k by (subst decimal.simps) simp
  show ?case
  proof (cases "m < 10")
    case True
    with "1.prems" ne [of "n div 10"] have "n < 10"
      by (simp add: decimal.simps [of m] decimal.simps [of n] split: if_splits)
    with True "1.prems" digits show ?thesis
      by (simp add: decimal.simps [of m] decimal.simps [of n])
  next
    case False
    with "1.prems" ne [of "m div 10"] have "\<not> n < 10"
      by (auto simp: decimal.simps [of m] decimal.simps [of n] split: if_splits)
    with False "1.prems" have "decimal (m div 10) = decimal (n div 10)"
      and "''0123456789'' ! (m mod 10) = ''0123456789'' ! (n mod 10)"
      by (simp_all add: decimal.simps [of m] decimal.simps [of n])
    with "1.IH" False digits [of "m mod 10" "n mod 10"]
    have "m div 10 = n div 10" and "m mod 10 = n mod 10" by auto
    then show ?thesis by (metis div_mult_mod_eq)
  qed
qed

lemma set_decimal: "set (decimal n) \<subseteq> set ''0123456789''"
proof (induction n rule: decimal.induct)
  case (1 n)
  have "''0123456789'' ! k \<in> set ''0123456789''" if "k < 10" for k
    using that by (intro nth_mem) simp
  with 1 show ?case by (subst decimal.simps) auto
qed

lemma length_decimal: "n < 10 ^ Suc k \<Longrightarrow> length (decimal n) \<le> Suc k"
proof (induction k arbitrary: n)
  case 0
  then show ?case by (subst decimal.simps) simp
next
  case (Suc k)
  then have "n div 10 < 10 ^ Suc k" by (simp add: less_mult_imp_div_less mult.commute)
  then have "length (decimal (n div 10)) \<le> Suc k" by (rule Suc.IH)
  then show ?case by (subst decimal.simps) auto
qed

section \<open>Segment file names\<close>

abbreviation XLOG_FNAME_LEN :: nat where
  "XLOG_FNAME_LEN \<equiv> 24"

abbreviation MAXPGPATH :: nat where
  "MAXPGPATH \<equiv> 1024"

definition snprintf :: "nat \<Rightarrow> string \<Rightarrow> string" where
  "snprintf n s = take (n - 1) s"

definition XLogFileName :: "TimeLineID \<Rightarrow> XLogSegNo \<Rightarrow> u64 \<Rightarrow> string" where
  "XLogFileName tli segno wss =
     snprintf 64
       (hex8 tli @ hex8 (ucast (segno div XLogSegmentsPerXLogId wss))
         @ hex8 (ucast (segno mod XLogSegmentsPerXLogId wss)))"

definition IsXLogFileName :: "string \<Rightarrow> bool" where
  "IsXLogFileName fname \<longleftrightarrow>
     length fname = XLOG_FNAME_LEN \<and>
     length (takeWhile (\<lambda>c. c \<in> set hexchars) fname) = XLOG_FNAME_LEN"

definition XLogFromFileName :: "string \<Rightarrow> u64 \<Rightarrow> TimeLineID \<times> XLogSegNo" where
  "XLogFromFileName fname wss =
     (let tli = word_of_nat (unhex (take 8 fname)) :: u32;
          log = word_of_nat (unhex (take 8 (drop 8 fname))) :: u32;
          seg = word_of_nat (unhex (take 8 (drop 16 fname))) :: u32
      in (tli, ucast log * XLogSegmentsPerXLogId wss + ucast seg))"

text \<open>\<open>pg_parwal/<partition_id>/<segname>\<close>, always on timeline 1.\<close>

definition GetPartitionWALPath :: "oid \<Rightarrow> XLogSegNo \<Rightarrow> u64 \<Rightarrow> string" where
  "GetPartitionWALPath partition_id segno wss =
     snprintf MAXPGPATH
       (''pg_parwal/'' @ decimal (unat partition_id) @ ''/'' @ XLogFileName 1 segno wss)"

lemma length_hex8 [simp]: "length (hex8 w) = 8"
  by (simp add: hex8_def)

lemma set_hex8: "set (hex8 w) \<subseteq> set hexchars"
  by (simp add: hex8_def set_hexn)

lemma XLogFileName_parts:
  "XLogFileName tli segno wss =
     hex8 tli @ hex8 (ucast (segno div XLogSegmentsPerXLogId wss))
       @ hex8 (ucast (segno mod XLogSegmentsPerXLogId wss))"
  by (simp add: XLogFileName_def snprintf_def)

lemma length_XLogFileName [simp]: "length (XLogFileName tli segno wss) = 24"
  by (simp add: XLogFileName_parts)

lemma IsXLogFileName_iff: "IsXLogFileName s \<longleftrightarrow> length s = 24 \<and> set s \<subseteq> set hexchars"
proof
  assume "IsXLogFileName s"
  then have len: "length s = 24" and tw: "length (takeWhile (\<lambda>c. c \<in> set hexchars) s) = length s"
    by (simp_all add: IsXLogFileName_def)
  from tw have "takeWhile (\<lambda>c. c \<in> set hexchars) s = s"
    by (metis takeWhile_eq_take take_all_iff order_refl)
  with len show "length s = 24 \<and> set s \<subseteq> set hexchars"
    by (metis set_takeWhileD subsetI)
next
  assume "length s = 24 \<and> set s \<subseteq> set hexchars"
  moreover from this have "takeWhile (\<lambda>c. c \<in> set hexchars) s = s"
    by (subst takeWhile_eq_all_conv) blast
  ultimately show "IsXLogFileName s" by (simp only: IsXLogFileName_def)
qed

lemma IsXLogFileName_XLogFileName [simp]: "IsXLogFileName (XLogFileName tli segno wss)"
  using set_hex8 by (auto simp: IsXLogFileName_iff XLogFileName_parts)

lemma segments_per_id_bounds:
  assumes "IsValidWalSegSize wss"
  shows "0 < unat (XLogSegmentsPerXLogId wss)" and "unat (XLogSegmentsPerXLogId wss) < 2 ^ 32"
proof -
  obtain k where k: "unat wss = 2 ^ k" "20 \<le> k" "k \<le> 30"
    using assms by (rule valid_seg_size_power)
  have "(2::nat) ^ 32 div 2 ^ k = 2 ^ (32 - k)"
    using k by (intro power_diff [symmetric]) auto
  moreover have "(2::nat) ^ (32 - k) < 2 ^ 32"
    using k(2) by (intro power_strict_increasing) auto
  ultimately show "0 < unat (XLogSegmentsPerXLogId wss)" and "unat (XLogSegmentsPerXLogId wss) < 2 ^ 32"
    by (simp_all only: unat_segments_per_id k(1)) simp
qed

text \<open>The two 32-bit halves of a segment number.\<close>

definition seg_in_range :: "u64 \<Rightarrow> XLogSegNo \<Rightarrow> bool" where
  "seg_in_range wss segno \<longleftrightarrow> unat segno div unat (XLogSegmentsPerXLogId wss) < 2 ^ 32"

lemma unat_ucast32: "unat (x :: u64) < 2 ^ 32 \<Longrightarrow> unat (ucast x :: u32) = unat x"
  by (simp add: unsigned_ucast_eq take_bit_nat_eq_self)

lemma unat_ucast64 [simp]: "unat (ucast (x :: u32) :: u64) = unat x"
  using unat_bound [of x] by (simp add: unsigned_ucast_eq take_bit_nat_eq_self)

lemma seg_halves:
  assumes "IsValidWalSegSize wss" and "seg_in_range wss segno"
  shows "unat (ucast (segno div XLogSegmentsPerXLogId wss) :: u32) = unat segno div unat (XLogSegmentsPerXLogId wss)"
    and "unat (ucast (segno mod XLogSegmentsPerXLogId wss) :: u32) = unat segno mod unat (XLogSegmentsPerXLogId wss)"
proof -
  let ?n = "unat (XLogSegmentsPerXLogId wss)"
  have n: "0 < ?n" "?n < 2 ^ 32" using segments_per_id_bounds [OF assms(1)] by auto
  have "unat segno mod ?n < 2 ^ 32"
    using n by (meson mod_less_divisor order_less_trans)
  then show "unat (ucast (segno mod XLogSegmentsPerXLogId wss) :: u32) = unat segno mod ?n"
    by (simp add: unat_ucast32 unat_mod_distrib)
  show "unat (ucast (segno div XLogSegmentsPerXLogId wss) :: u32) = unat segno div ?n"
    using assms(2) by (simp add: seg_in_range_def unat_ucast32 unat_div_distrib)
qed

lemma seg_of_lsn_in_range: "IsValidWalSegSize wss \<Longrightarrow> seg_in_range wss (XLByteToSeg lsn wss)"
  unfolding seg_in_range_def by (rule seg_of_lsn_high_word)

text \<open>Names on timeline 1 compare as the segment numbers do.\<close>

lemma strcmp_segment_names:
  assumes "IsValidWalSegSize wss" and "seg_in_range wss s" and "seg_in_range wss t"
  shows "strcmp (XLogFileName tli s wss) (XLogFileName tli t wss) =
     (if s < t then - 1 else if s = t then 0 else 1)"
proof -
  let ?n = "unat (XLogSegmentsPerXLogId wss)"
  have n: "0 < ?n" "?n < 2 ^ 32" using segments_per_id_bounds [OF assms(1)] by auto
  have hi: "unat x div ?n < 16 ^ 8" if "seg_in_range wss x" for x
    using that by (simp add: seg_in_range_def)
  have lo: "unat x mod ?n < 16 ^ 8" for x :: u64
    using order.strict_trans [OF mod_less_divisor [OF n(1), of "unat x"] n(2)] by simp
  have lex: "unat s < unat t \<longleftrightarrow> unat s div ?n < unat t div ?n
      \<or> unat s div ?n = unat t div ?n \<and> unat s mod ?n < unat t mod ?n"
  proof (cases "unat s div ?n" "unat t div ?n" rule: linorder_cases)
    case less
    then show ?thesis using div_le_mono [of "unat t" "unat s" ?n] by linarith
  next
    case greater
    then show ?thesis using div_le_mono [of "unat s" "unat t" ?n] by linarith
  next
    case equal
    have "unat s = unat s div ?n * ?n + unat s mod ?n" and "unat t = unat s div ?n * ?n + unat t mod ?n"
      by (simp, simp only: equal div_mult_mod_eq)
    with equal show ?thesis by linarith
  qed
  have eq: "unat s = unat t \<longleftrightarrow> unat s div ?n = unat t div ?n \<and> unat s mod ?n = unat t mod ?n"
    by (metis div_mult_mod_eq)
  have "strcmp (XLogFileName tli s wss) (XLogFileName tli t wss) =
      (if unat s < unat t then - 1 else if unat s = unat t then 0 else 1)"
    unfolding XLogFileName_parts
    by (simp add: strcmp_append hex8_def seg_halves [OF assms(1)] assms(2,3)
        strcmp_hexn [OF hi [OF assms(2)] hi [OF assms(3)]] strcmp_hexn [OF lo lo] lex eq)
  then show ?thesis by (simp add: word_less_nat_alt word_unat_eq_iff)
qed

corollary names_ascending_segments:
  "IsValidWalSegSize wss \<Longrightarrow> seg_in_range wss s \<Longrightarrow> seg_in_range wss t \<Longrightarrow>
     names_ascending (XLogFileName tli s wss) (XLogFileName tli t wss) \<longleftrightarrow> t < s"
  by (auto simp: names_ascending_def strcmp_segment_names)

corollary segment_name_inj:
  "IsValidWalSegSize wss \<Longrightarrow> seg_in_range wss s \<Longrightarrow> seg_in_range wss t \<Longrightarrow>
     XLogFileName tli s wss = XLogFileName tli t wss \<longleftrightarrow> s = t"
  using strcmp_0_iff [of "XLogFileName tli s wss" "XLogFileName tli t wss"]
  by (auto simp: strcmp_segment_names split: if_splits)

lemma path_not_truncated:
  "GetPartitionWALPath p s wss = ''pg_parwal/'' @ decimal (unat p) @ ''/'' @ XLogFileName 1 s wss"
proof -
  have "unat p < 10 ^ Suc 9" using unat_bound [of p] by simp
  then have "length (decimal (unat p)) \<le> Suc 9" by (rule length_decimal)
  then show ?thesis by (simp add: GetPartitionWALPath_def snprintf_def)
qed

lemma decimal_before_slash:
  assumes "decimal m @ CHR ''/'' # xs = decimal n @ CHR ''/'' # ys"
  shows "m = n \<and> xs = ys"
proof -
  have no: "CHR ''/'' \<notin> set (decimal k)" for k
    using set_decimal [of k] by auto
  have "takeWhile (\<lambda>c. c \<noteq> CHR ''/'') (decimal k @ CHR ''/'' # zs) = decimal k" for k zs
    using no [of k] by (subst takeWhile_append2) auto
  from this [of m xs] this [of n ys] assms have "decimal m = decimal n" by simp
  with assms show ?thesis using decimal_inj by simp
qed

text \<open>A name gives its timeline and segment back, and the end of a segment as a number.\<close>

lemma XLogFromFileName_name:
  assumes "IsValidWalSegSize wss" and "seg_in_range wss s"
  shows "XLogFromFileName (XLogFileName tli s wss) wss = (tli, s)"
proof -
  let ?n = "XLogSegmentsPerXLogId wss"
  have hex: "word_of_nat (unhex (hex8 w)) = w" for w :: u32 by (simp add: unhex_hex8)
  have half: "ucast (ucast x :: u32) = x" if "unat (ucast x :: u32) = unat x" for x :: u64
    using that by (simp add: word_unat_eq_iff)
  have "ucast (ucast (s div ?n) :: u32) = s div ?n" and "ucast (ucast (s mod ?n) :: u32) = s mod ?n"
    using seg_halves [OF assms] by (intro half; simp add: unat_div_distrib unat_mod_distrib)+
  moreover have "s div ?n * ?n + s mod ?n = s" by (rule word_mod_div_equality)
  ultimately show ?thesis
    by (simp add: XLogFromFileName_def XLogFileName_parts hex Let_def)
qed

lemma segment_end_nat:
  assumes "(unat t + 1) * unat wss < 2 ^ 64"
  shows "unat (XLogSegNoOffsetToRecPtr (t + 1) 0 wss) = (unat t + 1) * unat wss"
proof (cases "wss = 0")
  case False
  then have "0 < unat wss" by (simp add: unat_gt_0)
  then have "unat t + 1 \<le> (unat t + 1) * unat wss" using mult_le_mono2 [of 1 "unat wss" "unat t + 1"] by simp
  then have "unat t + 1 < 2 ^ 64" using assms by (rule order.strict_trans1)
  then have "unat (t + 1) = unat t + 1" by (simp add: unat_word_ariths)
  with assms show ?thesis by (simp add: XLogSegNoOffsetToRecPtr_def unat_word_ariths)
qed (simp add: XLogSegNoOffsetToRecPtr_def)

lemma path_inj:
  assumes "GetPartitionWALPath p s wss = GetPartitionWALPath q t wss"
  shows "p = q \<and> XLogFileName 1 s wss = XLogFileName 1 t wss"
proof -
  have "decimal (unat p) @ CHR ''/'' # XLogFileName 1 s wss = decimal (unat q) @ CHR ''/'' # XLogFileName 1 t wss"
    using assms unfolding path_not_truncated by simp
  from decimal_before_slash [OF this] show ?thesis by (simp add: word_unat_eq_iff)
qed

section \<open>Properties\<close>

text \<open>C26: The name of the segment of any LSN is recognised as a segment name, and reading it gives back
  the timeline and the segment number; the names of one timeline compare as the segment numbers do.\<close>

theorem segment_name_roundtrip:
  assumes "IsValidWalSegSize wss"
  shows "IsXLogFileName (XLogFileName tli (XLByteToSeg a wss) wss) \<and>
    XLogFromFileName (XLogFileName tli (XLByteToSeg a wss) wss) wss = (tli, XLByteToSeg a wss) \<and>
    (names_ascending (XLogFileName tli (XLByteToSeg a wss) wss) (XLogFileName tli (XLByteToSeg b wss) wss)
      \<longleftrightarrow> XLByteToSeg b wss < XLByteToSeg a wss)"
  using XLogFromFileName_name [OF assms seg_of_lsn_in_range [OF assms]]
    names_ascending_segments [OF assms seg_of_lsn_in_range [OF assms] seg_of_lsn_in_range [OF assms]] by simp

theorem segment_name_roundtrip_witness:
  "XLogFromFileName (XLogFileName 1 (XLByteToSeg 0x2A00000028 0x1000000) 0x1000000) 0x1000000 = (1, 0x2A00)"
proof -
  from segment_name_roundtrip [OF wss_16MB, of 1 "0x2A00000028"] show ?thesis by (simp add: XLByteToSeg_def)
qed

text \<open>The paths of two partitions never collide, and those of one partition only for the same
  segment: \<open>GetPartitionWALPath\<close> is injective on the segments of all LSNs, nothing of it is cut off.\<close>

theorem partition_paths_distinct:
  assumes "IsValidWalSegSize wss"
  shows "GetPartitionWALPath p (XLByteToSeg a wss) wss = GetPartitionWALPath q (XLByteToSeg b wss) wss
      \<longleftrightarrow> p = q \<and> XLByteToSeg a wss = XLByteToSeg b wss"
  using path_inj [of p "XLByteToSeg a wss" wss q "XLByteToSeg b wss"]
    segment_name_inj [OF assms seg_of_lsn_in_range [OF assms] seg_of_lsn_in_range [OF assms]]
  by auto

theorem partition_paths_distinct_witness:
  "GetPartitionWALPath 1 (XLByteToSeg 0x1000000 0x1000000) 0x1000000
     \<noteq> GetPartitionWALPath 11 (XLByteToSeg 0x1000000 0x1000000) 0x1000000"
proof -
  from partition_paths_distinct [OF wss_16MB, of 1 "0x1000000" 11 "0x1000000"] show ?thesis by simp
qed

end
