(* ===== verification/WalHeader.thy ===== *)
theory WalHeader
  imports Prelude
begin

text \<open>
  \<open>include/partition_wal_header.h\<close>: the record header of a segment file, its 32-byte image
  (little-endian, the layout of the C struct on the supported 64-bit platforms: 25 bytes of
  fields and 7 bytes of trailing alignment) and the loop that reads a file header by header.
  The alignment bytes are a field of the model, so that image and header determine each other:
  the code copies headers between the WAL and the files as raw bytes.
\<close>

definition PARTWAL_MAGIC :: u32 where
  "PARTWAL_MAGIC = 0x50415254"

definition PARTWAL_FLAG_DATA :: u8 where
  "PARTWAL_FLAG_DATA = 0x01"

definition PARTWAL_FLAG_SKIP :: u8 where
  "PARTWAL_FLAG_SKIP = 0x02"

definition PARTWAL_FLAG_CHECKPOINT :: u8 where
  "PARTWAL_FLAG_CHECKPOINT = 0x04"

record PartWALHeader =
  magic :: u32
  partition_id :: oid
  orig_node_lsn :: XLogRecPtr
  partition_lsn :: u64
  flags :: u8
  alignment :: "56 word"

record PartWALSkip = PartWALHeader +
  lsn_start :: XLogRecPtr
  lsn_end :: XLogRecPtr

abbreviation sizeof_header :: nat where
  "sizeof_header \<equiv> 32"

definition encode_header :: "PartWALHeader \<Rightarrow> bytes" where
  "encode_header h =
     nat_le 4 (unat (magic h)) @ nat_le 4 (unat (partition_id h))
       @ nat_le 8 (unat (orig_node_lsn h)) @ nat_le 8 (unat (partition_lsn h))
       @ nat_le 1 (unat (flags h)) @ nat_le 7 (unat (alignment h))"

definition decode_header :: "bytes \<Rightarrow> PartWALHeader" where
  "decode_header bs =
     \<lparr>magic = word_of_nat (le_nat (take 4 bs)),
      partition_id = word_of_nat (le_nat (take 4 (drop 4 bs))),
      orig_node_lsn = word_of_nat (le_nat (take 8 (drop 8 bs))),
      partition_lsn = word_of_nat (le_nat (take 8 (drop 16 bs))),
      flags = word_of_nat (le_nat (take 1 (drop 24 bs))),
      alignment = word_of_nat (le_nat (take 7 (drop 25 bs)))\<rparr>"

definition decode_skip :: "bytes \<Rightarrow> PartWALSkip" where
  "decode_skip bs =
     PartWALHeader.extend (decode_header bs)
       (PartWALSkip.fields (word_of_nat (le_nat (take 8 (drop 32 bs))))
          (word_of_nat (le_nat (take 8 (drop 40 bs)))))"

lemma length_encode_header [simp]: "length (encode_header h) = sizeof_header"
  by (simp add: encode_header_def)

lemma byte_roundtrip: "word_of_nat (unat (b :: u8) mod 256) = b"
  using unat_byte_bound [of b] by simp

lemma decode_encode_header [simp]: "decode_header (encode_header h) = h"
  by (cases h) (simp add: encode_header_def decode_header_def field_roundtrip byte_roundtrip)

lemma drop_chunk: "drop n bs = take m (drop n bs) @ drop (n + m) bs"
  by (metis add.commute append_take_drop_id drop_drop)

lemma header_chunks:
  assumes "length bs = sizeof_header"
  shows "take 4 bs @ take 4 (drop 4 bs) @ take 8 (drop 8 bs) @ take 8 (drop 16 bs)
      @ take 1 (drop 24 bs) @ take 7 (drop 25 bs) = bs"
proof -
  have "drop 25 bs = take 7 (drop 25 bs)" using assms by simp
  then show ?thesis
    using drop_chunk [of 0 bs 4] drop_chunk [of 4 bs 4] drop_chunk [of 8 bs 8]
      drop_chunk [of 16 bs 8] drop_chunk [of 24 bs 1]
    by simp
qed

lemma encode_decode_header:
  assumes "length bs = sizeof_header"
  shows "encode_header (decode_header bs) = bs"
proof -
  have "encode_header (decode_header bs) =
      take 4 bs @ take 4 (drop 4 bs) @ take 8 (drop 8 bs) @ take 8 (drop 16 bs)
      @ take 1 (drop 24 bs) @ take 7 (drop 25 bs)"
    unfolding encode_header_def decode_header_def using assms
    by (simp only: PartWALHeader.select_convs) (simp add: field_inverse del: nat_le.simps One_nat_def)
  then show ?thesis using header_chunks [OF assms] by simp
qed

lemma encode_header_inj: "encode_header h = encode_header k \<longleftrightarrow> h = k"
  by (metis decode_encode_header)

text \<open>\<^verbatim>\<open>while (read(fd, &header, sizeof(PartWALHeader)) == sizeof(PartWALHeader))\<close>:
  a short read at the end of the file ends the loop.\<close>

function read_headers :: "bytes \<Rightarrow> PartWALHeader list" where
  "read_headers bs =
     (if length bs < sizeof_header then []
      else decode_header (take sizeof_header bs) # read_headers (drop sizeof_header bs))"
  by pat_completeness auto
termination
  by (relation "measure length") auto

declare read_headers.simps [simp del]

lemma read_headers_short [simp]: "length bs < sizeof_header \<Longrightarrow> read_headers bs = []"
  by (simp add: read_headers.simps)

lemma read_headers_append [simp]: "read_headers (encode_header h @ bs) = h # read_headers bs"
  by (subst read_headers.simps) simp

definition encode_headers :: "PartWALHeader list \<Rightarrow> bytes" where
  "encode_headers hs = concat (map encode_header hs)"

lemma encode_headers_simps [simp]:
  "encode_headers [] = []"
  "encode_headers (h # hs) = encode_header h @ encode_headers hs"
  "encode_headers (hs @ ks) = encode_headers hs @ encode_headers ks"
  by (simp_all add: encode_headers_def)

lemma read_encode_headers: "length bs < sizeof_header \<Longrightarrow> read_headers (encode_headers hs @ bs) = hs"
  by (induction hs) auto

corollary read_encode_headers_exact [simp]: "read_headers (encode_headers hs) = hs"
  using read_encode_headers [of "[]" hs] by simp

lemma length_encode_headers [simp]: "length (encode_headers hs) = sizeof_header * length hs"
  by (induction hs) auto

lemma length_read_headers: "length (read_headers bs) = length bs div sizeof_header"
proof (induction bs rule: read_headers.induct)
  case (1 bs)
  then show ?case
    by (subst read_headers.simps) (auto simp: div_if [of "length bs"] not_less)
qed

text \<open>A file of whole records is the image of what is read from it.\<close>

lemma encode_read_headers: "sizeof_header dvd length bs \<Longrightarrow> encode_headers (read_headers bs) = bs"
proof (induction bs rule: read_headers.induct)
  case (1 bs)
  show ?case
  proof (cases "length bs < sizeof_header")
    case True
    with "1.prems" have "bs = []" by (auto elim!: dvdE)
    then show ?thesis by simp
  next
    case False
    with "1.prems" have "sizeof_header dvd length (drop sizeof_header bs)"
      by (simp add: dvd_diff_nat)
    with False 1 show ?thesis
      by (subst read_headers.simps) (simp add: encode_decode_header)
  qed
qed

text \<open>The header that \<open>WritePartitionWALRecord\<close> fills in.\<close>

definition new_header :: "oid \<Rightarrow> u8 \<Rightarrow> XLogRecPtr \<Rightarrow> u64 \<Rightarrow> PartWALHeader" where
  "new_header p flgs orig_lsn lsn =
     \<lparr>magic = PARTWAL_MAGIC, partition_id = p, orig_node_lsn = orig_lsn, partition_lsn = lsn,
      flags = flgs, alignment = 0\<rparr>"

lemma read_headers_rest: "\<exists>torn. length torn < sizeof_header \<and> bs = encode_headers (read_headers bs) @ torn"
proof (induction bs rule: read_headers.induct)
  case (1 bs)
  show ?case
  proof (cases "length bs < sizeof_header")
    case False
    with 1 obtain torn where "length torn < sizeof_header"
      "drop sizeof_header bs = encode_headers (read_headers (drop sizeof_header bs)) @ torn" by blast
    moreover have "bs = encode_header (decode_header (take sizeof_header bs)) @ drop sizeof_header bs"
      using False by (simp add: encode_decode_header)
    ultimately show ?thesis
      using False by (auto simp: read_headers.simps [of bs])
  qed auto
qed

text \<open>C25: A segment file and its records determine each other up to a torn tail: reading a file returns
  a sequence of records exactly if the file is their images, one after the other, followed by less
  than a record.\<close>

theorem parwal_file_roundtrip:
  "read_headers bs = hs \<longleftrightarrow> (\<exists>torn. length torn < sizeof_header \<and> bs = encode_headers hs @ torn)"
  using read_headers_rest [of bs] read_encode_headers [of _ hs] by auto

end
