(* ===== verification/ParwalStore.thy ===== *)
theory ParwalStore
  imports XLogNames WalHeader
begin

text \<open>
  The tree \<open>$PGDATA/pg_parwal\<close> as the system calls see it, and the directory management of
  \<open>src/wal/partition_wal.c\<close>.  A directory lists its entries in \<open>readdir\<close> order, which the
  system chooses: no theorem below assumes a particular order.  A name points to an inode and
  an open descriptor is an inode, so that a file removed under an open descriptor keeps taking
  writes that no name reaches.  \<open>script\<close> gives the outcome of the next calls that change
  something (\<open>mkdir\<close>, \<open>open\<close> for writing, \<open>write\<close>, \<open>fsync\<close>, \<open>unlink\<close>, \<open>rename\<close>); when it is empty
  they succeed.  \<open>unreadable_dir\<close> and \<open>unreadable\<close> are the paths that cannot be opened for reading.
\<close>

section \<open>The store and its system calls\<close>

datatype errno = EEXIST | ENOENT | EINTR | ENOSPC | EIO

datatype outcome = Succeed | Fail errno | Partial nat

record parwal_store =
  root_exists :: bool
  part_dirs :: "oid \<Rightarrow> (string \<times> nat) list option"
  inode :: "nat \<Rightarrow> bytes"
  next_inode :: nat
  root_files :: "string \<Rightarrow> bytes option"
  unreadable_dir :: "oid \<Rightarrow> bool"
  unreadable :: "oid \<Rightarrow> string \<Rightarrow> bool"
  script :: "outcome list"
  warnings :: "pg_warning list"

text \<open>A server on which no partition has been written yet.\<close>

definition fresh_store :: parwal_store where
  "fresh_store =
     \<lparr>root_exists = False, part_dirs = (\<lambda>p. None), inode = (\<lambda>i. []), next_inode = 0,
      root_files = (\<lambda>n. None), unreadable_dir = (\<lambda>p. False), unreadable = (\<lambda>p n. False),
      script = [], warnings = []\<rparr>"

definition next_outcome :: "parwal_store \<Rightarrow> outcome \<times> parwal_store" where
  "next_outcome s = (case script s of [] \<Rightarrow> (Succeed, s) | x # xs \<Rightarrow> (x, s\<lparr>script := xs\<rparr>))"

definition warn :: "pg_warning \<Rightarrow> parwal_store \<Rightarrow> parwal_store" where
  "warn w s = s\<lparr>warnings := warnings s @ [w]\<rparr>"

definition mkdir_root :: "parwal_store \<Rightarrow> errno option \<times> parwal_store" where
  "mkdir_root s =
     (case next_outcome s of
        (Fail e, s') \<Rightarrow> (Some e, s')
      | (_, s') \<Rightarrow> if root_exists s' then (Some EEXIST, s') else (None, s'\<lparr>root_exists := True\<rparr>))"

definition mkdir_part :: "oid \<Rightarrow> parwal_store \<Rightarrow> errno option \<times> parwal_store" where
  "mkdir_part p s =
     (case next_outcome s of
        (Fail e, s') \<Rightarrow> (Some e, s')
      | (_, s') \<Rightarrow>
          if \<not> root_exists s' then (Some ENOENT, s')
          else if part_dirs s' p \<noteq> None then (Some EEXIST, s')
          else (None, s'\<lparr>part_dirs := (part_dirs s')(p := Some [])\<rparr>))"

definition opendir :: "oid \<Rightarrow> parwal_store \<Rightarrow> errno + (string \<times> nat) list" where
  "opendir p s =
     (case part_dirs s p of
        None \<Rightarrow> Inl ENOENT
      | Some d \<Rightarrow> if unreadable_dir s p then Inl EIO else Inr d)"

definition file_ino :: "parwal_store \<Rightarrow> oid \<Rightarrow> string \<Rightarrow> nat option" where
  "file_ino s p name = (case part_dirs s p of None \<Rightarrow> None | Some d \<Rightarrow> map_of d name)"

definition file_content :: "parwal_store \<Rightarrow> oid \<Rightarrow> string \<Rightarrow> bytes option" where
  "file_content s p name = map_option (inode s) (file_ino s p name)"

text \<open>\<open>open(path, O_RDONLY)\<close>: what a reader of the file gets, if it can be opened.\<close>

definition open_rdonly :: "oid \<Rightarrow> string \<Rightarrow> parwal_store \<Rightarrow> bytes option" where
  "open_rdonly p name s = (if unreadable s p name then None else file_content s p name)"

text \<open>\<open>open(path, O_WRONLY | O_CREAT | O_APPEND)\<close>.\<close>

definition open_append :: "oid \<Rightarrow> string \<Rightarrow> parwal_store \<Rightarrow> (errno + nat) \<times> parwal_store" where
  "open_append p name s =
     (case next_outcome s of
        (Fail e, s') \<Rightarrow> (Inl e, s')
      | (_, s') \<Rightarrow>
          (case part_dirs s' p of
             None \<Rightarrow> (Inl ENOENT, s')
           | Some d \<Rightarrow>
               (case map_of d name of
                  Some i \<Rightarrow> (Inr i, s')
                | None \<Rightarrow>
                    (Inr (next_inode s'),
                     s'\<lparr>part_dirs := (part_dirs s')(p := Some (d @ [(name, next_inode s')])),
                        inode := (inode s')(next_inode s' := []),
                        next_inode := Suc (next_inode s')\<rparr>))))"

text \<open>\<open>write\<close> to an \<open>O_APPEND\<close> descriptor: the number of bytes taken.\<close>

definition write_fd :: "nat \<Rightarrow> bytes \<Rightarrow> parwal_store \<Rightarrow> (errno + nat) \<times> parwal_store" where
  "write_fd i bs s =
     (case next_outcome s of
        (Fail e, s') \<Rightarrow> (Inl e, s')
      | (Partial n, s') \<Rightarrow>
          (Inr (min n (length bs)), s'\<lparr>inode := (inode s')(i := inode s' i @ take n bs)\<rparr>)
      | (Succeed, s') \<Rightarrow> (Inr (length bs), s'\<lparr>inode := (inode s')(i := inode s' i @ bs)\<rparr>))"

text \<open>\<^verbatim>\<open>do { written = write(fd, ...) } while (written < 0 && errno == EINTR)\<close>\<close>

function write_retry :: "nat \<Rightarrow> bytes \<Rightarrow> parwal_store \<Rightarrow> (errno + nat) \<times> parwal_store" where
  "write_retry i bs s =
     (case write_fd i bs s of
        (Inl EINTR, s') \<Rightarrow> write_retry i bs s'
      | (r, s') \<Rightarrow> (r, s'))"
  by pat_completeness auto

definition fsync_fd :: "parwal_store \<Rightarrow> bool \<times> parwal_store" where
  "fsync_fd s = (case next_outcome s of (Fail e, s') \<Rightarrow> (False, s') | (_, s') \<Rightarrow> (True, s'))"

definition unlink :: "oid \<Rightarrow> string \<Rightarrow> parwal_store \<Rightarrow> bool \<times> parwal_store" where
  "unlink p name s =
     (case next_outcome s of
        (Fail e, s') \<Rightarrow> (False, s')
      | (_, s') \<Rightarrow>
          (case part_dirs s' p of
             None \<Rightarrow> (False, s')
           | Some d \<Rightarrow>
               if map_of d name = None then (False, s')
               else (True, s'\<lparr>part_dirs := (part_dirs s')(p := Some (AList.delete name d))\<rparr>)))"

lemma write_fd_eintr: "write_fd i bs s = (Inl EINTR, s') \<Longrightarrow> length (script s') < length (script s)"
  by (auto simp: write_fd_def next_outcome_def split: list.splits outcome.splits)

termination write_retry
  by (relation "measure (\<lambda>(i, bs, s). length (script s))") (auto dest: write_fd_eintr sym)

declare write_retry.simps [simp del]

section \<open>What the calls change\<close>

lemma next_outcome_script [simp]: "script s = [] \<Longrightarrow> next_outcome s = (Succeed, s)"
  by (simp add: next_outcome_def)

lemma next_outcome_cases:
  "next_outcome s = (x, s') \<Longrightarrow> \<exists>xs. s' = s\<lparr>script := xs\<rparr>"
  by (cases s) (auto simp: next_outcome_def split: list.splits)

text \<open>Fields no call of this section writes.\<close>

definition same_frame :: "parwal_store \<Rightarrow> parwal_store \<Rightarrow> bool" where
  "same_frame s t \<longleftrightarrow>
     unreadable_dir t = unreadable_dir s \<and> unreadable t = unreadable s \<and> root_files t = root_files s"

text \<open>Faults may be consumed and warnings issued, and nothing else.\<close>

definition same_files :: "parwal_store \<Rightarrow> parwal_store \<Rightarrow> bool" where
  "same_files s t \<longleftrightarrow>
     same_frame s t \<and> root_exists t = root_exists s \<and> part_dirs t = part_dirs s
       \<and> inode t = inode s \<and> next_inode t = next_inode s"

lemma same_files_refl [simp, intro]: "same_files s s"
  by (simp add: same_files_def same_frame_def)

lemma same_files_trans [trans]: "same_files s t \<Longrightarrow> same_files t u \<Longrightarrow> same_files s u"
  by (simp add: same_files_def same_frame_def)

lemma same_files_update [simp]:
  "same_files s (t\<lparr>script := xs\<rparr>) = same_files s t"
  "same_files s (t\<lparr>warnings := ws\<rparr>) = same_files s t"
  "same_files s (warn w t) = same_files s t"
  by (simp_all add: same_files_def same_frame_def warn_def)

lemma next_outcome_same: "next_outcome s = (x, s') \<Longrightarrow> same_files s s'"
  by (auto dest!: next_outcome_cases)

lemma fsync_same: "fsync_fd s = (b, s') \<Longrightarrow> same_files s s'"
  by (auto simp: fsync_fd_def dest: next_outcome_same split: prod.splits outcome.splits)

lemma file_ino_same: "same_files s t \<Longrightarrow> file_ino t = file_ino s"
  by (intro ext) (simp add: same_files_def file_ino_def)

lemma file_content_same: "same_files s t \<Longrightarrow> file_content t = file_content s"
  by (intro ext) (simp add: file_content_def file_ino_same, simp add: same_files_def)

text \<open>The store invariant: no dangling name, no two names for one inode.\<close>

definition store_ok :: "parwal_store \<Rightarrow> bool" where
  "store_ok s \<longleftrightarrow>
     (\<forall>p d. part_dirs s p = Some d \<longrightarrow> root_exists s \<and> distinct (map fst d)) \<and>
     (\<forall>p n i. file_ino s p n = Some i \<longrightarrow> i < next_inode s) \<and>
     (\<forall>p n q m i. file_ino s p n = Some i \<longrightarrow> file_ino s q m = Some i \<longrightarrow> p = q \<and> n = m)"

lemma fresh_store_script [simp]: "script fresh_store = []"
  by (simp add: fresh_store_def)

lemma fresh_store_ok: "store_ok fresh_store"
  by (simp add: store_ok_def fresh_store_def file_ino_def)

lemma store_ok_root: "store_ok s \<Longrightarrow> part_dirs s p \<noteq> None \<Longrightarrow> root_exists s"
  by (auto simp: store_ok_def)

lemma store_ok_distinct: "store_ok s \<Longrightarrow> part_dirs s p = Some d \<Longrightarrow> distinct (map fst d)"
  by (auto simp: store_ok_def)

lemma store_ok_bound: "store_ok s \<Longrightarrow> file_ino s p n = Some i \<Longrightarrow> i < next_inode s"
  unfolding store_ok_def by blast

lemma store_ok_inj:
  "store_ok s \<Longrightarrow> file_ino s p n = Some i \<Longrightarrow> file_ino s q m = Some i \<longleftrightarrow> q = p \<and> m = n"
  unfolding store_ok_def by blast

lemma store_ok_same: "same_files s t \<Longrightarrow> store_ok t = store_ok s"
  unfolding store_ok_def file_ino_same [of s t] by (simp add: same_files_def)

section \<open>Directory management\<close>

definition InitPartitionWALDirectory ::
    "oid \<Rightarrow> parwal_store \<Rightarrow> (pg_error + unit) \<times> parwal_store" where
  "InitPartitionWALDirectory p s =
     (case mkdir_root s of
        (r, s1) \<Rightarrow>
          if r \<noteq> None \<and> r \<noteq> Some EEXIST then (Inl ErrFileAccess, s1)
          else
            (case mkdir_part p s1 of
               (r', s2) \<Rightarrow>
                 if r' \<noteq> None \<and> r' \<noteq> Some EEXIST then (Inl ErrFileAccess, s2)
                 else (Inr (), s2)))"

definition partition_wal_exists :: "oid \<Rightarrow> parwal_store \<Rightarrow> bool" where
  "partition_wal_exists p s \<longleftrightarrow> part_dirs s p \<noteq> None"

fun cleanup_loop ::
    "oid \<Rightarrow> XLogRecPtr \<Rightarrow> u64 \<Rightarrow> string list \<Rightarrow> parwal_store \<Rightarrow> parwal_store" where
  "cleanup_loop p keepPtr wss [] s = s"
| "cleanup_loop p keepPtr wss (name # names) s =
     (if \<not> IsXLogFileName name then cleanup_loop p keepPtr wss names s
      else
        let (tli, segno) = XLogFromFileName name wss;
            seg_end_lsn = XLogSegNoOffsetToRecPtr (segno + 1) 0 wss
        in if seg_end_lsn \<le> keepPtr
           then (case unlink p name s of
                   (True, s') \<Rightarrow> cleanup_loop p keepPtr wss names s'
                 | (False, s') \<Rightarrow> cleanup_loop p keepPtr wss names (warn (WarnUnlink p name) s'))
           else cleanup_loop p keepPtr wss names s)"

definition CleanupPartitionWAL ::
    "oid \<Rightarrow> XLogRecPtr \<Rightarrow> u64 \<Rightarrow> parwal_store \<Rightarrow> (pg_error + unit) \<times> parwal_store" where
  "CleanupPartitionWAL p keepPtr wss s =
     (case opendir p s of
        Inl e \<Rightarrow> if e = ENOENT then (Inr (), s) else (Inl ErrFileAccess, s)
      | Inr d \<Rightarrow> (Inr (), cleanup_loop p keepPtr wss (map fst d) s))"

text \<open>The file part of \<open>ResetPartitionWALState\<close>: every segment file goes, failures are ignored.\<close>

fun reset_loop :: "oid \<Rightarrow> string list \<Rightarrow> parwal_store \<Rightarrow> parwal_store" where
  "reset_loop p [] s = s"
| "reset_loop p (name # names) s =
     (if \<not> IsXLogFileName name then reset_loop p names s
      else reset_loop p names (snd (unlink p name s)))"

definition reset_files :: "oid \<Rightarrow> parwal_store \<Rightarrow> parwal_store" where
  "reset_files p s =
     (case opendir p s of Inl e \<Rightarrow> s | Inr d \<Rightarrow> reset_loop p (map fst d) s)"

subsection \<open>Creating directories\<close>

lemma part_dirs_ino: "part_dirs t = part_dirs s \<Longrightarrow> file_ino t = file_ino s"
  by (intro ext) (simp add: file_ino_def)

lemma mkdir_root_effect:
  assumes "mkdir_root s = (r, s')"
  shows "same_files (s\<lparr>root_exists := root_exists s \<or> r = None\<rparr>) s'"
    and "r = None \<Longrightarrow> root_exists s'"
    and "script s = [] \<Longrightarrow> script s' = [] \<and> warnings s' = warnings s \<and> (r = None \<or> r = Some EEXIST)"
  using assms
  by (auto simp: mkdir_root_def same_files_def same_frame_def dest!: next_outcome_cases
      split: prod.splits outcome.splits if_splits)

lemma mkdir_part_effect:
  assumes "mkdir_part p s = (r, s')"
  shows "same_files (if r = None then s\<lparr>part_dirs := (part_dirs s)(p := Some [])\<rparr> else s) s'"
    and "r = None \<Longrightarrow> part_dirs s p = None \<and> root_exists s"
    and "script s = [] \<Longrightarrow> script s' = [] \<and> warnings s' = warnings s
           \<and> r = (if \<not> root_exists s then Some ENOENT else if part_dirs s p = None then None else Some EEXIST)"
  using assms
  by (auto simp: mkdir_part_def same_files_def same_frame_def dest!: next_outcome_cases
      split: prod.splits outcome.splits if_splits)

lemma file_ino_new_dir: "part_dirs s p = None \<Longrightarrow> file_ino (s\<lparr>part_dirs := (part_dirs s)(p := Some [])\<rparr>) = file_ino s"
  by (intro ext) (auto simp: file_ino_def)

text \<open>Creating a directory touches no file, whatever the calls return.\<close>

lemma Init_files:
  assumes "InitPartitionWALDirectory p s = (r, s')"
  shows "file_ino s' = file_ino s" and "inode s' = inode s" and "next_inode s' = next_inode s"
    and "same_frame s s'" and "part_dirs s q \<noteq> None \<Longrightarrow> part_dirs s' q = part_dirs s q"
proof -
  obtain r1 s1 where 1: "mkdir_root s = (r1, s1)" by fastforce
  obtain r2 s2 where 2: "mkdir_part p s1 = (r2, s2)" by fastforce
  note e1 = mkdir_root_effect(1) [OF 1] and e2 = mkdir_part_effect(1,2) [OF 2]
  have i1: "file_ino s1 = file_ino s"
    using e1 by (intro part_dirs_ino) (simp add: same_files_def)
  have i2: "file_ino s2 = file_ino s1"
    using e2 file_ino_new_dir [of s1 p] file_ino_same [OF e2(1)] by (auto split: if_splits)
  have "s' = s1 \<or> s' = s2"
    using assms 1 2 by (auto simp: InitPartitionWALDirectory_def split: if_splits)
  then show "file_ino s' = file_ino s" and "inode s' = inode s" and "next_inode s' = next_inode s"
    and "same_frame s s'" and "part_dirs s q \<noteq> None \<Longrightarrow> part_dirs s' q = part_dirs s q"
    using e1 e2 i1 i2 by (auto simp: same_files_def same_frame_def split: if_splits)
qed

lemma Init_ok:
  assumes "InitPartitionWALDirectory p s = (r, s')" and "store_ok s"
  shows "store_ok s'"
proof -
  obtain r1 s1 where 1: "mkdir_root s = (r1, s1)" by fastforce
  obtain r2 s2 where 2: "mkdir_part p s1 = (r2, s2)" by fastforce
  note e1 = mkdir_root_effect(1) [OF 1] and e2 = mkdir_part_effect(1,2) [OF 2]
  have ok1: "store_ok s1"
    using assms(2) e1 unfolding store_ok_def part_dirs_ino [of s1 s, OF _]
    by (simp add: same_files_def part_dirs_ino [of s1 s])
  have "store_ok (if r2 = None then s1\<lparr>part_dirs := (part_dirs s1)(p := Some [])\<rparr> else s1)"
    using ok1 e2(2) unfolding store_ok_def by (auto simp: file_ino_new_dir)
  then have ok2: "store_ok s2" by (simp add: store_ok_same [OF e2(1)])
  have "s' = s1 \<or> s' = s2"
    using assms 1 2 by (auto simp: InitPartitionWALDirectory_def split: if_splits)
  with ok1 ok2 show ?thesis by auto
qed

lemma Init_faultless [faultless]:
  assumes "script s = []" and "store_ok s"
  shows "InitPartitionWALDirectory p s =
     (Inr (), s\<lparr>root_exists := True,
                part_dirs := (part_dirs s)(p := Some (case part_dirs s p of None \<Rightarrow> [] | Some d \<Rightarrow> d))\<rparr>)"
  using assms store_ok_root [OF assms(2), of p]
  by (auto simp: InitPartitionWALDirectory_def mkdir_root_def mkdir_part_def fun_upd_idem
      split: option.splits)

lemma Init_exists: "InitPartitionWALDirectory p s = (Inr (), s') \<Longrightarrow> script s = [] \<Longrightarrow> partition_wal_exists p s'"
  by (auto simp: InitPartitionWALDirectory_def mkdir_root_def mkdir_part_def partition_wal_exists_def
      split: if_splits)

subsection \<open>Removing files\<close>

lemma unlink_effect:
  assumes "unlink p name s = (b, s')"
  shows "file_ino s' q m = (if b \<and> q = p \<and> m = name then None else file_ino s q m)"
    and "inode s' = inode s" and "next_inode s' = next_inode s" and "root_exists s' = root_exists s"
    and "same_frame s s'"
    and "script s = [] \<Longrightarrow> script s' = [] \<and> (b \<longleftrightarrow> file_ino s p name \<noteq> None)"
    and "part_dirs s' q = None \<longleftrightarrow> part_dirs s q = None"
  using assms
  by (auto simp: unlink_def file_ino_def same_frame_def delete_conv' dest!: next_outcome_cases
      split: prod.splits outcome.splits option.splits if_splits)

lemma unlink_distinct:
  assumes "unlink p name s = (b, s')" and "\<And>q d. part_dirs s q = Some d \<Longrightarrow> distinct (map fst d)"
    and "part_dirs s' q = Some d"
  shows "distinct (map fst d)"
  using assms
  by (auto simp: unlink_def distinct_delete dest!: next_outcome_cases
      split: prod.splits outcome.splits option.splits if_splits)

lemma unlink_ok:
  assumes ok: "store_ok s" and u: "unlink p name s = (b, s')"
  shows "store_ok s'"
  unfolding store_ok_def
proof (intro conjI allI impI)
  fix q d
  assume d: "part_dirs s' q = Some d"
  show "distinct (map fst d)"
    using unlink_distinct [OF u _ d] store_ok_distinct [OF ok] by blast
  show "root_exists s'"
    using d unlink_effect(4) [OF u] unlink_effect(7) [OF u, of q] store_ok_root [OF ok, of q] by (metis option.distinct(1))
next
  fix q n i
  assume "file_ino s' q n = Some i"
  then show "i < next_inode s'"
    using store_ok_bound [OF ok] by (auto simp: unlink_effect [OF u] split: if_splits)
next
  fix q n q' m i
  assume "file_ino s' q n = Some i" and "file_ino s' q' m = Some i"
  then show "q = q'" and "n = m"
    using store_ok_inj [OF ok] by (auto simp: unlink_effect [OF u] split: if_splits)
qed

lemma warn_simps [simp]:
  "file_ino (warn w s) = file_ino s" "inode (warn w s) = inode s" "script (warn w s) = script s"
  "next_inode (warn w s) = next_inode s" "store_ok (warn w s) = store_ok s"
  "same_frame t (warn w s) = same_frame t s" "root_exists (warn w s) = root_exists s"
  "part_dirs (warn w s) = part_dirs s" "unreadable (warn w s) = unreadable s"
  "unreadable_dir (warn w s) = unreadable_dir s" "root_files (warn w s) = root_files s"
  by (auto simp: warn_def same_frame_def fun_eq_iff file_ino_def store_ok_def)

definition removable :: "XLogRecPtr \<Rightarrow> u64 \<Rightarrow> string \<Rightarrow> bool" where
  "removable keepPtr wss name \<longleftrightarrow>
     IsXLogFileName name \<and>
     XLogSegNoOffsetToRecPtr (snd (XLogFromFileName name wss) + 1) 0 wss \<le> keepPtr"

lemma cleanup_loop_Cons:
  "cleanup_loop p keepPtr wss (name # names) s =
     (if removable keepPtr wss name
      then cleanup_loop p keepPtr wss names
             (case unlink p name s of (True, s') \<Rightarrow> s' | (False, s') \<Rightarrow> warn (WarnUnlink p name) s')
      else cleanup_loop p keepPtr wss names s)"
  by (auto simp: removable_def Let_def split: prod.splits bool.splits)

declare cleanup_loop.simps(2) [simp del]
lemmas cleanup_loop_simps [simp] = cleanup_loop_Cons

text \<open>Whatever the calls return, a file goes only if it is removable, and no content changes.\<close>

lemma cleanup_loop_keeps:
  "(file_ino (cleanup_loop p keepPtr wss names s) q m = file_ino s q m
     \<or> file_ino (cleanup_loop p keepPtr wss names s) q m = None \<and> q = p \<and> m \<in> set names \<and> removable keepPtr wss m)
   \<and> inode (cleanup_loop p keepPtr wss names s) = inode s"
proof (induction names arbitrary: s)
  case (Cons name names)
  obtain b s' where u: "unlink p name s = (b, s')" by fastforce
  show ?case
    using Cons.IH [of "if b then s' else warn (WarnUnlink p name) s'"] Cons.IH [of s] unlink_effect(1,2) [OF u]
    by (cases b) (auto simp: u split: if_splits)
qed simp

lemma cleanup_loop_ok: "store_ok s \<Longrightarrow> store_ok (cleanup_loop p keepPtr wss names s)"
proof (induction names arbitrary: s)
  case (Cons name names)
  obtain b s' where u: "unlink p name s = (b, s')" by fastforce
  show ?case
    using Cons.IH Cons.prems unlink_ok [OF Cons.prems u] by (cases b) (auto simp: u)
qed simp

text \<open>Without faults every removable file of the listing goes.\<close>

lemma cleanup_loop_removes:
  "script s = [] \<Longrightarrow>
     file_ino (cleanup_loop p keepPtr wss names s) q m =
       (if q = p \<and> m \<in> set names \<and> removable keepPtr wss m then None else file_ino s q m)"
proof (induction names arbitrary: s)
  case (Cons name names)
  obtain b s' where u: "unlink p name s = (b, s')" by fastforce
  have "script s' = []" and b: "b \<longleftrightarrow> file_ino s p name \<noteq> None"
    using unlink_effect(6) [OF u Cons.prems] by auto
  then show ?case
    using Cons.IH [of "if b then s' else warn (WarnUnlink p name) s'"] Cons.IH [of s]
      Cons.prems unlink_effect(1) [OF u]
    by (cases b) (auto simp: u)
qed simp

lemma dir_names: "map_of d n \<noteq> None \<longleftrightarrow> n \<in> set (map fst d)"
  by (simp add: map_of_eq_None_iff)

lemma file_ino_listed: "opendir p s = Inr d \<Longrightarrow> file_ino s p n \<noteq> None \<longleftrightarrow> n \<in> set (map fst d)"
proof -
  assume "opendir p s = Inr d"
  then have "file_ino s p n = map_of d n"
    by (auto simp: opendir_def file_ino_def split: option.splits if_splits)
  then show ?thesis using dir_names [of d n] by simp
qed

lemma reset_loop_removes:
  "script s = [] \<Longrightarrow>
     file_ino (reset_loop p names s) q m =
       (if q = p \<and> m \<in> set names \<and> IsXLogFileName m then None else file_ino s q m)
     \<and> script (reset_loop p names s) = [] \<and> inode (reset_loop p names s) = inode s"
proof (induction names arbitrary: s)
  case (Cons name names)
  obtain b s' where u: "unlink p name s = (b, s')" by fastforce
  have "script s' = []" and b: "b \<longleftrightarrow> file_ino s p name \<noteq> None"
    using unlink_effect(6) [OF u Cons.prems] by auto
  then show ?case
    using Cons.IH [of s'] Cons.IH [of s] Cons.prems unlink_effect(1,2) [OF u]
    by (cases b) (auto simp: u)
qed simp

lemma reset_loop_ok: "store_ok s \<Longrightarrow> store_ok (reset_loop p names s)"
proof (induction names arbitrary: s)
  case (Cons name names)
  then show ?case using unlink_ok [OF Cons.prems, of p name] by (metis prod.collapse reset_loop.simps(2))
qed simp

lemma reset_files_removes:
  assumes "script s = []" and "\<not> unreadable_dir s p"
  shows "file_ino (reset_files p s) q m = (if q = p \<and> IsXLogFileName m then None else file_ino s q m)"
proof (cases "opendir p s")
  case (Inl e)
  with assms have "file_ino s p m = None" by (auto simp: opendir_def file_ino_def split: option.splits)
  with Inl show ?thesis by (auto simp: reset_files_def)
next
  case (Inr d)
  then show ?thesis
    using file_ino_listed [OF Inr, of m] assms
    by (auto simp: reset_files_def reset_loop_removes)
qed

lemma reset_files_ok: "store_ok s \<Longrightarrow> store_ok (reset_files p s)"
  by (auto simp: reset_files_def reset_loop_ok split: sum.splits)

subsection \<open>Appending to files\<close>

lemma open_append_effect:
  assumes "open_append p name s = (Inr i, s')" and "store_ok s"
  shows "file_ino s' q m = (if q = p \<and> m = name then Some i else file_ino s q m)"
    and "inode s' = (case file_ino s p name of None \<Rightarrow> (inode s)(i := []) | Some j \<Rightarrow> inode s)"
    and "i = (case file_ino s p name of None \<Rightarrow> next_inode s | Some j \<Rightarrow> j)"
    and "same_frame s s'" and "root_exists s' = root_exists s"
    and "next_inode s' = (if file_ino s p name = None then Suc (next_inode s) else next_inode s)"
    and "script s = [] \<Longrightarrow> script s' = [] \<and> warnings s' = warnings s"
  using assms
  by (auto simp: open_append_def file_ino_def same_frame_def map_add_def dest!: next_outcome_cases
      split: prod.splits outcome.splits option.splits if_splits)

lemma open_append_error:
  assumes "open_append p name s = (Inl e, s')"
  shows "same_files s s'" and "script s = [] \<Longrightarrow> part_dirs s p = None"
  using assms
  by (auto simp: open_append_def dest!: next_outcome_cases split: prod.splits outcome.splits option.splits)

lemma open_append_ok:
  assumes o: "open_append p name s = (Inr i, s')" and ok: "store_ok s"
  shows "store_ok s'"
  unfolding store_ok_def
proof (intro conjI allI impI)
  note e = open_append_effect [OF o ok]
  fix q d
  assume d: "part_dirs s' q = Some d"
  show "root_exists s'" and "distinct (map fst d)"
    using d o store_ok_root [OF ok, of q] store_ok_distinct [OF ok, of q]
    by (auto simp: open_append_def map_of_eq_None_iff dest!: next_outcome_cases
        split: prod.splits outcome.splits option.splits if_splits)
next
  note e = open_append_effect [OF o ok]
  fix q n j
  assume j: "file_ino s' q n = Some j"
  show "j < next_inode s'"
    using j store_ok_bound [OF ok, of q n j] store_ok_bound [OF ok, of p name] e(3)
    by (cases "file_ino s p name") (auto simp: e(1,6) split: if_splits)
next
  note e = open_append_effect [OF o ok]
  fix q n q' m j
  assume "file_ino s' q n = Some j" and "file_ino s' q' m = Some j"
  moreover have "file_ino s q n \<noteq> Some (next_inode s)" for q n
    using store_ok_bound [OF ok] by blast
  ultimately show "q = q'" and "n = m"
    using store_ok_inj [OF ok] e(3) by (auto simp: e(1) split: if_splits option.splits)
qed

lemma write_fd_effect:
  assumes "write_fd i bs s = (r, s')"
  shows "\<exists>n. same_files (s\<lparr>inode := (inode s)(i := inode s i @ take n bs)\<rparr>) s' \<and>
           (case r of Inl e \<Rightarrow> n = 0 | Inr k \<Rightarrow> k = min n (length bs))"
  using assms
  by (auto simp: write_fd_def same_files_def same_frame_def dest!: next_outcome_cases
      split: prod.splits outcome.splits intro: exI [of _ 0] exI [of _ "length bs"])

lemma write_retry_effect:
  "write_retry i bs s = (r, s') \<Longrightarrow>
     \<exists>n. same_files (s\<lparr>inode := (inode s)(i := inode s i @ take n bs)\<rparr>) s' \<and>
       (case r of Inl e \<Rightarrow> n = 0 | Inr k \<Rightarrow> k = min n (length bs))"
proof (induction i bs s rule: write_retry.induct)
  case (1 i bs s)
  obtain r1 s1 where w: "write_fd i bs s = (r1, s1)" by fastforce
  show ?case
  proof (cases "r1 = Inl EINTR")
    case True
    with w 1(2) have "write_retry i bs s1 = (r, s')" by (simp add: write_retry.simps [of i bs s])
    then obtain n where n: "same_files (s1\<lparr>inode := (inode s1)(i := inode s1 i @ take n bs)\<rparr>) s'"
        "case r of Inl e \<Rightarrow> n = 0 | Inr k \<Rightarrow> k = min n (length bs)"
      using "1.IH" [OF w [symmetric]] True by blast
    moreover have "same_files s s1"
      using write_fd_effect [OF w] True by (auto simp: same_files_def same_frame_def)
    ultimately have "same_files (s\<lparr>inode := (inode s)(i := inode s i @ take n bs)\<rparr>) s'"
      by (auto simp: same_files_def same_frame_def)
    with n(2) show ?thesis by blast
  next
    case False
    then have "write_retry i bs s = (r1, s1)"
      using w by (auto simp: write_retry.simps [of i bs s] split: sum.splits errno.splits)
    with 1(2) have "r1 = r" and "s1 = s'" by simp_all
    with write_fd_effect [OF w] show ?thesis by blast
  qed
qed

lemma write_retry_faultless [faultless]:
  "script s = [] \<Longrightarrow>
     write_retry i bs s = (Inr (length bs), s\<lparr>inode := (inode s)(i := inode s i @ bs)\<rparr>)"
  by (simp add: write_retry.simps write_fd_def)

lemma fsync_faultless [faultless]: "script s = [] \<Longrightarrow> fsync_fd s = (True, s)"
  by (simp add: fsync_fd_def)

text \<open>The first \<open>write\<close> that is not interrupted decides: an interruption is never reported.\<close>

lemma write_retry_not_eintr: "fst (write_retry i bs s) \<noteq> Inl EINTR"
proof (induction i bs s rule: write_retry.induct)
  case (1 i bs s)
  then show ?case
    by (subst write_retry.simps) (auto split: prod.splits sum.splits errno.splits)
qed

section \<open>Properties\<close>

text \<open>C23: \<open>CleanupPartitionWAL\<close> without faults removes exactly what is below the pointer: the segment
  file of an LSN goes if the whole segment ends at or below \<open>keepPtr\<close> and is untouched otherwise, and
  no other kind of file and no file of another partition changes.\<close>

theorem cleanup_removes_exactly:
  assumes "IsValidWalSegSize wss" and "script s = []" and "\<not> unreadable_dir s p"
    and "(unat (XLByteToSeg lsn wss) + 1) * unat wss < 2 ^ 64"
    and "CleanupPartitionWAL p keepPtr wss s = (r, s')"
  shows "r = Inr () \<and>
    file_content s' p (XLogFileName tli (XLByteToSeg lsn wss) wss) =
      (if (unat (XLByteToSeg lsn wss) + 1) * unat wss \<le> unat keepPtr then None
       else file_content s p (XLogFileName tli (XLByteToSeg lsn wss) wss)) \<and>
    (q \<noteq> p \<or> \<not> IsXLogFileName m \<longrightarrow> file_content s' q m = file_content s q m)"
proof (cases "opendir p s")
  case (Inl e)
  then have none: "part_dirs s p = None" "e = ENOENT" using assms(3) by (auto simp: opendir_def split: option.splits)
  then have "file_content s p n = None" for n by (simp add: file_content_def file_ino_def)
  with Inl none assms(5) show ?thesis by (simp add: CleanupPartitionWAL_def)
next
  case (Inr d)
  let ?n = "XLogFileName tli (XLByteToSeg lsn wss) wss"
  have r: "r = Inr ()" and s': "s' = cleanup_loop p keepPtr wss (map fst d) s"
    using assms(5) Inr by (simp_all add: CleanupPartitionWAL_def)
  have fc: "file_content s' k n = (if k = p \<and> n \<in> set (map fst d) \<and> removable keepPtr wss n then None else file_content s k n)"
    for k n
    using cleanup_loop_removes [OF assms(2), of p keepPtr wss "map fst d" k n]
      cleanup_loop_keeps [of p keepPtr wss "map fst d" s k n]
    by (simp add: s' file_content_def)
  have "removable keepPtr wss ?n \<longleftrightarrow> (unat (XLByteToSeg lsn wss) + 1) * unat wss \<le> unat keepPtr"
    using segment_end_nat [OF assms(4)]
    by (simp add: removable_def XLogFromFileName_name [OF assms(1) seg_of_lsn_in_range [OF assms(1)]] word_le_nat_alt)
  moreover have "?n \<in> set (map fst d) \<longleftrightarrow> file_content s p ?n \<noteq> None"
    using file_ino_listed [OF Inr, of ?n] by (simp add: file_content_def)
  ultimately show ?thesis using r fc [of p ?n] fc [of q m] by (auto simp: removable_def)
qed

text \<open>Two segments of partition 7, for the example.\<close>

definition two_segments :: parwal_store where
  "two_segments = fresh_store\<lparr>root_exists := True,
     part_dirs := (\<lambda>p. if p = 7 then Some [(XLogFileName 1 2 0x1000000, 1), (XLogFileName 1 1 0x1000000, 0)] else None),
     inode := (\<lambda>i. [of_nat i]), next_inode := 2\<rparr>"

theorem cleanup_removes_exactly_witness:
  "\<exists>s'. CleanupPartitionWAL 7 0x2000000 0x1000000 two_segments = (Inr (), s') \<and>
     file_content s' 7 (XLogFileName 1 1 0x1000000) = None \<and> file_content s' 7 (XLogFileName 1 2 0x1000000) = Some [1]"
proof -
  obtain r s' where c: "CleanupPartitionWAL 7 0x2000000 0x1000000 two_segments = (r, s')" by fastforce
  note v = wss_16MB
  have t: "script two_segments = []" "\<not> unreadable_dir two_segments 7"
    by (simp_all add: two_segments_def fresh_store_def)
  have seg: "XLByteToSeg 0x1000028 0x1000000 = 1" "XLByteToSeg 0x2000028 0x1000000 = 2" by (simp_all add: XLByteToSeg_def)
  have "XLogFileName 1 1 0x1000000 \<noteq> XLogFileName 1 2 0x1000000"
    using segment_name_inj [OF v seg_of_lsn_in_range [OF v, of "0x1000028"] seg_of_lsn_in_range [OF v, of "0x2000028"]]
    by (simp add: seg)
  then have "file_content two_segments 7 (XLogFileName 1 2 0x1000000) = Some [1]"
    by (simp add: two_segments_def file_content_def file_ino_def)
  then show ?thesis
    using cleanup_removes_exactly [where lsn = "0x1000028" and tli = 1, OF v t _ c]
      cleanup_removes_exactly [where lsn = "0x2000028" and tli = 1, OF v t _ c] c
    by (simp add: seg)
qed

end
