(* ===== verification/SegmentScan.thy ===== *)
theory SegmentScan
  imports ParwalStore
begin

text \<open>
  The functions that read \<open>pg_parwal/<partition_id>/\<close>: \<open>GetLastWrittenPartitionLSN\<close> of
  \<open>src/wal/partition_wal_writer.c\<close>, \<open>check_partition_wal\<close> and \<open>verify_partition_wal\<close> of
  \<open>src/wal/partition_wal.c\<close>, \<open>count_parwal_records\<close> and \<open>read_all_headers\<close> of
  \<open>src/worker/demux_worker.c\<close>.  All list at most 256 segment files, sort them by name and
  read them record by record.  \<open>scan_headers\<close> is the abstract content of a partition, the
  records in segment order; each function is related to it.
\<close>

section \<open>Listing the segment files\<close>

text \<open>\<^verbatim>\<open>while ((de = readdir(dir)) != NULL && nfiles < 256)\<close>, with the room that is left.\<close>

fun collect_segfiles :: "nat \<Rightarrow> string list \<Rightarrow> string list" where
  "collect_segfiles room [] = []"
| "collect_segfiles room (name # names) =
     (if room = 0 then []
      else if IsXLogFileName name then name # collect_segfiles (room - 1) names
      else collect_segfiles room names)"

lemma collect_segfiles_eq: "collect_segfiles room names = take room (filter IsXLogFileName names)"
  by (induction room names rule: collect_segfiles.induct) (auto simp: take_Cons')

section \<open>The high-water mark\<close>

fun max_valid_lsn :: "oid \<Rightarrow> PartWALHeader list \<Rightarrow> u64 \<Rightarrow> u64" where
  "max_valid_lsn p [] max_lsn = max_lsn"
| "max_valid_lsn p (header # headers) max_lsn =
     max_valid_lsn p headers
       (if magic header = PARTWAL_MAGIC \<and> partition_id header = p \<and> partition_lsn header > max_lsn
        then partition_lsn header else max_lsn)"

definition last_record_lsn :: "oid \<Rightarrow> bytes \<Rightarrow> u64" where
  "last_record_lsn p content =
     (let sz = length content;
          nb = take sizeof_header
                 (drop (sz - (if sz mod sizeof_header = 0 then sizeof_header else sz mod sizeof_header)) content)
      in if length nb = sizeof_header \<and> magic (decode_header nb) = PARTWAL_MAGIC
            \<and> partition_id (decode_header nb) = p
         then partition_lsn (decode_header nb) else 0)"

definition file_high_water :: "oid \<Rightarrow> bytes \<Rightarrow> u64" where
  "file_high_water p content =
     (if length content \<ge> sizeof_header
      then (let max_lsn = last_record_lsn p content
            in if max_lsn = 0 then max_valid_lsn p (read_headers content) 0 else max_lsn)
      else 0)"

fun last_lsn_loop :: "oid \<Rightarrow> string list \<Rightarrow> parwal_store \<Rightarrow> u64 \<Rightarrow> u64" where
  "last_lsn_loop p [] s max_lsn = max_lsn"
| "last_lsn_loop p (name # names) s max_lsn =
     (if max_lsn \<noteq> 0 then max_lsn
      else case open_rdonly p name s of
             None \<Rightarrow> last_lsn_loop p names s max_lsn
           | Some content \<Rightarrow> last_lsn_loop p names s (file_high_water p content))"

definition GetLastWrittenPartitionLSN :: "oid \<Rightarrow> parwal_store \<Rightarrow> u64" where
  "GetLastWrittenPartitionLSN p s =
     (case opendir p s of
        Inl e \<Rightarrow> 0
      | Inr d \<Rightarrow>
          let segfiles = collect_segfiles 256 (map fst d)
          in if segfiles = [] then 0
             else last_lsn_loop p (exchange_sort names_descending segfiles) s 0)"

section \<open>The SQL readers\<close>

text \<open>What a set-returning function checks of its caller before it reads anything.\<close>

record call_context =
  has_rsinfo :: bool
  allows_materialize :: bool
  returns_row_type :: bool

definition check_set_context :: "call_context \<Rightarrow> pg_error option" where
  "check_set_context c =
     (if \<not> has_rsinfo c then Some ErrFeatureNotSupported
      else if \<not> allows_materialize c then Some ErrFeatureNotSupported
      else if \<not> returns_row_type c then Some ErrDatatypeMismatch
      else None)"

definition is_valid_record :: "oid \<Rightarrow> PartWALHeader \<Rightarrow> bool" where
  "is_valid_record p h \<longleftrightarrow>
     magic h = PARTWAL_MAGIC \<and> partition_id h = p \<and>
     (flags h = PARTWAL_FLAG_DATA \<or> flags h = PARTWAL_FLAG_SKIP \<or> flags h = PARTWAL_FLAG_CHECKPOINT)"

fun check_rows :: "oid \<Rightarrow> string list \<Rightarrow> parwal_store \<Rightarrow> (i64 \<times> XLogRecPtr \<times> i32 \<times> bool) list" where
  "check_rows p [] s = []"
| "check_rows p (name # names) s =
     (case open_rdonly p name s of
        None \<Rightarrow> check_rows p names s
      | Some content \<Rightarrow>
          map (\<lambda>h. (partition_lsn h, orig_node_lsn h, ucast (flags h), is_valid_record p h))
            (read_headers content) @ check_rows p names s)"

definition pg_partdist_check_partition_wal ::
    "call_context \<Rightarrow> oid \<Rightarrow> parwal_store \<Rightarrow> pg_error + (i64 \<times> XLogRecPtr \<times> i32 \<times> bool) list" where
  "pg_partdist_check_partition_wal c p s =
     (case check_set_context c of
        Some e \<Rightarrow> Inl e
      | None \<Rightarrow>
          (case opendir p s of
             Inl e \<Rightarrow> Inr []
           | Inr d \<Rightarrow>
               Inr (check_rows p (exchange_sort names_ascending (collect_segfiles 256 (map fst d))) s)))"

text \<open>The inner loop of the verification: whether it ran to the end, and the next LSN expected.\<close>

fun verify_records :: "oid \<Rightarrow> PartWALHeader list \<Rightarrow> u64 \<Rightarrow> bool \<times> u64" where
  "verify_records p [] expected_lsn = (True, expected_lsn)"
| "verify_records p (header # headers) expected_lsn =
     (if magic header \<noteq> PARTWAL_MAGIC \<or> partition_id header \<noteq> p then (False, expected_lsn)
      else if partition_lsn header \<noteq> expected_lsn then (False, expected_lsn)
      else verify_records p headers (expected_lsn + 1))"

fun verify_files :: "oid \<Rightarrow> string list \<Rightarrow> parwal_store \<Rightarrow> u64 \<Rightarrow> bool" where
  "verify_files p [] s expected_lsn = True"
| "verify_files p (name # names) s expected_lsn =
     (case open_rdonly p name s of
        None \<Rightarrow> verify_files p names s expected_lsn
      | Some content \<Rightarrow>
          (case verify_records p (read_headers content) expected_lsn of
             (False, _) \<Rightarrow> False
           | (True, expected_lsn') \<Rightarrow> verify_files p names s expected_lsn'))"

definition pg_partdist_verify_partition_wal :: "oid \<Rightarrow> parwal_store \<Rightarrow> bool" where
  "pg_partdist_verify_partition_wal p s =
     (case opendir p s of
        Inl e \<Rightarrow> True
      | Inr d \<Rightarrow>
          verify_files p (exchange_sort names_ascending (collect_segfiles 256 (map fst d))) s 1)"

fun header_rows :: "oid \<Rightarrow> string list \<Rightarrow> parwal_store \<Rightarrow> (i64 \<times> XLogRecPtr) list" where
  "header_rows p [] s = []"
| "header_rows p (name # names) s =
     (case open_rdonly p name s of
        None \<Rightarrow> header_rows p names s
      | Some content \<Rightarrow>
          map (\<lambda>h. (partition_lsn h, orig_node_lsn h))
            (filter (\<lambda>h. \<not> (magic h \<noteq> PARTWAL_MAGIC \<or> partition_id h \<noteq> p)) (read_headers content))
          @ header_rows p names s)"

definition pg_partdist_read_all_headers ::
    "call_context \<Rightarrow> oid \<Rightarrow> parwal_store \<Rightarrow> pg_error + (i64 \<times> XLogRecPtr) list" where
  "pg_partdist_read_all_headers c p s =
     (case check_set_context c of
        Some e \<Rightarrow> Inl e
      | None \<Rightarrow>
          (case opendir p s of
             Inl e \<Rightarrow> Inr []
           | Inr d \<Rightarrow>
               Inr (header_rows p (exchange_sort names_ascending (collect_segfiles 256 (map fst d))) s)))"

text \<open>The count reads sizes only, and lists every file; the sizes of one directory sum up below 2^63.\<close>

fun count_loop :: "oid \<Rightarrow> string list \<Rightarrow> parwal_store \<Rightarrow> nat \<Rightarrow> nat" where
  "count_loop p [] s acc = acc"
| "count_loop p (name # names) s acc =
     (if \<not> IsXLogFileName name then count_loop p names s acc
      else case open_rdonly p name s of
             None \<Rightarrow> count_loop p names s acc
           | Some content \<Rightarrow>
               count_loop p names s
                 (if length content > 0 then acc + length content div sizeof_header else acc))"

definition pg_partdist_count_parwal_records :: "oid \<Rightarrow> parwal_store \<Rightarrow> nat" where
  "pg_partdist_count_parwal_records p s =
     (case opendir p s of Inl e \<Rightarrow> 0 | Inr d \<Rightarrow> count_loop p (map fst d) s 0)"

section \<open>The abstract content of a partition\<close>

definition segfiles_sorted :: "oid \<Rightarrow> parwal_store \<Rightarrow> string list" where
  "segfiles_sorted p s =
     (case opendir p s of
        Inl e \<Rightarrow> []
      | Inr d \<Rightarrow> exchange_sort names_ascending (collect_segfiles 256 (map fst d)))"

definition file_headers :: "oid \<Rightarrow> parwal_store \<Rightarrow> string \<Rightarrow> PartWALHeader list" where
  "file_headers p s name =
     (case open_rdonly p name s of None \<Rightarrow> [] | Some content \<Rightarrow> read_headers content)"

definition scan_headers :: "oid \<Rightarrow> parwal_store \<Rightarrow> PartWALHeader list" where
  "scan_headers p s = concat (map (file_headers p s) (segfiles_sorted p s))"

text \<open>A record the readers accept as one of the partition's.\<close>

definition own_record :: "oid \<Rightarrow> PartWALHeader \<Rightarrow> bool" where
  "own_record p h \<longleftrightarrow> magic h = PARTWAL_MAGIC \<and> partition_id h = p"

text \<open>The records of a log in which the partition LSN only grows, from above \<open>lo\<close>.\<close>

definition lsn_increasing :: "PartWALHeader list \<Rightarrow> bool" where
  "lsn_increasing hs \<longleftrightarrow> sorted_wrt (<) (0 # map partition_lsn hs)"

definition wf_log :: "oid \<Rightarrow> PartWALHeader list \<Rightarrow> bool" where
  "wf_log p hs \<longleftrightarrow> (\<forall>h\<in>set hs. own_record p h) \<and> lsn_increasing hs"

definition last_lsn :: "PartWALHeader list \<Rightarrow> u64" where
  "last_lsn hs = (if hs = [] then 0 else partition_lsn (last hs))"

lemma lsn_increasing_append:
  "lsn_increasing (hs @ ks) \<longleftrightarrow>
     lsn_increasing hs \<and> lsn_increasing ks \<and> (\<forall>h\<in>set hs. \<forall>k\<in>set ks. partition_lsn h < partition_lsn k)"
  by (auto simp: lsn_increasing_def sorted_wrt_append)

lemma wf_log_append:
  "wf_log p (hs @ ks) \<longleftrightarrow>
     wf_log p hs \<and> wf_log p ks \<and> (\<forall>h\<in>set hs. \<forall>k\<in>set ks. partition_lsn h < partition_lsn k)"
  by (auto simp: wf_log_def lsn_increasing_append)

lemma wf_log_Nil [simp]: "wf_log p []"
  by (simp add: wf_log_def lsn_increasing_def)

lemma lsn_increasing_last:
  "lsn_increasing hs \<Longrightarrow> h \<in> set hs \<Longrightarrow> partition_lsn h \<le> last_lsn hs"
  by (induction hs rule: rev_induct)
    (auto simp: last_lsn_def lsn_increasing_append dest: order.strict_implies_order split: if_splits)

lemma lsn_increasing_pos: "lsn_increasing hs \<Longrightarrow> h \<in> set hs \<Longrightarrow> 0 < partition_lsn h"
  by (auto simp: lsn_increasing_def)

lemma last_lsn_0: "lsn_increasing hs \<Longrightarrow> last_lsn hs = 0 \<longleftrightarrow> hs = []"
  using lsn_increasing_pos [of hs "last hs"] by (auto simp: last_lsn_def)

lemma wf_log_snoc:
  "wf_log p (hs @ [h]) \<longleftrightarrow> wf_log p hs \<and> own_record p h \<and> last_lsn hs < partition_lsn h"
proof -
  have "(\<forall>k\<in>set hs. partition_lsn k < partition_lsn h) \<and> 0 < partition_lsn h
      \<longleftrightarrow> last_lsn hs < partition_lsn h" if "lsn_increasing hs"
    using lsn_increasing_last [OF that] last_lsn_0 [OF that] lsn_increasing_pos [OF that, of "last hs"]
    by (cases "hs = []") (auto simp: last_lsn_def intro: order.strict_trans1 dest: order.strict_trans)
  then show ?thesis
    by (auto simp: wf_log_append) (auto simp: wf_log_def lsn_increasing_def)
qed

subsection \<open>One file\<close>

lemma max_valid_lsn_last:
  "\<forall>h\<in>set hs. own_record p h \<Longrightarrow> sorted_wrt (<) (m # map partition_lsn hs) \<Longrightarrow>
     max_valid_lsn p hs m = (if hs = [] then m else partition_lsn (last hs))"
  by (induction hs arbitrary: m) (auto simp: own_record_def)

lemma last_read_header:
  "sizeof_header dvd length bs \<Longrightarrow> bs \<noteq> [] \<Longrightarrow>
     read_headers bs \<noteq> [] \<and> last (read_headers bs) = decode_header (drop (length bs - sizeof_header) bs)"
proof (induction bs rule: read_headers.induct)
  case (1 bs)
  have len: "sizeof_header \<le> length bs" using "1.prems" by (auto intro: dvd_imp_le)
  then have rd: "read_headers bs = decode_header (take sizeof_header bs) # read_headers (drop sizeof_header bs)"
    by (subst read_headers.simps) simp
  show ?case
  proof (cases "length bs = sizeof_header")
    case True
    then show ?thesis unfolding rd by simp
  next
    case False
    have "sizeof_header dvd length (drop sizeof_header bs)" using "1.prems"(1) len by (simp add: dvd_diff_nat)
    moreover have "drop sizeof_header bs \<noteq> []" using len False by simp
    ultimately have "read_headers (drop sizeof_header bs) \<noteq> [] \<and> last (read_headers (drop sizeof_header bs))
        = decode_header (drop (length (drop sizeof_header bs) - sizeof_header) (drop sizeof_header bs))"
      using "1.IH" len by simp
    moreover have "32 \<le> length bs - 32"
      using "1.prems"(1) len False by (auto elim!: dvdE)
    ultimately show ?thesis unfolding rd by simp
  qed
qed

lemma last_record_lsn_aligned:
  assumes "sizeof_header dvd length bs" and "bs \<noteq> []" and "\<forall>h\<in>set (read_headers bs). own_record p h"
  shows "last_record_lsn p bs = partition_lsn (last (read_headers bs))"
proof -
  have len: "sizeof_header \<le> length bs" using assms by (auto intro: dvd_imp_le)
  note lr = last_read_header [OF assms(1,2)]
  then have "own_record p (decode_header (drop (length bs - sizeof_header) bs))"
    using assms(3) last_in_set [of "read_headers bs"] by auto
  then show ?thesis
    using assms(1) len lr by (auto simp: last_record_lsn_def Let_def own_record_def)
qed

lemma last_record_lsn_torn:
  "\<not> sizeof_header dvd length bs \<Longrightarrow> last_record_lsn p bs = 0"
  by (auto simp: last_record_lsn_def Let_def mod_eq_0_iff_dvd)

text \<open>The mark of a file is the LSN of its last whole record, with or without a torn tail.\<close>

lemma file_high_water_last:
  assumes "wf_log p (read_headers bs)"
  shows "file_high_water p bs = last_lsn (read_headers bs)"
proof (cases "length bs < sizeof_header")
  case True
  then show ?thesis by (simp add: file_high_water_def last_lsn_def)
next
  case False
  then have ne: "read_headers bs \<noteq> []" by (subst read_headers.simps) simp
  have own: "\<forall>h\<in>set (read_headers bs). own_record p h" and inc: "lsn_increasing (read_headers bs)"
    using assms by (auto simp: wf_log_def)
  have scan: "max_valid_lsn p (read_headers bs) 0 = last_lsn (read_headers bs)"
    using max_valid_lsn_last [OF own] inc ne by (simp add: last_lsn_def lsn_increasing_def)
  show ?thesis
  proof (cases "sizeof_header dvd length bs")
    case True
    have "bs \<noteq> []" using ne by auto
    with True own have "last_record_lsn p bs = last_lsn (read_headers bs)"
      using ne by (simp add: last_record_lsn_aligned last_lsn_def)
    with False scan show ?thesis by (simp add: file_high_water_def Let_def)
  next
    case torn: False
    with False scan show ?thesis by (simp add: file_high_water_def Let_def last_record_lsn_torn)
  qed
qed

subsection \<open>The functions and the abstract content\<close>

definition all_readable :: "oid \<Rightarrow> parwal_store \<Rightarrow> bool" where
  "all_readable p s \<longleftrightarrow>
     \<not> unreadable_dir s p \<and> (\<forall>name. IsXLogFileName name \<longrightarrow> \<not> unreadable s p name)"

lemma last_lsn_loop_done: "max_lsn \<noteq> 0 \<Longrightarrow> last_lsn_loop p names s max_lsn = max_lsn"
  by (cases names) auto

lemma last_lsn_loop_rev:
  assumes "wf_log p (concat (map (file_headers p s) names))"
  shows "last_lsn_loop p (rev names) s 0 = last_lsn (concat (map (file_headers p s) names))"
  using assms
proof (induction names rule: rev_induct)
  case Nil
  then show ?case by (simp add: last_lsn_def)
next
  case (snoc name names)
  let ?hs = "file_headers p s name"
  have wf: "wf_log p ?hs" "wf_log p (concat (map (file_headers p s) names))"
    using snoc.prems by (simp_all add: wf_log_append)
  have step: "last_lsn_loop p (rev (names @ [name])) s 0 = last_lsn_loop p (rev names) s (last_lsn ?hs)"
    using wf(1) file_high_water_last [of p]
    by (auto simp: file_headers_def last_lsn_def split: option.splits)
  show ?case
  proof (cases "?hs = []")
    case True
    with step snoc.IH wf(2) show ?thesis by (simp add: last_lsn_def)
  next
    case False
    then have "last_lsn ?hs \<noteq> 0" using wf(1) by (simp add: last_lsn_0 wf_log_def)
    with step False show ?thesis by (simp add: last_lsn_loop_done) (simp add: last_lsn_def)
  qed
qed

lemma GetLastWritten_scan:
  assumes "wf_log p (scan_headers p s)"
  shows "GetLastWrittenPartitionLSN p s = last_lsn (scan_headers p s)"
proof (cases "opendir p s")
  case (Inl e)
  then show ?thesis
    by (simp add: GetLastWrittenPartitionLSN_def scan_headers_def segfiles_sorted_def last_lsn_def)
next
  case (Inr d)
  let ?names = "exchange_sort names_ascending (collect_segfiles 256 (map fst d))"
  have sc: "scan_headers p s = concat (map (file_headers p s) ?names)"
    using Inr by (simp add: scan_headers_def segfiles_sorted_def)
  have "last_lsn_loop p (rev ?names) s 0 = last_lsn (scan_headers p s)"
    using assms unfolding sc by (rule last_lsn_loop_rev)
  moreover have "?names = []" if "collect_segfiles 256 (map fst d) = []"
    using that length_exchange_sort [of names_ascending "[]"] by (simp del: length_exchange_sort)
  ultimately show ?thesis
    using Inr by (auto simp: GetLastWrittenPartitionLSN_def Let_def descending_rev)
qed

lemma check_rows_concat:
  "check_rows p names s =
     map (\<lambda>h. (partition_lsn h, orig_node_lsn h, ucast (flags h), is_valid_record p h))
       (concat (map (file_headers p s) names))"
  by (induction names) (auto simp: file_headers_def split: option.splits)

lemma header_rows_concat:
  "header_rows p names s =
     map (\<lambda>h. (partition_lsn h, orig_node_lsn h))
       (filter (own_record p) (concat (map (file_headers p s) names)))"
  by (induction names) (auto simp: file_headers_def own_record_def split: option.splits)

lemma check_partition_wal_scan:
  "check_set_context c = None \<Longrightarrow>
     pg_partdist_check_partition_wal c p s =
       Inr (map (\<lambda>h. (partition_lsn h, orig_node_lsn h, ucast (flags h), is_valid_record p h))
              (scan_headers p s))"
  by (auto simp: pg_partdist_check_partition_wal_def scan_headers_def segfiles_sorted_def
      check_rows_concat split: sum.splits)

lemma read_all_headers_scan:
  "check_set_context c = None \<Longrightarrow>
     pg_partdist_read_all_headers c p s =
       Inr (map (\<lambda>h. (partition_lsn h, orig_node_lsn h)) (filter (own_record p) (scan_headers p s)))"
  by (auto simp: pg_partdist_read_all_headers_def scan_headers_def segfiles_sorted_def
      header_rows_concat split: sum.splits)

fun consecutive_from :: "u64 \<Rightarrow> PartWALHeader list \<Rightarrow> bool" where
  "consecutive_from k [] = True"
| "consecutive_from k (h # hs) = (partition_lsn h = k \<and> consecutive_from (k + 1) hs)"

lemma consecutive_from_append:
  "consecutive_from k (hs @ ks) \<longleftrightarrow> consecutive_from k hs \<and> consecutive_from (k + of_nat (length hs)) ks"
  by (induction hs arbitrary: k) (auto simp: add.assoc)

lemma consecutive_from_nth:
  "consecutive_from k hs \<longleftrightarrow> (\<forall>i<length hs. partition_lsn (hs ! i) = k + of_nat i)"
proof (induction hs arbitrary: k)
  case (Cons h hs)
  then show ?case
    by (simp add: All_less_Suc2 add.assoc)
qed simp

lemma verify_records_fst:
  "fst (verify_records p hs k) \<longleftrightarrow> (\<forall>h\<in>set hs. own_record p h) \<and> consecutive_from k hs"
  by (induction hs arbitrary: k) (auto simp: own_record_def)

lemma verify_records_snd: "fst (verify_records p hs k) \<Longrightarrow> snd (verify_records p hs k) = k + of_nat (length hs)"
  by (induction hs arbitrary: k) (auto simp: add.assoc split: if_splits)

lemma verify_files_eq:
  "verify_files p names s k \<longleftrightarrow>
     (\<forall>h\<in>set (concat (map (file_headers p s) names)). own_record p h)
       \<and> consecutive_from k (concat (map (file_headers p s) names))"
proof (induction names arbitrary: k)
  case (Cons name names)
  show ?case
  proof (cases "open_rdonly p name s")
    case None
    with Cons show ?thesis by (simp add: file_headers_def)
  next
    case (Some content)
    obtain b k' where v: "verify_records p (read_headers content) k = (b, k')" by fastforce
    with verify_records_fst [of p "read_headers content" k] verify_records_snd [of p "read_headers content" k]
    show ?thesis
      using Some Cons by (cases b) (auto simp: file_headers_def consecutive_from_append)
  qed
qed simp

lemma verify_scan:
  "pg_partdist_verify_partition_wal p s \<longleftrightarrow>
     (\<forall>h\<in>set (scan_headers p s). own_record p h) \<and> consecutive_from 1 (scan_headers p s)"
  by (auto simp: pg_partdist_verify_partition_wal_def scan_headers_def segfiles_sorted_def
      verify_files_eq split: sum.splits)

lemma consecutive_increasing:
  assumes "consecutive_from 1 hs" and "length hs < 2 ^ 64"
  shows "lsn_increasing hs"
proof -
  have "unat (1 + of_nat i :: u64) = Suc i" if "i < length hs" for i
  proof -
    have "unat (of_nat (Suc i) :: u64) = Suc i"
      using that assms(2) by (simp only: unat_of_nat) simp
    then show ?thesis by simp
  qed
  then have "sorted_wrt (<) (map partition_lsn hs)" and "\<forall>h\<in>set hs. 0 < partition_lsn h"
    using assms(1)
    by (auto simp: consecutive_from_nth sorted_wrt_iff_nth_less word_less_nat_alt in_set_conv_nth)
  then show ?thesis by (simp add: lsn_increasing_def)
qed

end
