(* ===== verification/PartitionLog.thy ===== *)
theory PartitionLog
  imports SegmentScan
begin

text \<open>
  A partition as one log.  The listing of a directory is determined by which segment files
  exist, so the abstract content \<open>scan_headers\<close> depends on names and contents only; appending a
  record to the newest segment appends it to the log and leaves every other partition alone.
  The two ways the code appends a record (the redo path and the Demux writer) both rest on this.
\<close>

section \<open>The listing is determined by the files\<close>

definition seg_names :: "oid \<Rightarrow> parwal_store \<Rightarrow> string set" where
  "seg_names p s = {name. IsXLogFileName name \<and> file_content s p name \<noteq> None}"

abbreviation names_sorted :: "string list \<Rightarrow> bool" where
  "names_sorted \<equiv> sorted_wrt (\<lambda>x y. \<not> names_ascending x y)"

lemma file_content_None: "file_content s p n = None \<longleftrightarrow> file_ino s p n = None"
  by (simp add: file_content_def)

lemma seg_names_dir:
  "opendir p s = Inr d \<Longrightarrow> seg_names p s = set (filter IsXLogFileName (map fst d))"
  using file_ino_listed [of p s d] by (auto simp: seg_names_def file_content_None)

lemma finite_seg_names: "finite (seg_names p s)"
proof (cases "part_dirs s p")
  case None
  then show ?thesis by (simp add: seg_names_def file_content_def file_ino_def)
next
  case (Some d)
  then have "seg_names p s \<subseteq> fst ` set d"
    by (auto simp: seg_names_def file_content_def file_ino_def dest!: map_of_SomeD intro: rev_image_eqI)
  then show ?thesis by (rule finite_subset) simp
qed

lemma names_sorted_unique:
  "names_sorted xs \<Longrightarrow> names_sorted ys \<Longrightarrow> distinct xs \<Longrightarrow> distinct ys \<Longrightarrow> set xs = set ys \<Longrightarrow> xs = ys"
  by (rule asc.ordered_unique [OF names_ascending_total]) (simp_all add: set_eq_iff_mset_eq_distinct)

lemma segfiles_sorted_props:
  assumes "store_ok s" and "\<not> unreadable_dir s p" and "card (seg_names p s) \<le> 256"
  shows "set (segfiles_sorted p s) = seg_names p s" and "distinct (segfiles_sorted p s)"
    and "names_sorted (segfiles_sorted p s)"
proof -
  have "set (segfiles_sorted p s) = seg_names p s \<and> distinct (segfiles_sorted p s)
      \<and> names_sorted (segfiles_sorted p s)"
  proof (cases "opendir p s")
    case (Inl e)
    with assms(2) have "part_dirs s p = None" by (auto simp: opendir_def split: option.splits)
    with Inl show ?thesis
      by (simp add: segfiles_sorted_def seg_names_def file_content_def file_ino_def)
  next
    case (Inr d)
    let ?ns = "filter IsXLogFileName (map fst d)"
    have "part_dirs s p = Some d" using Inr by (auto simp: opendir_def split: option.splits if_splits)
    then have dist: "distinct ?ns" using store_ok_distinct [OF assms(1)] by simp
    then have "length ?ns \<le> 256"
      using assms(3) distinct_card [OF dist] by (simp add: seg_names_dir [OF Inr])
    then have "collect_segfiles 256 (map fst d) = ?ns"
      by (simp add: collect_segfiles_eq)
    moreover have "distinct (exchange_sort names_ascending ?ns)"
      using dist mset_eq_imp_distinct_iff [OF mset_exchange_sort] by blast
    ultimately show ?thesis
      using Inr by (simp add: segfiles_sorted_def seg_names_dir [OF Inr] asc.exchange_sort_ordered)
  qed
  then show "set (segfiles_sorted p s) = seg_names p s" and "distinct (segfiles_sorted p s)"
    and "names_sorted (segfiles_sorted p s)" by auto
qed

section \<open>Well-formed partitions\<close>

text \<open>Every segment file has a name of timeline 1 and holds whole records.\<close>

definition part_ok :: "u64 \<Rightarrow> oid \<Rightarrow> parwal_store \<Rightarrow> bool" where
  "part_ok wss p s \<longleftrightarrow>
     store_ok s \<and> all_readable p s \<and> card (seg_names p s) \<le> 256 \<and>
     (\<forall>name\<in>seg_names p s.
        (\<exists>t. seg_in_range wss t \<and> name = XLogFileName 1 t wss) \<and>
        sizeof_header dvd length (the (file_content s p name)))"

text \<open>No segment of the partition is newer than \<open>seg\<close>.\<close>

definition newest_seg :: "u64 \<Rightarrow> oid \<Rightarrow> parwal_store \<Rightarrow> XLogSegNo \<Rightarrow> bool" where
  "newest_seg wss p s seg \<longleftrightarrow>
     (\<forall>t. seg_in_range wss t \<longrightarrow> XLogFileName 1 t wss \<in> seg_names p s \<longrightarrow> t \<le> seg)"

text \<open>One record more in the file of segment \<open>seg\<close> of partition \<open>p\<close>.\<close>

definition appended ::
    "u64 \<Rightarrow> oid \<Rightarrow> XLogSegNo \<Rightarrow> bytes \<Rightarrow> parwal_store \<Rightarrow> parwal_store \<Rightarrow> bool" where
  "appended wss p seg bs s s' \<longleftrightarrow>
     store_ok s' \<and> same_frame s s' \<and>
     (\<forall>q. q \<noteq> p \<longrightarrow> part_dirs s' q = part_dirs s q) \<and>
     (\<forall>q m. file_content s' q m =
        (if q = p \<and> m = XLogFileName 1 seg wss
         then Some ((case file_content s q m of None \<Rightarrow> [] | Some c \<Rightarrow> c) @ bs)
         else file_content s q m))"

lemma part_ok_dir: "part_ok wss p s \<Longrightarrow> \<not> unreadable_dir s p"
  by (simp add: part_ok_def all_readable_def)

lemma part_ok_sorted:
  "part_ok wss p s \<Longrightarrow> set (segfiles_sorted p s) = seg_names p s"
  "part_ok wss p s \<Longrightarrow> distinct (segfiles_sorted p s)"
  "part_ok wss p s \<Longrightarrow> names_sorted (segfiles_sorted p s)"
  using segfiles_sorted_props [of s p] by (auto simp: part_ok_def part_ok_dir all_readable_def)

lemma part_ok_headers:
  assumes "part_ok wss p s" and "IsXLogFileName n"
  shows "file_headers p s n = (case file_content s p n of None \<Rightarrow> [] | Some c \<Rightarrow> read_headers c)"
  using assms
  by (auto simp: part_ok_def all_readable_def file_headers_def open_rdonly_def file_content_None
      split: option.splits)

lemma scan_eq_content:
  assumes "set xs = seg_names p s" and "distinct xs" and "names_sorted xs" and "part_ok wss p s"
  shows "scan_headers p s = concat (map (file_headers p s) xs)"
proof -
  have "segfiles_sorted p s = xs"
    by (rule names_sorted_unique) (use assms part_ok_sorted in auto)
  then show ?thesis by (simp add: scan_headers_def)
qed

lemma read_headers_app:
  "sizeof_header dvd length c \<Longrightarrow> read_headers (c @ bs) = read_headers c @ read_headers bs"
proof (induction c rule: read_headers.induct)
  case (1 c)
  show ?case
  proof (cases "length c < sizeof_header")
    case True
    with "1.prems" have "c = []" by (auto elim!: dvdE)
    then show ?thesis by simp
  next
    case False
    with "1.prems" have "sizeof_header dvd length (drop sizeof_header c)" by (simp add: dvd_diff_nat)
    with False 1 show ?thesis
      by (subst (1 2) read_headers.simps) simp
  qed
qed

lemma appended_names:
  assumes "appended wss p seg bs s s'"
  shows "seg_names p s' = insert (XLogFileName 1 seg wss) (seg_names p s)"
  using assms by (auto simp: appended_def seg_names_def split: if_splits)

lemma appended_part_ok:
  assumes ok: "part_ok wss p s" and ap: "appended wss p seg bs s s'"
    and seg: "seg_in_range wss seg" and bs: "sizeof_header dvd length bs"
    and room: "XLogFileName 1 seg wss \<in> seg_names p s \<or> card (seg_names p s) < 256"
  shows "part_ok wss p s'"
proof -
  have "card (seg_names p s') \<le> 256"
    using room ok finite_seg_names [of p s]
    by (auto simp: appended_names [OF ap] insert_absorb part_ok_def card_insert_if)
  moreover have "all_readable p s'"
    using ok ap by (auto simp: part_ok_def all_readable_def appended_def same_frame_def)
  moreover have "\<exists>t. seg_in_range wss t \<and> n = XLogFileName 1 t wss"
    and "sizeof_header dvd length (the (file_content s' p n))" if "n \<in> seg_names p s'" for n
  proof -
    have old: "(\<exists>t. seg_in_range wss t \<and> n = XLogFileName 1 t wss)
        \<and> sizeof_header dvd length (the (file_content s p n))" if "n \<in> seg_names p s"
      using ok that unfolding part_ok_def by blast
    show "\<exists>t. seg_in_range wss t \<and> n = XLogFileName 1 t wss"
      using old that seg by (auto simp: appended_names [OF ap])
    show "sizeof_header dvd length (the (file_content s' p n))"
      using old that ap bs
      by (auto simp: appended_def appended_names [OF ap] seg_names_def split: option.splits)
  qed
  ultimately show ?thesis
    using ap by (simp add: part_ok_def appended_def)
qed

text \<open>An append extends the headers of its own file, and leaves those of the other files alone.\<close>

lemma appended_file_headers:
  assumes ok: "part_ok wss p s" "part_ok wss p s'" and ap: "appended wss p seg bs s s'"
  shows "file_headers p s' (XLogFileName 1 seg wss) = file_headers p s (XLogFileName 1 seg wss) @ read_headers bs"
    and "n \<in> seg_names p s \<Longrightarrow> n \<noteq> XLogFileName 1 seg wss \<Longrightarrow> file_headers p s' n = file_headers p s n"
proof -
  show "n \<in> seg_names p s \<Longrightarrow> n \<noteq> XLogFileName 1 seg wss \<Longrightarrow> file_headers p s' n = file_headers p s n"
    using ap part_ok_headers [OF ok(1), of n] part_ok_headers [OF ok(2), of n]
    by (auto simp: seg_names_def appended_def)
  let ?nm = "XLogFileName 1 seg wss"
  show "file_headers p s' ?nm = file_headers p s ?nm @ read_headers bs"
  proof (cases "file_content s p ?nm")
    case None
    then show ?thesis
      using ap by (simp add: part_ok_headers [OF ok(2)] part_ok_headers [OF ok(1)] appended_def)
  next
    case (Some c)
    then have "sizeof_header dvd length c"
      using ok(1) by (force simp: part_ok_def seg_names_def)
    with Some show ?thesis
      using ap by (simp add: part_ok_headers [OF ok(2)] part_ok_headers [OF ok(1)] appended_def read_headers_app)
  qed
qed

text \<open>The listing reads the newest file last, whether or not it exists yet.\<close>

lemma scan_newest_last:
  assumes ok: "part_ok wss p s" and last: "names_sorted (filter (\<lambda>n. n \<noteq> nm) (segfiles_sorted p s) @ [nm])"
    and nm: "nm = XLogFileName 1 seg wss"
  shows "scan_headers p s
    = concat (map (file_headers p s) (filter (\<lambda>n. n \<noteq> nm) (segfiles_sorted p s))) @ file_headers p s nm"
proof (cases "nm \<in> seg_names p s")
  case True
  then have "scan_headers p s
      = concat (map (file_headers p s) (filter (\<lambda>n. n \<noteq> nm) (segfiles_sorted p s) @ [nm]))"
    using part_ok_sorted [OF ok] by (intro scan_eq_content [OF _ _ last ok]) auto
  then show ?thesis by simp
next
  case False
  then have "filter (\<lambda>n. n \<noteq> nm) (segfiles_sorted p s) = segfiles_sorted p s"
    using part_ok_sorted(1) [OF ok] by (auto simp: filter_id_conv)
  moreover have "file_headers p s nm = []"
    using False nm by (auto simp: part_ok_headers [OF ok] seg_names_def split: option.splits)
  ultimately show ?thesis by (simp add: scan_headers_def)
qed

text \<open>The newest segment comes last in the listing.\<close>

lemma newest_last:
  assumes ok: "part_ok wss p s" and val: "IsValidWalSegSize wss" and seg: "seg_in_range wss seg"
    and new: "newest_seg wss p s seg" and n: "n \<in> seg_names p s"
  shows "\<not> names_ascending n (XLogFileName 1 seg wss)"
proof -
  from ok n obtain t where t: "seg_in_range wss t" "n = XLogFileName 1 t wss"
    by (auto simp: part_ok_def)
  with new n have "t \<le> seg" by (auto simp: newest_seg_def)
  then show ?thesis
    unfolding t(2) names_ascending_segments [OF val t(1) seg] by simp
qed

theorem appended_scan:
  assumes ok: "part_ok wss p s" and ap: "appended wss p seg bs s s'"
    and val: "IsValidWalSegSize wss" and seg: "seg_in_range wss seg"
    and bs: "sizeof_header dvd length bs"
    and room: "XLogFileName 1 seg wss \<in> seg_names p s \<or> card (seg_names p s) < 256"
    and new: "newest_seg wss p s seg"
  shows "scan_headers p s' = scan_headers p s @ read_headers bs"
proof -
  let ?nm = "XLogFileName 1 seg wss"
  let ?old = "filter (\<lambda>n. n \<noteq> ?nm) (segfiles_sorted p s)"
  note ok' = appended_part_ok [OF ok ap seg bs room]
  note srt = part_ok_sorted [OF ok]
  have last: "names_sorted (?old @ [?nm])"
    using srt newest_last [OF ok val seg new]
    by (auto simp: sorted_wrt_append sorted_wrt_filter)
  have s': "scan_headers p s' = concat (map (file_headers p s') (?old @ [?nm]))"
    by (rule scan_eq_content [OF _ _ last ok'])
      (use srt in \<open>auto simp: appended_names [OF ap]\<close>)
  have "file_headers p s' n = file_headers p s n" if "n \<in> set ?old" for n
    using that srt(1) by (intro appended_file_headers(2) [OF ok ok' ap]) auto
  then have "map (file_headers p s') ?old = map (file_headers p s) ?old"
    by (intro map_cong [OF refl])
  then show ?thesis
    unfolding s' scan_newest_last [OF ok last refl] map_append concat_append
    by (simp only: list.map concat.simps append_Nil2 append_assoc appended_file_headers(1) [OF ok ok' ap])
qed

lemma scan_same_partition:
  assumes "part_dirs s' q = part_dirs s q" and "same_frame s s'"
    and "\<And>m. file_content s' q m = file_content s q m"
  shows "scan_headers q s' = scan_headers q s"
proof -
  have "file_headers q s' = file_headers q s"
    using assms by (intro ext) (simp add: file_headers_def open_rdonly_def same_frame_def)
  moreover have "opendir q s' = opendir q s"
    using assms by (simp add: opendir_def same_frame_def split: option.splits)
  ultimately show ?thesis by (simp add: scan_headers_def segfiles_sorted_def)
qed

lemma appended_other:
  assumes ap: "appended wss p seg bs s s'" and q: "q \<noteq> p"
  shows "scan_headers q s' = scan_headers q s" and "seg_names q s' = seg_names q s"
  using ap q by (auto simp: appended_def seg_names_def intro!: scan_same_partition)

lemma appended_newest:
  assumes "appended wss p seg bs s s'" and "newest_seg wss p s seg" and "IsValidWalSegSize wss"
    and "seg_in_range wss seg"
  shows "newest_seg wss p s' seg"
  using assms by (auto simp: newest_seg_def appended_names [OF assms(1)] segment_name_inj)

lemma newest_seg_mono: "newest_seg wss p s a \<Longrightarrow> a \<le> b \<Longrightarrow> newest_seg wss p s b"
  by (auto simp: newest_seg_def intro: order_trans)

lemma appended_trans:
  assumes "appended wss p seg as s t" and "appended wss p seg bs t u"
  shows "appended wss p seg (as @ bs) s u"
  using assms by (auto simp: appended_def same_frame_def split: option.splits)

lemma same_files_content:
  assumes "same_files s s'"
  shows "scan_headers q s' = scan_headers q s" and "seg_names q s' = seg_names q s"
    and "part_ok wss q s' = part_ok wss q s" and "newest_seg wss q s' seg = newest_seg wss q s seg"
proof -
  note fc = file_content_same [OF assms]
  show sn: "seg_names q s' = seg_names q s" by (simp add: seg_names_def fc)
  show "scan_headers q s' = scan_headers q s"
    using assms by (intro scan_same_partition) (auto simp: same_files_def fc)
  show "part_ok wss q s' = part_ok wss q s"
    using assms store_ok_same [OF assms] file_ino_same [OF assms]
    by (simp add: part_ok_def sn fc all_readable_def same_files_def same_frame_def)
  show "newest_seg wss q s' seg = newest_seg wss q s seg"
    by (simp add: newest_seg_def sn)
qed

text \<open>Creating an empty directory, or anything else that keeps every file's content.\<close>

lemma same_content_log:
  assumes "part_ok wss p s" and "store_ok s'" and "same_frame s s'" and fc: "file_content s' = file_content s"
  shows "seg_names p s' = seg_names p s" and "part_ok wss p s'" and "scan_headers p s' = scan_headers p s"
proof -
  show names: "seg_names p s' = seg_names p s" by (simp add: seg_names_def fc)
  show ok: "part_ok wss p s'"
    using assms by (simp add: part_ok_def names all_readable_def same_frame_def)
  note srt = part_ok_sorted [OF assms(1)]
  have "file_headers p s' = file_headers p s"
    using assms(3) fc by (intro ext) (simp add: file_headers_def open_rdonly_def same_frame_def)
  then show "scan_headers p s' = scan_headers p s"
    using scan_eq_content [OF _ srt(2,3) ok] srt(1) names by (simp add: scan_headers_def)
qed

section \<open>The readers\<close>

lemma count_loop_sum:
  "count_loop p names s acc = acc + length (concat (map (file_headers p s) (filter IsXLogFileName names)))"
  by (induction names arbitrary: acc)
    (auto simp: file_headers_def length_read_headers div_eq_0_iff split: option.splits)

lemma length_concat_mset: "mset xs = mset ys \<Longrightarrow> length (concat (map f xs)) = length (concat (map f ys))"
proof -
  assume "mset xs = mset ys"
  then have "mset (map (length \<circ> f) xs) = mset (map (length \<circ> f) ys)" by (simp del: map_map)
  then have "sum_mset (mset (map (length \<circ> f) xs)) = sum_mset (mset (map (length \<circ> f) ys))" by (rule arg_cong)
  then show ?thesis unfolding sum_mset_sum_list by (simp add: length_concat comp_def)
qed

lemma count_scan:
  assumes "store_ok s" and "card (seg_names p s) \<le> 256"
  shows "pg_partdist_count_parwal_records p s = length (scan_headers p s)"
proof (cases "opendir p s")
  case (Inl e)
  then show ?thesis by (simp add: pg_partdist_count_parwal_records_def scan_headers_def segfiles_sorted_def)
next
  case (Inr d)
  let ?ns = "filter IsXLogFileName (map fst d)"
  have "part_dirs s p = Some d" using Inr by (auto simp: opendir_def split: option.splits if_splits)
  then have "distinct ?ns" using store_ok_distinct [OF assms(1)] by simp
  then have "length ?ns \<le> 256"
    using assms(2) distinct_card [of ?ns] by (simp add: seg_names_dir [OF Inr])
  then have "segfiles_sorted p s = exchange_sort names_ascending ?ns"
    using Inr by (simp add: segfiles_sorted_def collect_segfiles_eq)
  then have "length (scan_headers p s) = length (concat (map (file_headers p s) ?ns))"
    unfolding scan_headers_def by (simp only: length_concat_mset [OF mset_exchange_sort])
  moreover have "pg_partdist_count_parwal_records p s = length (concat (map (file_headers p s) ?ns))"
    unfolding pg_partdist_count_parwal_records_def Inr sum.case count_loop_sum by (simp only: add_0)
  ultimately show ?thesis by (simp only:)
qed

lemma consecutive_from_map: "consecutive_from k hs \<longleftrightarrow> map partition_lsn hs = map (\<lambda>i. k + of_nat i) [0..<length hs]"
  unfolding consecutive_from_nth by (subst list_eq_iff_nth_eq) simp

text \<open>C13: The readers show one log.  As long as a partition has at most the 256 segment files that the
  listings hold, \<open>check_partition_wal\<close> returns a row for each record of its log, in order,
  \<open>read_all_headers\<close> one for each record that is the partition's own, \<open>count_parwal_records\<close> is the
  length of the log, \<open>verify_partition_wal\<close> holds exactly if every record is the partition's own and
  the LSNs are 1, 2, 3 and so on, and \<open>GetLastWrittenPartitionLSN\<close> is the LSN of the last record if
  they grow.\<close>

theorem readers_show_one_log:
  assumes "store_ok s" and "card (seg_names p s) \<le> 256" and "check_set_context c = None"
  shows "pg_partdist_check_partition_wal c p s =
      Inr (map (\<lambda>h. (partition_lsn h, orig_node_lsn h, ucast (flags h), is_valid_record p h)) (scan_headers p s)) \<and>
    pg_partdist_read_all_headers c p s =
      Inr (map (\<lambda>h. (partition_lsn h, orig_node_lsn h)) (filter (own_record p) (scan_headers p s))) \<and>
    pg_partdist_count_parwal_records p s = length (scan_headers p s) \<and>
    (pg_partdist_verify_partition_wal p s \<longleftrightarrow>
      filter (own_record p) (scan_headers p s) = scan_headers p s \<and>
      map partition_lsn (scan_headers p s) = map (\<lambda>i. 1 + of_nat i) [0..<length (scan_headers p s)]) \<and>
    (wf_log p (scan_headers p s) \<longrightarrow> GetLastWrittenPartitionLSN p s = last_lsn (scan_headers p s))"
  using check_partition_wal_scan [OF assms(3)] read_all_headers_scan [OF assms(3)] count_scan [OF assms(1,2)]
    GetLastWritten_scan [of p s]
  by (simp add: verify_scan consecutive_from_map filter_id_conv)

text \<open>A partition with one record of its own and a foreign one after it.\<close>

definition mixed_store :: parwal_store where
  "mixed_store = fresh_store\<lparr>root_exists := True,
     part_dirs := (\<lambda>p. if p = 7 then Some [(XLogFileName 1 1 0x1000000, 0)] else None),
     inode := (\<lambda>i. encode_headers [new_header 7 1 0x1000028 1, new_header 8 1 0x1000050 2]), next_inode := 1\<rparr>"

theorem readers_show_one_log_witness:
  "pg_partdist_count_parwal_records 7 mixed_store = 2 \<and> \<not> pg_partdist_verify_partition_wal 7 mixed_store \<and>
   pg_partdist_read_all_headers \<lparr>has_rsinfo = True, allows_materialize = True, returns_row_type = True\<rparr> 7 mixed_store
     = Inr [(1, 0x1000028)]"
proof -
  have d: "opendir 7 mixed_store = Inr [(XLogFileName 1 1 0x1000000, 0)]"
    by (simp add: opendir_def mixed_store_def fresh_store_def)
  have e: "exchange_sort names_ascending [x] = [x]" for x
    by (simp add: exchange_sort_def exch_outer.simps)
  have "file_headers 7 mixed_store (XLogFileName 1 1 0x1000000) = [new_header 7 1 0x1000028 1, new_header 8 1 0x1000050 2]"
    by (simp add: file_headers_def open_rdonly_def mixed_store_def fresh_store_def file_content_def file_ino_def
        del: encode_headers_simps)
  then have scan: "scan_headers 7 mixed_store = [new_header 7 1 0x1000028 1, new_header 8 1 0x1000050 2]"
    by (simp add: scan_headers_def segfiles_sorted_def d e)
  have names: "card (seg_names 7 mixed_store) \<le> 256"
    unfolding seg_names_dir [OF d] by simp
  have ok: "store_ok mixed_store"
    by (auto simp: store_ok_def mixed_store_def file_ino_def fresh_store_def split: if_splits)
  have "own_record 7 (new_header 7 1 0x1000028 1)" "\<not> own_record 7 (new_header 8 1 0x1000050 2)"
    by (simp_all add: own_record_def new_header_def)
  with readers_show_one_log [OF ok names, of "\<lparr>has_rsinfo = True, allows_materialize = True, returns_row_type = True\<rparr>"]
  show ?thesis by (simp add: scan check_set_context_def) (simp add: new_header_def)
qed

end
