(* ===== verification/WatermarkLog.thy ===== *)
theory WatermarkLog
  imports PartitionLog
begin

text \<open>
  A log that skips what it has: the contract of the two consumers of the partition WAL records,
  crash recovery and the Demux worker.  Both keep the LSN of the last record as a watermark,
  append a record above it and skip the others.  \<open>fits\<close> bounds the records that may come at all,
  and \<open>adm\<close> says that a run of records can be
  appended at all (their segments come in order, and the directory stays within the 256 files
  that the readers list).  The lemmas say what a replay leaves in the log, once and again.
\<close>

text \<open>The records that a replay from watermark \<open>m\<close> accepts.\<close>

fun accepted :: "u64 \<Rightarrow> PartWALHeader list \<Rightarrow> PartWALHeader list" where
  "accepted m [] = []"
| "accepted m (h # hs) = (if m < partition_lsn h then h # accepted (partition_lsn h) hs else accepted m hs)"

lemma accepted_none: "\<forall>h\<in>set hs. partition_lsn h \<le> m \<Longrightarrow> accepted m hs = []"
  by (induction hs) auto

lemma accepted_increasing: "sorted_wrt (<) (m # map partition_lsn (accepted m hs))"
  by (induction m hs rule: accepted.induct) (auto intro: order.strict_trans)

lemma accepted_append:
  "accepted m (gs @ hs) = accepted m gs
     @ accepted (if accepted m gs = [] then m else partition_lsn (last (accepted m gs))) hs"
  by (induction m gs rule: accepted.induct) auto

text \<open>A replay ends at the highest LSN of the watermark and the records.\<close>

lemma accepted_mark:
  "(if accepted m hs = [] then m else partition_lsn (last (accepted m hs))) = fold max (map partition_lsn hs) m"
  by (induction m hs rule: accepted.induct) (auto simp: max_def not_less)

lemma fold_max_ge: "(m::u64) \<le> fold max xs m"
  by (induction xs arbitrary: m) (auto intro: order_trans [OF max.cobounded2])

lemma fold_max_mem: "(x::u64) \<in> set xs \<Longrightarrow> x \<le> fold max xs m"
  by (induction xs arbitrary: m) (auto intro: order_trans [OF max.cobounded1 fold_max_ge])

text \<open>From records in order a replay takes those above the watermark.\<close>

lemma accepted_filter:
  "sorted_wrt (<) (map partition_lsn hs) \<Longrightarrow> accepted m hs = filter (\<lambda>h. m < partition_lsn h) hs"
proof (induction hs arbitrary: m)
  case (Cons h hs)
  show ?case
  proof (cases "m < partition_lsn h")
    case True
    have "filter (\<lambda>k. partition_lsn h < partition_lsn k) hs = filter (\<lambda>k. m < partition_lsn k) hs"
      by (rule filter_cong) (use Cons.prems True in \<open>auto dest: order.strict_trans\<close>)
    with True Cons show ?thesis by simp
  qed (use Cons in simp)
qed simp

locale watermark_log =
  fixes fits :: "PartWALHeader \<Rightarrow> bool"
    and own :: "PartWALHeader \<Rightarrow> bool"
    and ok :: "'s \<Rightarrow> bool"
    and adm :: "PartWALHeader list \<Rightarrow> 's \<Rightarrow> bool"
    and log :: "'s \<Rightarrow> PartWALHeader list"
    and app :: "PartWALHeader \<Rightarrow> 's \<Rightarrow> 's"
  assumes app_new: "fits h \<Longrightarrow> ok s \<Longrightarrow> adm (h # hs) s \<Longrightarrow> own h \<Longrightarrow> last_lsn (log s) < partition_lsn h \<Longrightarrow>
      ok (app h s) \<and> adm hs (app h s) \<and> log (app h s) = log s @ [h]"
    and app_skip: "fits h \<Longrightarrow> ok s \<Longrightarrow> \<not> (own h \<and> last_lsn (log s) < partition_lsn h) \<Longrightarrow>
      ok (app h s) \<and> log (app h s) = log s \<and> (adm hs s \<longrightarrow> adm hs (app h s))"
begin

text \<open>What a replay of \<open>hs\<close> adds to the log.\<close>

abbreviation news :: "PartWALHeader list \<Rightarrow> 's \<Rightarrow> PartWALHeader list" where
  "news hs s \<equiv> accepted (last_lsn (log s)) (filter own hs)"

lemma replay:
  assumes "list_all fits hs" and "ok s" and "adm (news hs s @ ks) s"
  shows "ok (fold app hs s)" and "adm ks (fold app hs s)"
    and "log (fold app hs s) = log s @ news hs s"
proof -
  have "ok (fold app hs s) \<and> adm ks (fold app hs s) \<and> log (fold app hs s) = log s @ news hs s"
    using assms
  proof (induction hs arbitrary: s)
    case Nil
    then show ?case by simp
  next
    case (Cons h hs)
    have fit: "fits h" "list_all fits hs" using Cons.prems(1) by simp_all
    show ?case
    proof (cases "own h \<and> last_lsn (log s) < partition_lsn h")
      case True
      have nw: "news (h # hs) s = h # accepted (partition_lsn h) (filter own hs)" using True by simp
      have adm: "adm (h # accepted (partition_lsn h) (filter own hs) @ ks) s" using Cons.prems(3) nw by simp
      have n: "ok (app h s)" "adm (accepted (partition_lsn h) (filter own hs) @ ks) (app h s)"
        "log (app h s) = log s @ [h]"
        using app_new [OF fit(1) Cons.prems(2) adm] True by auto
      have "last_lsn (log (app h s)) = partition_lsn h" by (simp add: n(3) last_lsn_def)
      with Cons.IH [OF fit(2) n(1)] n(2,3) show ?thesis unfolding nw by simp
    next
      case False
      then have nw: "news (h # hs) s = news hs s" by auto
      have k: "ok (app h s)" "log (app h s) = log s" "adm (news hs s @ ks) (app h s)"
        using app_skip [OF fit(1) Cons.prems(2) False] Cons.prems(3) nw by auto
      from Cons.IH [OF fit(2) k(1)] k show ?thesis unfolding nw by simp
    qed
  qed
  then show "ok (fold app hs s)" and "adm ks (fold app hs s)"
    and "log (fold app hs s) = log s @ news hs s" by blast+
qed

lemma replay_mark:
  assumes "list_all fits hs" and "ok s" and "adm (news hs s @ ks) s"
  shows "last_lsn (log (fold app hs s)) = fold max (map partition_lsn (filter own hs)) (last_lsn (log s))"
  using accepted_mark [of "last_lsn (log s)" "filter own hs"]
  unfolding replay(3) [OF assms] by (auto simp: last_lsn_def split: if_splits)

text \<open>Records that are all at or below the watermark change nothing.\<close>

lemma replay_old:
  assumes "list_all fits hs" and "ok s" and "\<forall>h\<in>set hs. own h \<longrightarrow> partition_lsn h \<le> last_lsn (log s)"
  shows "ok (fold app hs s) \<and> log (fold app hs s) = log s"
  using assms
proof (induction hs arbitrary: s)
  case (Cons h hs)
  then have "\<not> (own h \<and> last_lsn (log s) < partition_lsn h)" by auto
  with app_skip [OF _ Cons.prems(2) this] Cons show ?case by auto
qed simp

text \<open>Replaying the same records again changes nothing.\<close>

lemma replay_twice:
  assumes "list_all fits hs" and "ok s" and "adm (news hs s) s"
  shows "log (fold app hs (fold app hs s)) = log (fold app hs s)"
proof -
  have 1: "adm (news hs s @ []) s" using assms(3) by simp
  have "\<forall>h\<in>set hs. own h \<longrightarrow> partition_lsn h \<le> last_lsn (log (fold app hs s))"
    by (auto simp: replay_mark [OF assms(1,2) 1] intro: fold_max_mem)
  with replay_old [OF assms(1) replay(1) [OF assms(1,2) 1]] show ?thesis by blast
qed

text \<open>Of records in order, a log that holds the first ones accepts the rest.\<close>

lemma news_rest:
  assumes inc: "lsn_increasing (filter own hs)" and pre: "log s = take n (filter own hs)"
  shows "news hs s = drop n (filter own hs)"
proof -
  let ?hs = "filter own hs"
  have sorted: "sorted_wrt (<) (map partition_lsn ?hs)" using inc by (simp add: lsn_increasing_def)
  have "lsn_increasing (take n ?hs @ drop n ?hs)" using inc by simp
  then have split: "lsn_increasing (take n ?hs)" "lsn_increasing (drop n ?hs)"
    "\<forall>h\<in>set (take n ?hs). \<forall>k\<in>set (drop n ?hs). partition_lsn h < partition_lsn k"
    unfolding lsn_increasing_append by blast+
  have low: "filter (\<lambda>h. last_lsn (take n ?hs) < partition_lsn h) (take n ?hs) = []"
    using lsn_increasing_last [OF split(1)]
    by (simp add: filter_empty_conv not_less)
  have "last_lsn (take n ?hs) < partition_lsn k" if "k \<in> set (drop n ?hs)" for k
    using that split(3) lsn_increasing_pos [OF split(2)]
    by (cases "take n ?hs = []") (auto simp: last_lsn_def simp del: take_eq_Nil take_eq_Nil2)
  then have "filter (\<lambda>h. last_lsn (take n ?hs) < partition_lsn h) (drop n ?hs) = drop n ?hs"
    by (simp add: filter_id_conv)
  with low have "filter (\<lambda>h. last_lsn (take n ?hs) < partition_lsn h) (take n ?hs @ drop n ?hs) = drop n ?hs"
    by (simp only: filter_append append_Nil)
  with sorted show ?thesis by (simp add: accepted_filter pre)
qed

lemma replay_completes:
  assumes "list_all fits hs" and "ok s" and "lsn_increasing (filter own hs)" and "log s = take n (filter own hs)"
    and "adm (drop n (filter own hs)) s"
  shows "log (fold app hs s) = filter own hs"
  using replay(3) [of hs s "[]"] news_rest [OF assms(3,4)] assms by simp

end

section \<open>When records can be appended\<close>

text \<open>A run of records whose segments come in order from the newest file on, with at most 256 files.\<close>

definition admissible ::
    "(XLogRecPtr \<Rightarrow> XLogSegNo) \<Rightarrow> u64 \<Rightarrow> oid \<Rightarrow> PartWALHeader list \<Rightarrow> parwal_store \<Rightarrow> bool" where
  "admissible seg wss p hs s \<longleftrightarrow>
     sorted_wrt (\<lambda>g h. seg (orig_node_lsn g) \<le> seg (orig_node_lsn h)) hs \<and>
     (\<forall>h\<in>set hs. newest_seg wss p s (seg (orig_node_lsn h))) \<and>
     card (seg_names p s \<union> (\<lambda>h. XLogFileName 1 (seg (orig_node_lsn h)) wss) ` set hs) \<le> 256"

lemma admissible_room:
  assumes "admissible seg wss p (h # hs) s"
  shows "XLogFileName 1 (seg (orig_node_lsn h)) wss \<in> seg_names p s \<or> card (seg_names p s) < 256"
    and "newest_seg wss p s (seg (orig_node_lsn h))"
proof -
  let ?n = "XLogFileName 1 (seg (orig_node_lsn h)) wss"
  let ?all = "seg_names p s \<union> (\<lambda>h. XLogFileName 1 (seg (orig_node_lsn h)) wss) ` set (h # hs)"
  have "card (insert ?n (seg_names p s)) \<le> card ?all"
    by (rule card_mono) (use finite_seg_names [of p s] in auto)
  then have "card (insert ?n (seg_names p s)) \<le> 256" using assms by (simp add: admissible_def)
  then show "?n \<in> seg_names p s \<or> card (seg_names p s) < 256"
    using finite_seg_names [of p s] by (auto simp: card_insert_if split: if_splits)
  show "newest_seg wss p s (seg (orig_node_lsn h))" using assms by (simp add: admissible_def)
qed

lemma admissible_append:
  assumes adm: "admissible seg wss p (h # hs) s"
    and ap: "appended wss p (seg (orig_node_lsn h)) bs s s'" and val: "IsValidWalSegSize wss"
    and rng: "seg_in_range wss (seg (orig_node_lsn h))"
  shows "admissible seg wss p hs s'"
proof -
  have "newest_seg wss p s' (seg (orig_node_lsn k))" if "k \<in> set hs" for k
  proof (rule newest_seg_mono)
    show "newest_seg wss p s' (seg (orig_node_lsn h))"
      by (rule appended_newest [OF ap admissible_room(2) [OF adm] val rng])
    show "seg (orig_node_lsn h) \<le> seg (orig_node_lsn k)"
      using adm that by (simp add: admissible_def)
  qed
  then show ?thesis
    using adm by (simp add: admissible_def appended_names [OF ap])
qed

lemma admissible_cong: "seg_names p s' = seg_names p s \<Longrightarrow> admissible seg wss p hs s' = admissible seg wss p hs s"
  by (simp add: admissible_def newest_seg_def)

text \<open>Appending to another partition.\<close>

lemma appended_other_ok:
  assumes "appended wss q seg bs s s'" and "p \<noteq> q" and "part_ok wss p s"
  shows "part_ok wss p s'"
  using assms appended_other(2) [OF assms(1,2)]
  by (auto simp: part_ok_def appended_def all_readable_def same_frame_def)

end
