(* ===== verification/WalWriter.thy ===== *)
theory WalWriter
  imports PartitionLog
begin

text \<open>
  \<open>src/wal/partition_wal_writer.c\<close>: the buffered per-partition writer of the Demux worker.  The
  256 KB array and \<open>buf_used\<close> are the list of the bytes in use, \<open>fd\<close> is the inode of the open
  segment file.  The lemmas show that the buffer is never overrun, that without faults the
  writer is a refinement of appending each record to its segment file at once, and what a
  failed flush leaves behind.
\<close>

section \<open>State and operations\<close>

definition PARWAL_WRITER_BUFFER_SIZE :: nat where
  "PARWAL_WRITER_BUFFER_SIZE = 256 * 1024"

record PartitionWALWriter =
  w_partition_id :: oid
  w_fd :: "nat option"
  write_position :: u64
  last_partition_lsn :: u64
  current_segno :: XLogSegNo
  buffer :: bytes
  enospc_stalled :: bool

abbreviation buf_used :: "PartitionWALWriter \<Rightarrow> nat" where
  "buf_used w \<equiv> length (buffer w)"

text \<open>The segment of a record: that of its \<open>orig_node_lsn\<close>, and segment 1 where there is none.\<close>

definition record_segno :: "u64 \<Rightarrow> XLogRecPtr \<Rightarrow> XLogSegNo" where
  "record_segno wss lsn =
     (let segno = (if lsn = InvalidXLogRecPtr then 1 else XLByteToSeg lsn wss)
      in if segno = 0 then 1 else segno)"

definition OpenWriterSegment ::
    "PartitionWALWriter \<Rightarrow> XLogSegNo \<Rightarrow> u64 \<Rightarrow> parwal_store
       \<Rightarrow> (pg_error + unit) \<times> PartitionWALWriter \<times> parwal_store" where
  "OpenWriterSegment w segno wss s =
     (let (w1, s1) =
        (case w_fd w of
           None \<Rightarrow> (w, s)
         | Some i \<Rightarrow>
             (case fsync_fd s of
                (True, s') \<Rightarrow> (w\<lparr>w_fd := None\<rparr>, s')
              | (False, s') \<Rightarrow> (w\<lparr>w_fd := None\<rparr>, warn (WarnFsync (w_partition_id w)) s')))
      in case open_append (w_partition_id w) (XLogFileName 1 segno wss) s1 of
           (Inl e, s2) \<Rightarrow> (Inl ErrFileAccess, w1, s2)
         | (Inr i, s2) \<Rightarrow>
             (Inr (), w1\<lparr>w_fd := Some i, current_segno := segno, write_position := 0,
                        enospc_stalled := False\<rparr>, s2))"

definition CreatePartitionWALWriter ::
    "oid \<Rightarrow> parwal_store \<Rightarrow> (pg_error + PartitionWALWriter) \<times> parwal_store" where
  "CreatePartitionWALWriter p s =
     (case InitPartitionWALDirectory p s of
        (Inl e, s1) \<Rightarrow> (Inl e, s1)
      | (Inr _, s1) \<Rightarrow>
          (Inr \<lparr>w_partition_id = p, w_fd = None, write_position = 0,
               last_partition_lsn = GetLastWrittenPartitionLSN p s1, current_segno = 0,
               buffer = [], enospc_stalled = False\<rparr>, s1))"

lemma next_outcome_progress:
  "next_outcome s = (x, s') \<Longrightarrow>
     length (script s') < length (script s) \<or> script s = [] \<and> x = Succeed \<and> s' = s"
  by (auto simp: next_outcome_def split: list.splits)

lemma write_retry_progress:
  "write_retry i bs s = (r, s') \<Longrightarrow>
     length (script s') < length (script s) \<or> script s' = [] \<and> script s = [] \<and> r = Inr (length bs)"
proof (induction i bs s rule: write_retry.induct)
  case (1 i bs s)
  obtain r1 s1 where w: "write_fd i bs s = (r1, s1)" by fastforce
  have p: "length (script s1) < length (script s) \<or> script s1 = [] \<and> script s = [] \<and> r1 = Inr (length bs)"
    using w by (auto simp: write_fd_def next_outcome_def split: list.splits outcome.splits)
  show ?case
  proof (cases "r1 = Inl EINTR")
    case True
    with w "1.prems" have "write_retry i bs s1 = (r, s')" by (simp add: write_retry.simps [of i bs s])
    then have "length (script s') < length (script s1)
        \<or> script s' = [] \<and> script s1 = [] \<and> r = Inr (length bs)"
      using "1.IH" [OF w [symmetric]] True by blast
    with p True show ?thesis by auto
  next
    case False
    then have "write_retry i bs s = (r1, s1)"
      using w by (auto simp: write_retry.simps [of i bs s] split: sum.splits errno.splits)
    with "1.prems" p show ?thesis by auto
  qed
qed

text \<open>\<^verbatim>\<open>while (remaining > 0) { written = write(fd, ptr, remaining); ... }\<close>\<close>

function flush_loop :: "nat \<Rightarrow> bytes \<Rightarrow> parwal_store \<Rightarrow> pg_error option \<times> parwal_store" where
  "flush_loop i ptr s =
     (if ptr = [] then (None, s)
      else case write_retry i ptr s of
             (Inl e, s') \<Rightarrow> (if e = ENOSPC then (Some ErrDiskFull, s') else (Some ErrFileAccess, s'))
           | (Inr written, s') \<Rightarrow> flush_loop i (drop written ptr) s')"
  by pat_completeness auto
termination
  by (relation "measure (\<lambda>(i, ptr, s). length (script s) + length ptr)")
    (auto dest!: sym [of _ "write_retry _ _ _"] dest: write_retry_progress)

declare flush_loop.simps [simp del]

definition FlushPartitionWALWriter ::
    "PartitionWALWriter \<Rightarrow> parwal_store \<Rightarrow> (pg_error + unit) \<times> PartitionWALWriter \<times> parwal_store" where
  "FlushPartitionWALWriter w s =
     (if buf_used w = 0 then (Inr (), w, s)
      else case w_fd w of
             None \<Rightarrow> (Inr (), w, s)
           | Some i \<Rightarrow>
               (case flush_loop i (buffer w) s of
                  (Some e, s1) \<Rightarrow> (Inl e, w, s1)
                | (None, s1) \<Rightarrow>
                    let s2 = (case fsync_fd s1 of
                                (True, s') \<Rightarrow> s'
                              | (False, s') \<Rightarrow> warn (WarnFsync (w_partition_id w)) s')
                    in (Inr (), w\<lparr>write_position := write_position w + of_nat (buf_used w),
                                 buffer := []\<rparr>, s2)))"

definition buffer_record ::
    "PartitionWALWriter \<Rightarrow> PartWALHeader \<Rightarrow> PartitionWALWriter" where
  "buffer_record w header =
     w\<lparr>buffer := buffer w @ encode_header header, last_partition_lsn := partition_lsn header\<rparr>"

definition WritePartitionWAL ::
    "PartitionWALWriter \<Rightarrow> PartWALHeader \<Rightarrow> u64 \<Rightarrow> parwal_store
       \<Rightarrow> (pg_error + unit) \<times> PartitionWALWriter \<times> parwal_store" where
  "WritePartitionWAL w header wss s =
     (let new_segno = record_segno wss (orig_node_lsn header)
      in case (if current_segno w \<noteq> 0 \<and> new_segno \<noteq> current_segno w
               then (case FlushPartitionWALWriter w s of
                       (Inl e, w1, s1) \<Rightarrow> (Inl e, w1, s1)
                     | (Inr _, w1, s1) \<Rightarrow> OpenWriterSegment w1 new_segno wss s1)
               else if w_fd w = None then OpenWriterSegment w new_segno wss s
               else (Inr (), w, s)) of
           (Inl e, w2, s2) \<Rightarrow> (Inl e, w2, s2)
         | (Inr _, w2, s2) \<Rightarrow>
             (case (if buf_used w2 + sizeof_header > PARWAL_WRITER_BUFFER_SIZE
                    then FlushPartitionWALWriter w2 s2 else (Inr (), w2, s2)) of
                (Inl e, w3, s3) \<Rightarrow> (Inl e, w3, s3)
              | (Inr _, w3, s3) \<Rightarrow> (Inr (), buffer_record w3 header, s3)))"

definition DestroyPartitionWALWriter ::
    "PartitionWALWriter \<Rightarrow> parwal_store \<Rightarrow> (pg_error + unit) \<times> parwal_store" where
  "DestroyPartitionWALWriter w s =
     (case FlushPartitionWALWriter w s of
        (Inl e, w1, s1) \<Rightarrow> (Inl e, s1)
      | (Inr _, w1, s1) \<Rightarrow>
          (case w_fd w1 of
             None \<Rightarrow> (Inr (), s1)
           | Some i \<Rightarrow>
               (case fsync_fd s1 of
                  (True, s2) \<Rightarrow> (Inr (), s2)
                | (False, s2) \<Rightarrow> (Inr (), warn (WarnFsync (w_partition_id w)) s2))))"

section \<open>Every outcome\<close>

lemma record_segno_pos: "record_segno wss lsn \<noteq> 0"
  by (simp add: record_segno_def Let_def)

lemma record_segno_in_range:
  assumes "IsValidWalSegSize wss"
  shows "seg_in_range wss (record_segno wss lsn)"
proof -
  have "unat (1::u64) div n < 2 ^ 32" for n
    by (rule le_less_trans [OF div_le_dividend]) simp
  then show ?thesis
    using seg_of_lsn_in_range [OF assms, of lsn]
    by (auto simp: record_segno_def Let_def seg_in_range_def)
qed

lemma record_segno_mono:
  assumes "a \<le> b"
  shows "record_segno wss a \<le> record_segno wss b"
proof -
  have one: "1 \<le> x \<longleftrightarrow> x \<noteq> 0" for x :: u64
    using unat_gt_0 [of x] by (auto simp: word_le_nat_alt)
  show ?thesis
    using byte_to_seg_mono [OF assms(1), of wss] assms
    by (auto simp: record_segno_def Let_def one)
qed

lemma flush_outcomes:
  assumes "FlushPartitionWALWriter w s = (r, w', s')"
  shows "w' = w \<or> w' = w\<lparr>write_position := write_position w + of_nat (buf_used w), buffer := []\<rparr>"
    and "r = Inr () \<Longrightarrow> w_fd w \<noteq> None \<Longrightarrow> buffer w' = []"
    and "r = Inl e \<Longrightarrow> w' = w"
  using assms
  by (auto simp: FlushPartitionWALWriter_def Let_def split: if_splits option.splits prod.splits)

lemma open_outcomes:
  assumes "OpenWriterSegment w segno wss s = (r, w', s')"
  shows "buffer w' = buffer w" and "w_partition_id w' = w_partition_id w"
    and "last_partition_lsn w' = last_partition_lsn w"
    and "r = Inr () \<Longrightarrow> w_fd w' \<noteq> None \<and> current_segno w' = segno \<and> \<not> enospc_stalled w'"
    and "r = Inl e \<Longrightarrow> w' = w\<lparr>w_fd := None\<rparr>"
  using assms
  by (auto simp: OpenWriterSegment_def Let_def split: option.splits prod.splits bool.splits sum.splits)

text \<open>\<open>WritePartitionWAL\<close> in two halves: get to an open segment with room, then copy the record.\<close>

definition prepare_segment ::
    "PartitionWALWriter \<Rightarrow> XLogSegNo \<Rightarrow> u64 \<Rightarrow> parwal_store
       \<Rightarrow> (pg_error + unit) \<times> PartitionWALWriter \<times> parwal_store" where
  "prepare_segment w new_segno wss s =
     (if current_segno w \<noteq> 0 \<and> new_segno \<noteq> current_segno w
      then (case FlushPartitionWALWriter w s of
              (Inl e, w1, s1) \<Rightarrow> (Inl e, w1, s1)
            | (Inr _, w1, s1) \<Rightarrow> OpenWriterSegment w1 new_segno wss s1)
      else if w_fd w = None then OpenWriterSegment w new_segno wss s
      else (Inr (), w, s))"

lemma prepare_outcomes:
  assumes "prepare_segment w segno wss s = (r, w', s')"
  shows "r = Inr () \<Longrightarrow> w_fd w' \<noteq> None"
    and "buffer w' = buffer w \<or> buffer w' = []"
    and "last_partition_lsn w' = last_partition_lsn w"
    and "w_partition_id w' = w_partition_id w"
proof -
  obtain r1 w1 s1 where f: "FlushPartitionWALWriter w s = (r1, w1, s1)" by (metis prod_cases3)
  have *: "(r = Inr () \<longrightarrow> w_fd w' \<noteq> None) \<and> (buffer w' = buffer w \<or> buffer w' = [])
      \<and> last_partition_lsn w' = last_partition_lsn w \<and> w_partition_id w' = w_partition_id w"
  proof (cases "current_segno w \<noteq> 0 \<and> segno \<noteq> current_segno w")
    case True
    show ?thesis
    proof (cases r1)
      case (Inl e)
      with True f assms have "w' = w1" "r = Inl e" by (auto simp: prepare_segment_def)
      with Inl flush_outcomes(3) [OF f] show ?thesis by simp
    next
      case (Inr u)
      with True f assms have o: "OpenWriterSegment w1 segno wss s1 = (r, w', s')"
        by (simp add: prepare_segment_def)
      show ?thesis using open_outcomes [OF o] flush_outcomes(1) [OF f] by auto
    qed
  next
    case False
    show ?thesis
    proof (cases "w_fd w")
      case None
      with False assms have o: "OpenWriterSegment w segno wss s = (r, w', s')"
        by (auto simp: prepare_segment_def)
      show ?thesis using open_outcomes [OF o] by auto
    next
      case (Some i)
      with False assms show ?thesis by (auto simp: prepare_segment_def)
    qed
  qed
  then show "r = Inr () \<Longrightarrow> w_fd w' \<noteq> None" and "buffer w' = buffer w \<or> buffer w' = []"
    and "last_partition_lsn w' = last_partition_lsn w" and "w_partition_id w' = w_partition_id w"
    by auto
qed

lemma WritePartitionWAL_alt:
  "WritePartitionWAL w header wss s =
     (case prepare_segment w (record_segno wss (orig_node_lsn header)) wss s of
        (Inl e, w2, s2) \<Rightarrow> (Inl e, w2, s2)
      | (Inr _, w2, s2) \<Rightarrow>
          (case (if buf_used w2 + sizeof_header > PARWAL_WRITER_BUFFER_SIZE
                 then FlushPartitionWALWriter w2 s2 else (Inr (), w2, s2)) of
             (Inl e, w3, s3) \<Rightarrow> (Inl e, w3, s3)
           | (Inr _, w3, s3) \<Rightarrow> (Inr (), buffer_record w3 header, s3)))"
  by (simp add: WritePartitionWAL_def prepare_segment_def Let_def)

text \<open>The outcomes of buffering a record: an error before the copy, or the copy with room for it.\<close>

lemma WritePartitionWAL_outcomes:
  assumes "WritePartitionWAL w header wss s = (r, w', s')"
  shows "(\<exists>e. r = Inl e) \<and> last_partition_lsn w' = last_partition_lsn w
           \<and> (buffer w' = buffer w \<or> buffer w' = [])
         \<or> r = Inr () \<and> last_partition_lsn w' = partition_lsn header \<and> w_fd w' \<noteq> None
           \<and> (\<exists>old. (old = buffer w \<or> old = []) \<and> buffer w' = old @ encode_header header
                \<and> length old + sizeof_header \<le> PARWAL_WRITER_BUFFER_SIZE)"
proof -
  obtain r1 w1 s1 where p: "prepare_segment w (record_segno wss (orig_node_lsn header)) wss s = (r1, w1, s1)"
    by (metis prod_cases3)
  note po = prepare_outcomes [OF p]
  obtain r2 w2 s2 where f: "FlushPartitionWALWriter w1 s1 = (r2, w2, s2)" by (metis prod_cases3)
  show ?thesis
  proof (cases r1)
    case (Inl e)
    with p assms po show ?thesis by (simp add: WritePartitionWAL_alt) blast
  next
    case (Inr u)
    then have fd: "w_fd w1 \<noteq> None" using po(1) by simp
    show ?thesis
    proof (cases "buf_used w1 + sizeof_header > PARWAL_WRITER_BUFFER_SIZE")
      case False
      with Inr p assms have "r = Inr ()" "w' = buffer_record w1 header"
        by (simp_all add: WritePartitionWAL_alt)
      with False fd po(2) show ?thesis by (auto simp: buffer_record_def)
    next
      case full: True
      show ?thesis
      proof (cases r2)
        case (Inl e)
        with full Inr p f assms have "r = Inl e" "w' = w2" by (simp_all add: WritePartitionWAL_alt)
        with Inl flush_outcomes(3) [OF f] po show ?thesis by auto
      next
        case (Inr v)
        with full \<open>r1 = Inr u\<close> p f assms have "r = Inr ()" "w' = buffer_record w2 header"
          by (simp_all add: WritePartitionWAL_alt)
        moreover have "buffer w2 = []" using flush_outcomes(2) [OF f] Inr fd by simp
        moreover have "w_fd w2 \<noteq> None" using flush_outcomes(1) [OF f] fd by auto
        ultimately show ?thesis by (auto simp: buffer_record_def PARWAL_WRITER_BUFFER_SIZE_def)
      qed
    qed
  qed
qed

lemma WritePartitionWAL_id:
  assumes "WritePartitionWAL w header wss s = (r, w', s')"
  shows "w_partition_id w' = w_partition_id w"
proof -
  obtain r1 w1 s1 where p: "prepare_segment w (record_segno wss (orig_node_lsn header)) wss s = (r1, w1, s1)"
    by (metis prod_cases3)
  obtain r2 w2 s2 where f: "FlushPartitionWALWriter w1 s1 = (r2, w2, s2)" by (metis prod_cases3)
  have "w' \<in> {w1, w2, buffer_record w1 header, buffer_record w2 header}"
    using assms p f by (auto simp: WritePartitionWAL_alt split: sum.splits if_splits)
  with prepare_outcomes(4) [OF p] flush_outcomes(1) [OF f] show ?thesis
    by (auto simp: buffer_record_def)
qed

section \<open>No faults: the writer refines an unbuffered log\<close>

text \<open>The descriptor of a writer is the file its current segment names.\<close>

definition writer_inv :: "u64 \<Rightarrow> PartitionWALWriter \<Rightarrow> parwal_store \<Rightarrow> bool" where
  "writer_inv wss w s \<longleftrightarrow>
     script s = [] \<and> store_ok s \<and> part_dirs s (w_partition_id w) \<noteq> None \<and>
     buf_used w \<le> PARWAL_WRITER_BUFFER_SIZE \<and>
     (case w_fd w of
        None \<Rightarrow> buffer w = []
      | Some i \<Rightarrow> current_segno w \<noteq> 0 \<and> seg_in_range wss (current_segno w) \<and>
                 file_ino s (w_partition_id w) (XLogFileName 1 (current_segno w) wss) = Some i)"

text \<open>What a file will hold once the buffer is written: the abstraction of writer and store.\<close>

definition pending_content ::
    "u64 \<Rightarrow> PartitionWALWriter \<Rightarrow> parwal_store \<Rightarrow> oid \<Rightarrow> string \<Rightarrow> bytes option" where
  "pending_content wss w s q m =
     (if q = w_partition_id w \<and> w_fd w \<noteq> None \<and> m = XLogFileName 1 (current_segno w) wss
      then map_option (\<lambda>c. c @ buffer w) (file_content s q m)
      else file_content s q m)"

lemma flush_loop_faultless [faultless]:
  "script s = [] \<Longrightarrow> flush_loop i ptr s = (None, s\<lparr>inode := (inode s)(i := inode s i @ ptr)\<rparr>)"
  by (cases "ptr = []") (simp_all add: flush_loop.simps faultless)

lemma file_ino_inode_update [simp]: "file_ino (s\<lparr>inode := f\<rparr>) = file_ino s"
  by (intro ext) (simp add: file_ino_def)

lemma store_ok_inode_update [simp]: "store_ok (s\<lparr>inode := f\<rparr>) = store_ok s"
  by (simp add: store_ok_def)

lemma file_content_inode_update:
  assumes "store_ok s" and "file_ino s p n = Some i"
  shows "file_content (s\<lparr>inode := (inode s)(i := c)\<rparr>) q m =
     (if q = p \<and> m = n then Some c else file_content s q m)"
proof -
  have "file_ino s q m = Some i \<longleftrightarrow> q = p \<and> m = n" by (rule store_ok_inj [OF assms])
  then show ?thesis
    by (cases "file_ino s q m") (auto simp: file_content_def)
qed

lemma flush_faultless:
  assumes inv: "writer_inv wss w s"
  obtains w' s' where "FlushPartitionWALWriter w s = (Inr (), w', s')"
    and "writer_inv wss w' s'" and "buffer w' = []"
    and "pending_content wss w' s' = pending_content wss w s"
    and "same_frame s s'" and "part_dirs s' = part_dirs s"
    and "w_partition_id w' = w_partition_id w" and "last_partition_lsn w' = last_partition_lsn w"
    and "current_segno w' = current_segno w" and "enospc_stalled w' = enospc_stalled w"
    and "w_fd w' = w_fd w"
proof (cases "buffer w = []")
  case True
  then show thesis
    using inv by (intro that [of w s]) (auto simp: FlushPartitionWALWriter_def same_frame_def)
next
  case False
  then obtain i where i: "w_fd w = Some i"
      "file_ino s (w_partition_id w) (XLogFileName 1 (current_segno w) wss) = Some i"
    using inv by (auto simp: writer_inv_def split: option.splits)
  let ?s = "s\<lparr>inode := (inode s)(i := inode s i @ buffer w)\<rparr>"
  let ?w = "w\<lparr>write_position := write_position w + of_nat (buf_used w), buffer := []\<rparr>"
  have "FlushPartitionWALWriter w s = (Inr (), ?w, ?s)"
    using False i inv by (simp add: FlushPartitionWALWriter_def faultless writer_inv_def)
  moreover have "pending_content wss ?w ?s = pending_content wss w s"
    using inv i file_content_inode_update [of s "w_partition_id w" _ i "inode s i @ buffer w"]
    by (intro ext) (auto simp: pending_content_def writer_inv_def file_content_def)
  ultimately show thesis
    using inv i by (intro that [of ?w ?s]) (auto simp: writer_inv_def same_frame_def)
qed

lemma open_faultless:
  assumes inv: "writer_inv wss w s" and buf: "buffer w = []"
    and seg: "segno \<noteq> 0" "seg_in_range wss segno"
  obtains w' s' where "OpenWriterSegment w segno wss s = (Inr (), w', s')"
    and "writer_inv wss w' s'" and "buffer w' = []" and "current_segno w' = segno" and "w_fd w' \<noteq> None"
    and "\<And>q m. pending_content wss w' s' q m =
          (if q = w_partition_id w \<and> m = XLogFileName 1 segno wss
           then Some (case pending_content wss w s q m of None \<Rightarrow> [] | Some c \<Rightarrow> c)
           else pending_content wss w s q m)"
    and "same_frame s s'" and "\<And>q. q \<noteq> w_partition_id w \<Longrightarrow> part_dirs s' q = part_dirs s q"
    and "w_partition_id w' = w_partition_id w" and "last_partition_lsn w' = last_partition_lsn w"
    and "\<not> enospc_stalled w'"
proof -
  let ?p = "w_partition_id w" and ?n = "XLogFileName 1 segno wss"
  have ok: "store_ok s" "script s = []" "part_dirs s ?p \<noteq> None"
    using inv by (auto simp: writer_inv_def)
  obtain r s' where o: "open_append ?p ?n s = (r, s')" by fastforce
  with ok(2,3) obtain i where r: "r = Inr i"
    by (cases r) (auto dest: open_append_error(2))
  note e = open_append_effect [OF o [unfolded r] ok(1)]
  let ?w = "w\<lparr>w_fd := Some i, current_segno := segno, write_position := 0, enospc_stalled := False\<rparr>"
  have W: "OpenWriterSegment w segno wss s = (Inr (), ?w, s')"
    using o r ok by (simp add: OpenWriterSegment_def faultless Let_def split: option.splits)
  have ok': "store_ok s'" by (rule open_append_ok [OF o [unfolded r] ok(1)])
  have dirs: "part_dirs s' q = part_dirs s q" if "q \<noteq> ?p" for q
    using o that by (auto simp: open_append_def dest!: next_outcome_cases
        split: prod.splits outcome.splits option.splits)
  have dir: "part_dirs s' ?p \<noteq> None"
    using e(1) [of ?p ?n] by (auto simp: file_ino_def split: option.splits)
  have fc: "file_content s' q m = (if q = ?p \<and> m = ?n then Some (case file_content s q m of None \<Rightarrow> [] | Some c \<Rightarrow> c)
      else file_content s q m)" for q m
    using e(1) [of q m] e(2,3) store_ok_bound [OF ok(1), of q m]
    by (cases "file_ino s q m") (auto simp: file_content_def split: option.splits)
  have inv': "writer_inv wss ?w s'"
    using e(1) [of ?p ?n] e(7) ok ok' dir buf seg by (simp add: writer_inv_def)
  have pc: "pending_content wss w s q m = file_content s q m" for q m
    using buf by (auto simp: pending_content_def option.map_ident)
  have pc': "pending_content wss ?w s' q m = file_content s' q m" for q m
    using buf by (auto simp: pending_content_def option.map_ident)
  show thesis
    by (rule that [OF W inv']) (simp_all add: buf pc pc' fc e(4) dirs)
qed

text \<open>The abstract effect of one record: its image at the end of the file of its segment.\<close>

definition log_append ::
    "u64 \<Rightarrow> oid \<Rightarrow> PartWALHeader \<Rightarrow> (oid \<Rightarrow> string \<Rightarrow> bytes option) \<Rightarrow> oid \<Rightarrow> string \<Rightarrow> bytes option" where
  "log_append wss p header F q m =
     (if q = p \<and> m = XLogFileName 1 (record_segno wss (orig_node_lsn header)) wss
      then Some ((case F q m of None \<Rightarrow> [] | Some c \<Rightarrow> c) @ encode_header header)
      else F q m)"

lemma writer_inv_content:
  "writer_inv wss w s \<Longrightarrow> w_fd w \<noteq> None \<Longrightarrow>
     file_content s (w_partition_id w) (XLogFileName 1 (current_segno w) wss) \<noteq> None"
  by (auto simp: writer_inv_def file_content_def split: option.splits)

lemma prepare_faultless:
  assumes inv: "writer_inv wss w s" and seg: "segno \<noteq> 0" "seg_in_range wss segno"
  obtains w' s' where "prepare_segment w segno wss s = (Inr (), w', s')"
    and "writer_inv wss w' s'" and "current_segno w' = segno" and "w_fd w' \<noteq> None"
    and "\<And>q m. pending_content wss w' s' q m =
          (if q = w_partition_id w \<and> m = XLogFileName 1 segno wss
           then Some (case pending_content wss w s q m of None \<Rightarrow> [] | Some c \<Rightarrow> c)
           else pending_content wss w s q m)"
    and "same_frame s s'" and "\<And>q. q \<noteq> w_partition_id w \<Longrightarrow> part_dirs s' q = part_dirs s q"
    and "w_partition_id w' = w_partition_id w" and "enospc_stalled w' \<Longrightarrow> enospc_stalled w"
proof (cases "current_segno w \<noteq> 0 \<and> segno \<noteq> current_segno w")
  case True
  obtain w1 s1 where f: "FlushPartitionWALWriter w s = (Inr (), w1, s1)"
    "writer_inv wss w1 s1" "buffer w1 = []" "pending_content wss w1 s1 = pending_content wss w s"
    "same_frame s s1" "part_dirs s1 = part_dirs s" "w_partition_id w1 = w_partition_id w"
    "enospc_stalled w1 = enospc_stalled w"
    by (rule flush_faultless [OF inv]) blast
  obtain w2 s2 where o: "OpenWriterSegment w1 segno wss s1 = (Inr (), w2, s2)"
    "writer_inv wss w2 s2" "current_segno w2 = segno" "w_fd w2 \<noteq> None"
    "\<And>q m. pending_content wss w2 s2 q m =
          (if q = w_partition_id w1 \<and> m = XLogFileName 1 segno wss
           then Some (case pending_content wss w1 s1 q m of None \<Rightarrow> [] | Some c \<Rightarrow> c)
           else pending_content wss w1 s1 q m)"
    "same_frame s1 s2" "\<And>q. q \<noteq> w_partition_id w1 \<Longrightarrow> part_dirs s2 q = part_dirs s1 q"
    "w_partition_id w2 = w_partition_id w1" "\<not> enospc_stalled w2"
    by (rule open_faultless [OF f(2,3) seg]) blast
  have frame: "same_frame s s2" using f(5) o(6) by (simp add: same_frame_def)
  show thesis
    by (rule that [of w2 s2]) (use True f o frame in \<open>auto simp: prepare_segment_def\<close>)
next
  case False
  show thesis
  proof (cases "w_fd w")
    case None
    with inv have buf: "buffer w = []" by (simp add: writer_inv_def)
    have "prepare_segment w segno wss s = OpenWriterSegment w segno wss s"
      using False None by (auto simp: prepare_segment_def)
    with open_faultless [OF inv buf seg] that show thesis by (metis (no_types, lifting))
  next
    case (Some i)
    then have cur: "current_segno w = segno" using False inv by (auto simp: writer_inv_def)
    have "pending_content wss w s (w_partition_id w) (XLogFileName 1 segno wss) \<noteq> None"
      using writer_inv_content [OF inv] Some cur by (auto simp: pending_content_def)
    then show thesis
      using False Some cur inv
      by (intro that [of w s]) (auto simp: prepare_segment_def same_frame_def)
  qed
qed

text \<open>Copying a record into the buffer of an open writer with room appends it to what is pending.\<close>

lemma buffer_record_appends:
  assumes "writer_inv wss w s" and "w_fd w \<noteq> None" and "buf_used w + sizeof_header \<le> PARWAL_WRITER_BUFFER_SIZE"
    and "pending_content wss w s (w_partition_id w) (XLogFileName 1 (current_segno w) wss) \<noteq> None"
  shows "writer_inv wss (buffer_record w header) s"
    and "pending_content wss (buffer_record w header) s q m =
      (if q = w_partition_id w \<and> m = XLogFileName 1 (current_segno w) wss
       then map_option (\<lambda>c. c @ encode_header header) (pending_content wss w s q m)
       else pending_content wss w s q m)"
proof -
  show "writer_inv wss (buffer_record w header) s"
    using assms(1-3) by (auto simp: writer_inv_def buffer_record_def split: option.splits)
  have "file_content s (w_partition_id w) (XLogFileName 1 (current_segno w) wss) \<noteq> None"
    using assms(4) by (auto simp: pending_content_def split: if_splits)
  then show "pending_content wss (buffer_record w header) s q m =
      (if q = w_partition_id w \<and> m = XLogFileName 1 (current_segno w) wss
       then map_option (\<lambda>c. c @ encode_header header) (pending_content wss w s q m)
       else pending_content wss w s q m)"
    using assms(2) by (simp add: pending_content_def buffer_record_def option.map_comp o_def)
qed

lemma write_faultless:
  assumes inv: "writer_inv wss w s" and val: "IsValidWalSegSize wss"
  obtains w' s' where "WritePartitionWAL w header wss s = (Inr (), w', s')"
    and "writer_inv wss w' s'"
    and "pending_content wss w' s' = log_append wss (w_partition_id w) header (pending_content wss w s)"
    and "same_frame s s'" and "\<And>q. q \<noteq> w_partition_id w \<Longrightarrow> part_dirs s' q = part_dirs s q"
    and "w_partition_id w' = w_partition_id w" and "last_partition_lsn w' = partition_lsn header"
    and "current_segno w' = record_segno wss (orig_node_lsn header)"
    and "enospc_stalled w' \<Longrightarrow> enospc_stalled w"
proof -
  let ?seg = "record_segno wss (orig_node_lsn header)"
  obtain w1 s1 where p: "prepare_segment w ?seg wss s = (Inr (), w1, s1)"
    "writer_inv wss w1 s1" "current_segno w1 = ?seg" "w_fd w1 \<noteq> None"
    "\<And>q m. pending_content wss w1 s1 q m =
          (if q = w_partition_id w \<and> m = XLogFileName 1 ?seg wss
           then Some (case pending_content wss w s q m of None \<Rightarrow> [] | Some c \<Rightarrow> c)
           else pending_content wss w s q m)"
    "same_frame s s1" "\<And>q. q \<noteq> w_partition_id w \<Longrightarrow> part_dirs s1 q = part_dirs s q"
    "w_partition_id w1 = w_partition_id w" "enospc_stalled w1 \<Longrightarrow> enospc_stalled w"
    by (rule prepare_faultless [OF inv record_segno_pos record_segno_in_range [OF val]]) blast
  obtain w2 s2 where f: "FlushPartitionWALWriter w1 s1 = (Inr (), w2, s2)"
    "writer_inv wss w2 s2" "buffer w2 = []" "pending_content wss w2 s2 = pending_content wss w1 s1"
    "same_frame s1 s2" "part_dirs s2 = part_dirs s1" "w_partition_id w2 = w_partition_id w1"
    "current_segno w2 = current_segno w1" "w_fd w2 = w_fd w1" "enospc_stalled w2 = enospc_stalled w1"
    by (rule flush_faultless [OF p(2)]) blast
  note result = that
  have buffered: thesis
    if
      x: "WritePartitionWAL w header wss s = (Inr (), buffer_record w3 header, s3)"
      "writer_inv wss w3 s3" "current_segno w3 = ?seg" "w_fd w3 \<noteq> None"
      "pending_content wss w3 s3 = pending_content wss w1 s1" "same_frame s s3"
      "part_dirs s3 = part_dirs s1" "w_partition_id w3 = w_partition_id w"
      "buf_used w3 + sizeof_header \<le> PARWAL_WRITER_BUFFER_SIZE"
      "enospc_stalled w3 \<Longrightarrow> enospc_stalled w" for w3 s3
  proof (rule result [of "buffer_record w3 header" s3])
    show "WritePartitionWAL w header wss s = (Inr (), buffer_record w3 header, s3)" by (rule x(1))
    have "pending_content wss w3 s3 (w_partition_id w3) (XLogFileName 1 (current_segno w3) wss) \<noteq> None"
      using p(5) x(3,5,8) by simp
    note b = buffer_record_appends [OF x(2,4,9) this]
    show "writer_inv wss (buffer_record w3 header) s3" by (rule b(1))
    show "pending_content wss (buffer_record w3 header) s3
        = log_append wss (w_partition_id w) header (pending_content wss w s)"
      by (intro ext) (simp add: b(2) x(3,5,8) p(5) log_append_def)
  qed (use x p in \<open>auto simp: buffer_record_def\<close>)
  show thesis
  proof (cases "buf_used w1 + sizeof_header > PARWAL_WRITER_BUFFER_SIZE")
    case True
    show thesis
    proof (rule buffered [of w2 s2])
      show "WritePartitionWAL w header wss s = (Inr (), buffer_record w2 header, s2)"
        using True p(1) f(1) by (simp add: WritePartitionWAL_alt)
      show "same_frame s s2" using p(6) f(5) by (simp add: same_frame_def)
    qed (use f p in \<open>simp_all add: PARWAL_WRITER_BUFFER_SIZE_def\<close>)
  next
    case False
    show thesis
      by (rule buffered [of w1 s1]) (use False p in \<open>simp_all add: WritePartitionWAL_alt\<close>)
  qed
qed

lemma Create_faultless:
  assumes "script s = []" and "store_ok s"
  obtains w s' where "CreatePartitionWALWriter p s = (Inr w, s')" and "writer_inv wss w s'"
    and "w_partition_id w = p" and "last_partition_lsn w = GetLastWrittenPartitionLSN p s'"
    and "InitPartitionWALDirectory p s = (Inr (), s')" and "buffer w = []" and "w_fd w = None"
    and "current_segno w = 0" and "\<not> enospc_stalled w"
proof -
  obtain s' where i: "InitPartitionWALDirectory p s = (Inr (), s')" "script s' = []" "part_dirs s' p \<noteq> None"
    by (rule that, rule Init_faultless [OF assms]) (simp_all add: assms)
  have "store_ok s'" by (rule Init_ok [OF i(1) assms(2)])
  with i show thesis
    by (intro that [of "\<lparr>w_partition_id = p, w_fd = None, write_position = 0,
               last_partition_lsn = GetLastWrittenPartitionLSN p s', current_segno = 0,
               buffer = [], enospc_stalled = False\<rparr>" s'])
      (auto simp: CreatePartitionWALWriter_def writer_inv_def)
qed

section \<open>Properties\<close>

text \<open>A run of \<open>WritePartitionWAL\<close>, as far as the first error.\<close>

fun write_run ::
    "u64 \<Rightarrow> PartWALHeader list \<Rightarrow> PartitionWALWriter \<Rightarrow> parwal_store
       \<Rightarrow> (pg_error + unit) \<times> PartitionWALWriter \<times> parwal_store" where
  "write_run wss [] w s = (Inr (), w, s)"
| "write_run wss (h # hs) w s =
     (case WritePartitionWAL w h wss s of
        (Inl e, w1, s1) \<Rightarrow> (Inl e, w1, s1)
      | (Inr _, w1, s1) \<Rightarrow> write_run wss hs w1 s1)"

lemma write_run_faultless:
  assumes "writer_inv wss w s" and "IsValidWalSegSize wss"
  shows "\<exists>w' s'. write_run wss hs w s = (Inr (), w', s') \<and> writer_inv wss w' s' \<and>
    w_partition_id w' = w_partition_id w \<and>
    last_partition_lsn w' = (if hs = [] then last_partition_lsn w else partition_lsn (last hs)) \<and>
    pending_content wss w' s' = fold (log_append wss (w_partition_id w)) hs (pending_content wss w s)"
  using assms(1)
proof (induction hs arbitrary: w s)
  case (Cons h hs)
  obtain w1 s1 where 1: "WritePartitionWAL w h wss s = (Inr (), w1, s1)" "writer_inv wss w1 s1"
    "pending_content wss w1 s1 = log_append wss (w_partition_id w) h (pending_content wss w s)"
    "w_partition_id w1 = w_partition_id w" "last_partition_lsn w1 = partition_lsn h"
    by (rule write_faultless [OF Cons.prems assms(2)])
  from Cons.IH [OF 1(2)] 1 show ?case by auto
qed simp

lemma pending_flushed: "buffer w = [] \<Longrightarrow> pending_content wss w s = file_content s"
  by (intro ext) (auto simp: pending_content_def option.map_ident)

text \<open>C7: The buffered writer implements an unbuffered log.  Without faults, writing records and flushing
  leaves each segment file as if every record had been appended to its segment's file at once: in
  order, across segment switches, and across the flushes that a full buffer causes.\<close>

theorem writer_refines_log:
  assumes "writer_inv wss w s" and "IsValidWalSegSize wss" and "buffer w = []"
    and "write_run wss hs w s = (r, w1, s1)" and "FlushPartitionWALWriter w1 s1 = (r', w2, s2)"
  shows "r = Inr () \<and> r' = Inr () \<and>
    file_content s2 = fold (log_append wss (w_partition_id w)) hs (file_content s)"
proof -
  obtain w' s' where 1: "write_run wss hs w s = (Inr (), w', s')" "writer_inv wss w' s'"
    "pending_content wss w' s' = fold (log_append wss (w_partition_id w)) hs (pending_content wss w s)"
    using write_run_faultless [OF assms(1,2)] by blast
  obtain w'' s'' where 2: "FlushPartitionWALWriter w' s' = (Inr (), w'', s'')" "buffer w'' = []"
    "pending_content wss w'' s'' = pending_content wss w' s'"
    by (rule flush_faultless [OF 1(2)])
  from 1(1) assms(4) have "r = Inr ()" "w1 = w'" "s1 = s'" by simp_all
  moreover from this 2(1) assms(5) have "r' = Inr ()" "w2 = w''" "s2 = s''" by simp_all
  ultimately show ?thesis
    using 1(3) 2(2,3) assms(3) by (simp add: pending_flushed)
qed

theorem writer_refines_log_witness:
  "\<exists>w s w1 s1 w2 s2. CreatePartitionWALWriter 7 fresh_store = (Inr w, s) \<and>
     write_run 0x1000000 [new_header 7 1 0x1000028 1, new_header 7 1 0x2000028 2] w s = (Inr (), w1, s1) \<and>
     FlushPartitionWALWriter w1 s1 = (Inr (), w2, s2) \<and>
     file_content s2 7 (XLogFileName 1 2 0x1000000) = Some (encode_header (new_header 7 1 0x2000028 2))"
proof -
  obtain w s where c: "CreatePartitionWALWriter 7 fresh_store = (Inr w, s)" "writer_inv 0x1000000 w s"
    "w_partition_id w = 7" "InitPartitionWALDirectory 7 fresh_store = (Inr (), s)" "buffer w = []"
    by (rule Create_faultless [of fresh_store 7 "0x1000000"]) (simp_all add: fresh_store_ok)
  note v = wss_16MB
  let ?hs = "[new_header 7 1 0x1000028 1, new_header 7 1 0x2000028 2]"
  obtain r w1 s1 r' w2 s2 where run: "write_run 0x1000000 ?hs w s = (r, w1, s1)"
    "FlushPartitionWALWriter w1 s1 = (r', w2, s2)" by (metis prod_cases3)
  have fs: "file_content s 7 n = None" for n
    using Init_files(1) [OF c(4)] by (simp add: file_content_def) (simp add: file_ino_def fresh_store_def)
  have seg: "record_segno 0x1000000 (orig_node_lsn (new_header 7 1 0x1000028 1)) = 1"
    "record_segno 0x1000000 (orig_node_lsn (new_header 7 1 0x2000028 2)) = 2"
    by (simp_all add: new_header_def record_segno_def XLByteToSeg_def Let_def)
  have ne: "XLogFileName 1 2 0x1000000 \<noteq> XLogFileName 1 1 0x1000000"
    using segment_name_inj [OF v, of 2 1 1] record_segno_in_range [OF v, of "0x1000028"]
      record_segno_in_range [OF v, of "0x2000028"] seg by (simp add: new_header_def)
  show ?thesis
    using writer_refines_log [OF c(2) v c(5) run] run c(1,3) seg ne fs
    by (auto simp: log_append_def)
qed

lemma flush_loop_effect:
  "flush_loop i ptr s = (r, s') \<Longrightarrow>
     \<exists>k\<le>length ptr. same_files (s\<lparr>inode := (inode s)(i := inode s i @ take k ptr)\<rparr>) s' \<and> (r = None \<longrightarrow> k = length ptr)"
proof (induction i ptr s rule: flush_loop.induct)
  case (1 i ptr s)
  show ?case
  proof (cases "ptr = []")
    case True
    with "1.prems" show ?thesis by (simp add: flush_loop.simps)
  next
    case False
    obtain r1 s1 where w: "write_retry i ptr s = (r1, s1)" by fastforce
    obtain n where n: "same_files (s\<lparr>inode := (inode s)(i := inode s i @ take n ptr)\<rparr>) s1"
      "case r1 of Inl e \<Rightarrow> n = 0 | Inr k \<Rightarrow> k = min n (length ptr)" using write_retry_effect [OF w] by blast
    show ?thesis
    proof (cases r1)
      case (Inl e)
      with "1.prems" False w n show ?thesis
        by (intro exI [of _ 0]) (auto simp: flush_loop.simps split: if_splits)
    next
      case (Inr m)
      have m: "take n ptr = take m ptr" "m \<le> length ptr" using n(2) Inr by (auto simp: min_def)
      have "flush_loop i (drop m ptr) s1 = (r, s')"
        using "1.prems" False w Inr by (simp add: flush_loop.simps [of i ptr s])
      then obtain k where k: "k \<le> length (drop m ptr)"
        "same_files (s1\<lparr>inode := (inode s1)(i := inode s1 i @ take k (drop m ptr))\<rparr>) s'"
        "r = None \<longrightarrow> k = length (drop m ptr)"
        using "1.IH" [OF False w [symmetric] Inr] by blast
      have "same_files (s\<lparr>inode := (inode s)(i := inode s i @ take (m + k) ptr)\<rparr>) s'"
        using n(1) k(2) m(1) by (auto simp: same_files_def same_frame_def take_add)
      moreover have "m + k \<le> length ptr" and "r = None \<longrightarrow> m + k = length ptr" using k(1,3) m(2) by auto
      ultimately show ?thesis by blast
    qed
  qed
qed

text \<open>A flush that fails part of the way keeps its whole buffer: the bytes that reached the file before
  the error are there, and the next flush writes the buffer from its start again, behind them, so
  that records are repeated or torn.\<close>

theorem failed_flush_repeats:
  assumes "w_fd w = Some i" and "FlushPartitionWALWriter w s = (Inl e, w1, s1)"
    and "FlushPartitionWALWriter w1 (s1\<lparr>script := []\<rparr>) = (r, w2, s2)"
  shows "w1 = w \<and> r = Inr () \<and> buffer w2 = [] \<and>
    (\<exists>k\<le>buf_used w. inode s1 i = inode s i @ take k (buffer w) \<and> inode s2 i = inode s i @ take k (buffer w) @ buffer w)"
proof -
  have w1: "w1 = w" by (rule flush_outcomes(3) [OF assms(2) refl])
  have ne: "buffer w \<noteq> []" and fl: "flush_loop i (buffer w) s = (Some e, s1)"
    using assms(1,2) by (auto simp: FlushPartitionWALWriter_def Let_def split: if_splits prod.splits option.splits)
  obtain k where k: "k \<le> buf_used w" "same_files (s\<lparr>inode := (inode s)(i := inode s i @ take k (buffer w))\<rparr>) s1"
    using flush_loop_effect [OF fl] by blast
  have "inode s1 i = inode s i @ take k (buffer w)" using k(2) by (simp add: same_files_def)
  with w1 ne k(1) assms(1,3) show ?thesis
    by (auto simp: FlushPartitionWALWriter_def flush_loop_faultless fsync_faultless intro!: exI [of _ k])
qed

text \<open>Two records in the buffer, of which the disk takes the first.\<close>

definition full_disk_writer :: PartitionWALWriter where
  "full_disk_writer = \<lparr>w_partition_id = 7, w_fd = Some 0, write_position = 0, last_partition_lsn = 2, current_segno = 1,
     buffer = encode_header (new_header 7 1 0x1000028 1) @ encode_header (new_header 7 1 0x1000050 2), enospc_stalled = False\<rparr>"

theorem failed_flush_repeats_witness:
  "\<exists>s1 w2 s2. FlushPartitionWALWriter full_disk_writer (fresh_store\<lparr>script := [Partial 32, Fail ENOSPC]\<rparr>)
       = (Inl ErrDiskFull, full_disk_writer, s1) \<and>
     FlushPartitionWALWriter full_disk_writer (s1\<lparr>script := []\<rparr>) = (Inr (), w2, s2) \<and>
     read_headers (inode s2 0) = [new_header 7 1 0x1000028 1, new_header 7 1 0x1000028 1, new_header 7 1 0x1000050 2]"
proof -
  let ?s = "fresh_store\<lparr>script := [Partial 32, Fail ENOSPC]\<rparr>"
  let ?g = "new_header 7 1 0x1000028 1" and ?h = "new_header 7 1 0x1000050 2"
  let ?s1 = "fresh_store\<lparr>script := [], inode := (\<lambda>i. [])(0 := encode_header ?g)\<rparr>"
  have w: "w_fd full_disk_writer = Some 0" "buffer full_disk_writer = encode_header ?g @ encode_header ?h"
    by (simp_all add: full_disk_writer_def)
  have ne: "encode_header h \<noteq> []" for h using length_encode_header [of h] by fastforce
  have r1: "write_retry 0 (encode_header ?g @ encode_header ?h) ?s
      = (Inr 32, fresh_store\<lparr>script := [Fail ENOSPC], inode := (\<lambda>i. [])(0 := encode_header ?g)\<rparr>)"
    by (simp add: write_retry.simps write_fd_def next_outcome_def fresh_store_def)
  have r2: "write_retry 0 (encode_header ?h) (t\<lparr>script := [Fail ENOSPC], inode := f\<rparr>)
      = (Inl ENOSPC, t\<lparr>script := [], inode := f\<rparr>)" for t f
    by (simp add: write_retry.simps write_fd_def next_outcome_def)
  have f1: "FlushPartitionWALWriter full_disk_writer ?s = (Inl ErrDiskFull, full_disk_writer, ?s1)"
    by (simp add: FlushPartitionWALWriter_def w ne flush_loop.simps [of _ "encode_header ?g @ encode_header ?h"] r1
        flush_loop.simps [of _ "encode_header ?h"] r2)
  obtain r w2 s2 where f2: "FlushPartitionWALWriter full_disk_writer (?s1\<lparr>script := []\<rparr>) = (r, w2, s2)"
    by (metis prod_cases3)
  from failed_flush_repeats [OF w(1) f1 f2] have "r = Inr ()" "inode s2 0 = encode_header ?g @ encode_header ?g @ encode_header ?h"
    by (auto simp: w fresh_store_def)
  moreover have "read_headers (encode_header ?h) = [?h]" using read_headers_append [of ?h "[]"] by simp
  ultimately show ?thesis using f1 f2 by (intro exI [of _ ?s1] exI [of _ w2] exI [of _ s2]) simp
qed
end
