(* ===== verification/LsnAlloc.thy ===== *)
theory LsnAlloc
  imports PartitionLog
begin

text \<open>
  The shared-memory allocator of partition LSNs of \<open>src/wal/partition_wal.c\<close>: the table
  \<open>PartWALLSNHash\<close>, its initialisation, and \<open>AllocPartitionLSN\<close>, first as one call and then as
  the three critical sections it consists of, interleaved between any number of backends.
\<close>

section \<open>Shared memory\<close>

text \<open>\<open>PARTDIST_PARTITION_MAX_ENTRIES\<close> and the names, from \<open>include/\<close> and the source file.\<close>

definition PARTDIST_PARTITION_MAX_ENTRIES :: nat where
  "PARTDIST_PARTITION_MAX_ENTRIES = 1024"

definition PARTWAL_LOCK_TRANCHE :: string where
  "PARTWAL_LOCK_TRANCHE = ''pg_partdist_wal''"

text \<open>The lock of the shared state is the first lock of the named tranche.\<close>

record PartWALSharedState =
  lsn_lock :: string

text \<open>What exists in shared memory, and whether this process has its two pointers to it.\<close>

record partwal_memory =
  wal_state :: "PartWALSharedState option"
  lsn_hash :: "(oid, u64) htab option"
  partwal_shmem_set :: bool
  lsn_hash_set :: bool

datatype shmem_request = RequestAddinShmemSpace nat | RequestNamedLWLockTranche string nat

text \<open>\<open>add_size\<close> and \<open>hash_estimate_size\<close> are functions of the server: parameters.\<close>

definition PartitionWALShmemSize ::
    "(nat \<Rightarrow> nat \<Rightarrow> nat) \<Rightarrow> (nat \<Rightarrow> nat \<Rightarrow> nat) \<Rightarrow> nat" where
  "PartitionWALShmemSize add_size hash_estimate_size =
     (let sz = add_size 0 8
      in add_size sz (hash_estimate_size PARTDIST_PARTITION_MAX_ENTRIES 16))"

definition RequestPartitionWALShmem ::
    "(nat \<Rightarrow> nat \<Rightarrow> nat) \<Rightarrow> (nat \<Rightarrow> nat \<Rightarrow> nat) \<Rightarrow> shmem_request list" where
  "RequestPartitionWALShmem add_size hash_estimate_size =
     [RequestAddinShmemSpace (PartitionWALShmemSize add_size hash_estimate_size),
      RequestNamedLWLockTranche PARTWAL_LOCK_TRANCHE 1]"

definition PartitionWALShmemInit :: "partwal_memory \<Rightarrow> partwal_memory" where
  "PartitionWALShmemInit m =
     m\<lparr>wal_state := Some (case wal_state m of
                            None \<Rightarrow> \<lparr>lsn_lock = PARTWAL_LOCK_TRANCHE\<rparr>
                          | Some st \<Rightarrow> st),
       partwal_shmem_set := True,
       lsn_hash := Some (case lsn_hash m of
                           None \<Rightarrow> \<lparr>max_entries = PARTDIST_PARTITION_MAX_ENTRIES, entries = []\<rparr>
                         | Some h \<Rightarrow> h),
       lsn_hash_set := True\<rparr>"

section \<open>Allocation\<close>

text \<open>The last critical section: find or enter the entry, take its \<open>next_lsn\<close> and increment it.\<close>

definition alloc_enter ::
    "oid \<Rightarrow> u64 \<Rightarrow> (oid, u64) htab \<Rightarrow> (pg_error + u64) \<times> (oid, u64) htab" where
  "alloc_enter p init_lsn h =
     (let next_lsn = (case hash_find p h of Some n \<Rightarrow> n | None \<Rightarrow> init_lsn)
      in case hash_enter p (next_lsn + 1) h of
           Inl e \<Rightarrow> (Inl e, h)
         | Inr h' \<Rightarrow> (Inr next_lsn, h'))"

definition initial_lsn :: "oid \<Rightarrow> parwal_store \<Rightarrow> u64" where
  "initial_lsn p s = (let last = GetLastWrittenPartitionLSN p s in if last > 0 then last + 1 else 1)"

definition AllocPartitionLSN ::
    "oid \<Rightarrow> partwal_memory \<Rightarrow> parwal_store \<Rightarrow> (pg_error + u64) \<times> partwal_memory" where
  "AllocPartitionLSN p m s =
     (if \<not> partwal_shmem_set m \<or> \<not> lsn_hash_set m then (Inl ErrPrerequisite, m)
      else case lsn_hash m of
             None \<Rightarrow> (Inl ErrPrerequisite, m)
           | Some h \<Rightarrow>
               let found = (hash_find p h \<noteq> None);
                   init_lsn = (if \<not> found then initial_lsn p s else 1)
               in case alloc_enter p init_lsn h of
                    (r, h') \<Rightarrow> (r, m\<lparr>lsn_hash := Some h'\<rparr>))"

text \<open>The memory of an attached process.\<close>

definition alloc_ready :: "partwal_memory \<Rightarrow> bool" where
  "alloc_ready m \<longleftrightarrow> partwal_shmem_set m \<and> lsn_hash_set m \<and> (\<exists>h. lsn_hash m = Some h \<and> hash_inv h)"

text \<open>The next LSN of a partition: the entry's, or the one after the last on disk.\<close>

definition next_lsn_of :: "oid \<Rightarrow> partwal_memory \<Rightarrow> parwal_store \<Rightarrow> u64" where
  "next_lsn_of p m s =
     (case Option.bind (lsn_hash m) (hash_find p) of
        Some n \<Rightarrow> n
      | None \<Rightarrow> GetLastWrittenPartitionLSN p s + 1)"

text \<open>A process before \<open>PartitionWALShmemInit\<close>, in a server that has just started.\<close>

definition unattached :: partwal_memory where
  "unattached = \<lparr>wal_state = None, lsn_hash = None, partwal_shmem_set = False, lsn_hash_set = False\<rparr>"

lemma GetLastWritten_fresh: "GetLastWrittenPartitionLSN p fresh_store = 0"
  by (simp add: GetLastWrittenPartitionLSN_def opendir_def fresh_store_def)

lemma initial_lsn_eq: "initial_lsn p s = GetLastWrittenPartitionLSN p s + 1"
  by (auto simp: initial_lsn_def Let_def not_less word_le_0_iff)

lemma ShmemInit_ready:
  "lsn_hash m = None \<or> (\<exists>h. lsn_hash m = Some h \<and> hash_inv h) \<Longrightarrow> alloc_ready (PartitionWALShmemInit m)"
  by (auto simp: alloc_ready_def PartitionWALShmemInit_def hash_inv_def)

lemma alloc_enter_ok:
  assumes "hash_inv h" and "alloc_enter p i h = (Inr l, h')"
  shows "hash_inv h'" and "l = (case hash_find p h of Some n \<Rightarrow> n | None \<Rightarrow> i)"
    and "hash_find q h' = (if q = p then Some (l + 1) else hash_find q h)"
    and "max_entries h' = max_entries h"
  using assms ht.inv_enter [OF assms(1)] ht.find_enter [OF assms(1)]
  by (auto simp: alloc_enter_def Let_def hash_enter_def split: sum.splits if_splits)

lemma alloc_enter_error:
  assumes "alloc_enter p i h = (Inl e, h')"
  shows "h' = h" and "e = ErrOutOfSharedMemory" and "hash_find p h = None"
    and "max_entries h \<le> length (entries h)"
  using assms hash_enter_error [of p "(case hash_find p h of Some n \<Rightarrow> n | None \<Rightarrow> i) + 1" h e]
  by (auto simp: alloc_enter_def Let_def split: sum.splits)

lemma alloc_enter_found:
  assumes "hash_inv h" and "hash_find p h = Some n"
  obtains h' where "alloc_enter p i h = (Inr n, h')"
  using ht.enter_present [OF assms(1), of p "n + 1"] assms(2) that
  by (auto simp: alloc_enter_def)

text \<open>One call, on every branch.\<close>

lemma AllocPartitionLSN_outcome:
  assumes "alloc_ready m" and "AllocPartitionLSN p m s = (r, m')"
  shows "(r = Inr (next_lsn_of p m s) \<and> alloc_ready m' \<and>
          (\<forall>s'. next_lsn_of p m' s' = next_lsn_of p m s + 1) \<and>
          (\<forall>q s'. q \<noteq> p \<longrightarrow> next_lsn_of q m' s' = next_lsn_of q m s'))
       \<or> (r = Inl ErrOutOfSharedMemory \<and> m' = m \<and>
          (\<exists>h. lsn_hash m = Some h \<and> hash_find p h = None \<and> length (entries h) = max_entries h))"
proof -
  obtain h where h: "lsn_hash m = Some h" "hash_inv h" "partwal_shmem_set m" "lsn_hash_set m"
    using assms(1) by (auto simp: alloc_ready_def)
  let ?i = "if hash_find p h = None then initial_lsn p s else 1"
  obtain r1 h' where e: "alloc_enter p ?i h = (r1, h')" by fastforce
  have out: "r = r1" "m' = m\<lparr>lsn_hash := Some h'\<rparr>"
    using assms(2) h e by (auto simp: AllocPartitionLSN_def Let_def split: if_splits)
  show ?thesis
  proof (cases r1)
    case (Inl x)
    have "length (entries h) \<le> max_entries h" using h(2) by (simp add: hash_inv_def)
    with alloc_enter_error [OF e [unfolded Inl]] out Inl h(1) show ?thesis by auto
  next
    case (Inr l)
    note ok = alloc_enter_ok [OF h(2) e [unfolded Inr]]
    have "l = next_lsn_of p m s"
      using ok(2) h(1) by (simp add: next_lsn_of_def initial_lsn_eq split: option.splits)
    with ok out Inr h show ?thesis by (auto simp: next_lsn_of_def alloc_ready_def)
  qed
qed

section \<open>Interleaved allocations\<close>

text \<open>
  A backend inside \<open>AllocPartitionLSN\<close>: it has probed the table under the shared lock, it has
  its \<open>init_lsn\<close> (the disk is read with no lock held), or it is outside.  \<open>Write\<close> is any change
  of the store by the processes that write segment files: the mark of a partition stays, or
  becomes an LSN that was allocated.  \<open>issued\<close> records the results, oldest first.
\<close>

datatype alloc_pc = Outside | Probed oid bool | Entering oid u64

record alloc_state =
  table :: "(oid, u64) htab"
  store :: parwal_store
  pc :: "nat \<Rightarrow> alloc_pc"
  issued :: "oid \<Rightarrow> u64 list"

inductive alloc_step :: "alloc_state \<Rightarrow> alloc_state \<Rightarrow> bool" where
  Probe: "pc st b = Outside \<Longrightarrow>
     alloc_step st (st\<lparr>pc := (pc st)(b := Probed p (hash_find p (table st) \<noteq> None))\<rparr>)"
| Init_found: "pc st b = Probed p True \<Longrightarrow>
     alloc_step st (st\<lparr>pc := (pc st)(b := Entering p 1)\<rparr>)"
| Init_disk: "pc st b = Probed p False \<Longrightarrow>
     alloc_step st (st\<lparr>pc := (pc st)(b := Entering p (initial_lsn p (store st)))\<rparr>)"
| Enter: "pc st b = Entering p i \<Longrightarrow> alloc_enter p i (table st) = (Inr l, t) \<Longrightarrow>
     alloc_step st (st\<lparr>pc := (pc st)(b := Outside), table := t,
                       issued := (issued st)(p := issued st p @ [l])\<rparr>)"
| Enter_full: "pc st b = Entering p i \<Longrightarrow> alloc_enter p i (table st) = (Inl e, t) \<Longrightarrow>
     alloc_step st (st\<lparr>pc := (pc st)(b := Outside), table := t\<rparr>)"
| Write: "(\<And>p. GetLastWrittenPartitionLSN p s = GetLastWrittenPartitionLSN p (store st)
              \<or> GetLastWrittenPartitionLSN p s \<in> set (issued st p)) \<Longrightarrow>
     alloc_step st (st\<lparr>store := s\<rparr>)"

inductive_cases alloc_stepE: "alloc_step st st'"

text \<open>A server start: an empty table over the store that the last run left.\<close>

definition alloc_start :: "parwal_store \<Rightarrow> alloc_state" where
  "alloc_start s =
     \<lparr>table = \<lparr>max_entries = PARTDIST_PARTITION_MAX_ENTRIES, entries = []\<rparr>,
      store = s, pc = (\<lambda>b. Outside), issued = (\<lambda>p. [])\<rparr>"

inductive alloc_reachable :: "parwal_store \<Rightarrow> alloc_state \<Rightarrow> bool" for s where
  reach_start: "alloc_reachable s (alloc_start s)"
| reach_step: "alloc_reachable s st \<Longrightarrow> alloc_step st st' \<Longrightarrow> alloc_reachable s st'"

text \<open>The partition is in the table from its first allocation on; until then its mark is that of
  the start, and so is the \<open>init_lsn\<close> of every backend about to enter it.\<close>

definition alloc_inv :: "parwal_store \<Rightarrow> alloc_state \<Rightarrow> bool" where
  "alloc_inv s0 st \<longleftrightarrow>
     hash_inv (table st) \<and>
     (\<forall>p. hash_find p (table st) =
        (if issued st p = [] then None
         else Some (GetLastWrittenPartitionLSN p s0 + 1 + of_nat (length (issued st p))))) \<and>
     (\<forall>p k. k < length (issued st p) \<longrightarrow>
        issued st p ! k = GetLastWrittenPartitionLSN p s0 + 1 + of_nat k) \<and>
     (\<forall>p. issued st p = [] \<longrightarrow>
        GetLastWrittenPartitionLSN p (store st) = GetLastWrittenPartitionLSN p s0) \<and>
     (\<forall>b p i. pc st b = Entering p i \<longrightarrow> issued st p = [] \<longrightarrow> i = GetLastWrittenPartitionLSN p s0 + 1) \<and>
     (\<forall>b p. pc st b = Probed p True \<longrightarrow> issued st p \<noteq> [])"

lemma alloc_inv_start: "alloc_inv s (alloc_start s)"
  by (simp add: alloc_inv_def alloc_start_def hash_inv_def hash_find_def)

lemma alloc_inv_step:
  assumes inv: "alloc_inv s0 st" and step: "alloc_step st st'"
  shows "alloc_inv s0 st'"
  using step
proof cases
  case (Probe b p)
  with inv show ?thesis by (auto simp: alloc_inv_def)
next
  case (Init_found b p)
  with inv show ?thesis by (auto simp: alloc_inv_def)
next
  case (Init_disk b p)
  with inv show ?thesis by (auto simp: alloc_inv_def initial_lsn_eq)
next
  case (Enter b p i l t)
  have hi: "hash_inv (table st)" using inv by (simp add: alloc_inv_def)
  note e = alloc_enter_ok [OF hi Enter(3)]
  have l: "l = GetLastWrittenPartitionLSN p s0 + 1 + of_nat (length (issued st p))"
    using inv Enter(2) e(2) by (cases "issued st p = []") (auto simp: alloc_inv_def)
  have next_lsn: "hash_find q t = (if q = p then Some (l + 1) else hash_find q (table st))" for q
    by (rule e(3))
  show ?thesis
    using inv Enter(1) e(1) l
    by (auto simp: alloc_inv_def next_lsn nth_append less_Suc_eq)
next
  case (Enter_full b p i e t)
  with inv alloc_enter_error(1) [OF Enter_full(3)] show ?thesis by (auto simp: alloc_inv_def)
next
  case (Write s)
  have "GetLastWrittenPartitionLSN p s = GetLastWrittenPartitionLSN p (store st)" if "issued st p = []" for p
    using Write(2) [of p] that by simp
  with Write(1) inv show ?thesis by (simp add: alloc_inv_def)
qed

lemma alloc_reachable_inv: "alloc_reachable s st \<Longrightarrow> alloc_inv s st"
  by (induction rule: alloc_reachable.induct) (auto intro: alloc_inv_start alloc_inv_step)

lemma word_run_distinct:
  assumes "\<And>k. k < length xs \<Longrightarrow> xs ! k = (a::u64) + of_nat k" and "length xs \<le> 2 ^ 64"
  shows "distinct xs"
  unfolding distinct_conv_nth
proof (intro allI impI)
  fix i j
  assume ij: "i < length xs" "j < length xs" "i \<noteq> j"
  then have "i < 2 ^ LENGTH(64)" and "j < 2 ^ LENGTH(64)" using assms(2) by simp_all
  with ij assms(1) show "xs ! i \<noteq> xs ! j"
    by (metis add_left_cancel of_nat_inverse)
qed

section \<open>Properties\<close>

text \<open>On an attached process \<open>AllocPartitionLSN\<close> either returns the partition's next LSN, which
  is the one after the last record on disk when the partition is not in the table yet, advances it
  by one and leaves every other partition alone, or the table is full, the partition is not in it,
  and the call raises an error and changes nothing.\<close>

theorem AllocPartitionLSN_functional:
  assumes "alloc_ready m" and "AllocPartitionLSN p m s = (r, m')"
  shows "(r = Inr (next_lsn_of p m s) \<and> alloc_ready m' \<and>
          (\<forall>s'. next_lsn_of p m' s' = next_lsn_of p m s + 1) \<and>
          (\<forall>q s'. q \<noteq> p \<longrightarrow> next_lsn_of q m' s' = next_lsn_of q m s'))
       \<or> (r = Inl ErrOutOfSharedMemory \<and> m' = m \<and>
          (\<exists>h. lsn_hash m = Some h \<and> hash_find p h = None \<and> length (entries h) = max_entries h))"
  by (rule AllocPartitionLSN_outcome [OF assms])

theorem AllocPartitionLSN_functional_witness:
  "alloc_ready (PartitionWALShmemInit unattached) \<and>
   (\<exists>m'. AllocPartitionLSN 7 (PartitionWALShmemInit unattached) fresh_store = (Inr 1, m') \<and>
      next_lsn_of 7 m' fresh_store = 2)"
proof -
  let ?m = "PartitionWALShmemInit unattached"
  have ready: "alloc_ready ?m" by (rule ShmemInit_ready) (simp add: unattached_def)
  obtain r m' where a: "AllocPartitionLSN 7 ?m fresh_store = (r, m')" by fastforce
  have first: "next_lsn_of 7 ?m fresh_store = 1"
    by (simp add: next_lsn_of_def PartitionWALShmemInit_def unattached_def hash_find_def
        GetLastWritten_fresh)
  have room: "lsn_hash ?m = Some h \<Longrightarrow> length (entries h) \<noteq> max_entries h" for h
    by (auto simp: PartitionWALShmemInit_def unattached_def PARTDIST_PARTITION_MAX_ENTRIES_def)
  show ?thesis
    using AllocPartitionLSN_functional [OF ready a] ready a first room by auto
qed

text \<open>C4: However the critical sections of concurrent allocations interleave with each other and
  with the processes that write the segment files, the LSNs of a partition that a server run hands
  out are consecutive in the order in which they are handed out, start right after the last one on
  disk at the start of the run, and never repeat within 2^64 allocations.\<close>

theorem concurrent_alloc_distinct:
  assumes "alloc_reachable s st" and "length (issued st p) \<le> 2 ^ 64"
  shows "distinct (issued st p) \<and>
    (\<forall>k<length (issued st p). issued st p ! k = GetLastWrittenPartitionLSN p s + 1 + of_nat k)"
proof -
  have run: "issued st p ! k = GetLastWrittenPartitionLSN p s + 1 + of_nat k"
    if "k < length (issued st p)" for k
    using alloc_reachable_inv [OF assms(1)] that by (simp add: alloc_inv_def)
  with word_run_distinct [OF run assms(2)] show ?thesis by blast
qed

text \<open>Two backends that both probe the table before either has entered the partition.\<close>

lemma race_reachable:
  "\<exists>st. alloc_reachable fresh_store st \<and> issued st 7 = [1, 2]"
proof -
  let ?t1 = "\<lparr>max_entries = PARTDIST_PARTITION_MAX_ENTRIES, entries = [(7::oid, 2::u64)]\<rparr>"
  let ?t2 = "\<lparr>max_entries = PARTDIST_PARTITION_MAX_ENTRIES, entries = [(7::oid, 3::u64)]\<rparr>"
  let ?s0 = "alloc_start fresh_store"
  let ?s2 = "?s0\<lparr>pc := (\<lambda>b. Outside)(0 := Probed 7 False, 1 := Probed 7 False)\<rparr>"
  let ?s4 = "?s0\<lparr>pc := (\<lambda>b. Outside)(0 := Entering 7 1, 1 := Entering 7 1)\<rparr>"
  let ?s5 = "?s4\<lparr>pc := (\<lambda>b. Outside)(0 := Outside, 1 := Entering 7 1), table := ?t1, issued := (\<lambda>p. [])(7 := [1])\<rparr>"
  let ?s6 = "?s4\<lparr>pc := (\<lambda>b. Outside)(0 := Outside, 1 := Outside), table := ?t2, issued := (\<lambda>p. [])(7 := [1, 2])\<rparr>"
  note defs = alloc_start_def hash_find_def
  have "alloc_reachable fresh_store (?s0\<lparr>pc := (\<lambda>b. Outside)(0 := Probed 7 False)\<rparr>)"
    using reach_step [OF reach_start Probe [of ?s0 0 7]] by (simp add: defs)
  then have "alloc_reachable fresh_store ?s2"
    by (rule reach_step) (use Probe [of "?s0\<lparr>pc := (\<lambda>b. Outside)(0 := Probed 7 False)\<rparr>" 1 7] in \<open>simp add: defs\<close>)
  then have "alloc_reachable fresh_store (?s2\<lparr>pc := (\<lambda>b. Outside)(0 := Entering 7 1, 1 := Probed 7 False)\<rparr>)"
    by (rule reach_step)
      (use Init_disk [of ?s2 0 7] in \<open>simp add: defs initial_lsn_eq GetLastWritten_fresh fun_upd_twist\<close>)
  then have "alloc_reachable fresh_store ?s4"
    by (rule reach_step)
      (use Init_disk [of "?s2\<lparr>pc := (\<lambda>b. Outside)(0 := Entering 7 1, 1 := Probed 7 False)\<rparr>" 1 7]
       in \<open>simp add: defs initial_lsn_eq GetLastWritten_fresh\<close>)
  then have "alloc_reachable fresh_store ?s5"
    by (rule reach_step)
      (use Enter [of ?s4 0 7 1 1 ?t1]
       in \<open>simp add: defs alloc_enter_def hash_enter_def PARTDIST_PARTITION_MAX_ENTRIES_def fun_upd_twist\<close>)
  then have "alloc_reachable fresh_store ?s6"
    by (rule reach_step)
      (use Enter [of ?s5 1 7 1 2 ?t2]
       in \<open>simp add: defs alloc_enter_def hash_enter_def PARTDIST_PARTITION_MAX_ENTRIES_def fun_upd_twist\<close>)
  then show ?thesis by (intro exI [of _ ?s6]) simp
qed

theorem concurrent_alloc_distinct_witness:
  "\<exists>st. alloc_reachable fresh_store st \<and> length (issued st 7) = 2 \<and> distinct (issued st 7)"
proof -
  obtain st where st: "alloc_reachable fresh_store st" "issued st 7 = [1, 2]"
    using race_reachable by blast
  then show ?thesis using concurrent_alloc_distinct [OF st(1), of 7] by auto
qed

end
