(* ===== verification/WalRecords.thy ===== *)
theory WalRecords
  imports WatermarkLog WalWriter LsnAlloc
begin

unbundle bit_operations_syntax

text \<open>
  The WAL side of \<open>src/wal/partition_wal.c\<close>: \<open>WriteHeaderToFile\<close>, \<open>WritePartitionWALRecord\<close>,
  the callbacks of the custom resource manager, \<open>ResetPartitionWALState\<close> and the SQL functions
  over them.  The server's WAL is a parameter: a record of the functions the extension calls,
  with the documented behaviour of an insertion as the predicate \<open>wal_ops_ok\<close>.
\<close>

section \<open>The server's WAL\<close>

record wal_record =
  xl_rmid :: u8
  xl_info :: u8
  main_data :: bytes
  EndRecPtr :: XLogRecPtr

record 'w wal_ops =
  XLogInsertAllowed :: "'w \<Rightarrow> bool"
  XLogInsert :: "u8 \<Rightarrow> u8 \<Rightarrow> bytes \<Rightarrow> 'w \<Rightarrow> XLogRecPtr \<times> 'w"
  XLogFlush :: "XLogRecPtr \<Rightarrow> 'w \<Rightarrow> 'w"
  GetXLogInsertRecPtr :: "'w \<Rightarrow> XLogRecPtr"
  wal_records :: "'w \<Rightarrow> wal_record list"

text \<open>\<open>XLogInsert\<close> adds one record at the end of the WAL and returns its end; a flush adds none.\<close>

definition wal_ops_ok :: "'w wal_ops \<Rightarrow> bool" where
  "wal_ops_ok ops \<longleftrightarrow>
     (\<forall>rmid info data w lsn w'. XLogInsert ops rmid info data w = (lsn, w') \<longrightarrow>
        lsn \<noteq> InvalidXLogRecPtr \<and>
        wal_records ops w' = wal_records ops w
          @ [\<lparr>xl_rmid = rmid, xl_info = info, main_data = data, EndRecPtr = lsn\<rparr>]) \<and>
     (\<forall>lsn w. wal_records ops (XLogFlush ops lsn w) = wal_records ops w)"

text \<open>What the extension works on: its shared memory, the files, and the WAL.\<close>

record 'w server =
  memory :: partwal_memory
  files :: parwal_store
  wal :: 'w

definition RM_EXPERIMENTAL_ID :: u8 where
  "RM_EXPERIMENTAL_ID = 128"

definition XLR_INFO_MASK :: u8 where
  "XLR_INFO_MASK = 0x0F"

definition PARTWAL_RMGR_INFO_DATA :: u8 where
  "PARTWAL_RMGR_INFO_DATA = 0x00"

definition PARTWAL_RMGR_INFO_SKIP :: u8 where
  "PARTWAL_RMGR_INFO_SKIP = 0x10"

section \<open>Writing a record\<close>

text \<open>One header appended to its segment file, as crash recovery does it.\<close>

definition WriteHeaderToFile ::
    "u64 \<Rightarrow> PartWALHeader \<Rightarrow> parwal_store \<Rightarrow> (pg_error + unit) \<times> parwal_store" where
  "WriteHeaderToFile wss header s =
     (let segno = (if orig_node_lsn header = InvalidXLogRecPtr then 1
                   else XLByteToSeg (orig_node_lsn header) wss);
          segno = (if segno = 0 then 1 else segno)
      in case open_append (partition_id header) (XLogFileName 1 segno wss) s of
           (Inl e, s1) \<Rightarrow> (Inl ErrFileAccess, s1)
         | (Inr fd, s1) \<Rightarrow>
             (case write_retry fd (encode_header header) s1 of
                (Inl e, s2) \<Rightarrow> (Inl ErrFileAccess, s2)
              | (Inr written, s2) \<Rightarrow>
                  if written \<noteq> sizeof_header then (Inl ErrFileAccess, s2)
                  else (case fsync_fd s2 of
                          (True, s3) \<Rightarrow> (Inr (), s3)
                        | (False, s3) \<Rightarrow> (Inr (), warn (WarnFsync (partition_id header)) s3))))"

definition WritePartitionWALRecord ::
    "'w wal_ops \<Rightarrow> oid \<Rightarrow> u8 \<Rightarrow> XLogRecPtr \<Rightarrow> 'w server \<Rightarrow> (pg_error + XLogRecPtr) \<times> 'w server" where
  "WritePartitionWALRecord ops p flgs orig_lsn sv =
     (if \<not> XLogInsertAllowed ops (wal sv) then (Inr InvalidXLogRecPtr, sv)
      else case InitPartitionWALDirectory p (files sv) of
             (Inl e, s1) \<Rightarrow> (Inl e, sv\<lparr>files := s1\<rparr>)
           | (Inr _, s1) \<Rightarrow>
               (case AllocPartitionLSN p (memory sv) s1 of
                  (Inl e, m1) \<Rightarrow> (Inl e, sv\<lparr>files := s1, memory := m1\<rparr>)
                | (Inr lsn, m1) \<Rightarrow>
                    (case XLogInsert ops RM_EXPERIMENTAL_ID PARTWAL_RMGR_INFO_DATA
                            (encode_header (new_header p flgs orig_lsn lsn)) (wal sv) of
                       (custom_lsn, w1) \<Rightarrow>
                         (Inr custom_lsn,
                          sv\<lparr>files := s1, memory := m1, wal := XLogFlush ops custom_lsn w1\<rparr>))))"

section \<open>The custom resource manager\<close>

definition XLogRecGetInfo :: "wal_record \<Rightarrow> u8" where
  "XLogRecGetInfo r = xl_info r"

definition partdist_wal_redo ::
    "u64 \<Rightarrow> wal_record \<Rightarrow> parwal_store \<Rightarrow> (pg_error + unit) \<times> parwal_store" where
  "partdist_wal_redo wss r s =
     (let data_len = length (main_data r)
      in if data_len < sizeof_header then (Inr (), warn (WarnRecordTooShort data_len) s)
         else
           let header = decode_header (take sizeof_header (main_data r))
           in if magic header \<noteq> PARTWAL_MAGIC then (Inr (), warn (WarnBadMagic (magic header)) s)
              else
                let last = GetLastWrittenPartitionLSN (partition_id header) s
                in if partition_lsn header \<le> last then (Inr (), s)
                   else (case InitPartitionWALDirectory (partition_id header) s of
                           (Inl e, s1) \<Rightarrow> (Inl e, s1)
                         | (Inr _, s1) \<Rightarrow> WriteHeaderToFile wss header s1))"

text \<open>\<open>%X\<close>: hexadecimal without leading zeros.\<close>

fun hexX :: "nat \<Rightarrow> string" where
  "hexX n = (if n < 16 then [hexchars ! n] else hexX (n div 16) @ [hexchars ! (n mod 16)])"

declare hexX.simps [simp del]

text \<open>\<open>LSN_FORMAT_ARGS\<close> under \<open>%X/%08X\<close>: the high and the low half of the pointer.\<close>

definition format_lsn :: "XLogRecPtr \<Rightarrow> string" where
  "format_lsn lsn = hexX (unat lsn div 2 ^ 32) @ ''/'' @ hexn 8 (unat lsn mod 2 ^ 32)"

definition partdist_wal_desc :: "wal_record \<Rightarrow> string" where
  "partdist_wal_desc r =
     (let header = decode_header (take sizeof_header (main_data r));
          text = ''partition_id='' @ decimal (unat (partition_id header))
            @ '' partition_lsn='' @ decimal (unat (partition_lsn header))
            @ '' orig_lsn='' @ format_lsn (orig_node_lsn header)
            @ '' flags=0x'' @ hexn 2 (unat (flags header))
      in if XLogRecGetInfo r AND NOT XLR_INFO_MASK = PARTWAL_RMGR_INFO_SKIP
         then let skip = decode_skip (main_data r)
              in text @ '' skip_range=['' @ format_lsn (lsn_start skip) @ '', ''
                   @ format_lsn (lsn_end skip) @ '')''
         else text)"

definition partdist_wal_identify :: "u8 \<Rightarrow> string option" where
  "partdist_wal_identify info =
     (if info AND NOT XLR_INFO_MASK = PARTWAL_RMGR_INFO_DATA then Some ''PARTWAL_DATA''
      else if info AND NOT XLR_INFO_MASK = PARTWAL_RMGR_INFO_SKIP then Some ''PARTWAL_SKIP''
      else None)"

record RmgrData =
  rm_name :: string
  rm_redo :: "wal_record \<Rightarrow> parwal_store \<Rightarrow> (pg_error + unit) \<times> parwal_store"
  rm_desc :: "wal_record \<Rightarrow> string"
  rm_identify :: "u8 \<Rightarrow> string option"

definition PartdistRmgrData :: "u64 \<Rightarrow> RmgrData" where
  "PartdistRmgrData wss =
     \<lparr>rm_name = ''pg_partdist'', rm_redo = partdist_wal_redo wss, rm_desc = partdist_wal_desc,
      rm_identify = partdist_wal_identify\<rparr>"

text \<open>\<open>RegisterCustomRmgr\<close> fills a slot of the server's table of resource managers.\<close>

definition RegisterPartitionWALRmgr :: "u64 \<Rightarrow> (u8 \<Rightarrow> RmgrData option) \<Rightarrow> u8 \<Rightarrow> RmgrData option" where
  "RegisterPartitionWALRmgr wss rmgrs = rmgrs(RM_EXPERIMENTAL_ID := Some (PartdistRmgrData wss))"

section \<open>Reset and the SQL functions\<close>

definition ResetPartitionWALState :: "oid \<Rightarrow> 'w server \<Rightarrow> 'w server" where
  "ResetPartitionWALState p sv =
     (let m = memory sv;
          m1 = (if partwal_shmem_set m \<and> lsn_hash_set m
                then m\<lparr>lsn_hash := map_option (hash_remove p) (lsn_hash m)\<rparr> else m)
      in sv\<lparr>memory := m1, files := reset_files p (files sv)\<rparr>)"

definition pg_partdist_reset_partition_wal_state :: "oid \<Rightarrow> 'w server \<Rightarrow> (pg_error + unit) \<times> 'w server" where
  "pg_partdist_reset_partition_wal_state p sv = (Inr (), ResetPartitionWALState p sv)"

definition pg_partdist_init_partition_wal :: "oid \<Rightarrow> 'w server \<Rightarrow> (pg_error + unit) \<times> 'w server" where
  "pg_partdist_init_partition_wal p sv =
     (case InitPartitionWALDirectory p (files sv) of (r, s1) \<Rightarrow> (r, sv\<lparr>files := s1\<rparr>))"

definition pg_partdist_partition_wal_path :: "u64 \<Rightarrow> oid \<Rightarrow> i64 \<Rightarrow> string" where
  "pg_partdist_partition_wal_path wss p segno = GetPartitionWALPath p segno wss"

definition pg_partdist_cleanup_partition_wal ::
    "u64 \<Rightarrow> oid \<Rightarrow> XLogRecPtr \<Rightarrow> 'w server \<Rightarrow> (pg_error + unit) \<times> 'w server" where
  "pg_partdist_cleanup_partition_wal wss p keep_ptr sv =
     (case CleanupPartitionWAL p keep_ptr wss (files sv) of (r, s1) \<Rightarrow> (r, sv\<lparr>files := s1\<rparr>))"

definition pg_partdist_alloc_partition_lsn :: "oid \<Rightarrow> 'w server \<Rightarrow> (pg_error + i64) \<times> 'w server" where
  "pg_partdist_alloc_partition_lsn p sv =
     (case AllocPartitionLSN p (memory sv) (files sv) of (r, m1) \<Rightarrow> (r, sv\<lparr>memory := m1\<rparr>))"

text \<open>\<open>Inr None\<close> is SQL \<open>NULL\<close>; the flags are truncated to a byte.\<close>

definition pg_partdist_write_partition_wal_record ::
    "'w wal_ops \<Rightarrow> oid \<Rightarrow> i32 \<Rightarrow> 'w server \<Rightarrow> (pg_error + XLogRecPtr option) \<times> 'w server" where
  "pg_partdist_write_partition_wal_record ops p flags_arg sv =
     (let orig_lsn = GetXLogInsertRecPtr ops (wal sv)
      in case WritePartitionWALRecord ops p (ucast flags_arg) orig_lsn sv of
           (Inl e, sv1) \<Rightarrow> (Inl e, sv1)
         | (Inr lsn, sv1) \<Rightarrow> (Inr (if lsn = InvalidXLogRecPtr then None else Some lsn), sv1))"

section \<open>Recovery without faults\<close>

lemma WriteHeaderToFile_segno:
  "WriteHeaderToFile wss header s =
     (case open_append (partition_id header)
             (XLogFileName 1 (record_segno wss (orig_node_lsn header)) wss) s of
        (Inl e, s1) \<Rightarrow> (Inl ErrFileAccess, s1)
      | (Inr fd, s1) \<Rightarrow>
          (case write_retry fd (encode_header header) s1 of
             (Inl e, s2) \<Rightarrow> (Inl ErrFileAccess, s2)
           | (Inr written, s2) \<Rightarrow>
               if written \<noteq> sizeof_header then (Inl ErrFileAccess, s2)
               else (case fsync_fd s2 of
                       (True, s3) \<Rightarrow> (Inr (), s3)
                     | (False, s3) \<Rightarrow> (Inr (), warn (WarnFsync (partition_id header)) s3))))"
  by (simp add: WriteHeaderToFile_def record_segno_def Let_def)

lemma open_append_dirs:
  "open_append p n s = (r, s') \<Longrightarrow> q \<noteq> p \<Longrightarrow> part_dirs s' q = part_dirs s q"
  by (auto simp: open_append_def dest!: next_outcome_cases
      split: prod.splits outcome.splits option.splits)

lemma WriteHeader_faultless:
  assumes "script s = []" and "store_ok s" and "part_dirs s (partition_id h) \<noteq> None"
  obtains s' where "WriteHeaderToFile wss h s = (Inr (), s')" and "script s' = []"
    and "appended wss (partition_id h) (record_segno wss (orig_node_lsn h)) (encode_header h) s s'"
proof -
  let ?p = "partition_id h" and ?n = "XLogFileName 1 (record_segno wss (orig_node_lsn h)) wss"
  obtain r s1 where o: "open_append ?p ?n s = (r, s1)" by fastforce
  with assms obtain i where r: "r = Inr i" by (cases r) (auto dest: open_append_error(2))
  note e = open_append_effect [OF o [unfolded r] assms(2)]
  let ?s = "s1\<lparr>inode := (inode s1)(i := inode s1 i @ encode_header h)\<rparr>"
  have ok: "store_ok s1" by (rule open_append_ok [OF o [unfolded r] assms(2)])
  have i: "file_ino s1 ?p ?n = Some i" using e(1) by simp
  have fc1: "file_content s1 q m = (if q = ?p \<and> m = ?n then Some (case file_content s q m of None \<Rightarrow> [] | Some c \<Rightarrow> c)
      else file_content s q m)" for q m
    using e(1) [of q m] e(2,3) store_ok_bound [OF assms(2), of q m]
    by (cases "file_ino s q m") (auto simp: file_content_def split: option.splits)
  have ci: "file_content s1 ?p ?n = Some (inode s1 i)" using i by (simp add: file_content_def)
  have "appended wss ?p (record_segno wss (orig_node_lsn h)) (encode_header h) s ?s"
    unfolding appended_def
  proof (intro conjI allI impI)
    show "store_ok ?s" using ok by simp
    show "same_frame s ?s" using e(4) by (simp add: same_frame_def)
    show "part_dirs ?s q = part_dirs s q" if "q \<noteq> ?p" for q
      using open_append_dirs [OF o that] by simp
    show "file_content ?s q m = (if q = ?p \<and> m = ?n
        then Some ((case file_content s q m of None \<Rightarrow> [] | Some c \<Rightarrow> c) @ encode_header h)
        else file_content s q m)" for q m
      using file_content_inode_update [OF ok i, of _ q m] fc1 [of q m] ci by auto
  qed
  moreover have "WriteHeaderToFile wss h s = (Inr (), ?s)"
    using o r e(7) assms(1) by (simp add: WriteHeaderToFile_segno faultless)
  ultimately show thesis using e(7) assms(1) by (intro that [of ?s]) simp_all
qed

lemma appended_same_start:
  assumes "file_content s0 = file_content s" and "same_frame s0 s" and "\<And>q. q \<noteq> p \<Longrightarrow> part_dirs s q = part_dirs s0 q"
    and "appended wss p seg bs s s'"
  shows "appended wss p seg bs s0 s'"
  using assms by (auto simp: appended_def same_frame_def)

text \<open>The record of a header, and the three ways a redo of it can go.\<close>

definition redo_record :: "PartWALHeader \<Rightarrow> wal_record" where
  "redo_record h =
     \<lparr>xl_rmid = RM_EXPERIMENTAL_ID, xl_info = PARTWAL_RMGR_INFO_DATA, main_data = encode_header h, EndRecPtr = 0\<rparr>"

abbreviation redo :: "u64 \<Rightarrow> PartWALHeader \<Rightarrow> parwal_store \<Rightarrow> parwal_store" where
  "redo wss h s \<equiv> snd (partdist_wal_redo wss (redo_record h) s)"

lemma redo_faultless:
  assumes "script s = []" and "store_ok s"
  obtains (skipped) s' where "partdist_wal_redo wss (redo_record h) s = (Inr (), s')"
      and "same_files s s'" and "script s' = []"
      and "magic h \<noteq> PARTWAL_MAGIC \<or> partition_lsn h \<le> GetLastWrittenPartitionLSN (partition_id h) s"
  | (logged) s' where "partdist_wal_redo wss (redo_record h) s = (Inr (), s')" and "script s' = []"
      and "magic h = PARTWAL_MAGIC" and "GetLastWrittenPartitionLSN (partition_id h) s < partition_lsn h"
      and "appended wss (partition_id h) (record_segno wss (orig_node_lsn h)) (encode_header h) s s'"
proof (cases "magic h \<noteq> PARTWAL_MAGIC \<or> partition_lsn h \<le> GetLastWrittenPartitionLSN (partition_id h) s")
  case True
  show thesis
  proof (cases "magic h \<noteq> PARTWAL_MAGIC")
    case True
    then show thesis
      using assms by (intro skipped [of "warn (WarnBadMagic (magic h)) s"])
        (auto simp: partdist_wal_redo_def redo_record_def warn_def)
  next
    case False
    then show thesis
      using True assms by (intro skipped [of s]) (auto simp: partdist_wal_redo_def redo_record_def)
  qed
next
  case False
  let ?p = "partition_id h"
  obtain s1 where i: "InitPartitionWALDirectory ?p s = (Inr (), s1)"
    and i': "script s1 = []" "part_dirs s1 ?p \<noteq> None"
    by (rule that, rule Init_faultless [OF assms]) (simp_all add: assms)
  have ok1: "store_ok s1" by (rule Init_ok [OF i assms(2)])
  obtain s2 where w: "WriteHeaderToFile wss h s1 = (Inr (), s2)" "script s2 = []"
    "appended wss ?p (record_segno wss (orig_node_lsn h)) (encode_header h) s1 s2"
    by (rule WriteHeader_faultless [OF i'(1) ok1 i'(2)])
  have "file_content s = file_content s1"
    using Init_files(1,2) [OF i] by (intro ext) (simp add: file_content_def)
  moreover have "part_dirs s1 q = part_dirs s q" if "q \<noteq> ?p" for q
    using i that assms by (auto simp: Init_faultless)
  ultimately have "appended wss ?p (record_segno wss (orig_node_lsn h)) (encode_header h) s s2"
    using Init_files(4) [OF i] w(3) by (intro appended_same_start [of s s1]) auto
  moreover have "partdist_wal_redo wss (redo_record h) s = (Inr (), s2)"
    using False i w by (auto simp: partdist_wal_redo_def redo_record_def not_le)
  ultimately show thesis using False w by (intro logged [of s2]) (auto simp: not_le)
qed

section \<open>Recovery as a watermark log\<close>

text \<open>A partition as recovery finds it: whole records of its own, with growing LSNs.\<close>

definition recovery_ok :: "u64 \<Rightarrow> oid \<Rightarrow> parwal_store \<Rightarrow> bool" where
  "recovery_ok wss p s \<longleftrightarrow>
     IsValidWalSegSize wss \<and> script s = [] \<and> part_ok wss p s \<and> wf_log p (scan_headers p s)"

lemma own_append_log:
  assumes ok: "IsValidWalSegSize wss" "part_ok wss p s" "wf_log p (scan_headers p s)"
    and adm: "admissible (record_segno wss) wss p (h # hs) s" and own: "own_record p h"
    and new: "last_lsn (scan_headers p s) < partition_lsn h"
    and ap: "appended wss p (record_segno wss (orig_node_lsn h)) (encode_header h) s s'"
  shows "part_ok wss p s'" and "scan_headers p s' = scan_headers p s @ [h]"
    and "wf_log p (scan_headers p s')" and "admissible (record_segno wss) wss p hs s'"
proof -
  note rng = record_segno_in_range [OF ok(1), of "orig_node_lsn h"]
  note room = admissible_room [OF adm]
  have one: "read_headers (encode_header h) = [h]" using read_headers_append [of h "[]"] by simp
  show "part_ok wss p s'" by (rule appended_part_ok [OF ok(2) ap rng _ room(1)]) simp
  show sc: "scan_headers p s' = scan_headers p s @ [h]"
    using appended_scan [OF ok(2) ap ok(1) rng _ room] one by simp
  show "wf_log p (scan_headers p s')" using ok(3) own new by (simp add: sc wf_log_snoc)
  show "admissible (record_segno wss) wss p hs s'"
    by (rule admissible_append [OF adm ap ok(1) rng])
qed

lemma recovery_mark:
  "recovery_ok wss p s \<Longrightarrow> GetLastWrittenPartitionLSN p s = last_lsn (scan_headers p s)"
  by (intro GetLastWritten_scan) (simp add: recovery_ok_def)

lemma redo_new:
  assumes ok: "recovery_ok wss p s" and adm: "admissible (record_segno wss) wss p (h # hs) s"
    and own: "own_record p h" and new: "last_lsn (scan_headers p s) < partition_lsn h"
  shows "recovery_ok wss p (redo wss h s) \<and> admissible (record_segno wss) wss p hs (redo wss h s)
    \<and> scan_headers p (redo wss h s) = scan_headers p s @ [h]"
proof -
  have s: "script s = []" "store_ok s" using ok by (auto simp: recovery_ok_def part_ok_def)
  show ?thesis
  proof (cases rule: redo_faultless [OF s, of wss h])
    case (1 s')
    with own new recovery_mark [OF ok] show ?thesis by (auto simp: own_record_def)
  next
    case (2 s')
    have ap: "appended wss p (record_segno wss (orig_node_lsn h)) (encode_header h) s s'"
      using 2(5) own by (simp add: own_record_def)
    show ?thesis
      using own_append_log [OF _ _ _ adm own new ap] ok 2(1,2) by (simp add: recovery_ok_def)
  qed
qed

lemma redo_skip:
  assumes ok: "recovery_ok wss p s" and old: "\<not> (own_record p h \<and> last_lsn (scan_headers p s) < partition_lsn h)"
  shows "recovery_ok wss p (redo wss h s) \<and> scan_headers p (redo wss h s) = scan_headers p s
    \<and> seg_names p (redo wss h s) = seg_names p s"
proof -
  have s: "script s = []" "store_ok s" using ok by (auto simp: recovery_ok_def part_ok_def)
  show ?thesis
  proof (cases rule: redo_faultless [OF s, of wss h])
    case (1 s')
    with ok same_files_content [OF 1(2)] show ?thesis by (simp add: recovery_ok_def)
  next
    case (2 s')
    then have "p \<noteq> partition_id h" using old recovery_mark [OF ok] by (auto simp: own_record_def)
    with 2 ok appended_other [OF 2(5) this] appended_other_ok [OF 2(5) this] show ?thesis
      by (simp add: recovery_ok_def)
  qed
qed

interpretation rec: watermark_log "\<lambda>h. True" "own_record p" "recovery_ok wss p"
    "admissible (record_segno wss) wss p" "scan_headers p" "redo wss" for wss p
proof
  show "recovery_ok wss p (redo wss h s) \<and> admissible (record_segno wss) wss p hs (redo wss h s)
      \<and> scan_headers p (redo wss h s) = scan_headers p s @ [h]"
    if "recovery_ok wss p s" "admissible (record_segno wss) wss p (h # hs) s" "own_record p h"
      "last_lsn (scan_headers p s) < partition_lsn h" for s h hs
    using that by (rule redo_new)
  show "recovery_ok wss p (redo wss h s) \<and> scan_headers p (redo wss h s) = scan_headers p s
      \<and> (admissible (record_segno wss) wss p hs s \<longrightarrow> admissible (record_segno wss) wss p hs (redo wss h s))"
    if "recovery_ok wss p s" "\<not> (own_record p h \<and> last_lsn (scan_headers p s) < partition_lsn h)" for s h hs
    using redo_skip [OF that] admissible_cong [of p "redo wss h s" s] by simp
qed

section \<open>Writing, and the sequence of LSNs\<close>

lemma GetLast_Init:
  assumes "InitPartitionWALDirectory q s = (r, s')"
  shows "GetLastWrittenPartitionLSN p s' = GetLastWrittenPartitionLSN p s"
proof -
  note f = Init_files [OF assms]
  have frame: "unreadable_dir s' = unreadable_dir s" "unreadable s' = unreadable s"
    using f(4) by (auto simp: same_frame_def)
  have loop: "last_lsn_loop p names s' k = last_lsn_loop p names s k" for names k
    by (induction names arbitrary: k)
      (auto simp: open_rdonly_def file_content_def f(1,2) frame split: option.splits)
  have names: "file_ino s p n = None" if "part_dirs s p = None" for n
    using that by (simp add: file_ino_def)
  show ?thesis
  proof (cases "part_dirs s p")
    case (Some d)
    then have "part_dirs s' p = part_dirs s p" by (intro f(5)) simp
    then show ?thesis by (simp add: GetLastWrittenPartitionLSN_def opendir_def frame loop Let_def split: option.splits)
  next
    case None
    have "d = []" if d: "part_dirs s' p = Some d" for d
    proof (rule ccontr)
      assume "d \<noteq> []"
      then obtain n i rest where "d = (n, i) # rest" by (metis neq_Nil_conv surj_pair)
      then have "map_of d n = Some i" by simp
      then show False using d names [OF None, of n] fun_cong [OF fun_cong [OF f(1)], of p n]
        by (simp add: file_ino_def)
    qed
    then show ?thesis
      using None by (auto simp: GetLastWrittenPartitionLSN_def opendir_def split: option.splits)
  qed
qed

lemma next_lsn_Init:
  assumes "InitPartitionWALDirectory q s = (r, s')"
  shows "next_lsn_of p m s' = next_lsn_of p m s"
  by (simp add: next_lsn_of_def GetLast_Init [OF assms] split: option.split)

text \<open>The header a WAL record of the resource manager carries.\<close>

definition wal_headers :: "'w wal_ops \<Rightarrow> 'w \<Rightarrow> PartWALHeader list" where
  "wal_headers ops w =
     map (\<lambda>r. decode_header (take sizeof_header (main_data r)))
       (filter (\<lambda>r. xl_rmid r = RM_EXPERIMENTAL_ID \<and> sizeof_header \<le> length (main_data r)) (wal_records ops w))"

lemma WritePartitionWALRecord_outcome:
  assumes "wal_ops_ok ops" and "alloc_ready (memory sv)" and "XLogInsertAllowed ops (wal sv)"
    and "WritePartitionWALRecord ops p flgs orig_lsn sv = (r, sv')"
  shows "file_content (files sv') = file_content (files sv) \<and>
    (case r of
       Inr lsn \<Rightarrow>
         lsn \<noteq> InvalidXLogRecPtr \<and> alloc_ready (memory sv') \<and>
         wal_records ops (wal sv') = wal_records ops (wal sv)
           @ [\<lparr>xl_rmid = RM_EXPERIMENTAL_ID, xl_info = PARTWAL_RMGR_INFO_DATA,
               main_data = encode_header (new_header p flgs orig_lsn (next_lsn_of p (memory sv) (files sv))),
               EndRecPtr = lsn\<rparr>] \<and>
         next_lsn_of p (memory sv') (files sv') = next_lsn_of p (memory sv) (files sv) + 1 \<and>
         (\<forall>q. q \<noteq> p \<longrightarrow> next_lsn_of q (memory sv') (files sv') = next_lsn_of q (memory sv) (files sv))
     | Inl e \<Rightarrow> memory sv' = memory sv \<and> wal sv' = wal sv)"
proof -
  obtain ri s1 where i: "InitPartitionWALDirectory p (files sv) = (ri, s1)" by fastforce
  have fc: "file_content s1 = file_content (files sv)"
    using Init_files(1,2) [OF i] by (intro ext) (simp add: file_content_def)
  obtain ra m1 where a: "AllocPartitionLSN p (memory sv) s1 = (ra, m1)" by fastforce
  note af = AllocPartitionLSN_outcome [OF assms(2) a]
  note nl = next_lsn_Init [OF i]
  show ?thesis
  proof (cases ri)
    case (Inl e)
    with assms(3,4) i fc show ?thesis by (auto simp: WritePartitionWALRecord_def)
  next
    case (Inr u)
    show ?thesis
    proof (cases ra)
      case err: (Inl e)
      with assms(3,4) i Inr a fc af show ?thesis by (auto simp: WritePartitionWALRecord_def)
    next
      case got: (Inr l)
      obtain c w1 where x: "XLogInsert ops RM_EXPERIMENTAL_ID PARTWAL_RMGR_INFO_DATA
          (encode_header (new_header p flgs orig_lsn l)) (wal sv) = (c, w1)" by fastforce
      have "sv' = sv\<lparr>files := s1, memory := m1, wal := XLogFlush ops c w1\<rparr>" "r = Inr c"
        using assms(3,4) i Inr a got x by (auto simp: WritePartitionWALRecord_def)
      moreover have "wal_records ops (XLogFlush ops c w1) = wal_records ops (wal sv)
          @ [\<lparr>xl_rmid = RM_EXPERIMENTAL_ID, xl_info = PARTWAL_RMGR_INFO_DATA,
              main_data = encode_header (new_header p flgs orig_lsn l), EndRecPtr = c\<rparr>]" "c \<noteq> InvalidXLogRecPtr"
        using assms(1) x unfolding wal_ops_ok_def by auto
      moreover have "l = next_lsn_of p (memory sv) (files sv)" using af got nl by simp
      ultimately show ?thesis using af got fc nl by auto
    qed
  qed
qed

text \<open>C9: A call of \<open>WritePartitionWALRecord\<close> where WAL may be inserted either adds exactly one
  record to the WAL, whose payload is the header with the partition's next LSN and the LSN it
  returns, consumes that LSN, and writes no segment file; or it raises, and then the WAL, the LSN
  counter and the segment files are as before.\<close>

theorem WritePartitionWALRecord_functional:
  assumes "wal_ops_ok ops" and "alloc_ready (memory sv)" and "XLogInsertAllowed ops (wal sv)"
    and "WritePartitionWALRecord ops p flgs orig_lsn sv = (r, sv')"
  shows "file_content (files sv') = file_content (files sv) \<and>
    (case r of
       Inr lsn \<Rightarrow>
         lsn \<noteq> InvalidXLogRecPtr \<and> alloc_ready (memory sv') \<and>
         wal_records ops (wal sv') = wal_records ops (wal sv)
           @ [\<lparr>xl_rmid = RM_EXPERIMENTAL_ID, xl_info = PARTWAL_RMGR_INFO_DATA,
               main_data = encode_header (new_header p flgs orig_lsn (next_lsn_of p (memory sv) (files sv))),
               EndRecPtr = lsn\<rparr>] \<and>
         next_lsn_of p (memory sv') (files sv') = next_lsn_of p (memory sv) (files sv) + 1 \<and>
         (\<forall>q. q \<noteq> p \<longrightarrow> next_lsn_of q (memory sv') (files sv') = next_lsn_of q (memory sv) (files sv))
     | Inl e \<Rightarrow> memory sv' = memory sv \<and> wal sv' = wal sv)"
  by (rule WritePartitionWALRecord_outcome [OF assms])

text \<open>A WAL for the examples: a list of records, 40 bytes each.\<close>

definition list_end :: "wal_record list \<Rightarrow> XLogRecPtr" where
  "list_end w = (if w = [] then 8 else EndRecPtr (last w))"

definition list_next :: "wal_record list \<Rightarrow> XLogRecPtr" where
  "list_next w = (if list_end w + 40 = 0 then 1 else list_end w + 40)"

definition list_wal :: "(wal_record list) wal_ops" where
  "list_wal =
     \<lparr>XLogInsertAllowed = (\<lambda>w. True),
      XLogInsert = (\<lambda>rmid info data w.
        (list_next w,
         w @ [\<lparr>xl_rmid = rmid, xl_info = info, main_data = data, EndRecPtr = list_next w\<rparr>])),
      XLogFlush = (\<lambda>lsn w. w),
      GetXLogInsertRecPtr = list_end,
      wal_records = (\<lambda>w. w)\<rparr>"

lemma list_wal_ok: "wal_ops_ok list_wal"
  by (simp add: wal_ops_ok_def list_wal_def list_next_def)

lemma list_wal_allowed: "XLogInsertAllowed list_wal w"
  by (simp add: list_wal_def)

definition fresh_server :: "wal_record list server" where
  "fresh_server = \<lparr>memory = PartitionWALShmemInit unattached, files = fresh_store, wal = []\<rparr>"

lemma fresh_server_ready: "alloc_ready (memory fresh_server)"
  by (simp add: fresh_server_def unattached_def ShmemInit_ready)

theorem WritePartitionWALRecord_functional_witness:
  "\<exists>sv'. WritePartitionWALRecord list_wal 7 1 99 fresh_server = (Inr 48, sv') \<and>
     main_data (last (wal sv')) = encode_header (new_header 7 1 99 1)"
proof -
  obtain r sv' where w: "WritePartitionWALRecord list_wal 7 1 99 fresh_server = (r, sv')" by fastforce
  have al: "XLogInsertAllowed list_wal (wal fresh_server)" by (simp add: list_wal_def)
  have first: "next_lsn_of 7 (memory fresh_server) (files fresh_server) = 1"
    by (simp add: next_lsn_of_def fresh_server_def PartitionWALShmemInit_def unattached_def hash_find_def
        GetLastWritten_fresh)
  have "r = Inr 48"
    using w by (auto simp: WritePartitionWALRecord_def al Init_faultless fresh_store_ok
        fresh_store_script fresh_server_def list_wal_def list_next_def list_end_def AllocPartitionLSN_def
        PartitionWALShmemInit_def unattached_def alloc_enter_def hash_enter_def hash_find_def Let_def
        PARTDIST_PARTITION_MAX_ENTRIES_def split: if_splits)
  with WritePartitionWALRecord_functional [OF list_wal_ok fresh_server_ready al w] w first show ?thesis
    by (auto simp: list_wal_def fresh_server_def)
qed

text \<open>A run of writes that all succeed.\<close>

fun write_records ::
    "'w wal_ops \<Rightarrow> (oid \<times> u8 \<times> XLogRecPtr) list \<Rightarrow> 'w server \<Rightarrow> 'w server option" where
  "write_records ops [] sv = Some sv"
| "write_records ops ((p, flgs, orig_lsn) # reqs) sv =
     (if \<not> XLogInsertAllowed ops (wal sv) then None
      else case WritePartitionWALRecord ops p flgs orig_lsn sv of
             (Inl e, sv1) \<Rightarrow> None
           | (Inr lsn, sv1) \<Rightarrow> write_records ops reqs sv1)"

lemma write_records_Cons:
  assumes "write_records ops (req # reqs) sv = Some sv'"
  obtains q flgs orig_lsn lsn sv1 where "req = (q, flgs, orig_lsn)" and "XLogInsertAllowed ops (wal sv)"
    and "WritePartitionWALRecord ops q flgs orig_lsn sv = (Inr lsn, sv1)" and "write_records ops reqs sv1 = Some sv'"
  using assms by (cases req) (auto split: if_splits sum.splits prod.splits)

lemma write_records_sequence:
  assumes "wal_ops_ok ops" and "alloc_ready (memory sv)" and "write_records ops reqs sv = Some sv'"
  shows "alloc_ready (memory sv') \<and>
    (\<exists>hs. wal_headers ops (wal sv') = wal_headers ops (wal sv) @ hs \<and>
       length hs = length reqs \<and>
       consecutive_from (next_lsn_of p (memory sv) (files sv)) (filter (own_record p) hs) \<and>
       map orig_node_lsn hs = map (\<lambda>(p, flgs, orig_lsn). orig_lsn) reqs \<and>
       map partition_id hs = map fst reqs)"
  using assms(2,3)
proof (induction reqs arbitrary: sv)
  case Nil
  then show ?case by auto
next
  case (Cons req reqs)
  obtain q flgs orig_lsn lsn sv1 where req: "req = (q, flgs, orig_lsn)" and al: "XLogInsertAllowed ops (wal sv)"
    and w: "WritePartitionWALRecord ops q flgs orig_lsn sv = (Inr lsn, sv1)" and rest: "write_records ops reqs sv1 = Some sv'"
    by (rule write_records_Cons [OF Cons.prems(2)])
  let ?n = "next_lsn_of q (memory sv) (files sv)"
  let ?h = "new_header q flgs orig_lsn ?n"
  have f: "alloc_ready (memory sv1)"
    "wal_headers ops (wal sv1) = wal_headers ops (wal sv) @ [?h]"
    "next_lsn_of q (memory sv1) (files sv1) = ?n + 1"
    "p \<noteq> q \<Longrightarrow> next_lsn_of p (memory sv1) (files sv1) = next_lsn_of p (memory sv) (files sv)"
    using WritePartitionWALRecord_outcome [OF assms(1) Cons.prems(1) al w]
    by (auto simp: wal_headers_def)
  obtain hs where hs: "wal_headers ops (wal sv') = wal_headers ops (wal sv1) @ hs"
    "length hs = length reqs" "map orig_node_lsn hs = map (\<lambda>(p, flgs, orig_lsn). orig_lsn) reqs"
    "map partition_id hs = map fst reqs" "alloc_ready (memory sv')"
    "consecutive_from (next_lsn_of p (memory sv1) (files sv1)) (filter (own_record p) hs)"
    using Cons.IH [OF f(1) rest] by blast
  have "consecutive_from (next_lsn_of p (memory sv) (files sv)) (filter (own_record p) (?h # hs))"
    using f(3,4) hs(6) by (cases "p = q") (auto simp: own_record_def new_header_def)
  moreover have "wal_headers ops (wal sv') = wal_headers ops (wal sv) @ ?h # hs"
    using f(2) hs(1) by simp
  ultimately show ?case
    using hs(2-5) req by (intro conjI exI [of _ "?h # hs"]) (auto simp: new_header_def)
qed

text \<open>C10: However writes to different partitions alternate, the records of one partition carry
  consecutive LSNs in WAL order, from the partition's next one on: a gap in the sequence means a
  missing record.\<close>

theorem partition_lsn_sequence:
  assumes "wal_ops_ok ops" and "alloc_ready (memory sv)" and "write_records ops reqs sv = Some sv'"
  shows "\<exists>hs. wal_headers ops (wal sv') = wal_headers ops (wal sv) @ hs \<and>
    length hs = length reqs \<and>
    consecutive_from (next_lsn_of p (memory sv) (files sv)) (filter (own_record p) hs)"
  using write_records_sequence [OF assms] by blast

text \<open>No fault pending, and room for \<open>n\<close> partitions more.\<close>

definition server_ok :: "'w server \<Rightarrow> nat \<Rightarrow> bool" where
  "server_ok sv n \<longleftrightarrow>
     script (files sv) = [] \<and> store_ok (files sv) \<and> alloc_ready (memory sv) \<and>
     (\<exists>h. lsn_hash (memory sv) = Some h \<and> length (entries h) + n \<le> max_entries h)"

lemma alloc_succeeds:
  assumes "alloc_ready m" and "lsn_hash m = Some h" and "length (entries h) + Suc n \<le> max_entries h"
  obtains l h' where "AllocPartitionLSN p m s = (Inr l, m\<lparr>lsn_hash := Some h'\<rparr>)"
    and "alloc_ready (m\<lparr>lsn_hash := Some h'\<rparr>)" and "length (entries h') + n \<le> max_entries h'"
proof -
  obtain r m' where a: "AllocPartitionLSN p m s = (r, m')" by fastforce
  note out = AllocPartitionLSN_outcome [OF assms(1) a]
  have "r \<noteq> Inl ErrOutOfSharedMemory \<or> m' \<noteq> m" using out assms(2,3) by auto
  with out obtain l where l: "r = Inr l" "alloc_ready m'" using assms(2,3) by auto
  obtain r1 h' where e: "alloc_enter p (if hash_find p h = None then initial_lsn p s else 1) h = (r1, h')"
    by fastforce
  have m': "m' = m\<lparr>lsn_hash := Some h'\<rparr>" "r1 = Inr l"
    using a l(1) e assms(1,2) by (auto simp: AllocPartitionLSN_def alloc_ready_def Let_def split: if_splits)
  have "length (entries h') \<le> Suc (length (entries h)) \<and> max_entries h' = max_entries h"
    using e unfolding m'(2)
    by (auto simp: alloc_enter_def Let_def hash_enter_def length_alist_update split: sum.splits if_splits)
  with a l m' assms(3) show thesis by (intro that [of l h']) auto
qed

lemma write_succeeds:
  assumes "server_ok sv (Suc n)" and "XLogInsertAllowed ops (wal sv)"
  obtains l sv' where "WritePartitionWALRecord ops p flgs orig_lsn sv = (Inr l, sv')" and "server_ok sv' n"
proof -
  have s: "script (files sv) = []" "store_ok (files sv)" using assms(1) by (auto simp: server_ok_def)
  obtain s1 where i: "InitPartitionWALDirectory p (files sv) = (Inr (), s1)" "script s1 = []"
    by (rule that, rule Init_faultless [OF s]) (simp add: s)
  have ok1: "store_ok s1" by (rule Init_ok [OF i(1) s(2)])
  obtain h where h: "alloc_ready (memory sv)" "lsn_hash (memory sv) = Some h"
    "length (entries h) + Suc n \<le> max_entries h"
    using assms(1) by (auto simp: server_ok_def)
  obtain l h' where a: "AllocPartitionLSN p (memory sv) s1 = (Inr l, (memory sv)\<lparr>lsn_hash := Some h'\<rparr>)"
    "alloc_ready ((memory sv)\<lparr>lsn_hash := Some h'\<rparr>)" "length (entries h') + n \<le> max_entries h'"
    by (rule alloc_succeeds [OF h])
  obtain c w1 where x: "XLogInsert ops RM_EXPERIMENTAL_ID PARTWAL_RMGR_INFO_DATA
      (encode_header (new_header p flgs orig_lsn l)) (wal sv) = (c, w1)" by fastforce
  show thesis
    by (rule that [of c "sv\<lparr>files := s1, memory := (memory sv)\<lparr>lsn_hash := Some h'\<rparr>,
          wal := XLogFlush ops c w1\<rparr>"])
      (use assms(2) i ok1 a x in \<open>simp_all add: WritePartitionWALRecord_def server_ok_def\<close>)
qed

lemma write_records_succeed:
  assumes "\<And>w. XLogInsertAllowed ops w" and "server_ok sv (length reqs)"
  shows "\<exists>sv'. write_records ops reqs sv = Some sv' \<and> server_ok sv' 0"
  using assms(2)
proof (induction reqs arbitrary: sv)
  case (Cons req reqs)
  obtain q flgs o1 where req: "req = (q, flgs, o1)" by (cases req)
  have "server_ok sv (Suc (length reqs))" using Cons.prems by simp
  then obtain l sv1 where "WritePartitionWALRecord ops q flgs o1 sv = (Inr l, sv1)" "server_ok sv1 (length reqs)"
    by (rule write_succeeds [OF _ assms(1)])
  with Cons.IH assms(1) req show ?case by auto
qed simp

lemma fresh_server_ok: "n \<le> 1024 \<Longrightarrow> server_ok fresh_server n"
  using fresh_server_ready fresh_store_ok
  by (simp add: server_ok_def fresh_server_def PartitionWALShmemInit_def unattached_def
      PARTDIST_PARTITION_MAX_ENTRIES_def)

lemma fresh_server_next: "next_lsn_of p (memory fresh_server) (files fresh_server) = 1"
  by (simp add: next_lsn_of_def fresh_server_def PartitionWALShmemInit_def unattached_def hash_find_def
      GetLastWritten_fresh)

theorem partition_lsn_sequence_witness:
  "\<exists>sv' hs. write_records list_wal [(7, 1, 5), (8, 1, 6), (7, 1, 7)] fresh_server = Some sv' \<and>
     wal_headers list_wal (wal sv') = hs \<and> length hs = 3 \<and> consecutive_from 1 (filter (own_record 7) hs)"
proof -
  have "\<exists>sv'. write_records list_wal [(7, 1, 5), (8, 1, 6), (7, 1, 7)] fresh_server = Some sv' \<and> server_ok sv' 0"
    by (rule write_records_succeed [OF list_wal_allowed]) (simp add: fresh_server_ok)
  then obtain sv' where w: "write_records list_wal [(7, 1, 5), (8, 1, 6), (7, 1, 7)] fresh_server = Some sv'"
    by blast
  have "wal_headers list_wal (wal fresh_server) = []"
    by (simp add: wal_headers_def list_wal_def fresh_server_def)
  with partition_lsn_sequence [OF list_wal_ok fresh_server_ready w, of 7] w fresh_server_next
  show ?thesis by auto
qed

section \<open>Properties of recovery\<close>

text \<open>A partition that is empty, for the examples.\<close>

lemma fresh_names: "seg_names p fresh_store = {}"
  by (simp add: seg_names_def file_content_def file_ino_def fresh_store_def)

lemma fresh_scan: "scan_headers p fresh_store = []"
  by (simp add: scan_headers_def segfiles_sorted_def opendir_def fresh_store_def)

lemma fresh_recovery_ok: "recovery_ok 0x1000000 p fresh_store"
  using wss_16MB fresh_store_ok
  by (simp add: recovery_ok_def part_ok_def fresh_names fresh_scan all_readable_def)
    (simp add: fresh_store_def)

lemma fresh_admissible:
  assumes "sorted_wrt (\<lambda>g h. seg (orig_node_lsn g) \<le> seg (orig_node_lsn h)) hs" and "length hs \<le> 256"
  shows "admissible seg wss p hs fresh_store"
proof -
  have "card ((\<lambda>h. XLogFileName 1 (seg (orig_node_lsn h)) wss) ` set hs) \<le> length hs"
    by (rule order_trans [OF card_image_le card_length]) simp
  with assms show ?thesis by (auto simp: admissible_def fresh_names newest_seg_def)
qed

text \<open>C3: Crash recovery rebuilds a partition.  Suppose that no system call fails, that the WAL segment size
  is valid, that the partition's files are readable and hold whole records of its own with growing LSNs (no torn tail), namely the
  first \<open>n\<close> of its records in the WAL (none, some or all of them), that the LSNs of its records in the
  WAL grow, and that the segments of the missing ones come in order, none before the newest file, and
  keep the directory within 256 files.  Then after the redo of the whole WAL the partition holds
  exactly its records of the WAL, in order, whatever records of other partitions are between them.\<close>

theorem recovery_completes:
  assumes "recovery_ok wss p s" and "lsn_increasing (filter (own_record p) hs)"
    and "scan_headers p s = take n (filter (own_record p) hs)"
    and "admissible (record_segno wss) wss p (drop n (filter (own_record p) hs)) s"
  shows "scan_headers p (fold (redo wss) hs s) = filter (own_record p) hs"
  by (rule rec.replay_completes [OF _ assms]) (simp add: list_all_iff)

theorem recovery_completes_witness:
  "scan_headers 7 (fold (redo 0x1000000) [new_header 7 1 0x1000028 1, new_header 8 1 0x1000050 1,
       new_header 7 1 0x2000028 2] fresh_store)
     = [new_header 7 1 0x1000028 1, new_header 7 1 0x2000028 2]"
proof -
  let ?hs = "[new_header 7 1 0x1000028 1, new_header 8 1 0x1000050 1, new_header 7 1 0x2000028 2]"
  have own: "filter (own_record 7) ?hs = [new_header 7 1 0x1000028 1, new_header 7 1 0x2000028 2]"
    by (simp add: own_record_def new_header_def)
  have inc: "lsn_increasing (filter (own_record 7) ?hs)"
    unfolding own by (simp add: lsn_increasing_def new_header_def)
  have adm: "admissible (record_segno 0x1000000) 0x1000000 7 (drop 0 (filter (own_record 7) ?hs)) fresh_store"
    unfolding own by (rule fresh_admissible) (simp_all add: new_header_def record_segno_def XLByteToSeg_def Let_def)
  from recovery_completes [OF fresh_recovery_ok inc _ adm] own show ?thesis by (simp add: fresh_scan)
qed

text \<open>Redo is idempotent: a second crash during or after recovery replays the same WAL and adds
  no record to any partition.\<close>

theorem recovery_idempotent:
  assumes "recovery_ok wss p s"
    and "admissible (record_segno wss) wss p
      (accepted (last_lsn (scan_headers p s)) (filter (own_record p) hs)) s"
  shows "scan_headers p (fold (redo wss) hs (fold (redo wss) hs s)) = scan_headers p (fold (redo wss) hs s)"
  by (rule rec.replay_twice [OF _ assms]) (simp add: list_all_iff)

theorem recovery_idempotent_witness:
  "let hs = [new_header 7 1 0x1000028 1, new_header 7 1 0x1000050 2] in
   scan_headers 7 (fold (redo 0x1000000) hs (fold (redo 0x1000000) hs fresh_store))
     = scan_headers 7 (fold (redo 0x1000000) hs fresh_store)"
proof -
  let ?hs = "[new_header 7 1 0x1000028 1, new_header 7 1 0x1000050 2]"
  have "accepted (last_lsn (scan_headers 7 fresh_store)) (filter (own_record 7) ?hs) = ?hs"
    by (simp add: own_record_def new_header_def fresh_scan last_lsn_def)
  then have "admissible (record_segno 0x1000000) 0x1000000 7
      (accepted (last_lsn (scan_headers 7 fresh_store)) (filter (own_record 7) ?hs)) fresh_store"
    using fresh_admissible [of "record_segno 0x1000000" ?hs]
    by (simp add: new_header_def record_segno_def XLByteToSeg_def Let_def)
  from recovery_idempotent [OF fresh_recovery_ok this] show ?thesis by (simp add: Let_def)
qed

text \<open>Redo of a record that is too short for a header, or whose payload has another magic number,
  succeeds with a warning and touches no file.\<close>

theorem redo_rejects_foreign_records:
  assumes "length (main_data r) < sizeof_header
    \<or> magic (decode_header (take sizeof_header (main_data r))) \<noteq> PARTWAL_MAGIC"
  shows "\<exists>s'. partdist_wal_redo wss r s = (Inr (), s') \<and> same_files s s' \<and>
    length (warnings s') = Suc (length (warnings s))"
  using assms by (auto simp: partdist_wal_redo_def Let_def warn_def)

theorem redo_rejects_foreign_records_witness:
  "\<exists>s'. partdist_wal_redo 0x1000000 \<lparr>xl_rmid = 128, xl_info = 0, main_data = [1, 2, 3], EndRecPtr = 8\<rparr> fresh_store
     = (Inr (), s') \<and> same_files fresh_store s'"
  using redo_rejects_foreign_records [of "\<lparr>xl_rmid = 128, xl_info = 0, main_data = [1, 2, 3], EndRecPtr = 8\<rparr>"
      "0x1000000" fresh_store] by auto

section \<open>A torn record at the end of a file\<close>

lemma read_headers_torn:
  assumes "length c mod sizeof_header \<noteq> 0"
  shows "read_headers (c @ encode_header h) = read_headers c
    @ [decode_header (drop (length c - length c mod sizeof_header) c
        @ take (sizeof_header - length c mod sizeof_header) (encode_header h))]"
proof -
  let ?r = "length c mod sizeof_header"
  let ?w = "take (length c - ?r) c" and ?t = "drop (length c - ?r) c"
  have c: "c = ?w @ ?t" by simp
  have lt: "length ?t = ?r" by simp
  have r: "?r < sizeof_header" by simp
  have dv: "sizeof_header dvd length ?w" by (simp add: minus_mod_eq_mult_div)
  have "read_headers (c @ encode_header h) = read_headers ?w @ read_headers (?t @ encode_header h)"
    using read_headers_app [OF dv, of "?t @ encode_header h"] by (metis append_assoc append_take_drop_id)
  moreover have "read_headers c = read_headers ?w"
    using read_headers_app [OF dv, of ?t] lt r by (metis append_Nil2 append_take_drop_id read_headers_short)
  moreover have "read_headers (?t @ encode_header h) = [decode_header (?t @ take (sizeof_header - ?r) (encode_header h))]"
  proof -
    have len: "length (?t @ encode_header h) = ?r + sizeof_header" using lt by simp
    have "drop sizeof_header (?t @ encode_header h) = drop (sizeof_header - ?r) (encode_header h)"
      using lt r by simp
    then have "read_headers (drop sizeof_header (?t @ encode_header h)) = []"
      using assms by (simp add: read_headers_short)
    moreover have "take sizeof_header (?t @ encode_header h) = ?t @ take (sizeof_header - ?r) (encode_header h)"
      using lt r by simp
    ultimately show ?thesis using len by (subst read_headers.simps) simp
  qed
  ultimately show ?thesis by simp
qed

text \<open>Recovery does not repair a torn record.  When the segment file of a record ends in part of a
  header (a crash in the middle of a write), redo reports success and appends the whole record
  after the torn part: the readers then see, in its place, a header made of the torn bytes and the
  first bytes of the record, and the rest of the record as another torn tail.\<close>

theorem redo_after_torn_record:
  assumes "script s = []" and "store_ok s" and "magic h = PARTWAL_MAGIC"
    and "GetLastWrittenPartitionLSN (partition_id h) s < partition_lsn h"
    and "file_content s (partition_id h) (XLogFileName 1 (record_segno wss (orig_node_lsn h)) wss) = Some c"
    and "length c mod sizeof_header \<noteq> 0"
  shows "\<exists>s'. partdist_wal_redo wss (redo_record h) s = (Inr (), s') \<and>
    (\<exists>c'. file_content s' (partition_id h) (XLogFileName 1 (record_segno wss (orig_node_lsn h)) wss) = Some c' \<and>
       read_headers c' = read_headers c
         @ [decode_header (drop (length c - length c mod sizeof_header) c
             @ take (sizeof_header - length c mod sizeof_header) (encode_header h))] \<and>
       length c' mod sizeof_header \<noteq> 0)"
proof (cases rule: redo_faultless [OF assms(1,2), of wss h])
  case (1 s')
  with assms(3,4) show ?thesis by auto
next
  case (2 s')
  then have "file_content s' (partition_id h) (XLogFileName 1 (record_segno wss (orig_node_lsn h)) wss)
      = Some (c @ encode_header h)"
    using assms(5) by (simp add: appended_def)
  with 2(1) read_headers_torn [OF assms(6), of h] assms(6) show ?thesis by auto
qed

text \<open>Three bytes of the first record of partition 7 reached the disk before the crash.\<close>

definition torn_store :: parwal_store where
  "torn_store = fresh_store\<lparr>root_exists := True,
     part_dirs := (\<lambda>p. if p = 7 then Some [(XLogFileName 1 1 0x1000000, 0)] else None),
     inode := (\<lambda>i. take 3 (encode_header (new_header 7 1 0x1000028 1))), next_inode := 1\<rparr>"

lemma torn_store_ok: "store_ok torn_store" "script torn_store = []"
  by (auto simp: store_ok_def torn_store_def file_ino_def fresh_store_def split: if_splits)

lemma torn_store_mark: "GetLastWrittenPartitionLSN 7 torn_store = 0"
proof -
  have d: "opendir 7 torn_store = Inr [(XLogFileName 1 1 0x1000000, 0)]"
    by (simp add: opendir_def torn_store_def fresh_store_def)
  have c: "open_rdonly 7 (XLogFileName 1 1 0x1000000) torn_store
      = Some (take 3 (encode_header (new_header 7 1 0x1000028 1)))"
    by (simp add: open_rdonly_def torn_store_def fresh_store_def file_content_def file_ino_def)
  have e: "exchange_sort names_descending [x] = [x]" for x
    by (simp add: exchange_sort_def exch_outer.simps)
  show ?thesis
    by (simp add: GetLastWrittenPartitionLSN_def d c e file_high_water_def)
qed

lemma torn_magic:
  "magic (decode_header (take 3 (encode_header (new_header 7 1 0x1000028 1))
      @ take 29 (encode_header (new_header 7 1 0x1000028 1)))) = 0x54415254"
proof -
  let ?e = "encode_header (new_header 7 1 0x1000028 1)"
  have four: "(4::nat) = Suc (Suc (Suc (Suc 0)))" by simp
  have "take 4 ?e = nat_le 4 0x50415254"
    by (simp add: encode_header_def new_header_def PARTWAL_MAGIC_def)
  then have "take 4 ?e = nat_le (Suc (Suc (Suc (Suc 0)))) 0x50415254" by (simp only: four)
  then have e4: "take 4 ?e = [0x54, 0x52, 0x41, 0x50]" by simp
  have "take 3 ?e = take 3 (take 4 ?e)" and "take 1 (take 29 ?e) = take 1 (take 4 ?e)" by simp_all
  then have "take 4 (take 3 ?e @ take 29 ?e) = [0x54, 0x52, 0x41, 0x54]" unfolding e4 by simp
  then show ?thesis by (simp add: decode_header_def)
qed

theorem redo_after_torn_record_witness:
  "\<exists>s' c' g. partdist_wal_redo 0x1000000 (redo_record (new_header 7 1 0x1000028 1)) torn_store = (Inr (), s') \<and>
     file_content s' 7 (XLogFileName 1 1 0x1000000) = Some c' \<and> read_headers c' = [g] \<and>
     magic g = 0x54415254 \<and> \<not> own_record 7 g"
proof -
  let ?h = "new_header 7 1 0x1000028 1"
  have seg: "record_segno 0x1000000 (orig_node_lsn ?h) = 1"
    by (simp add: new_header_def record_segno_def XLByteToSeg_def Let_def)
  have id: "partition_id ?h = 7" "magic ?h = PARTWAL_MAGIC" "partition_lsn ?h = 1" by (simp_all add: new_header_def)
  have c: "file_content torn_store 7 (XLogFileName 1 1 0x1000000) = Some (take 3 (encode_header ?h))"
    by (simp add: torn_store_def file_content_def file_ino_def)
  have len: "length (take 3 (encode_header ?h)) mod sizeof_header \<noteq> 0" by simp
  have none: "read_headers (take 3 (encode_header ?h)) = []" by (simp add: read_headers_short)
  obtain s' c' where s': "partdist_wal_redo 0x1000000 (redo_record ?h) torn_store = (Inr (), s')"
    "file_content s' 7 (XLogFileName 1 1 0x1000000) = Some c'"
    "read_headers c' = [decode_header (drop 0 (take 3 (encode_header ?h)) @ take 29 (encode_header ?h))]"
    using redo_after_torn_record [where wss = "0x1000000" and h = ?h, OF torn_store_ok(2,1)]
    by (simp add: torn_store_mark seg id c none) blast
  then show ?thesis using torn_magic by (auto simp: own_record_def PARTWAL_MAGIC_def)
qed

section \<open>Reset\<close>

lemma GetLast_no_files:
  assumes "seg_names p s = {}"
  shows "GetLastWrittenPartitionLSN p s = 0"
proof (cases "opendir p s")
  case (Inr d)
  then have "filter IsXLogFileName (map fst d) = []" using seg_names_dir [OF Inr] assms by simp
  then have "collect_segfiles 256 (map fst d) = []" by (simp add: collect_segfiles_eq)
  with Inr show ?thesis by (simp add: GetLastWrittenPartitionLSN_def)
qed (simp add: GetLastWrittenPartitionLSN_def)

lemma reset_files_inode: "script s = [] \<Longrightarrow> inode (reset_files p s) = inode s"
  by (auto simp: reset_files_def reset_loop_removes split: sum.splits)

text \<open>C24: After \<open>reset_partition_wal_state\<close>, with no fault pending, the partition has no segment file,
  its next LSN is 1, and the files and counters of the other partitions are as before.\<close>

theorem ResetPartitionWALState_clean:
  assumes "alloc_ready (memory sv)" and "script (files sv) = []" and "\<not> unreadable_dir (files sv) p"
  shows "seg_names p (files (ResetPartitionWALState p sv)) = {} \<and>
    alloc_ready (memory (ResetPartitionWALState p sv)) \<and>
    next_lsn_of p (memory (ResetPartitionWALState p sv)) (files (ResetPartitionWALState p sv)) = 1 \<and>
    (\<forall>q. q \<noteq> p \<longrightarrow>
       file_content (files (ResetPartitionWALState p sv)) q = file_content (files sv) q \<and>
       Option.bind (lsn_hash (memory (ResetPartitionWALState p sv))) (hash_find q)
         = Option.bind (lsn_hash (memory sv)) (hash_find q))"
proof -
  obtain h where h: "lsn_hash (memory sv) = Some h" "hash_inv h" "partwal_shmem_set (memory sv)" "lsn_hash_set (memory sv)"
    using assms(1) by (auto simp: alloc_ready_def)
  let ?s = "reset_files p (files sv)"
  have mem: "memory (ResetPartitionWALState p sv) = (memory sv)\<lparr>lsn_hash := Some (hash_remove p h)\<rparr>"
    and fl: "files (ResetPartitionWALState p sv) = ?s"
    using h by (simp_all add: ResetPartitionWALState_def Let_def)
  have ino: "file_ino ?s q m = (if q = p \<and> IsXLogFileName m then None else file_ino (files sv) q m)" for q m
    by (rule reset_files_removes [OF assms(2,3)])
  have names: "seg_names p ?s = {}" by (auto simp: seg_names_def file_content_def ino)
  have content: "file_content ?s q = file_content (files sv) q" if "q \<noteq> p" for q
    using that reset_files_inode [OF assms(2)] by (intro ext) (simp add: file_content_def ino)
  show ?thesis
    using ht.inv_remove [OF h(2)] ht.find_remove [OF h(2)] h names content GetLast_no_files [OF names]
    by (simp add: mem fl alloc_ready_def next_lsn_of_def)
qed

theorem ResetPartitionWALState_clean_witness:
  "next_lsn_of 7 (memory (ResetPartitionWALState 7 (fresh_server\<lparr>files := torn_store\<rparr>)))
     (files (ResetPartitionWALState 7 (fresh_server\<lparr>files := torn_store\<rparr>))) = 1"
  using ResetPartitionWALState_clean [of "fresh_server\<lparr>files := torn_store\<rparr>" 7] fresh_server_ready torn_store_ok
  by (simp add: torn_store_def fresh_store_def)

end
