(* ===== verification/DemuxShared.thy ===== *)
theory DemuxShared
  imports WalRecords
begin

text \<open>
  The parts of \<open>src/worker/demux_worker.c\<close> around the main loop: the shared state that the SQL
  functions read, the registration of the background worker, the progress file, the callbacks of
  the WAL reader, the ring of latency samples with its statistics, and the wait of \<open>demux_flush\<close>.
\<close>

section \<open>Shared state\<close>

definition DEMUX_MAX_PARTITIONS :: nat where
  "DEMUX_MAX_PARTITIONS = 512"

definition DEMUX_LOCK_TRANCHE :: string where
  "DEMUX_LOCK_TRANCHE = ''pg_partdist_demux''"

definition DEMUX_PROGRESS_MAGIC :: u32 where
  "DEMUX_PROGRESS_MAGIC = 0x44455855"

definition DEMUX_LATENCY_SAMPLES :: nat where
  "DEMUX_LATENCY_SAMPLES = 1024"

record DemuxSharedState =
  demux_lock :: string
  last_processed_lsn :: XLogRecPtr
  worker_active :: bool
  latency_buf :: "i64 list"
  latency_head :: nat
  latency_count :: nat

text \<open>Three pointers or integers, two booleans padded, and the ring: its size in bytes.\<close>

definition DemuxShmemSize :: nat where
  "DemuxShmemSize = 8 + 8 + 8 + 8 * DEMUX_LATENCY_SAMPLES + 8 + 8"

definition RequestDemuxShmem :: "shmem_request list" where
  "RequestDemuxShmem = [RequestAddinShmemSpace DemuxShmemSize, RequestNamedLWLockTranche DEMUX_LOCK_TRANCHE 1]"

text \<open>\<open>ShmemInitStruct\<close> finds the structure or makes it.\<close>

definition DemuxShmemInit :: "DemuxSharedState option \<Rightarrow> DemuxSharedState" where
  "DemuxShmemInit existing =
     (case existing of
        Some st \<Rightarrow> st
      | None \<Rightarrow> \<lparr>demux_lock = DEMUX_LOCK_TRANCHE, last_processed_lsn = InvalidXLogRecPtr,
                 worker_active = False, latency_buf = replicate DEMUX_LATENCY_SAMPLES 0,
                 latency_head = 0, latency_count = 0\<rparr>)"

record BackgroundWorker =
  bgw_name :: string
  bgw_type :: string
  bgw_shmem_access :: bool
  bgw_start_after_recovery :: bool
  bgw_restart_time :: nat
  bgw_library_name :: string
  bgw_function_name :: string
  bgw_main_arg :: i32
  bgw_notify_pid :: nat

definition BGW_MAXLEN :: nat where
  "BGW_MAXLEN = 96"

definition RegisterDemuxWorker :: "BackgroundWorker list \<Rightarrow> BackgroundWorker list" where
  "RegisterDemuxWorker workers =
     workers @ [\<lparr>bgw_name = take (BGW_MAXLEN - 1) ''pg_partdist demux worker'',
                 bgw_type = take (BGW_MAXLEN - 1) ''pg_partdist demux'',
                 bgw_shmem_access = True, bgw_start_after_recovery = True, bgw_restart_time = 5,
                 bgw_library_name = take (BGW_MAXLEN - 1) ''pg_partdist'',
                 bgw_function_name = take (BGW_MAXLEN - 1) ''DemuxWorkerMain'',
                 bgw_main_arg = 0, bgw_notify_pid = 0\<rparr>]"

section \<open>The progress file\<close>

record DemuxProgressFile =
  pf_magic :: u32
  pf_version :: u32
  pf_lsn :: XLogRecPtr

definition encode_progress :: "DemuxProgressFile \<Rightarrow> bytes" where
  "encode_progress pf = nat_le 4 (unat (pf_magic pf)) @ nat_le 4 (unat (pf_version pf)) @ nat_le 8 (unat (pf_lsn pf))"

definition decode_progress :: "bytes \<Rightarrow> DemuxProgressFile" where
  "decode_progress bs =
     \<lparr>pf_magic = word_of_nat (le_nat (take 4 bs)),
      pf_version = word_of_nat (le_nat (take 4 (drop 4 bs))),
      pf_lsn = word_of_nat (le_nat (take 8 (drop 8 bs)))\<rparr>"

abbreviation sizeof_progress :: nat where
  "sizeof_progress \<equiv> 16"

definition progress_name :: string where
  "progress_name = ''.demux_progress''"

definition progress_tmp :: string where
  "progress_tmp = ''.demux_progress.tmp''"

definition LoadDemuxProgress :: "parwal_store \<Rightarrow> XLogRecPtr" where
  "LoadDemuxProgress s =
     (case root_files s progress_name of
        None \<Rightarrow> InvalidXLogRecPtr
      | Some content \<Rightarrow>
          let bs = take sizeof_progress content; pf = decode_progress bs
          in if length bs \<noteq> sizeof_progress \<or> pf_magic pf \<noteq> DEMUX_PROGRESS_MAGIC \<or> pf_version pf \<noteq> 1
             then InvalidXLogRecPtr else pf_lsn pf)"

text \<open>\<open>open(O_WRONLY | O_CREAT | O_TRUNC)\<close>, \<open>write\<close> and \<open>rename\<close> of files of \<open>pg_parwal\<close> itself.\<close>

definition open_trunc :: "string \<Rightarrow> parwal_store \<Rightarrow> bool \<times> parwal_store" where
  "open_trunc name s =
     (case next_outcome s of
        (Fail e, s') \<Rightarrow> (False, s')
      | (_, s') \<Rightarrow> if root_exists s' then (True, s'\<lparr>root_files := (root_files s')(name := Some [])\<rparr>) else (False, s'))"

definition write_root :: "string \<Rightarrow> bytes \<Rightarrow> parwal_store \<Rightarrow> (errno + nat) \<times> parwal_store" where
  "write_root name bs s =
     (case next_outcome s of
        (Fail e, s') \<Rightarrow> (Inl e, s')
      | (Partial n, s') \<Rightarrow>
          (Inr (min n (length bs)),
           s'\<lparr>root_files := (root_files s')(name := map_option (\<lambda>c. c @ take n bs) (root_files s' name))\<rparr>)
      | (Succeed, s') \<Rightarrow>
          (Inr (length bs),
           s'\<lparr>root_files := (root_files s')(name := map_option (\<lambda>c. c @ bs) (root_files s' name))\<rparr>))"

function write_root_retry :: "string \<Rightarrow> bytes \<Rightarrow> parwal_store \<Rightarrow> (errno + nat) \<times> parwal_store" where
  "write_root_retry name bs s =
     (case write_root name bs s of
        (Inl EINTR, s') \<Rightarrow> write_root_retry name bs s'
      | (r, s') \<Rightarrow> (r, s'))"
  by pat_completeness auto

definition rename_root :: "string \<Rightarrow> string \<Rightarrow> parwal_store \<Rightarrow> bool \<times> parwal_store" where
  "rename_root old new s =
     (case next_outcome s of
        (Fail e, s') \<Rightarrow> (False, s')
      | (_, s') \<Rightarrow>
          (True, s'\<lparr>root_files := (root_files s')(new := root_files s' old, old := None)\<rparr>))"

lemma write_root_eintr: "write_root name bs s = (Inl EINTR, s') \<Longrightarrow> length (script s') < length (script s)"
  by (auto simp: write_root_def next_outcome_def split: list.splits outcome.splits)

termination write_root_retry
  by (relation "measure (\<lambda>(name, bs, s). length (script s))") (auto dest: write_root_eintr sym)

declare write_root_retry.simps [simp del]

definition SaveDemuxProgress :: "XLogRecPtr \<Rightarrow> parwal_store \<Rightarrow> parwal_store" where
  "SaveDemuxProgress lsn s =
     (case open_trunc progress_tmp s of
        (False, s1) \<Rightarrow> s1
      | (True, s1) \<Rightarrow>
          (case write_root_retry progress_tmp
                  (encode_progress \<lparr>pf_magic = DEMUX_PROGRESS_MAGIC, pf_version = 1, pf_lsn = lsn\<rparr>) s1 of
             (Inl e, s2) \<Rightarrow> s2
           | (Inr nb, s2) \<Rightarrow>
               if nb = sizeof_progress
               then (case fsync_fd s2 of (b, s3) \<Rightarrow> snd (rename_root progress_tmp progress_name s3))
               else s2))"

lemma progress_roundtrip:
  "length (encode_progress pf) = sizeof_progress" "decode_progress (encode_progress pf) = pf"
  by (cases pf, simp_all add: encode_progress_def decode_progress_def field_roundtrip)

lemma write_root_effect:
  assumes "write_root name bs s = (r, s')" and "root_files s name = Some c"
  shows "(\<forall>n. n \<noteq> name \<longrightarrow> root_files s' n = root_files s n) \<and> root_exists s' = root_exists s \<and>
    (case r of Inl e \<Rightarrow> root_files s' name = Some c
     | Inr k \<Rightarrow> root_files s' name = Some (c @ take k bs))"
  using assms
  by (auto simp: write_root_def dest!: next_outcome_cases split: prod.splits outcome.splits)
    (auto simp: min_def)

lemma write_root_retry_effect:
  assumes "write_root_retry name bs s = (r, s')" and "root_files s name = Some c"
  shows "(\<forall>n. n \<noteq> name \<longrightarrow> root_files s' n = root_files s n) \<and>
    (case r of Inl e \<Rightarrow> root_files s' name = Some c | Inr k \<Rightarrow> root_files s' name = Some (c @ take k bs))"
  using assms
proof (induction name bs s rule: write_root_retry.induct)
  case (1 name bs s)
  obtain r1 s1 where w: "write_root name bs s = (r1, s1)" by fastforce
  note e = write_root_effect [OF w "1.prems"(2)]
  show ?case
  proof (cases "r1 = Inl EINTR")
    case True
    then have "write_root_retry name bs s1 = (r, s')"
      using w "1.prems"(1) by (simp add: write_root_retry.simps [of name bs s])
    moreover have "root_files s1 name = Some c" using e True by simp
    ultimately show ?thesis using "1.IH" [OF w [symmetric]] True e by simp
  next
    case False
    then have "r = r1 \<and> s' = s1"
      using w "1.prems"(1) by (auto simp: write_root_retry.simps [of name bs s] split: sum.splits errno.splits)
    with e show ?thesis by auto
  qed
qed

lemma write_root_retry_faultless:
  "script s = [] \<Longrightarrow> write_root_retry name bs s = (Inr (length bs),
     s\<lparr>root_files := (root_files s)(name := map_option (\<lambda>c. c @ bs) (root_files s name))\<rparr>)"
  by (subst write_root_retry.simps) (simp add: write_root_def)

lemma SaveDemuxProgress_saved:
  "script s = [] \<Longrightarrow> root_exists s \<Longrightarrow> LoadDemuxProgress (SaveDemuxProgress lsn s) = lsn"
  using progress_roundtrip [of "\<lparr>pf_magic = DEMUX_PROGRESS_MAGIC, pf_version = 1, pf_lsn = lsn\<rparr>"]
  by (simp add: SaveDemuxProgress_def open_trunc_def write_root_retry_faultless fsync_faultless rename_root_def
      LoadDemuxProgress_def progress_name_def progress_tmp_def Let_def)

text \<open>The file that \<open>LoadDemuxProgress\<close> reads after a save: the old one, or the new record, whatever
  system call fails; the new record when none does.\<close>

abbreviation progress_record :: "XLogRecPtr \<Rightarrow> bytes" where
  "progress_record lsn \<equiv> encode_progress \<lparr>pf_magic = DEMUX_PROGRESS_MAGIC, pf_version = 1, pf_lsn = lsn\<rparr>"

lemma progress_names_differ: "progress_name \<noteq> progress_tmp"
  by (simp add: progress_name_def progress_tmp_def)

lemma length_progress_record: "length (progress_record lsn) = sizeof_progress"
  by (rule progress_roundtrip(1))

lemma save_replaces_or_keeps:
  "root_files (SaveDemuxProgress lsn s) progress_name \<in> {root_files s progress_name, Some (progress_record lsn)}"
proof -
  obtain b s1 where o: "open_trunc progress_tmp s = (b, s1)" by fastforce
  obtain r s2 where w: "write_root_retry progress_tmp (progress_record lsn) s1 = (r, s2)" by fastforce
  obtain f s3 where fs: "fsync_fd s2 = (f, s3)" by fastforce
  have keep1: "root_files s1 progress_name = root_files s progress_name"
    using o progress_names_differ
    by (auto simp: open_trunc_def dest!: next_outcome_cases split: prod.splits outcome.splits if_splits)
  have tmp1: "b \<Longrightarrow> root_files s1 progress_tmp = Some []"
    using o by (auto simp: open_trunc_def split: prod.splits outcome.splits if_splits)
  have keep2: "b \<Longrightarrow> root_files s2 progress_name = root_files s progress_name"
    using write_root_retry_effect [OF w tmp1] keep1 progress_names_differ by auto
  have tmp2: "b \<Longrightarrow> r = Inr sizeof_progress \<Longrightarrow> root_files s2 progress_tmp = Some (progress_record lsn)"
    using write_root_retry_effect [OF w tmp1] length_progress_record by simp
  have mv: "root_files (snd (rename_root progress_tmp progress_name s3)) progress_name
      \<in> {root_files s2 progress_name, root_files s2 progress_tmp}"
    using fsync_same [OF fs] progress_names_differ
    by (auto simp: same_files_def same_frame_def rename_root_def dest!: next_outcome_cases
        split: prod.splits outcome.splits)
  show ?thesis
  proof (cases "b \<and> r = Inr sizeof_progress")
    case True
    then have "SaveDemuxProgress lsn s = snd (rename_root progress_tmp progress_name s3)"
      using o w fs by (simp add: SaveDemuxProgress_def)
    then show ?thesis using mv True tmp2 keep2 by auto
  next
    case False
    then have "SaveDemuxProgress lsn s = (if b then s2 else s1)"
      using o w by (auto simp: SaveDemuxProgress_def split: bool.splits sum.splits)
    then show ?thesis using keep1 keep2 by simp
  qed
qed

lemma save_faultless:
  assumes "script s = []" and "root_exists s"
  shows "root_files (SaveDemuxProgress lsn s) progress_name = Some (progress_record lsn)"
proof -
  obtain b s1 where o: "open_trunc progress_tmp s = (b, s1)" by fastforce
  obtain r s2 where w: "write_root_retry progress_tmp (progress_record lsn) s1 = (r, s2)" by fastforce
  have 1: "b" "script s1 = []" "root_files s1 progress_tmp = Some []"
    using o assms by (auto simp: open_trunc_def)
  have 2: "r = Inr sizeof_progress" "script s2 = []"
    using w 1(2) length_progress_record [of lsn] by (simp_all add: write_root_retry_faultless) auto
  have "root_files s2 progress_tmp = Some (progress_record lsn)"
    using write_root_retry_effect [OF w 1(3)] 2(1) length_progress_record by simp
  then show ?thesis
    using o w 1 2 progress_names_differ by (simp add: SaveDemuxProgress_def fsync_faultless rename_root_def)
qed

lemma LoadDemuxProgress_record:
  "root_files t progress_name = Some (progress_record lsn) \<Longrightarrow> LoadDemuxProgress t = lsn"
  using progress_roundtrip [of "\<lparr>pf_magic = DEMUX_PROGRESS_MAGIC, pf_version = 1, pf_lsn = lsn\<rparr>"]
  by (simp add: LoadDemuxProgress_def Let_def)

text \<open>C14: Saving the progress is atomic: whatever calls fail or write too little, the file read
  afterwards holds the old position or the new one, and without faults the new one.\<close>

theorem SaveDemuxProgress_atomic:
  "LoadDemuxProgress (SaveDemuxProgress lsn s) \<in> {lsn, LoadDemuxProgress s} \<and>
   (script s = [] \<and> root_exists s \<longrightarrow> LoadDemuxProgress (SaveDemuxProgress lsn s) = lsn)"
proof -
  have "LoadDemuxProgress t = LoadDemuxProgress s" if "root_files t progress_name = root_files s progress_name" for t
    using that by (simp add: LoadDemuxProgress_def)
  then have "LoadDemuxProgress (SaveDemuxProgress lsn s) \<in> {lsn, LoadDemuxProgress s}"
    using save_replaces_or_keeps [of lsn s] LoadDemuxProgress_record by blast
  then show ?thesis by (simp add: LoadDemuxProgress_record save_faultless)
qed

theorem SaveDemuxProgress_atomic_witness:
  "LoadDemuxProgress (SaveDemuxProgress 99 (fresh_store\<lparr>root_exists := True\<rparr>)) = 99"
  using SaveDemuxProgress_atomic [of 99 "fresh_store\<lparr>root_exists := True\<rparr>"] by simp

section \<open>The callbacks of the WAL reader\<close>

text \<open>The directory \<open>pg_wal\<close>: a file name points to an inode, and a descriptor is an inode.\<close>

record wal_dir =
  wal_names :: "string \<Rightarrow> nat option"
  wal_inode :: "nat \<Rightarrow> bytes"

record reader_segment =
  ws_file :: "nat option"
  ws_segno :: XLogSegNo
  ws_tli :: TimeLineID

definition DemuxOpenSegment ::
    "u64 \<Rightarrow> XLogSegNo \<Rightarrow> wal_dir \<Rightarrow> reader_segment \<Rightarrow> (pg_error + unit) \<times> reader_segment" where
  "DemuxOpenSegment ws_segsize nextSegNo d seg =
     (case wal_names d (XLogFileName 1 nextSegNo ws_segsize) of
        None \<Rightarrow> (Inl ErrFileAccess, seg)
      | Some fd \<Rightarrow> (Inr (), seg\<lparr>ws_file := Some fd, ws_segno := nextSegNo, ws_tli := 1\<rparr>))"

definition DemuxCloseSegment :: "reader_segment \<Rightarrow> reader_segment" where
  "DemuxCloseSegment seg = (case ws_file seg of None \<Rightarrow> seg | Some fd \<Rightarrow> seg\<lparr>ws_file := None\<rparr>)"

text \<open>What a page read returns: the bytes it got, \<open>None\<close> for \<open>-1\<close>.  \<open>io\<close> says whether the
  \<open>lseek\<close> and the \<open>read\<close> of the open descriptor succeed.\<close>

definition DemuxReadPage ::
    "u64 \<Rightarrow> XLogRecPtr \<Rightarrow> wal_dir \<Rightarrow> bool \<Rightarrow> reader_segment \<Rightarrow> (pg_error + bytes option) \<times> reader_segment" where
  "DemuxReadPage ws_segsize targetPagePtr d io seg =
     (let segno = XLByteToSeg targetPagePtr ws_segsize
      in case (if ws_file seg = None \<or> ws_segno seg \<noteq> segno
               then DemuxOpenSegment ws_segsize segno d (DemuxCloseSegment seg)
               else (Inr (), seg)) of
           (Inl e, seg1) \<Rightarrow> (Inl e, seg1)
         | (Inr _, seg1) \<Rightarrow>
             (case ws_file seg1 of
                None \<Rightarrow> (Inr None, seg1)
              | Some fd \<Rightarrow>
                  if \<not> io then (Inr None, seg1)
                  else (Inr (Some (take XLOG_BLCKSZ
                          (drop (unat (XLogSegmentOffset targetPagePtr ws_segsize)) (wal_inode d fd)))), seg1)))"

text \<open>An open descriptor is that of the segment it is tagged with.\<close>

definition reader_inv :: "u64 \<Rightarrow> wal_dir \<Rightarrow> reader_segment \<Rightarrow> bool" where
  "reader_inv wss d seg \<longleftrightarrow>
     (\<forall>fd. ws_file seg = Some fd \<longrightarrow> wal_names d (XLogFileName 1 (ws_segno seg) wss) = Some fd)"

text \<open>The WAL stream: the file of every segment that exists holds its part of it.\<close>

definition wal_stream :: "u64 \<Rightarrow> wal_dir \<Rightarrow> (nat \<Rightarrow> u8) \<Rightarrow> bool" where
  "wal_stream wss d W \<longleftrightarrow>
     (\<forall>segno fd. wal_names d (XLogFileName 1 segno wss) = Some fd \<longrightarrow>
        length (wal_inode d fd) = unat wss \<and>
        (\<forall>i<unat wss. wal_inode d fd ! i = W (unat segno * unat wss + i)))"

lemma segment_offset:
  assumes "IsValidWalSegSize wss"
  shows "unat (XLogSegmentOffset ptr wss) = unat ptr mod unat wss"
proof -
  obtain k where k: "unat wss = 2 ^ k" "20 \<le> k" "k \<le> 30" by (rule valid_seg_size_power [OF assms])
  have "unat (word_of_nat (2 ^ k) :: u64) = 2 ^ k"
    using power_strict_increasing [of k 64 "2::nat"] k(3) by (simp only: unat_of_nat) simp
  then have "wss = 2 ^ k" using k(1) by (simp add: word_unat_eq_iff)
  then have "ptr AND (wss - 1) = take_bit k ptr" by (simp add: take_bit_eq_mask mask_eq_exp_minus_1)
  then have "unat (ptr AND (wss - 1)) = take_bit k (unat ptr)" by (simp only: unsigned_take_bit_eq)
  then show ?thesis by (simp only: XLogSegmentOffset_def k(1) take_bit_eq_mod)
qed

lemma page_in_segment:
  assumes "8192 dvd a" and "8192 dvd w" and "0 < (w::nat)"
  shows "a mod w + XLOG_BLCKSZ \<le> w"
proof -
  have "8192 dvd a mod w" using assms by (simp add: dvd_mod)
  then obtain x where x: "a mod w = 8192 * x" by blast
  obtain y where y: "w = 8192 * y" using assms(2) by blast
  have "a mod w < w" using assms(3) by simp
  with x y show ?thesis by (simp add: XLOG_BLCKSZ_def)
qed

text \<open>C22: A page read by the Demux worker is the page of the WAL stream at the address asked for,
  whichever segment was open before; it returns \<open>-1\<close> only when the read itself fails, and when the
  segment's file is missing it raises and no descriptor stays open.\<close>

theorem DemuxReadPage_reads_stream:
  assumes "IsValidWalSegSize wss" and "reader_inv wss d seg" and "wal_stream wss d W"
    and "8192 dvd unat ptr" and "8192 dvd unat wss"
    and "DemuxReadPage wss ptr d io seg = (r, seg')"
  shows "reader_inv wss d seg' \<and>
    (case r of
       Inr (Some page) \<Rightarrow> io \<and> page = map (\<lambda>i. W (unat ptr + i)) [0..<XLOG_BLCKSZ]
     | Inr None \<Rightarrow> \<not> io
     | Inl e \<Rightarrow> e = ErrFileAccess \<and> ws_file seg' = None)"
proof -
  let ?segno = "XLByteToSeg ptr wss"
  have pos: "0 < unat wss" using valid_seg_size_bounds(1) [OF assms(1)] .
  have div: "unat ?segno * unat wss + unat ptr mod unat wss = unat ptr"
    by (simp add: unat_byte_to_seg)
  have off: "unat (XLogSegmentOffset ptr wss) = unat ptr mod unat wss" by (rule segment_offset [OF assms(1)])
  have room: "unat ptr mod unat wss + XLOG_BLCKSZ \<le> unat wss"
    by (rule page_in_segment [OF assms(4,5) pos])
  have page: "take XLOG_BLCKSZ (drop (unat (XLogSegmentOffset ptr wss)) (wal_inode d fd))
      = map (\<lambda>i. W (unat ptr + i)) [0..<XLOG_BLCKSZ]"
    if "wal_names d (XLogFileName 1 ?segno wss) = Some fd" for fd
  proof (rule nth_equalityI)
    have len: "length (wal_inode d fd) = unat wss"
      and at: "\<And>i. i < unat wss \<Longrightarrow> wal_inode d fd ! i = W (unat ?segno * unat wss + i)"
      using assms(3) that unfolding wal_stream_def by blast+
    show "length (take XLOG_BLCKSZ (drop (unat (XLogSegmentOffset ptr wss)) (wal_inode d fd)))
        = length (map (\<lambda>i. W (unat ptr + i)) [0..<XLOG_BLCKSZ])"
      using len room off by simp
    fix i
    assume "i < length (take XLOG_BLCKSZ (drop (unat (XLogSegmentOffset ptr wss)) (wal_inode d fd)))"
    then have i: "i < XLOG_BLCKSZ" by simp
    have "wal_inode d fd ! (unat ptr mod unat wss + i) = W (unat ptr + i)"
      using at [of "unat ptr mod unat wss + i"] i room div by (simp add: add.assoc [symmetric])
    with i room len off show "take XLOG_BLCKSZ (drop (unat (XLogSegmentOffset ptr wss)) (wal_inode d fd)) ! i
        = map (\<lambda>i. W (unat ptr + i)) [0..<XLOG_BLCKSZ] ! i"
      by simp
  qed
  show ?thesis
  proof (cases "ws_file seg = None \<or> ws_segno seg \<noteq> ?segno")
    case True
    then show ?thesis
      using assms(6) page
      by (cases io) (auto simp: DemuxReadPage_def Let_def DemuxOpenSegment_def DemuxCloseSegment_def reader_inv_def
          split: option.splits)
  next
    case False
    then obtain fd where fd: "ws_file seg = Some fd" "ws_segno seg = ?segno" by auto
    with assms(2) have "wal_names d (XLogFileName 1 ?segno wss) = Some fd" by (simp add: reader_inv_def)
    with page [OF this] fd assms(2,6) show ?thesis
      by (cases io) (auto simp: DemuxReadPage_def Let_def)
  qed
qed

text \<open>One 1 MB segment of zeros at the start of the WAL.\<close>

theorem DemuxReadPage_reads_stream_witness:
  "\<exists>seg'. DemuxReadPage 0x100000 0x102000
      \<lparr>wal_names = (\<lambda>n. if n = XLogFileName 1 1 0x100000 then Some 0 else None),
       wal_inode = (\<lambda>i. replicate 0x100000 0)\<rparr> True \<lparr>ws_file = None, ws_segno = 0, ws_tli = 0\<rparr>
     = (Inr (Some (replicate XLOG_BLCKSZ 0)), seg')"
proof -
  let ?d = "\<lparr>wal_names = (\<lambda>n. if n = XLogFileName 1 1 0x100000 then Some (0::nat) else None),
       wal_inode = (\<lambda>i. replicate 0x100000 (0::u8))\<rparr>"
  let ?seg = "\<lparr>ws_file = None, ws_segno = 0, ws_tli = 0\<rparr>"
  have v: "IsValidWalSegSize 0x100000" by (simp add: IsValidWalSegSize_def IsPowerOf2_def)
  have i: "reader_inv 0x100000 ?d ?seg" by (simp add: reader_inv_def)
  have w: "wal_stream 0x100000 ?d (\<lambda>i. 0)" by (simp add: wal_stream_def)
  have dv: "(8192::nat) dvd unat (0x102000::u64)" "(8192::nat) dvd unat (0x100000::u64)" by simp_all
  obtain r seg' where r: "DemuxReadPage 0x100000 0x102000 ?d True ?seg = (r, seg')" by fastforce
  have "\<exists>p. r = Inr (Some p)"
    using r by (auto simp: DemuxReadPage_def Let_def DemuxOpenSegment_def DemuxCloseSegment_def XLByteToSeg_def)
  moreover have "map (\<lambda>i. 0::u8) [0..<XLOG_BLCKSZ] = replicate XLOG_BLCKSZ 0" by (simp add: map_replicate_const)
  ultimately show ?thesis
    using DemuxReadPage_reads_stream [OF v i w dv r] r by auto
qed

end
