(* ===== verification/DemuxStats.thy ===== *)
theory DemuxStats
  imports Complex_Main DemuxShared
begin

text \<open>
  What the SQL functions of \<open>src/worker/demux_worker.c\<close> read from the worker: the ring of
  latency samples and its order statistics, the position, and the wait of \<open>demux_flush\<close>.  The
  lemmas show that the ring holds the last 1024 samples, that the insertion sort sorts, which values
  in milliseconds the statistics are, and what a flush that returns without a warning has seen.
\<close>

section \<open>Recording and reading the samples\<close>

definition RecordLatencySample :: "i64 \<Rightarrow> DemuxSharedState option \<Rightarrow> DemuxSharedState option" where
  "RecordLatencySample us ds =
     (case ds of
        None \<Rightarrow> None
      | Some st \<Rightarrow>
          Some (st\<lparr>latency_buf := (latency_buf st)[latency_head st := us],
                   latency_head := (latency_head st + 1) mod DEMUX_LATENCY_SAMPLES,
                   latency_count := latency_count st + 1\<rparr>))"

text \<open>\<^verbatim>\<open>while (j >= 0 && samples[j] > tmp) { samples[j + 1] = samples[j]; j--; } samples[j + 1] = tmp;\<close>
  with \<open>k = j + 1\<close>.\<close>

fun sift :: "nat \<Rightarrow> i64 \<Rightarrow> i64 list \<Rightarrow> i64 list" where
  "sift 0 tmp samples = samples[0 := tmp]"
| "sift (Suc j) tmp samples =
     (if sint (samples ! j) > sint tmp then sift j tmp (samples[Suc j := samples ! j])
      else samples[Suc j := tmp])"

text \<open>\<^verbatim>\<open>for (i = 1; i < n; i++) { tmp = samples[i]; ... }\<close>\<close>

function insertion_sort :: "nat \<Rightarrow> i64 list \<Rightarrow> i64 list" where
  "insertion_sort i samples =
     (if i < length samples then insertion_sort (Suc i) (sift i (samples ! i) samples) else samples)"
  by pat_completeness auto

lemma length_sift [simp]: "length (sift k tmp xs) = length xs"
  by (induction k tmp xs rule: sift.induct) auto

termination insertion_sort
  by (relation "measure (\<lambda>(i, xs). length xs - i)") auto

declare insertion_sort.simps [simp del]

text \<open>Doubles: every conversion and operation yields the exact real result, rounded.  \<open>rnd\<close> is the
  rounding of the machine, a parameter.\<close>

definition double_of :: "(real \<Rightarrow> real) \<Rightarrow> i64 \<Rightarrow> real" where
  "double_of rnd x = rnd (real_of_int (sint x))"

text \<open>\<^verbatim>\<open>for (i = 0; i < n; i++) sum += (double) samples[i];\<close>\<close>

fun double_sum :: "(real \<Rightarrow> real) \<Rightarrow> real \<Rightarrow> i64 list \<Rightarrow> real" where
  "double_sum rnd s [] = s"
| "double_sum rnd s (x # xs) = double_sum rnd (rnd (s + double_of rnd x)) xs"

text \<open>The three values in milliseconds, as the source computes them from the microseconds of the ring.\<close>

definition pg_partdist_demux_latency_stats ::
    "(real \<Rightarrow> real) \<Rightarrow> bool \<Rightarrow> DemuxSharedState option \<Rightarrow> pg_error + (real \<times> real \<times> real) option" where
  "pg_partdist_demux_latency_stats rnd composite ds =
     (if \<not> composite then Inl ErrFeatureNotSupported
      else
        let count = (case ds of
                       None \<Rightarrow> 0
                     | Some st \<Rightarrow> if latency_count st < DEMUX_LATENCY_SAMPLES then latency_count st
                                  else DEMUX_LATENCY_SAMPLES);
            samples = (case ds of None \<Rightarrow> [] | Some st \<Rightarrow> take count (latency_buf st))
        in if count = 0 then Inr None
           else
             let n = count; sorted_samples = insertion_sort 1 samples
             in Inr (Some (rnd (double_of rnd (sorted_samples ! (n div 2)) / 1000),
                           rnd (double_of rnd (sorted_samples ! (n * 99 div 100)) / 1000),
                           rnd (rnd (double_sum rnd 0 sorted_samples / rnd (real n)) / 1000))))"

text \<open>\<open>demux_progress\<close>: \<open>None\<close> is SQL \<open>NULL\<close>.\<close>

definition pg_partdist_demux_progress ::
    "bool \<Rightarrow> DemuxSharedState option \<Rightarrow> pg_error + (string \<times> XLogRecPtr option)" where
  "pg_partdist_demux_progress composite ds =
     (if \<not> composite then Inl ErrFeatureNotSupported
      else
        let lsn = (case ds of None \<Rightarrow> InvalidXLogRecPtr | Some st \<Rightarrow> last_processed_lsn st)
        in Inr (''local'', if lsn = InvalidXLogRecPtr then None else Some lsn))"

text \<open>\<open>demux_flush\<close> polls every 20 ms for at most 30 s.  \<open>obs k\<close> is the position the \<open>k\<close>-th poll
  sees, \<open>None\<close> without shared memory.  The result is the milliseconds waited and the warning.\<close>

definition reached :: "XLogRecPtr \<Rightarrow> XLogRecPtr option \<Rightarrow> bool" where
  "reached target ob \<longleftrightarrow>
     (case ob of None \<Rightarrow> False | Some processed \<Rightarrow> processed \<noteq> InvalidXLogRecPtr \<and> processed \<ge> target)"

function flush_wait :: "nat \<Rightarrow> XLogRecPtr \<Rightarrow> (nat \<Rightarrow> XLogRecPtr option) \<Rightarrow> nat \<Rightarrow> nat" where
  "flush_wait max_wait_ms target obs waited_ms =
     (if waited_ms < max_wait_ms
      then if reached target (obs (waited_ms div 20)) then waited_ms
           else flush_wait max_wait_ms target obs (waited_ms + 20)
      else waited_ms)"
  by pat_completeness auto
termination
  by (relation "measure (\<lambda>(m, t, obs, w). m - w)") auto

declare flush_wait.simps [simp del]

definition pg_partdist_demux_flush ::
    "XLogRecPtr \<Rightarrow> (nat \<Rightarrow> XLogRecPtr option) \<Rightarrow> nat \<times> pg_warning list" where
  "pg_partdist_demux_flush target_lsn obs =
     (let waited_ms = flush_wait 30000 target_lsn obs 0
      in (waited_ms, if waited_ms \<ge> 30000 then [WarnFlushTimeout target_lsn] else []))"

section \<open>The ring\<close>

text \<open>After the samples \<open>xs\<close>, each of the last 1024 is in its slot.\<close>

definition ring_inv :: "i64 list \<Rightarrow> DemuxSharedState \<Rightarrow> bool" where
  "ring_inv xs st \<longleftrightarrow>
     length (latency_buf st) = DEMUX_LATENCY_SAMPLES \<and> latency_count st = length xs \<and>
     latency_head st = length xs mod DEMUX_LATENCY_SAMPLES \<and>
     (\<forall>i<length xs. length xs \<le> i + DEMUX_LATENCY_SAMPLES \<longrightarrow>
        latency_buf st ! (i mod DEMUX_LATENCY_SAMPLES) = xs ! i)"

lemma ring_start: "ring_inv [] (DemuxShmemInit None)"
  by (simp add: ring_inv_def DemuxShmemInit_def)

lemma ring_record:
  assumes "ring_inv xs st"
  shows "\<exists>st'. RecordLatencySample us (Some st) = Some st' \<and> ring_inv (xs @ [us]) st'"
proof -
  let ?N = DEMUX_LATENCY_SAMPLES
  have N: "0 < ?N" by (simp add: DEMUX_LATENCY_SAMPLES_def)
  have other: "i mod ?N \<noteq> length xs mod ?N" if "i < length xs" "Suc (length xs) \<le> i + ?N" for i
  proof
    assume "i mod ?N = length xs mod ?N"
    then have "?N dvd length xs - i" using that(1) by (metis less_imp_le mod_eq_dvd_iff_nat)
    with that show False by (auto dest: dvd_imp_le)
  qed
  show ?thesis
    using assms N other
    by (auto simp: RecordLatencySample_def ring_inv_def nth_append nth_list_update mod_Suc_eq less_Suc_eq) metis
qed

text \<open>The samples a reader copies are the last ones, in some order.\<close>

lemma ring_samples:
  assumes "ring_inv xs st"
  shows "mset (take (min (length xs) DEMUX_LATENCY_SAMPLES) (latency_buf st))
    = mset (drop (length xs - DEMUX_LATENCY_SAMPLES) xs)"
proof (cases "length xs \<le> DEMUX_LATENCY_SAMPLES")
  case True
  have "take (length xs) (latency_buf st) = xs"
  proof (rule nth_equalityI)
    show "length (take (length xs) (latency_buf st)) = length xs" using assms True by (simp add: ring_inv_def)
    fix i
    assume "i < length (take (length xs) (latency_buf st))"
    then have i: "i < length xs" by simp
    then have "latency_buf st ! (i mod DEMUX_LATENCY_SAMPLES) = xs ! i"
      using assms True by (simp add: ring_inv_def)
    with i True show "take (length xs) (latency_buf st) ! i = xs ! i" by simp
  qed
  with True show ?thesis by (simp add: min_def)
next
  case False
  let ?N = DEMUX_LATENCY_SAMPLES
  have N: "0 < ?N" by (simp add: DEMUX_LATENCY_SAMPLES_def)
  have len: "length (latency_buf st) = ?N" using assms by (simp add: ring_inv_def)
  have "drop (length xs - ?N) xs = rotate (length xs) (latency_buf st)"
  proof (rule nth_equalityI)
    show "length (drop (length xs - ?N) xs) = length (rotate (length xs) (latency_buf st))"
      using len False by simp
    fix i
    assume "i < length (drop (length xs - ?N) xs)"
    then have i: "i < ?N" using False by simp
    have "latency_buf st ! ((length xs - ?N + i) mod ?N) = xs ! (length xs - ?N + i)"
      using assms i False by (simp add: ring_inv_def)
    moreover have "(length xs - ?N + i) mod ?N = (length xs + i) mod ?N"
      using False by (metis add.commute add.left_commute le_add_diff_inverse2 linorder_not_le mod_add_self2 nless_le)
    ultimately show "drop (length xs - ?N) xs ! i = rotate (length xs) (latency_buf st) ! i"
      using i len False by (simp add: nth_rotate)
  qed
  moreover have "mset (rotate n ys) = mset ys" for n and ys :: "i64 list"
    unfolding rotate_drop_take by (metis add.commute append_take_drop_id mset_append)
  ultimately show ?thesis using len False by (simp add: min_def)
qed

section \<open>The sort\<close>

abbreviation ascending :: "i64 list \<Rightarrow> bool" where
  "ascending xs \<equiv> sorted (map sint xs)"

lemma sift_spec:
  "k < length xs \<Longrightarrow>
     mset (take (Suc k) (sift k tmp xs)) = add_mset tmp (mset (take k xs)) \<and>
     drop (Suc k) (sift k tmp xs) = drop (Suc k) xs \<and>
     (ascending (take k xs) \<longrightarrow> ascending (take (Suc k) (sift k tmp xs)))"
proof (induction k tmp xs rule: sift.induct)
  case (1 tmp xs)
  then show ?case by (cases xs) auto
next
  case (2 j tmp xs)
  have tk: "take (Suc j) xs = take j xs @ [xs ! j]" using "2.prems" by (simp add: take_Suc_conv_app_nth)
  show ?case
  proof (cases "sint (xs ! j) > sint tmp")
    case True
    let ?ys = "xs[Suc j := xs ! j]"
    let ?zs = "sift j tmp ?ys"
    have ih: "mset (take (Suc j) ?zs) = add_mset tmp (mset (take j xs))"
      "drop (Suc j) ?zs = drop (Suc j) ?ys" "ascending (take j xs) \<longrightarrow> ascending (take (Suc j) ?zs)"
      using "2.IH" [OF True] "2.prems" by auto
    have d: "drop (Suc j) ?ys = xs ! j # drop (Suc (Suc j)) xs"
      using "2.prems" by (simp add: Cons_nth_drop_Suc [symmetric])
    have "take (Suc (Suc j)) ?zs = take (Suc j) ?zs @ [xs ! j]"
    proof -
      have "take (Suc (Suc j)) ?zs = take (Suc j) ?zs @ take 1 (drop (Suc j) ?zs)"
        using take_add [of "Suc j" 1 ?zs] by simp
      then show ?thesis using ih(2) d by simp
    qed
    moreover have "drop (Suc (Suc j)) ?zs = drop (Suc (Suc j)) xs"
      using ih(2) d by (metis Suc_eq_plus1 drop_drop drop_0 drop_Suc_Cons plus_1_eq_Suc)
    moreover have "ascending (take (Suc j) ?zs @ [xs ! j])" if asc: "ascending (take (Suc j) xs)"
    proof -
      have "set (take (Suc j) ?zs) = insert tmp (set (take j xs))"
        using ih(1) by (metis set_mset_add_mset_insert set_mset_mset)
      then show ?thesis
        using asc ih(3) True unfolding tk by (auto simp: sorted_append)
    qed
    ultimately show ?thesis using True ih(1) tk by simp
  next
    case False
    have "take (Suc (Suc j)) (xs[Suc j := tmp]) = take (Suc j) xs @ [tmp]"
      using "2.prems" by (simp add: take_Suc_conv_app_nth)
    moreover have "ascending (take (Suc j) xs @ [tmp])" if "ascending (take (Suc j) xs)"
      using that False unfolding tk by (auto simp: sorted_append intro: order_trans)
    ultimately show ?thesis using False by simp
  qed
qed

lemma insertion_sort_spec:
  "ascending (take i xs) \<Longrightarrow> mset (insertion_sort i xs) = mset xs \<and> ascending (insertion_sort i xs)"
proof (induction i xs rule: insertion_sort.induct)
  case (1 i xs)
  show ?case
  proof (cases "i < length xs")
    case False
    with 1(2) show ?thesis by (simp add: insertion_sort.simps)
  next
    case True
    let ?ys = "sift i (xs ! i) xs"
    note s = sift_spec [OF True, of "xs ! i"]
    have "mset ?ys = mset (take (Suc i) ?ys) + mset (drop (Suc i) ?ys)"
      by (metis append_take_drop_id mset_append)
    also have "\<dots> = mset (take i xs @ xs ! i # drop (Suc i) xs)" using s by simp
    also have "\<dots> = mset xs" using True by (simp add: id_take_nth_drop [symmetric])
    finally have "mset ?ys = mset xs" .
    with 1 True s show ?thesis by (simp add: insertion_sort.simps [of i xs])
  qed
qed

lemma insertion_sort_1:
  "mset (insertion_sort 1 xs) = mset xs" "ascending (insertion_sort 1 xs)"
proof -
  have "ascending (take 1 xs)" by (cases xs) auto
  from insertion_sort_spec [OF this] show "mset (insertion_sort 1 xs) = mset xs" "ascending (insertion_sort 1 xs)"
    by auto
qed

section \<open>Properties\<close>

text \<open>The sum in doubles is exact while it stays within 53 bits.\<close>

lemma double_sum_exact:
  assumes "\<forall>i. \<bar>i\<bar> \<le> 2 ^ 53 \<longrightarrow> rnd (real_of_int i) = real_of_int i"
    and "\<bar>a\<bar> + sum_list (map (\<lambda>x. \<bar>sint x\<bar>) xs) \<le> 2 ^ 53"
  shows "double_sum rnd (real_of_int a) xs = real_of_int (a + sum_list (map sint xs))"
  using assms(2)
proof (induction xs arbitrary: a)
  case (Cons x xs)
  have pos: "0 \<le> sum_list (map (\<lambda>x. \<bar>sint x\<bar>) xs)" by (rule sum_list_nonneg) auto
  have b: "\<bar>sint x\<bar> \<le> 2 ^ 53" "\<bar>a + sint x\<bar> \<le> 2 ^ 53" "\<bar>a + sint x\<bar> + sum_list (map (\<lambda>x. \<bar>sint x\<bar>) xs) \<le> 2 ^ 53"
    using Cons.prems pos by (simp_all; linarith)+
  have "double_of rnd x = real_of_int (sint x)" unfolding double_of_def using assms(1) b(1) by blast
  then have "rnd (real_of_int a + double_of rnd x) = real_of_int (a + sint x)"
    using assms(1) b(2) by (metis of_int_add)
  then have "double_sum rnd (real_of_int a) (x # xs) = double_sum rnd (real_of_int (a + sint x)) xs" by simp
  also have "\<dots> = real_of_int (a + sint x + sum_list (map sint xs))" by (rule Cons.IH [OF b(3)])
  finally show ?case by (simp add: add.assoc)
qed simp

lemma ring_fold:
  "ring_inv xs st \<Longrightarrow> \<exists>st'. fold RecordLatencySample ys (Some st) = Some st' \<and> ring_inv (xs @ ys) st'"
proof (induction ys arbitrary: xs st)
  case (Cons y ys)
  obtain st' where "RecordLatencySample y (Some st) = Some st'" "ring_inv (xs @ [y]) st'"
    using ring_record [OF Cons.prems] by blast
  with Cons.IH [of "xs @ [y]" st'] show ?case by simp
qed simp

lemma sint_map_inj: "map sint xs = map sint ys \<Longrightarrow> xs = (ys :: i64 list)"
  by (metis (no_types, lifting) inj_on_def inj_map_eq_map signed_word_eqI)

lemma insertion_sort_sort_key: "mset xs = mset ys \<Longrightarrow> insertion_sort 1 xs = sort_key sint ys"
proof -
  assume eq: "mset xs = mset ys"
  have "mset (map sint (insertion_sort 1 xs)) = mset (map sint (sort_key sint ys))"
    using eq insertion_sort_1(1) [of xs] by simp
  moreover have "sorted (map sint (insertion_sort 1 xs))" "sorted (map sint (sort_key sint ys))"
    using insertion_sort_1(2) by simp_all
  ultimately have "map sint (insertion_sort 1 xs) = map sint (sort_key sint ys)"
    by (metis properties_for_sort)
  then show ?thesis by (rule sint_map_inj)
qed

section \<open>Properties\<close>

text \<open>C21: After any non-empty sequence of samples has been recorded from the initial shared state on,
  \<open>demux_latency_stats\<close> reports on exactly the last 1024 of them (or all, when there are fewer).  With
  \<open>n\<close> their number and \<open>ys\<close> their ascending sequence, the values are, in milliseconds, the
  elements of \<open>ys\<close> at \<open>n/2\<close> and at \<open>99n/100\<close>, and the arithmetic mean: each is the exact quotient
  with the rounding of the division by 1000 and, for the mean, of the division by \<open>n\<close>.  The doubles
  are assumed exact on integers up to 2^53, as IEEE doubles are, and the samples' absolute
  values to sum up to no more than that.\<close>

theorem latency_stats_of_last_samples:
  assumes "xs \<noteq> []" and "ys = sort_key sint (drop (length xs - 1024) xs)"
    and "\<forall>i. \<bar>i\<bar> \<le> 2 ^ 53 \<longrightarrow> rnd (real_of_int i) = real_of_int i"
    and "sum_list (map (\<lambda>x. \<bar>sint x\<bar>) ys) \<le> 2 ^ 53"
  shows "length ys = min (length xs) 1024 \<and>
    pg_partdist_demux_latency_stats rnd True (fold RecordLatencySample xs (Some (DemuxShmemInit None)))
      = Inr (Some (rnd (real_of_int (sint (ys ! (length ys div 2))) / 1000),
                   rnd (real_of_int (sint (ys ! (length ys * 99 div 100))) / 1000),
                   rnd (rnd (real_of_int (sum_list (map sint ys)) / real (length ys)) / 1000)))"
proof -
  let ?n = "min (length xs) DEMUX_LATENCY_SAMPLES"
  have N: "DEMUX_LATENCY_SAMPLES = 1024" by (simp add: DEMUX_LATENCY_SAMPLES_def)
  obtain st where st: "fold RecordLatencySample xs (Some (DemuxShmemInit None)) = Some st" "ring_inv xs st"
    using ring_fold [OF ring_start, of xs] by auto
  have sorted: "insertion_sort 1 (take ?n (latency_buf st)) = ys"
    unfolding assms(2) using insertion_sort_sort_key [OF ring_samples [OF st(2)]] by (simp add: N)
  have len: "length ys = ?n" by (simp add: assms(2) N min_def)
  then have pos: "0 < length ys" using assms(1) by (simp add: N)
  have cnt: "(if latency_count st < DEMUX_LATENCY_SAMPLES then latency_count st else DEMUX_LATENCY_SAMPLES) = length ys"
    using st(2) len by (auto simp: ring_inv_def)
  have ex: "double_of rnd (ys ! k) = real_of_int (sint (ys ! k))" if k: "k < length ys" for k
  proof -
    have "\<bar>sint (ys ! k)\<bar> \<in> set (map (\<lambda>x. \<bar>sint x\<bar>) ys)" using nth_mem [OF k] by simp
    then have "\<bar>sint (ys ! k)\<bar> \<le> sum_list (map (\<lambda>x. \<bar>sint x\<bar>) ys)" by (rule member_le_sum_list) auto
    then have "\<bar>sint (ys ! k)\<bar> \<le> 2 ^ 53" using assms(4) by (rule order_trans)
    with assms(3) show ?thesis unfolding double_of_def by blast
  qed
  have idx: "length ys div 2 < length ys" "length ys * 99 div 100 < length ys" using pos by linarith+
  have n: "rnd (real (length ys)) = real (length ys)"
    using assms(3) [rule_format, of "int (length ys)"] len N by simp
  have sum: "double_sum rnd 0 ys = real_of_int (sum_list (map sint ys))"
    using double_sum_exact [OF assms(3), of 0 ys] assms(4) by simp
  have "pg_partdist_demux_latency_stats rnd True (Some st) =
      Inr (Some (rnd (double_of rnd (ys ! (length ys div 2)) / 1000), rnd (double_of rnd (ys ! (length ys * 99 div 100)) / 1000),
        rnd (rnd (double_sum rnd 0 ys / rnd (real (length ys))) / 1000)))"
    using pos sorted unfolding pg_partdist_demux_latency_stats_def option.case cnt Let_def len [symmetric] by simp
  then show ?thesis unfolding st(1) ex [OF idx(1)] ex [OF idx(2)] n sum using len N by simp
qed

theorem latency_stats_of_last_samples_witness:
  "pg_partdist_demux_latency_stats (\<lambda>x. x) True (fold RecordLatencySample [9000, 2000, 1000] (Some (DemuxShmemInit None)))
     = Inr (Some (2, 9, 4))"
proof -
  have ys: "[1000, 2000, 9000] = sort_key sint (drop (length [9000 :: i64, 2000, 1000] - 1024) [9000, 2000, 1000 :: i64])"
    by (simp add: insort_key.simps)
  show ?thesis using latency_stats_of_last_samples [OF _ ys, of "\<lambda>x. x"] by simp
qed

lemma flush_wait_polls:
  "q \<le> r \<Longrightarrow> \<exists>k. flush_wait (20 * r) target obs (20 * q) = 20 * k \<and> q \<le> k \<and> k \<le> r \<and>
     (k < r \<longrightarrow> reached target (obs k)) \<and> (\<forall>j. q \<le> j \<and> j < k \<longrightarrow> \<not> reached target (obs j))"
proof (induction "r - q" arbitrary: q)
  case 0
  then show ?case by (intro exI [of _ q]) (auto simp: flush_wait.simps [of _ _ _ "20 * q"])
next
  case (Suc n)
  show ?case
  proof (cases "reached target (obs q)")
    case True
    with Suc show ?thesis by (intro exI [of _ q]) (auto simp: flush_wait.simps [of _ _ _ "20 * q"])
  next
    case False
    have "flush_wait (20 * r) target obs (20 * q) = flush_wait (20 * r) target obs (20 * Suc q)"
      using Suc.hyps(2) False by (subst flush_wait.simps) (auto simp: add.commute)
    moreover obtain k where "flush_wait (20 * r) target obs (20 * Suc q) = 20 * k" "Suc q \<le> k" "k \<le> r"
      "k < r \<longrightarrow> reached target (obs k)" "\<forall>j. Suc q \<le> j \<and> j < k \<longrightarrow> \<not> reached target (obs j)"
    proof -
      have "n = r - Suc q" "Suc q \<le> r" using Suc.hyps(2) by simp_all
      from Suc.hyps(1) [OF this] that show thesis by blast
    qed
    ultimately show ?thesis
      using False by (intro exI [of _ k]) (auto simp: Suc_le_eq nat_less_le)
  qed
qed

text \<open>C20: \<open>demux_flush\<close> always returns, after at most 1500 polls.  It returns without a warning
  exactly when one of these polls sees a position at or past the flush position taken at the call,
  and then at the first such poll.\<close>

theorem demux_flush_outcome:
  "\<exists>k\<le>1500. fst (pg_partdist_demux_flush target obs) = 20 * k \<and>
     (snd (pg_partdist_demux_flush target obs) = [] \<longleftrightarrow> (\<exists>j<1500. reached target (obs j))) \<and>
     (\<forall>j<k. \<not> reached target (obs j)) \<and>
     (snd (pg_partdist_demux_flush target obs) = [] \<longrightarrow> reached target (obs k))"
proof -
  obtain k where k: "flush_wait (20 * 1500) target obs (20 * 0) = 20 * k" "k \<le> 1500"
    "k < 1500 \<longrightarrow> reached target (obs k)" "\<forall>j. 0 \<le> j \<and> j < k \<longrightarrow> \<not> reached target (obs j)"
    using flush_wait_polls [of 0 1500 target obs] by blast
  have w: "pg_partdist_demux_flush target obs = (20 * k, if 1500 \<le> k then [WarnFlushTimeout target] else [])"
    using k(1) by (simp add: pg_partdist_demux_flush_def Let_def)
  have "k < 1500 \<longleftrightarrow> (\<exists>j<1500. reached target (obs j))"
    using k(2-4) by (metis le_neq_implies_less zero_le)
  with k(2-4) show ?thesis unfolding w by (intro exI [of _ k]) (auto simp: not_le)
qed

theorem demux_flush_outcome_witness:
  "\<exists>k\<le>1500. fst (pg_partdist_demux_flush 80 (\<lambda>k. if k < 3 then None else Some 96)) = 20 * k \<and> k = 3"
proof -
  let ?o = "\<lambda>k::nat. if k < 3 then None else Some (96::u64)"
  have r: "reached 80 (?o j) \<longleftrightarrow> 3 \<le> j" for j by (simp add: reached_def)
  obtain k where k: "k \<le> 1500" "fst (pg_partdist_demux_flush 80 ?o) = 20 * k"
    "snd (pg_partdist_demux_flush 80 ?o) = [] \<longleftrightarrow> (\<exists>j<1500. reached 80 (?o j))"
    "\<forall>j<k. \<not> reached 80 (?o j)" "snd (pg_partdist_demux_flush 80 ?o) = [] \<longrightarrow> reached 80 (?o k)"
    using demux_flush_outcome [of 80 ?o] by blast
  have "\<exists>j<1500::nat. reached 80 (?o j)" unfolding r by (rule exI [of _ 3]) simp
  with k(3,5) have "3 \<le> k" unfolding r by blast
  moreover have "\<not> 3 < k" using k(4) unfolding r by auto
  ultimately have "k = 3" by simp
  with k(1,2) show ?thesis by blast
qed

end
