(* ===== verification/DemuxWriters.thy ===== *)
theory DemuxWriters
  imports DemuxStats
begin

text \<open>
  The routing of records by the Demux worker of \<open>src/worker/demux_worker.c\<close>: its cache of writers
  and what it does with one record of the WAL.  The parallel arrays \<open>writer_pids\<close> and
  \<open>active_writers\<close> with \<open>num_writers\<close> are one list of pairs.  Without faults the worker is a
  watermark log for every partition; with faults the lemmas show what it drops.
\<close>

section \<open>The writer cache\<close>

record demux =
  writers :: "(oid \<times> PartitionWALWriter) list"
  dstore :: parwal_store

fun find_writer :: "oid \<Rightarrow> (oid \<times> PartitionWALWriter) list \<Rightarrow> nat option" where
  "find_writer p [] = None"
| "find_writer p ((pid, w) # ws) =
     (if pid = p then Some 0 else map_option Suc (find_writer p ws))"

text \<open>The result is the index of the writer, \<open>None\<close> for the null pointer.\<close>

definition GetOrCreateWriter :: "oid \<Rightarrow> demux \<Rightarrow> (pg_error + nat option) \<times> demux" where
  "GetOrCreateWriter p d =
     (case find_writer p (writers d) of
        Some i \<Rightarrow> (Inr (Some i), d)
      | None \<Rightarrow>
          if length (writers d) \<ge> DEMUX_MAX_PARTITIONS
          then (Inr None, d\<lparr>dstore := warn (WarnCacheFull p) (dstore d)\<rparr>)
          else (case CreatePartitionWALWriter p (dstore d) of
                  (Inl e, s1) \<Rightarrow> (Inl e, d\<lparr>dstore := s1\<rparr>)
                | (Inr w, s1) \<Rightarrow>
                    (Inr (Some (length (writers d))),
                     d\<lparr>writers := writers d @ [(p, w)], dstore := s1\<rparr>)))"

fun flush_writers :: "(oid \<times> PartitionWALWriter) list \<Rightarrow> parwal_store \<Rightarrow> (oid \<times> PartitionWALWriter) list \<times> parwal_store" where
  "flush_writers [] s = ([], s)"
| "flush_writers ((pid, w) # ws) s =
     (case FlushPartitionWALWriter w s of
        (Inl e, w1, s1) \<Rightarrow>
          (case flush_writers ws s1 of (ws', s') \<Rightarrow> ((pid, w1\<lparr>enospc_stalled := True\<rparr>) # ws', s'))
      | (Inr _, w1, s1) \<Rightarrow>
          (case flush_writers ws s1 of (ws', s') \<Rightarrow> ((pid, w1) # ws', s')))"

definition FlushAllWriters :: "demux \<Rightarrow> demux" where
  "FlushAllWriters d = (case flush_writers (writers d) (dstore d) of (ws, s) \<Rightarrow> d\<lparr>writers := ws, dstore := s\<rparr>)"

fun destroy_writers :: "(oid \<times> PartitionWALWriter) list \<Rightarrow> parwal_store \<Rightarrow> pg_error option \<times> parwal_store" where
  "destroy_writers [] s = (None, s)"
| "destroy_writers ((pid, w) # ws) s =
     (case DestroyPartitionWALWriter w s of
        (Inl e, s1) \<Rightarrow> (Some e, s1)
      | (Inr _, s1) \<Rightarrow> destroy_writers ws s1)"

definition DestroyAllWriters :: "demux \<Rightarrow> pg_error option \<times> demux" where
  "DestroyAllWriters d =
     (case destroy_writers (writers d) (dstore d) of
        (Some e, s) \<Rightarrow> (Some e, d\<lparr>dstore := s\<rparr>)
      | (None, s) \<Rightarrow> (None, d\<lparr>writers := [], dstore := s\<rparr>))"

section \<open>One record\<close>

text \<open>The two checks before the write: were the files deleted, and has a stall passed?\<close>

definition reset_detection :: "PartWALHeader \<Rightarrow> parwal_store \<Rightarrow> PartitionWALWriter \<Rightarrow> PartitionWALWriter" where
  "reset_detection hdr s w =
     (if partition_lsn hdr = 1 \<and> last_partition_lsn w > 0 \<and> GetLastWrittenPartitionLSN (partition_id hdr) s = 0
      then w\<lparr>w_fd := None, current_segno := 0, buffer := [], last_partition_lsn := 0, enospc_stalled := False\<rparr>
      else w)"

definition unstall :: "PartWALHeader \<Rightarrow> parwal_store \<Rightarrow> PartitionWALWriter \<Rightarrow> PartitionWALWriter" where
  "unstall hdr s w =
     (if enospc_stalled w \<and> GetLastWrittenPartitionLSN (partition_id hdr) s < partition_lsn hdr
      then w\<lparr>enospc_stalled := False\<rparr> else w)"

text \<open>\<^verbatim>\<open>PG_TRY(); { WritePartitionWAL(w, hdr); FlushPartitionWALWriter(w); } PG_CATCH(); ...\<close>\<close>

definition write_and_flush ::
    "u64 \<Rightarrow> PartWALHeader \<Rightarrow> PartitionWALWriter \<Rightarrow> parwal_store \<Rightarrow> PartitionWALWriter \<times> parwal_store" where
  "write_and_flush wss hdr w s =
     (case WritePartitionWAL w hdr wss s of
        (Inl e, w1, s1) \<Rightarrow> (w1\<lparr>enospc_stalled := True\<rparr>, warn (WarnStalling (partition_id hdr)) s1)
      | (Inr _, w1, s1) \<Rightarrow>
          (case FlushPartitionWALWriter w1 s1 of
             (Inl e, w2, s2) \<Rightarrow> (w2\<lparr>enospc_stalled := True\<rparr>, warn (WarnStalling (partition_id hdr)) s2)
           | (Inr _, w2, s2) \<Rightarrow> (w2, s2)))"

definition route_to_writer ::
    "u64 \<Rightarrow> PartWALHeader \<Rightarrow> PartitionWALWriter \<Rightarrow> parwal_store \<Rightarrow> PartitionWALWriter \<times> parwal_store" where
  "route_to_writer wss hdr w s =
     (let w2 = unstall hdr s (reset_detection hdr s w)
      in if \<not> enospc_stalled w2 \<and> partition_lsn hdr > last_partition_lsn w2
         then write_and_flush wss hdr w2 s else (w2, s))"

definition process_record :: "u64 \<Rightarrow> wal_record \<Rightarrow> demux \<Rightarrow> demux" where
  "process_record wss r d =
     (if xl_rmid r \<noteq> RM_EXPERIMENTAL_ID then d
      else if \<not> (XLogRecGetInfo r AND NOT XLR_INFO_MASK = PARTWAL_RMGR_INFO_DATA \<and> length (main_data r) \<ge> sizeof_header) then d
      else
        let hdr = decode_header (take sizeof_header (main_data r))
        in if magic hdr \<noteq> PARTWAL_MAGIC then d
           else (case GetOrCreateWriter (partition_id hdr) d of
                   (Inl e, d1) \<Rightarrow> d1\<lparr>dstore := warn (WarnNoWriter (partition_id hdr)) (dstore d1)\<rparr>
                 | (Inr None, d1) \<Rightarrow> d1
                 | (Inr (Some i), d1) \<Rightarrow>
                     (case route_to_writer wss hdr (snd (writers d1 ! i)) (dstore d1) of
                        (w, s) \<Rightarrow> d1\<lparr>writers := (writers d1)[i := (fst (writers d1 ! i), w)], dstore := s\<rparr>)))"

section \<open>Every outcome: the shape of the cache\<close>

definition cache_shape :: "demux \<Rightarrow> bool" where
  "cache_shape d \<longleftrightarrow>
     distinct (map fst (writers d)) \<and> length (writers d) \<le> DEMUX_MAX_PARTITIONS \<and>
     (\<forall>(pid, w)\<in>set (writers d). w_partition_id w = pid \<and> buf_used w \<le> PARWAL_WRITER_BUFFER_SIZE)"

lemma find_writer_Some:
  "find_writer p ws = Some i \<Longrightarrow> i < length ws \<and> fst (ws ! i) = p"
  by (induction p ws arbitrary: i rule: find_writer.induct) (auto split: if_splits)

lemma find_writer_None: "find_writer p ws = None \<longleftrightarrow> p \<notin> fst ` set ws"
  by (induction p ws rule: find_writer.induct) auto

lemma Create_id:
  "CreatePartitionWALWriter p s = (Inr w, s') \<Longrightarrow>
     w_partition_id w = p \<and> buffer w = [] \<and> w_fd w = None \<and> current_segno w = 0 \<and> \<not> enospc_stalled w"
  by (auto simp: CreatePartitionWALWriter_def split: sum.splits prod.splits)

lemma GetOrCreateWriter_shape:
  assumes "GetOrCreateWriter p d = (r, d')" and "cache_shape d"
  shows "cache_shape d'" and "r = Inr (Some i) \<Longrightarrow> i < length (writers d') \<and> fst (writers d' ! i) = p"
proof -
  have "cache_shape d' \<and> (\<forall>i. r = Inr (Some i) \<longrightarrow> i < length (writers d') \<and> fst (writers d' ! i) = p)"
  proof (cases "find_writer p (writers d)")
    case (Some j)
    with assms find_writer_Some [OF Some] show ?thesis by (auto simp: GetOrCreateWriter_def)
  next
    case None
    then have new: "p \<notin> fst ` set (writers d)" by (simp add: find_writer_None)
    show ?thesis
      using assms None new
      by (auto simp: GetOrCreateWriter_def cache_shape_def nth_append PARWAL_WRITER_BUFFER_SIZE_def
          dest!: Create_id split: if_splits sum.splits prod.splits)
  qed
  then show "cache_shape d'" and "r = Inr (Some i) \<Longrightarrow> i < length (writers d') \<and> fst (writers d' ! i) = p"
    by blast+
qed

lemma write_and_flush_shape:
  assumes "write_and_flush wss hdr w s = (w', s')" and "buf_used w \<le> PARWAL_WRITER_BUFFER_SIZE"
  shows "w_partition_id w' = w_partition_id w" and "buf_used w' \<le> PARWAL_WRITER_BUFFER_SIZE"
proof -
  obtain r1 w1 s1 where 1: "WritePartitionWAL w hdr wss s = (r1, w1, s1)" by (metis prod_cases3)
  obtain r2 w2 s2 where 2: "FlushPartitionWALWriter w1 s1 = (r2, w2, s2)" by (metis prod_cases3)
  have id1: "w_partition_id w1 = w_partition_id w" by (rule WritePartitionWAL_id [OF 1])
  have b1: "buf_used w1 \<le> PARWAL_WRITER_BUFFER_SIZE"
    using WritePartitionWAL_outcomes [OF 1] assms(2) by auto
  have 3: "w_partition_id w2 = w_partition_id w1" "buf_used w2 \<le> buf_used w1"
    using flush_outcomes(1) [OF 2] by auto
  have "w' = w1\<lparr>enospc_stalled := True\<rparr> \<or> w' = w2\<lparr>enospc_stalled := True\<rparr> \<or> w' = w2"
    using assms(1) 1 2 by (auto simp: write_and_flush_def split: sum.splits)
  with id1 b1 3 show "w_partition_id w' = w_partition_id w" and "buf_used w' \<le> PARWAL_WRITER_BUFFER_SIZE" by auto
qed

lemma route_shape:
  assumes "route_to_writer wss hdr w s = (w', s')" and "buf_used w \<le> PARWAL_WRITER_BUFFER_SIZE"
  shows "w_partition_id w' = w_partition_id w" and "buf_used w' \<le> PARWAL_WRITER_BUFFER_SIZE"
proof -
  let ?w = "unstall hdr s (reset_detection hdr s w)"
  have w: "w_partition_id ?w = w_partition_id w" "buf_used ?w \<le> PARWAL_WRITER_BUFFER_SIZE"
    using assms(2) by (auto simp: unstall_def reset_detection_def)
  show "w_partition_id w' = w_partition_id w" and "buf_used w' \<le> PARWAL_WRITER_BUFFER_SIZE"
    using assms(1) w write_and_flush_shape [of wss hdr ?w s w' s']
    by (auto simp: route_to_writer_def Let_def split: if_splits)
qed

lemma process_record_shape: "cache_shape d \<Longrightarrow> cache_shape (process_record wss r d)"
proof -
  assume shape: "cache_shape d"
  let ?hdr = "decode_header (take sizeof_header (main_data r))"
  obtain rg d1 where g: "GetOrCreateWriter (partition_id ?hdr) d = (rg, d1)" by fastforce
  note gs = GetOrCreateWriter_shape [OF g shape]
  show ?thesis
  proof (cases "\<exists>i. rg = Inr (Some i)")
    case False
    with g gs(1) shape show ?thesis
      by (auto simp: process_record_def Let_def cache_shape_def split: sum.splits option.splits)
  next
    case True
    then obtain i where i: "rg = Inr (Some i)" by blast
    note ix = gs(2) [OF i]
    obtain w' s' where w: "route_to_writer wss ?hdr (snd (writers d1 ! i)) (dstore d1) = (w', s')" by fastforce
    have mem: "(partition_id ?hdr, snd (writers d1 ! i)) \<in> set (writers d1)"
      using ix by (metis nth_mem prod.collapse)
    have old: "buf_used (snd (writers d1 ! i)) \<le> PARWAL_WRITER_BUFFER_SIZE"
      "w_partition_id (snd (writers d1 ! i)) = partition_id ?hdr"
      using gs(1) mem by (auto simp: cache_shape_def)
    note rs = route_shape [OF w old(1)]
    let ?d = "d1\<lparr>writers := (writers d1)[i := (fst (writers d1 ! i), w')], dstore := s'\<rparr>"
    have "map fst (writers ?d) = map fst (writers d1)"
      using ix list_update_id [of "map fst (writers d1)" i] by (simp add: map_update)
    moreover have "\<forall>(pid, v)\<in>set (writers ?d). w_partition_id v = pid \<and> buf_used v \<le> PARWAL_WRITER_BUFFER_SIZE"
      using gs(1) rs old ix by (auto simp: cache_shape_def dest!: set_update_subset_insert [THEN subsetD])
    ultimately have "cache_shape ?d" using gs(1) by (simp add: cache_shape_def)
    then show ?thesis
      using g i w shape by (auto simp: process_record_def Let_def)
  qed
qed

section \<open>No faults: one record\<close>

lemma pending_empty: "buffer w = [] \<Longrightarrow> pending_content wss w s = file_content s"
  by (intro ext) (simp add: pending_content_def option.map_ident)

lemma writer_inv_script: "writer_inv wss w s \<Longrightarrow> script s = [] \<and> store_ok s"
  by (simp add: writer_inv_def)

lemma writer_inv_cong:
  assumes "writer_inv wss w s" and "script s' = []" and "store_ok s'"
    and "part_dirs s' (w_partition_id w) = part_dirs s (w_partition_id w)"
  shows "writer_inv wss w s'"
  using assms by (auto simp: writer_inv_def file_ino_def split: option.splits)

lemma write_and_flush_faultless:
  assumes inv: "writer_inv wss w s" and buf: "buffer w = []" and val: "IsValidWalSegSize wss"
  obtains w' s' where "write_and_flush wss h w s = (w', s')" and "writer_inv wss w' s'" and "buffer w' = []"
    and "appended wss (w_partition_id w) (record_segno wss (orig_node_lsn h)) (encode_header h) s s'"
    and "last_partition_lsn w' = partition_lsn h" and "w_partition_id w' = w_partition_id w"
    and "enospc_stalled w' \<Longrightarrow> enospc_stalled w"
proof -
  obtain w1 s1 where 1: "WritePartitionWAL w h wss s = (Inr (), w1, s1)" "writer_inv wss w1 s1"
    "pending_content wss w1 s1 = log_append wss (w_partition_id w) h (pending_content wss w s)"
    "same_frame s s1" "\<And>q. q \<noteq> w_partition_id w \<Longrightarrow> part_dirs s1 q = part_dirs s q"
    "w_partition_id w1 = w_partition_id w" "last_partition_lsn w1 = partition_lsn h"
    "enospc_stalled w1 \<Longrightarrow> enospc_stalled w"
    by (rule write_faultless [OF inv val]) blast
  obtain w2 s2 where 2: "FlushPartitionWALWriter w1 s1 = (Inr (), w2, s2)" "writer_inv wss w2 s2" "buffer w2 = []"
    "pending_content wss w2 s2 = pending_content wss w1 s1" "same_frame s1 s2" "part_dirs s2 = part_dirs s1"
    "w_partition_id w2 = w_partition_id w1" "last_partition_lsn w2 = last_partition_lsn w1"
    "enospc_stalled w2 = enospc_stalled w1"
    by (rule flush_faultless [OF 1(2)]) blast
  have "file_content s2 = log_append wss (w_partition_id w) h (file_content s)"
    using 1(3) 2(3,4) buf by (simp add: pending_empty)
  then have "appended wss (w_partition_id w) (record_segno wss (orig_node_lsn h)) (encode_header h) s s2"
    using 1(4,5) 2(5,6) writer_inv_script [OF 2(2)]
    by (auto simp: appended_def log_append_def same_frame_def)
  then show thesis using 1 2 by (intro that [of w2 s2]) (auto simp: write_and_flush_def)
qed

text \<open>A worker in which no fault has happened; \<open>P\<close> bounds the partitions of the stream.\<close>

definition demux_ok :: "u64 \<Rightarrow> oid set \<Rightarrow> demux \<Rightarrow> bool" where
  "demux_ok wss P d \<longleftrightarrow>
     IsValidWalSegSize wss \<and> finite P \<and> card P \<le> DEMUX_MAX_PARTITIONS \<and>
     script (dstore d) = [] \<and> store_ok (dstore d) \<and> cache_shape d \<and> fst ` set (writers d) \<subseteq> P \<and>
     (\<forall>(pid, w)\<in>set (writers d). writer_inv wss w (dstore d) \<and> buffer w = [] \<and> \<not> enospc_stalled w)"

lemma demux_ok_writer:
  "demux_ok wss P d \<Longrightarrow> (pid, w) \<in> set (writers d) \<Longrightarrow>
     writer_inv wss w (dstore d) \<and> buffer w = [] \<and> \<not> enospc_stalled w \<and> w_partition_id w = pid"
  by (auto simp: demux_ok_def cache_shape_def)

text \<open>What stays in a step that only touches partition \<open>q\<close>.\<close>

definition keeps :: "oid \<Rightarrow> demux \<Rightarrow> parwal_store \<Rightarrow> bool" where
  "keeps q d s \<longleftrightarrow>
     file_content s = file_content (dstore d) \<and> same_frame (dstore d) s \<and>
     (\<forall>p. p \<noteq> q \<longrightarrow> part_dirs s p = part_dirs (dstore d) p)"

lemma GetOrCreate_faultless:
  assumes ok: "demux_ok wss P d" and q: "q \<in> P"
  obtains i d1 where "GetOrCreateWriter q d = (Inr (Some i), d1)" and "demux_ok wss P d1"
    and "i < length (writers d1)" and "fst (writers d1 ! i) = q" and "keeps q d (dstore d1)"
    and "set (writers d) \<subseteq> set (writers d1)"
    and "\<And>p w. (p, w) \<in> set (writers d1) \<Longrightarrow>
      (p, w) \<in> set (writers d) \<or> p = q \<and> last_partition_lsn w = GetLastWrittenPartitionLSN q (dstore d1)"
proof (cases "find_writer q (writers d)")
  case (Some i)
  with ok find_writer_Some [OF Some] show thesis
    by (intro that [of i d]) (auto simp: GetOrCreateWriter_def keeps_def same_frame_def)
next
  case None
  then have new: "q \<notin> fst ` set (writers d)" by (simp add: find_writer_None)
  have s: "script (dstore d) = []" "store_ok (dstore d)" using ok by (auto simp: demux_ok_def)
  obtain w s1 where c: "CreatePartitionWALWriter q (dstore d) = (Inr w, s1)" "writer_inv wss w s1"
    "w_partition_id w = q" "last_partition_lsn w = GetLastWrittenPartitionLSN q s1"
    "InitPartitionWALDirectory q (dstore d) = (Inr (), s1)" "buffer w = []" "\<not> enospc_stalled w"
    by (rule Create_faultless [OF s]) blast
  have "card (insert q (fst ` set (writers d))) \<le> card P"
    using ok q by (intro card_mono) (auto simp: demux_ok_def)
  moreover have "card (fst ` set (writers d)) = length (writers d)"
    using ok distinct_card [of "map fst (writers d)"] by (simp add: demux_ok_def cache_shape_def)
  ultimately have room: "length (writers d) < DEMUX_MAX_PARTITIONS"
    using ok new by (simp add: demux_ok_def)
  let ?d = "d\<lparr>writers := writers d @ [(q, w)], dstore := s1\<rparr>"
  have g: "GetOrCreateWriter q d = (Inr (Some (length (writers d))), ?d)"
    using None room c(1) by (simp add: GetOrCreateWriter_def)
  have shape: "cache_shape ?d"
    using GetOrCreateWriter_shape(1) [OF g] ok by (simp add: demux_ok_def)
  have old: "writer_inv wss v s1" if "(pid, v) \<in> set (writers d)" for pid v
  proof (rule writer_inv_cong)
    show "writer_inv wss v (dstore d)" using demux_ok_writer [OF ok that] by simp
    then show "part_dirs s1 (w_partition_id v) = part_dirs (dstore d) (w_partition_id v)"
      by (intro Init_files(5) [OF c(5)]) (simp add: writer_inv_def)
  qed (use writer_inv_script [OF c(2)] in auto)
  have "demux_ok wss P ?d"
    using ok old c q shape writer_inv_script [OF c(2)] by (auto simp: demux_ok_def)
  moreover have "keeps q d s1"
    using Init_files(1,2,4) [OF c(5)] c(5) s
    by (auto simp: keeps_def file_content_def fun_eq_iff Init_faultless)
  ultimately show thesis
    using g c(4) by (intro that [of "length (writers d)" ?d]) (auto simp: nth_append)
qed

lemma reset_keeps:
  assumes "writer_inv wss w s" and "buffer w = []" and "\<not> enospc_stalled w"
  shows "writer_inv wss (reset_detection h t w) s" and "buffer (reset_detection h t w) = []"
    and "\<not> enospc_stalled (reset_detection h t w)" and "w_partition_id (reset_detection h t w) = w_partition_id w"
  using assms by (auto simp: reset_detection_def writer_inv_def)

abbreviation demux_step :: "u64 \<Rightarrow> PartWALHeader \<Rightarrow> demux \<Rightarrow> demux" where
  "demux_step wss h d \<equiv> process_record wss (redo_record h) d"

text \<open>Routing to a writer that is not stalled: the record goes behind the partition's files if it is
  above the watermark, and nothing happens otherwise.\<close>

lemma route_faultless:
  assumes rt: "route_to_writer wss h w s = (w', s')" and val: "IsValidWalSegSize wss"
    and w: "writer_inv wss (reset_detection h s w) s" "buffer (reset_detection h s w) = []"
      "\<not> enospc_stalled (reset_detection h s w)" "w_partition_id (reset_detection h s w) = partition_id h"
  shows "writer_inv wss w' s' \<and> buffer w' = [] \<and> \<not> enospc_stalled w' \<and> w_partition_id w' = partition_id h \<and>
    (\<forall>p. p \<noteq> partition_id h \<longrightarrow> part_dirs s' p = part_dirs s p) \<and>
    (if last_partition_lsn (reset_detection h s w) < partition_lsn h
     then appended wss (partition_id h) (record_segno wss (orig_node_lsn h)) (encode_header h) s s'
       \<and> last_partition_lsn w' = partition_lsn h
     else s' = s \<and> w' = reset_detection h s w)"
proof -
  let ?w = "reset_detection h s w"
  have un: "unstall h s ?w = ?w" using w(3) by (simp add: unstall_def)
  show ?thesis
  proof (cases "last_partition_lsn ?w < partition_lsn h")
    case True
    then have "write_and_flush wss h ?w s = (w', s')"
      using rt w(3) by (simp add: route_to_writer_def Let_def un)
    moreover obtain w3 s3 where "write_and_flush wss h ?w s = (w3, s3)" "writer_inv wss w3 s3" "buffer w3 = []"
      "appended wss (partition_id h) (record_segno wss (orig_node_lsn h)) (encode_header h) s s3"
      "last_partition_lsn w3 = partition_lsn h" "w_partition_id w3 = partition_id h" "\<not> enospc_stalled w3"
      by (rule write_and_flush_faultless [OF w(1,2) val, of h]) (use w(3,4) in auto)
    ultimately show ?thesis using True by (auto simp: appended_def)
  next
    case False
    with rt w un show ?thesis by (auto simp: route_to_writer_def Let_def)
  qed
qed

text \<open>The cache after one writer and its partition's directory have changed: every other writer still
  agrees with the files.\<close>

lemma cache_update_faultless:
  fixes d :: demux
  defines "d' w s i \<equiv> d\<lparr>writers := (writers d)[i := (w_partition_id w, w)], dstore := s\<rparr>"
  assumes ok: "demux_ok wss P d" and i: "i < length (writers d)" "fst (writers d ! i) = w_partition_id w"
    and w: "writer_inv wss w s" "buffer w = []" "\<not> enospc_stalled w"
    and rest: "\<And>p. p \<noteq> w_partition_id w \<Longrightarrow> part_dirs s p = part_dirs (dstore d) p"
    and shape: "cache_shape (d' w s i)"
  shows "demux_ok wss P (d' w s i)"
proof -
  let ?d = "d' w s i" and ?q = "w_partition_id w"
  have names: "map fst (writers ?d) = map fst (writers d)"
    using i list_update_id [of "map fst (writers d)" i] by (simp add: d'_def map_update)
  have new: "(?q, w) \<in> set (writers ?d)" using i by (simp add: d'_def set_update_memI)
  have "writer_inv wss v s \<and> buffer v = [] \<and> \<not> enospc_stalled v" if v: "(p, v) \<in> set (writers ?d)" for p v
  proof (cases "p = ?q")
    case True
    then have "v = w" using v new shape by (auto simp: cache_shape_def intro: eq_key_imp_eq_value)
    then show ?thesis using w by blast
  next
    case False
    then have "(p, v) \<in> set (writers d)"
      using v set_update_subset_insert [of "writers d" i "(?q, w)"] by (auto simp: d'_def)
    then show ?thesis
      using demux_ok_writer [OF ok] False rest w writer_inv_script [of wss w s]
        writer_inv_cong [of wss v "dstore d" s] by metis
  qed
  moreover have "fst ` set (writers ?d) = fst ` set (writers d)" using names by (metis list.set_map)
  moreover have "script s = []" "store_ok s" using w writer_inv_script by blast+
  ultimately show ?thesis using ok shape by (auto simp: demux_ok_def d'_def)
qed

text \<open>One record: the writer of its partition (old, or made from the disk) after reset detection
  either appends it, or leaves the files as they are.\<close>

lemma step_faultless:
  assumes ok: "demux_ok wss P d" and q: "partition_id h \<in> P" and mg: "magic h = PARTWAL_MAGIC"
  obtains s1 w w' where "keeps (partition_id h) d s1" and "store_ok s1"
    and "demux_ok wss P (demux_step wss h d)"
    and "(partition_id h, w) \<in> set (writers d) \<or> last_partition_lsn w = GetLastWrittenPartitionLSN (partition_id h) s1"
    and "(partition_id h, w') \<in> set (writers (demux_step wss h d))"
    and "\<And>p v. p \<noteq> partition_id h \<Longrightarrow> (p, v) \<in> set (writers (demux_step wss h d)) \<Longrightarrow> (p, v) \<in> set (writers d)"
    and "if last_partition_lsn (reset_detection h s1 w) < partition_lsn h
         then appended wss (partition_id h) (record_segno wss (orig_node_lsn h)) (encode_header h) s1
                (dstore (demux_step wss h d)) \<and> last_partition_lsn w' = partition_lsn h
         else dstore (demux_step wss h d) = s1 \<and> w' = reset_detection h s1 w"
proof -
  let ?q = "partition_id h"
  obtain i d1 where g: "GetOrCreateWriter ?q d = (Inr (Some i), d1)" "demux_ok wss P d1"
    "i < length (writers d1)" "fst (writers d1 ! i) = ?q" "keeps ?q d (dstore d1)"
    "set (writers d) \<subseteq> set (writers d1)"
    "\<And>p w. (p, w) \<in> set (writers d1) \<Longrightarrow>
      (p, w) \<in> set (writers d) \<or> p = ?q \<and> last_partition_lsn w = GetLastWrittenPartitionLSN ?q (dstore d1)"
    by (rule GetOrCreate_faultless [OF ok q]) blast
  let ?s1 = "dstore d1" and ?w = "snd (writers d1 ! i)"
  let ?w2 = "reset_detection h ?s1 ?w"
  have mem: "(?q, ?w) \<in> set (writers d1)" using g(3,4) by (metis nth_mem prod.collapse)
  have val: "IsValidWalSegSize wss" using ok by (simp add: demux_ok_def)
  have w: "writer_inv wss ?w2 ?s1" "buffer ?w2 = []" "\<not> enospc_stalled ?w2" "w_partition_id ?w2 = ?q"
    using demux_ok_writer [OF g(2) mem] reset_keeps [of wss ?w ?s1 h ?s1] by auto
  obtain w' s' where rt: "route_to_writer wss h ?w ?s1 = (w', s')" by fastforce
  let ?d = "d1\<lparr>writers := (writers d1)[i := (?q, w')], dstore := s'\<rparr>"
  have step: "demux_step wss h d = ?d"
    using mg g(1,4) rt by (simp add: process_record_def redo_record_def XLogRecGetInfo_def
        RM_EXPERIMENTAL_ID_def PARTWAL_RMGR_INFO_DATA_def)
  have res: "writer_inv wss w' s' \<and> buffer w' = [] \<and> \<not> enospc_stalled w' \<and> w_partition_id w' = ?q \<and>
    (\<forall>p. p \<noteq> ?q \<longrightarrow> part_dirs s' p = part_dirs ?s1 p) \<and>
    (if last_partition_lsn ?w2 < partition_lsn h
     then appended wss ?q (record_segno wss (orig_node_lsn h)) (encode_header h) ?s1 s'
       \<and> last_partition_lsn w' = partition_lsn h
     else s' = ?s1 \<and> w' = ?w2)"
    by (rule route_faultless [OF rt val w])
  have others: "(p, v) \<in> set (writers d1)" if "(p, v) \<in> set (writers ?d)" "(p, v) \<noteq> (?q, w')" for p v
    using that set_update_subset_insert [of "writers d1" i "(?q, w')"] by auto
  have new: "(?q, w') \<in> set (writers ?d)" using g(3) by (simp add: set_update_memI)
  have "cache_shape ?d" using process_record_shape [of d wss "redo_record h"] ok step
    by (simp add: demux_ok_def)
  then have ok': "demux_ok wss P ?d"
    using cache_update_faultless [OF g(2), of i w' s'] g(3,4) res by auto
  show thesis
  proof (rule that [of ?s1 ?w w'])
    show "keeps ?q d ?s1" by (rule g(5))
    show "store_ok ?s1" using g(2) by (simp add: demux_ok_def)
    show "demux_ok wss P (demux_step wss h d)" unfolding step by (rule ok')
    show "(?q, ?w) \<in> set (writers d) \<or> last_partition_lsn ?w = GetLastWrittenPartitionLSN ?q ?s1"
      using g(7) [OF mem] by blast
    show "(?q, w') \<in> set (writers (demux_step wss h d))" unfolding step by (rule new)
    show "(p, v) \<in> set (writers d)" if "p \<noteq> ?q" "(p, v) \<in> set (writers (demux_step wss h d))" for p v
      using that others [of p v] g(7) [of p v] unfolding step by auto
    show "if last_partition_lsn ?w2 < partition_lsn h
         then appended wss ?q (record_segno wss (orig_node_lsn h)) (encode_header h) ?s1
                (dstore (demux_step wss h d)) \<and> last_partition_lsn w' = partition_lsn h
         else dstore (demux_step wss h d) = ?s1 \<and> w' = ?w2"
      using res unfolding step by simp
  qed
qed

section \<open>The worker as a watermark log\<close>

text \<open>A partition in the worker's hands: its files are a well-formed log, and its writer, if there
  is one, has the LSN of the last record as its watermark.\<close>

definition plog_ok :: "u64 \<Rightarrow> oid set \<Rightarrow> oid \<Rightarrow> demux \<Rightarrow> bool" where
  "plog_ok wss P p d \<longleftrightarrow>
     demux_ok wss P d \<and> part_ok wss p (dstore d) \<and> wf_log p (scan_headers p (dstore d)) \<and>
     (\<forall>w. (p, w) \<in> set (writers d) \<longrightarrow> last_partition_lsn w = last_lsn (scan_headers p (dstore d)))"

lemma demux_foreign: "magic h \<noteq> PARTWAL_MAGIC \<Longrightarrow> demux_step wss h d = d"
  by (simp add: process_record_def redo_record_def)

lemma writer_unique:
  "demux_ok wss P d \<Longrightarrow> (p, v) \<in> set (writers d) \<Longrightarrow> (p, w) \<in> set (writers d) \<Longrightarrow> v = w"
  by (auto simp: demux_ok_def cache_shape_def dest: eq_key_imp_eq_value)

lemma keeps_log:
  assumes "keeps q d s1" and "store_ok s1" and "part_ok wss p (dstore d)"
  shows "part_ok wss p s1" and "scan_headers p s1 = scan_headers p (dstore d)"
    and "seg_names p s1 = seg_names p (dstore d)"
  using same_content_log [OF assms(3,2)] assms(1) by (auto simp: keeps_def)

lemma demux_own_step:
  assumes ok: "plog_ok wss P p d" and fits: "partition_id h \<in> P" and own: "own_record p h"
  obtains s1 where "keeps p d s1" and "store_ok s1" and "demux_ok wss P (demux_step wss h d)"
    and "if last_lsn (scan_headers p (dstore d)) < partition_lsn h
         then appended wss p (record_segno wss (orig_node_lsn h)) (encode_header h) s1 (dstore (demux_step wss h d))
         else dstore (demux_step wss h d) = s1"
    and "\<And>v. (p, v) \<in> set (writers (demux_step wss h d)) \<Longrightarrow>
      last_partition_lsn v = max (last_lsn (scan_headers p (dstore d))) (partition_lsn h)"
proof -
  have h: "partition_id h = p" "magic h = PARTWAL_MAGIC" using own by (auto simp: own_record_def)
  have d: "demux_ok wss P d" "part_ok wss p (dstore d)" "wf_log p (scan_headers p (dstore d))"
    "\<And>w. (p, w) \<in> set (writers d) \<Longrightarrow> last_partition_lsn w = last_lsn (scan_headers p (dstore d))"
    using ok by (auto simp: plog_ok_def)
  obtain s1 w w' where s: "keeps p d s1" "store_ok s1" "demux_ok wss P (demux_step wss h d)"
    "(p, w) \<in> set (writers d) \<or> last_partition_lsn w = GetLastWrittenPartitionLSN p s1"
    "(p, w') \<in> set (writers (demux_step wss h d))"
    "if last_partition_lsn (reset_detection h s1 w) < partition_lsn h
     then appended wss p (record_segno wss (orig_node_lsn h)) (encode_header h) s1 (dstore (demux_step wss h d))
       \<and> last_partition_lsn w' = partition_lsn h
     else dstore (demux_step wss h d) = s1 \<and> w' = reset_detection h s1 w"
    by (rule step_faultless [OF d(1) fits h(2)]) (use h(1) in auto)
  have mark1: "GetLastWrittenPartitionLSN p s1 = last_lsn (scan_headers p (dstore d))"
    using GetLastWritten_scan [of p s1] keeps_log(2) [OF s(1,2) d(2)] d(3) by simp
  have lw: "last_partition_lsn w = last_lsn (scan_headers p (dstore d))" using s(4) d(4) mark1 by auto
  have nr: "reset_detection h s1 w = w"
    using lw mark1 h(1) by (auto simp: reset_detection_def)
  have "last_partition_lsn v = max (last_lsn (scan_headers p (dstore d))) (partition_lsn h)"
    if "(p, v) \<in> set (writers (demux_step wss h d))" for v
    using writer_unique [OF s(3) that s(5)] s(6) lw unfolding nr by (auto simp: max_def not_less split: if_splits)
  with s lw show thesis unfolding nr by (intro that [of s1]) (auto split: if_splits)
qed

lemma demux_new:
  assumes fits: "partition_id h \<in> P" and ok: "plog_ok wss P p d"
    and adm: "admissible (record_segno wss) wss p (h # hs) (dstore d)"
    and own: "own_record p h" and new: "last_lsn (scan_headers p (dstore d)) < partition_lsn h"
  shows "plog_ok wss P p (demux_step wss h d) \<and>
    admissible (record_segno wss) wss p hs (dstore (demux_step wss h d)) \<and>
    scan_headers p (dstore (demux_step wss h d)) = scan_headers p (dstore d) @ [h]"
proof -
  have d: "IsValidWalSegSize wss" "part_ok wss p (dstore d)" "wf_log p (scan_headers p (dstore d))"
    using ok by (auto simp: plog_ok_def demux_ok_def)
  obtain s1 where s: "keeps p d s1" "store_ok s1" "demux_ok wss P (demux_step wss h d)"
    "appended wss p (record_segno wss (orig_node_lsn h)) (encode_header h) s1 (dstore (demux_step wss h d))"
    "\<And>v. (p, v) \<in> set (writers (demux_step wss h d)) \<Longrightarrow>
      last_partition_lsn v = max (last_lsn (scan_headers p (dstore d))) (partition_lsn h)"
    by (rule demux_own_step [OF ok fits own]) (use new in auto)
  note k = keeps_log [OF s(1,2) d(2)]
  have adm1: "admissible (record_segno wss) wss p (h # hs) s1" using adm admissible_cong [OF k(3)] by simp
  note ap = own_append_log [OF d(1) k(1) _ adm1 own _ s(4)]
  have lg: "wf_log p (scan_headers p s1)" "last_lsn (scan_headers p s1) < partition_lsn h" using d(3) new k(2) by simp_all
  note ap = ap [OF lg]
  have "last_lsn (scan_headers p (dstore (demux_step wss h d))) = partition_lsn h"
    using ap(2) by (simp add: last_lsn_def)
  then show ?thesis using s(3,5) ap k(2) new by (auto simp: plog_ok_def max_def)
qed

text \<open>A record of another partition leaves this one alone.\<close>

lemma demux_other:
  assumes ok: "plog_ok wss P p d" and fits: "partition_id h \<in> P"
    and mg: "magic h = PARTWAL_MAGIC" and ne: "p \<noteq> partition_id h"
  shows "plog_ok wss P p (demux_step wss h d) \<and>
    scan_headers p (dstore (demux_step wss h d)) = scan_headers p (dstore d) \<and>
    seg_names p (dstore (demux_step wss h d)) = seg_names p (dstore d)"
proof -
  obtain s1 w w' where s: "keeps (partition_id h) d s1" "store_ok s1" "demux_ok wss P (demux_step wss h d)"
    "\<And>q v. q \<noteq> partition_id h \<Longrightarrow> (q, v) \<in> set (writers (demux_step wss h d)) \<Longrightarrow> (q, v) \<in> set (writers d)"
    "if last_partition_lsn (reset_detection h s1 w) < partition_lsn h
     then appended wss (partition_id h) (record_segno wss (orig_node_lsn h)) (encode_header h) s1
          (dstore (demux_step wss h d)) \<and> last_partition_lsn w' = partition_lsn h
     else dstore (demux_step wss h d) = s1 \<and> w' = reset_detection h s1 w"
    using ok fits mg by (auto simp: plog_ok_def elim!: step_faultless [of wss P d h])
  have "part_ok wss p (dstore d)" using ok by (simp add: plog_ok_def)
  note k = keeps_log [OF s(1,2) this]
  have "part_ok wss p (dstore (demux_step wss h d)) \<and>
    scan_headers p (dstore (demux_step wss h d)) = scan_headers p s1 \<and>
    seg_names p (dstore (demux_step wss h d)) = seg_names p s1"
    using s(5) k(1) appended_other [OF _ ne] appended_other_ok [OF _ ne k(1)] by (auto split: if_splits)
  with s(3) s(4) [OF ne] ok k show ?thesis by (auto simp: plog_ok_def)
qed

lemma demux_skip:
  assumes fits: "partition_id h \<in> P" and ok: "plog_ok wss P p d"
    and old: "\<not> (own_record p h \<and> last_lsn (scan_headers p (dstore d)) < partition_lsn h)"
  shows "plog_ok wss P p (demux_step wss h d) \<and>
    scan_headers p (dstore (demux_step wss h d)) = scan_headers p (dstore d) \<and>
    seg_names p (dstore (demux_step wss h d)) = seg_names p (dstore d)"
proof -
  have d: "part_ok wss p (dstore d)" using ok by (simp add: plog_ok_def)
  consider (foreign) "magic h \<noteq> PARTWAL_MAGIC" | (own) "own_record p h"
    | (other) "magic h = PARTWAL_MAGIC" "partition_id h \<noteq> p"
    by (auto simp: own_record_def)
  then show ?thesis
  proof cases
    case foreign
    with ok show ?thesis by (simp add: demux_foreign)
  next
    case own
    obtain s1 where s: "keeps p d s1" "store_ok s1" "demux_ok wss P (demux_step wss h d)"
      "dstore (demux_step wss h d) = s1"
      "\<And>v. (p, v) \<in> set (writers (demux_step wss h d)) \<Longrightarrow>
        last_partition_lsn v = max (last_lsn (scan_headers p (dstore d))) (partition_lsn h)"
      by (rule demux_own_step [OF ok fits own]) (use old own in auto)
    with keeps_log [OF s(1,2) d] ok old own show ?thesis by (auto simp: plog_ok_def max_def)
  next
    case other
    then show ?thesis using demux_other [OF ok fits] by blast
  qed
qed

interpretation dmx: watermark_log "\<lambda>h. partition_id h \<in> P" "own_record p" "plog_ok wss P p"
    "\<lambda>hs d. admissible (record_segno wss) wss p hs (dstore d)" "\<lambda>d. scan_headers p (dstore d)" "demux_step wss"
  for wss P p
proof
  show "plog_ok wss P p (demux_step wss h d) \<and>
      admissible (record_segno wss) wss p hs (dstore (demux_step wss h d)) \<and>
      scan_headers p (dstore (demux_step wss h d)) = scan_headers p (dstore d) @ [h]"
    if "partition_id h \<in> P" "plog_ok wss P p d" "admissible (record_segno wss) wss p (h # hs) (dstore d)"
      "own_record p h" "last_lsn (scan_headers p (dstore d)) < partition_lsn h" for h d hs
    using that by (rule demux_new)
  show "plog_ok wss P p (demux_step wss h d) \<and>
      scan_headers p (dstore (demux_step wss h d)) = scan_headers p (dstore d) \<and>
      (admissible (record_segno wss) wss p hs (dstore d) \<longrightarrow>
       admissible (record_segno wss) wss p hs (dstore (demux_step wss h d)))"
    if "partition_id h \<in> P" "plog_ok wss P p d"
      "\<not> (own_record p h \<and> last_lsn (scan_headers p (dstore d)) < partition_lsn h)" for h d hs
    using demux_skip [OF that]
      admissible_cong [of p "dstore (demux_step wss h d)" "dstore d"] by simp
qed

end
