(* ===== verification/DemuxRouting.thy ===== *)
theory DemuxRouting
  imports DemuxWriters
begin

text \<open>
  What the routing of \<open>src/worker/demux_worker.c\<close> guarantees over a run of WAL records: the bounds
  of the writer cache on every input, the log that the worker builds for each partition when no
  system call fails, and the two ways a record is lost while the worker moves on: a full cache,
  and a write that fails before the record is in the writer's buffer.
\<close>

section \<open>The records the worker takes from the WAL\<close>

text \<open>A record it looks into at all: that of the resource manager, with a whole header.\<close>

definition is_data_record :: "wal_record \<Rightarrow> bool" where
  "is_data_record r \<longleftrightarrow>
     xl_rmid r = RM_EXPERIMENTAL_ID \<and> XLogRecGetInfo r AND NOT XLR_INFO_MASK = PARTWAL_RMGR_INFO_DATA \<and> sizeof_header \<le> length (main_data r)"

definition stream_headers :: "wal_record list \<Rightarrow> PartWALHeader list" where
  "stream_headers rs = map (\<lambda>r. decode_header (take sizeof_header (main_data r))) (filter is_data_record rs)"

lemma process_foreign: "\<not> is_data_record r \<Longrightarrow> process_record wss r d = d"
  by (auto simp: process_record_def is_data_record_def not_le)

lemma process_data:
  assumes "is_data_record r"
  shows "process_record wss r d = demux_step wss (decode_header (take sizeof_header (main_data r))) d"
proof -
  have "XLogRecGetInfo (redo_record h) AND NOT XLR_INFO_MASK = PARTWAL_RMGR_INFO_DATA" for h
    by (simp add: redo_record_def XLogRecGetInfo_def PARTWAL_RMGR_INFO_DATA_def)
  with assms show ?thesis by (simp add: process_record_def is_data_record_def redo_record_def)
qed

lemma process_stream: "fold (process_record wss) rs d = fold (demux_step wss) (stream_headers rs) d"
  by (induction rs arbitrary: d) (auto simp: stream_headers_def process_foreign process_data)

section \<open>Bounds\<close>

lemma fold_process_shape: "cache_shape d \<Longrightarrow> cache_shape (fold (process_record wss) rs d)"
  by (induction rs arbitrary: d) (simp_all add: process_record_shape)

text \<open>C17: Whatever records the worker reads and whatever system calls fail on the way, it never
  holds more than 512 writers, never two of one partition, and no writer's buffer ever exceeds its
  256 KB.\<close>

theorem demux_bounds:
  "let d = fold (process_record wss) rs \<lparr>writers = [], dstore = s\<rparr> in
     length (writers d) \<le> DEMUX_MAX_PARTITIONS \<and> distinct (map fst (writers d)) \<and>
     list_all (\<lambda>(pid, w). w_partition_id w = pid \<and> buf_used w \<le> PARWAL_WRITER_BUFFER_SIZE) (writers d)"
proof -
  have "cache_shape \<lparr>writers = [], dstore = s\<rparr>" by (simp add: cache_shape_def)
  from fold_process_shape [OF this] show ?thesis by (auto simp: cache_shape_def Let_def list_all_iff)
qed

section \<open>The log of a partition\<close>

text \<open>The log the worker builds.  Without faults and within 512 partitions, a run over any WAL
  leaves the log of each partition as it was, followed by those of its records in the WAL whose LSN
  is above every earlier one: nothing of another partition, nothing twice, and of two records
  that come in the wrong order only the first.\<close>

theorem demux_log:
  assumes "plog_ok wss P p d" and "list_all (\<lambda>h. partition_id h \<in> P) (stream_headers rs)"
    and "admissible (record_segno wss) wss p
      (accepted (last_lsn (scan_headers p (dstore d))) (filter (own_record p) (stream_headers rs))) (dstore d)"
  shows "scan_headers p (dstore (fold (process_record wss) rs d)) = scan_headers p (dstore d)
    @ accepted (last_lsn (scan_headers p (dstore d))) (filter (own_record p) (stream_headers rs))"
  unfolding process_stream using dmx.replay(3) [where ks = "[]", OF assms(2,1)] assms(3) by simp

text \<open>The worker completes a partition: when its files hold the first \<open>n\<close> of its records in
  the WAL (those that recovery wrote, or none), after a run over the WAL they hold all of them, in
  order, and a second run over the same WAL adds nothing.\<close>

theorem demux_completes:
  assumes "plog_ok wss P p d" and "list_all (\<lambda>h. partition_id h \<in> P) (stream_headers rs)"
    and "lsn_increasing (filter (own_record p) (stream_headers rs))"
    and "scan_headers p (dstore d) = take n (filter (own_record p) (stream_headers rs))"
    and "admissible (record_segno wss) wss p (drop n (filter (own_record p) (stream_headers rs))) (dstore d)"
  shows "scan_headers p (dstore (fold (process_record wss) rs d)) = filter (own_record p) (stream_headers rs) \<and>
    scan_headers p (dstore (fold (process_record wss) rs (fold (process_record wss) rs d)))
      = filter (own_record p) (stream_headers rs)"
proof
  show "scan_headers p (dstore (fold (process_record wss) rs d)) = filter (own_record p) (stream_headers rs)"
    unfolding process_stream by (rule dmx.replay_completes [OF assms(2,1,3-5)])
  then show "scan_headers p (dstore (fold (process_record wss) rs (fold (process_record wss) rs d)))
      = filter (own_record p) (stream_headers rs)"
    unfolding process_stream using dmx.replay_twice [OF assms(2,1)] dmx.news_rest [OF assms(3,4)] assms(5)
    by simp
qed

text \<open>A new worker on a server with no files.\<close>

definition fresh_demux :: demux where
  "fresh_demux = \<lparr>writers = [], dstore = fresh_store\<rparr>"

lemma fresh_plog_ok: "finite P \<Longrightarrow> card P \<le> 512 \<Longrightarrow> plog_ok 0x1000000 P p fresh_demux"
  using fresh_recovery_ok [of p] wss_16MB
  by (simp add: plog_ok_def demux_ok_def fresh_demux_def recovery_ok_def DEMUX_MAX_PARTITIONS_def
      cache_shape_def fresh_store_ok fresh_scan)

lemma redo_record_stream: "stream_headers (map redo_record hs) = hs"
  by (induction hs) (simp_all add: stream_headers_def is_data_record_def redo_record_def
      XLogRecGetInfo_def PARTWAL_RMGR_INFO_DATA_def)

theorem demux_log_witness:
  "scan_headers 7 (dstore (fold (process_record 0x1000000)
      (map redo_record [new_header 7 1 0x1000050 2, new_header 7 1 0x1000028 1, new_header 8 1 0x1000078 1]) fresh_demux))
    = [new_header 7 1 0x1000050 2]"
proof -
  let ?hs = "[new_header 7 1 0x1000050 2, new_header 7 1 0x1000028 1, new_header 8 1 0x1000078 1]"
  have acc: "accepted (last_lsn (scan_headers 7 (dstore fresh_demux))) (filter (own_record 7) ?hs)
      = [new_header 7 1 0x1000050 2]"
    by (simp add: own_record_def new_header_def fresh_demux_def fresh_scan last_lsn_def)
  have adm: "admissible (record_segno 0x1000000) 0x1000000 7 [new_header 7 1 0x1000050 2] (dstore fresh_demux)"
    unfolding fresh_demux_def demux.simps by (rule fresh_admissible) simp_all
  have fits: "list_all (\<lambda>h. partition_id h \<in> {7, 8}) ?hs" by (simp add: new_header_def)
  have ok: "plog_ok 0x1000000 {7, 8} 7 fresh_demux" by (rule fresh_plog_ok) simp_all
  from demux_log [OF ok, of "map redo_record ?hs"] show ?thesis
    unfolding redo_record_stream acc using adm fits by (simp add: fresh_demux_def fresh_scan)
qed

theorem demux_completes_witness:
  "scan_headers 7 (dstore (fold (process_record 0x1000000)
      (map redo_record [new_header 7 1 0x1000028 1, new_header 8 1 0x1000050 1, new_header 7 1 0x2000028 2]) fresh_demux))
    = [new_header 7 1 0x1000028 1, new_header 7 1 0x2000028 2]"
proof -
  let ?hs = "[new_header 7 1 0x1000028 1, new_header 8 1 0x1000050 1, new_header 7 1 0x2000028 2]"
  have own: "filter (own_record 7) ?hs = [new_header 7 1 0x1000028 1, new_header 7 1 0x2000028 2]"
    by (simp add: own_record_def new_header_def)
  have adm: "admissible (record_segno 0x1000000) 0x1000000 7
      [new_header 7 1 0x1000028 1, new_header 7 1 0x2000028 2] (dstore fresh_demux)"
    unfolding fresh_demux_def demux.simps
    by (rule fresh_admissible) (simp_all add: new_header_def record_segno_def XLByteToSeg_def Let_def)
  have fits: "list_all (\<lambda>h. partition_id h \<in> {7, 8}) ?hs" by (simp add: new_header_def)
  have inc: "lsn_increasing [new_header 7 1 0x1000028 1, new_header 7 1 0x2000028 2]"
    by (simp add: lsn_increasing_def new_header_def)
  have ok: "plog_ok 0x1000000 {7, 8} 7 fresh_demux" by (rule fresh_plog_ok) simp_all
  from demux_completes [OF ok, of "map redo_record ?hs" 0] show ?thesis
    unfolding redo_record_stream own using adm fits inc by (simp add: fresh_demux_def fresh_scan)
qed

section \<open>Records the worker loses\<close>

text \<open>When the cache is full, every record of a further partition is skipped: no file changes,
  no writer changes, and each record leaves one warning.\<close>

theorem full_cache_skips:
  assumes "DEMUX_MAX_PARTITIONS \<le> length (writers d)"
    and "list_all (\<lambda>h. magic h = PARTWAL_MAGIC \<and> partition_id h \<notin> fst ` set (writers d)) (stream_headers rs)"
  shows "writers (fold (process_record wss) rs d) = writers d \<and>
    same_files (dstore d) (dstore (fold (process_record wss) rs d)) \<and>
    length (warnings (dstore (fold (process_record wss) rs d))) = length (warnings (dstore d)) + length (stream_headers rs)"
  using assms
proof (induction rs arbitrary: d)
  case Nil
  then show ?case by (simp add: stream_headers_def)
next
  case (Cons r rs)
  show ?case
  proof (cases "is_data_record r")
    case False
    with Cons show ?thesis by (simp add: stream_headers_def process_foreign)
  next
    case True
    let ?h = "decode_header (take sizeof_header (main_data r))"
    let ?d = "d\<lparr>dstore := warn (WarnCacheFull (partition_id ?h)) (dstore d)\<rparr>"
    have h: "magic ?h = PARTWAL_MAGIC" "partition_id ?h \<notin> fst ` set (writers d)"
      and rest: "list_all (\<lambda>h. magic h = PARTWAL_MAGIC \<and> partition_id h \<notin> fst ` set (writers d)) (stream_headers rs)"
      using Cons.prems(2) True by (simp_all add: stream_headers_def)
    then have "GetOrCreateWriter (partition_id ?h) d = (Inr None, ?d)"
      using Cons.prems(1) find_writer_None [of "partition_id ?h" "writers d"] by (simp add: GetOrCreateWriter_def)
    then have step: "process_record wss r d = ?d"
      using True h(1) by (simp add: process_record_def is_data_record_def)
    have "same_files (dstore d) (dstore ?d)" by (simp add: warn_def)
    moreover have "writers (fold (process_record wss) rs ?d) = writers ?d \<and>
        same_files (dstore ?d) (dstore (fold (process_record wss) rs ?d)) \<and>
        length (warnings (dstore (fold (process_record wss) rs ?d))) = length (warnings (dstore ?d)) + length (stream_headers rs)"
      by (rule Cons.IH) (use Cons.prems(1) rest in simp_all)
    moreover have "fold (process_record wss) (r # rs) d = fold (process_record wss) rs ?d" by (simp add: step)
    moreover have "length (stream_headers (r # rs)) = Suc (length (stream_headers rs))"
      using True by (simp add: stream_headers_def)
    ultimately show ?thesis using same_files_trans [of "dstore d" "dstore ?d"] by (simp add: warn_def)
  qed
qed

text \<open>A stalled writer is taken up again by the next record above the disk.\<close>

lemma find_writer_cong: "map fst vs = map fst ws \<Longrightarrow> find_writer p vs = find_writer p ws"
proof (induction p ws arbitrary: vs rule: find_writer.induct)
  case (2 p pid w ws)
  then obtain v us where vs: "vs = (pid, v) # us" "map fst us = map fst ws" by (cases vs) auto
  show ?case
  proof (cases "pid = p")
    case False
    with "2.IH" [OF False vs(2)] vs(1) show ?thesis by simp
  qed (simp add: vs(1))
qed simp

lemma stalled_step:
  assumes "find_writer p (writers d) = Some i" and "writers d ! i = (p, w)" and "\<not> enospc_stalled w"
    and "own_record p h" and "partition_lsn h \<noteq> 1" and "GetLastWrittenPartitionLSN p (dstore d) < partition_lsn h"
  shows "demux_step wss h (d\<lparr>writers := (writers d)[i := (p, w\<lparr>enospc_stalled := True\<rparr>)]\<rparr>) = demux_step wss h d"
proof -
  let ?ws = "(writers d)[i := (p, w\<lparr>enospc_stalled := True\<rparr>)]"
  have i: "i < length (writers d)" using find_writer_Some [OF assms(1)] by simp
  have "map fst ?ws = map fst (writers d)"
    using assms(2) i list_update_id [of "map fst (writers d)" i] by (simp add: map_update)
  then have fw: "find_writer p ?ws = Some i" using find_writer_cong assms(1) by metis
  have w: "w\<lparr>enospc_stalled := False\<rparr> = w" using assms(3) by simp
  have "route_to_writer wss h (w\<lparr>enospc_stalled := True\<rparr>) (dstore d) = route_to_writer wss h w (dstore d)"
    using assms(3-6) by (simp add: route_to_writer_def reset_detection_def unstall_def own_record_def Let_def w)
  then show ?thesis
    using assms(1,2,4) fw i
    by (simp add: process_record_def redo_record_def own_record_def XLogRecGetInfo_def RM_EXPERIMENTAL_ID_def
        PARTWAL_RMGR_INFO_DATA_def GetOrCreateWriter_def)
qed

text \<open>The step whose \<open>open\<close> of the segment file fails.\<close>

lemma failed_open:
  assumes "w_fd w = None" and "buffer w = []" and "script s = []"
  shows "write_and_flush wss h w (s\<lparr>script := [Fail e]\<rparr>)
    = (w\<lparr>enospc_stalled := True\<rparr>, warn (WarnStalling (partition_id h)) s)"
proof -
  have s: "s\<lparr>script := []\<rparr> = s" using assms(3) by simp
  have "OpenWriterSegment w g wss (s\<lparr>script := [Fail e]\<rparr>) = (Inl ErrFileAccess, w, s)" for g
    using assms(1) s by (simp add: OpenWriterSegment_def open_append_def next_outcome_def)
  with assms show ?thesis
    by (simp add: write_and_flush_def WritePartitionWAL_def Let_def FlushPartitionWALWriter_def)
qed

lemma plog_ok_warn: "plog_ok wss P p d \<Longrightarrow> plog_ok wss P p (d\<lparr>dstore := warn x (dstore d)\<rparr>)"
proof -
  assume ok: "plog_ok wss P p d"
  have same: "same_files (dstore d) (warn x (dstore d))" by (simp add: warn_def)
  have scr: "script (warn x (dstore d)) = script (dstore d)" by (simp add: warn_def)
  have pd: "part_dirs (warn x (dstore d)) = part_dirs (dstore d)" by (simp add: warn_def)
  have inv: "writer_inv wss w (warn x (dstore d)) = writer_inv wss w (dstore d)" for w
    by (simp add: writer_inv_def scr pd store_ok_same [OF same] file_ino_same [OF same] split: option.split)
  show ?thesis
    using ok by (simp add: plog_ok_def demux_ok_def scr store_ok_same [OF same] inv cache_shape_def
        same_files_content [OF same])
qed

text \<open>A record whose write fails before it reaches the buffer is lost.  When opening the segment
  file fails once, the record is dropped with a warning and the writer stalls; the next record of the
  partition ends the stall and is written, so the log has a gap where the first should be.\<close>

theorem failed_open_loses_record:
  assumes "plog_ok wss P p d" and "p \<in> P" and "(p, w) \<in> set (writers d)" and "w_fd w = None"
    and "own_record p h" and "own_record p k"
    and "last_lsn (scan_headers p (dstore d)) < partition_lsn h" and "partition_lsn h < partition_lsn k"
    and "admissible (record_segno wss) wss p [k] (dstore d)"
  shows "scan_headers p (dstore (fold (demux_step wss) [h, k] (d\<lparr>dstore := (dstore d)\<lparr>script := [Fail e]\<rparr>\<rparr>)))
    = scan_headers p (dstore d) @ [k]"
proof -
  have ok: "demux_ok wss P d" "part_ok wss p (dstore d)" "wf_log p (scan_headers p (dstore d))"
    "last_partition_lsn w = last_lsn (scan_headers p (dstore d))"
    using assms(1,3) by (auto simp: plog_ok_def)
  obtain i where i: "find_writer p (writers d) = Some i"
    using find_writer_None [of p "writers d"] assms(3) by force
  then have wi: "writers d ! i = (p, w)"
    using find_writer_Some [OF i] writer_unique [OF ok(1), of p _ w] assms(3) by (metis nth_mem prod.collapse)
  note w = demux_ok_writer [OF ok(1) assms(3)]
  let ?s = "(dstore d)\<lparr>script := [Fail e]\<rparr>"
  let ?dw = "d\<lparr>dstore := warn (WarnStalling p) (dstore d)\<rparr>"
  have scr: "script (dstore d) = []" using ok(1) by (simp add: demux_ok_def)
  have nr: "reset_detection h ?s w = w" and nu: "unstall h ?s w = w"
    using w ok(4) assms(7) by (auto simp: reset_detection_def unstall_def)
  have "route_to_writer wss h w ?s = (w\<lparr>enospc_stalled := True\<rparr>, warn (WarnStalling p) (dstore d))"
    using failed_open [of w "dstore d" wss h e] assms(4,5,7) w scr ok(4)
    by (simp add: route_to_writer_def nr nu own_record_def)
  then have one: "demux_step wss h (d\<lparr>dstore := ?s\<rparr>)
      = ?dw\<lparr>writers := (writers ?dw)[i := (p, w\<lparr>enospc_stalled := True\<rparr>)]\<rparr>"
    using i wi assms(5)
    by (simp add: process_record_def redo_record_def own_record_def XLogRecGetInfo_def RM_EXPERIMENTAL_ID_def
        PARTWAL_RMGR_INFO_DATA_def GetOrCreateWriter_def)
  have same: "same_files (dstore d) (dstore ?dw)" by (simp add: warn_def)
  note sc = same_files_content [OF same]
  have "GetLastWrittenPartitionLSN p (dstore ?dw) = last_lsn (scan_headers p (dstore d))"
    using GetLastWritten_scan [of p "dstore ?dw"] ok(3) sc(1) by simp
  then have low: "GetLastWrittenPartitionLSN p (dstore ?dw) < partition_lsn k" using assms(7,8) by simp
  have "partition_lsn k \<noteq> 1" using assms(7,8) by (auto simp: word_less_1)
  then have two: "demux_step wss k (?dw\<lparr>writers := (writers ?dw)[i := (p, w\<lparr>enospc_stalled := True\<rparr>)]\<rparr>)
      = demux_step wss k ?dw"
    using stalled_step [of p ?dw i w k wss] i wi w assms(6) low by simp
  have adm: "admissible (record_segno wss) wss p [k] (dstore ?dw)"
    using assms(9) admissible_cong [OF sc(2)] by simp
  have "partition_id k \<in> P" using assms(2,6) by (simp add: own_record_def)
  then have "scan_headers p (dstore (demux_step wss k ?dw)) = scan_headers p (dstore ?dw) @ [k]"
    using demux_new [OF _ plog_ok_warn [OF assms(1)] adm assms(6)] assms(7,8) sc(1) by simp
  with one two sc(1) show ?thesis by simp
qed

text \<open>Examples: a worker with 512 writers, and one whose writer of partition 7 has no open file.\<close>

definition idle_writer :: "oid \<Rightarrow> PartitionWALWriter" where
  "idle_writer p = \<lparr>w_partition_id = p, w_fd = None, write_position = 0, last_partition_lsn = 0,
     current_segno = 0, buffer = [], enospc_stalled = False\<rparr>"

theorem full_cache_skips_witness:
  "let d = \<lparr>writers = map (\<lambda>i. (of_nat i, idle_writer (of_nat i))) [0..<512], dstore = fresh_store\<rparr>
   in length (warnings (dstore (fold (process_record 0x1000000) [redo_record (new_header 600 1 0x1000028 1)] d))) = 1"
proof -
  let ?d = "\<lparr>writers = map (\<lambda>i. (of_nat i, idle_writer (of_nat i))) [0..<512], dstore = fresh_store\<rparr>"
  have "(of_nat i :: u32) \<noteq> 600" if "i < 512" for i
  proof
    assume "(of_nat i :: u32) = 600"
    then have "unat (of_nat i :: u32) = 600" by simp
    with that show False by (simp add: unat_of_nat)
  qed
  then have "600 \<notin> fst ` set (writers ?d)" by (force simp: image_iff)
  moreover have "stream_headers [redo_record (new_header 600 1 0x1000028 1)] = [new_header 600 1 0x1000028 1]"
    using redo_record_stream [of "[new_header 600 1 0x1000028 1]"] by simp
  ultimately show ?thesis
    using full_cache_skips [of ?d "[redo_record (new_header 600 1 0x1000028 1)]" "0x1000000"]
    by (simp add: DEMUX_MAX_PARTITIONS_def new_header_def fresh_store_def Let_def)
qed

definition started_demux :: demux where
  "started_demux =
     \<lparr>writers = [(7, idle_writer 7)],
      dstore = fresh_store\<lparr>root_exists := True, part_dirs := (\<lambda>p. if p = 7 then Some [] else None)\<rparr>\<rparr>"

lemma started_scan: "seg_names 7 (dstore started_demux) = {}" "scan_headers 7 (dstore started_demux) = []"
proof -
  have e: "exchange_sort names_ascending [] = []" by (simp add: exchange_sort_def exch_outer.simps)
  show "seg_names 7 (dstore started_demux) = {}"
    by (simp add: seg_names_def file_content_def file_ino_def started_demux_def)
  show "scan_headers 7 (dstore started_demux) = []"
    by (simp add: scan_headers_def segfiles_sorted_def opendir_def started_demux_def fresh_store_def e)
qed

lemma started_ok: "plog_ok 0x1000000 {7} 7 started_demux"
proof -
  have st: "store_ok (dstore started_demux)"
    by (auto simp: store_ok_def started_demux_def fresh_store_def file_ino_def)
  have rd: "all_readable 7 (dstore started_demux)"
    using started_scan(1) by (auto simp: all_readable_def seg_names_def started_demux_def fresh_store_def)
  have inv: "writer_inv 0x1000000 (idle_writer 7) (dstore started_demux)"
    using st by (simp add: writer_inv_def idle_writer_def started_demux_def)
  have ok: "part_ok 0x1000000 7 (dstore started_demux)"
    using st rd started_scan(1) by (simp add: part_ok_def)
  have ws: "writers started_demux = [(7, idle_writer 7)]" "script (dstore started_demux) = []"
    by (simp_all add: started_demux_def)
  show ?thesis
    using wss_16MB st inv ok ws started_scan(2)
    by (simp add: plog_ok_def demux_ok_def cache_shape_def DEMUX_MAX_PARTITIONS_def)
      (simp add: idle_writer_def last_lsn_def)
qed

theorem failed_open_loses_record_witness:
  "scan_headers 7 (dstore (fold (demux_step 0x1000000) [new_header 7 1 0x1000028 1, new_header 7 1 0x1000050 2]
      (started_demux\<lparr>dstore := (dstore started_demux)\<lparr>script := [Fail ENOSPC]\<rparr>\<rparr>)))
    = [new_header 7 1 0x1000050 2]"
proof -
  have "admissible (record_segno 0x1000000) 0x1000000 7 [new_header 7 1 0x1000050 2] (dstore started_demux)"
    by (simp add: admissible_def newest_seg_def started_scan)
  then show ?thesis
    using failed_open_loses_record [OF started_ok, of "idle_writer 7" "new_header 7 1 0x1000028 1"
        "new_header 7 1 0x1000050 2" ENOSPC]
    by (simp add: started_scan last_lsn_def idle_writer_def own_record_def new_header_def)
      (simp add: started_demux_def idle_writer_def)
qed

end
