(* ===== verification/DemuxMain.thy ===== *)
theory DemuxMain
  imports DemuxRouting
begin

text \<open>
  \<open>DemuxWorkerMain\<close> of \<open>src/worker/demux_worker.c\<close>: the start of the background worker, the turns
  of its main loop, and its shutdown.  The server's part of a turn (the flush position, what the
  WAL reader delivers, the clock, the signal) is a parameter, one \<open>turn\<close> record per turn; the
  worker's part is a function on its state.

  A read that raises does not end its turn.  The \<open>continue\<close> at the end of the \<open>PG_CATCH\<close> block only
  leaves the \<^verbatim>\<open>do { ... } while (0)\<close> of \<open>PG_TRY\<close> (\<open>utils/elog.h\<close>), so the turn goes on below the
  block with the test of \<open>record\<close>, a local variable that this turn has not assigned.  What the test
  finds there is the environment's choice, a parameter of the turn; all three ways on are modelled,
  the one in which the process crashes included.

  The lemmas show that, whatever else happens between them, the records processed build the logs of
  the partitions as in \<open>DemuxRouting\<close>; that the position published to \<open>demux_flush\<close> never runs ahead
  of the reader; and where it moves past records that were never read.
\<close>

section \<open>State and environment\<close>

record worker =
  demux_shared :: "DemuxSharedState option"
  wd :: demux
  reader_pos :: XLogRecPtr
  reader_seg :: reader_segment
  save_counter :: nat
  null_streak :: nat
  waits :: nat

text \<open>After a read that raised, \<open>record\<close> is an unassigned pointer: it may be null, or not.  In the
  second case the macros \<open>XLogRecGetRmid\<close> and so on read what \<open>reader->record\<close> points to: a record, or
  nothing (a null pointer, whose dereference crashes the process).\<close>

datatype stale_record = StaleNull | StaleSet "wal_record option"

text \<open>What \<open>XLogReadRecord\<close> does: it raises (\<open>DemuxOpenSegment\<close>), which leaves \<open>errormsg\<close> and \<open>record\<close>
  as given; it returns no record, perhaps with a message; or it returns one.  The positions are
  \<open>EndRecPtr\<close> after the call.\<close>

datatype read_result =
    ReadRaises "string option" stale_record
  | ReadNull "string option" XLogRecPtr
  | ReadRecord wal_record

text \<open>What \<open>XLogFindNextRecord\<close> does: it raises, or returns a position (invalid: none found).\<close>

datatype find_result = FindRaises XLogRecPtr | FindReturns XLogRecPtr XLogRecPtr

record turn =
  t_sigterm :: bool
  t_flush :: XLogRecPtr
  t_read :: read_result
  t_seg :: reader_segment
  t_flush_skip :: XLogRecPtr
  t_find :: find_result
  t_find_seg :: reader_segment
  t_flush_now :: XLogRecPtr
  t_secs :: i64
  t_us :: i64

text \<open>\<open>t_flush\<close> is the flush position at the top of the turn, \<open>t_flush_skip\<close> the one asked for after a read
  that raised, \<open>t_flush_now\<close> the one asked for at a save of the progress; \<open>t_secs\<close> and \<open>t_us\<close> are what
  \<open>TimestampDifference\<close> yields, \<open>t_seg\<close> and \<open>t_find_seg\<close> the reader's segment after \<open>XLogReadRecord\<close> and
  after \<open>XLogFindNextRecord\<close>.\<close>

section \<open>Start\<close>

record start_env =
  se_flush :: XLogRecPtr
  se_redo :: XLogRecPtr
  se_reader :: bool

definition set_active :: "bool \<Rightarrow> DemuxSharedState option \<Rightarrow> DemuxSharedState option" where
  "set_active b ds = map_option (\<lambda>st. st\<lparr>worker_active := b\<rparr>) ds"

definition ensure_root :: "parwal_store \<Rightarrow> parwal_store" where
  "ensure_root s =
     (case mkdir_root s of
        (None, s') \<Rightarrow> s'
      | (Some e, s') \<Rightarrow> if e \<noteq> EEXIST then warn WarnRootDirectory s' else s')"

definition demux_start :: "start_env \<Rightarrow> DemuxSharedState option \<Rightarrow> parwal_store \<Rightarrow> (pg_error + unit) \<times> worker" where
  "demux_start env ds s =
     (let startLSN = (if se_flush env = InvalidXLogRecPtr then se_redo env else se_flush env);
          w = \<lparr>demux_shared = set_active True ds, wd = \<lparr>writers = [], dstore = ensure_root s\<rparr>,
               reader_pos = startLSN, reader_seg = \<lparr>ws_file = None, ws_segno = 0, ws_tli = 0\<rparr>,
               save_counter = 0, null_streak = 0, waits = 0\<rparr>
      in if \<not> se_reader env then (Inl ErrOutOfMemory, w) else (Inr (), w))"

section \<open>A turn of the main loop\<close>

definition wait_latch :: "worker \<Rightarrow> worker" where
  "wait_latch w = w\<lparr>waits := Suc (waits w)\<rparr>"

text \<open>\<^verbatim>\<open>if (reader->EndRecPtr >= flush_lsn) { FlushAllWriters(); ... continue; }\<close>\<close>

definition caught_up :: "XLogRecPtr \<Rightarrow> worker \<Rightarrow> worker" where
  "caught_up flush_lsn w =
     wait_latch (w\<lparr>wd := FlushAllWriters (wd w),
       demux_shared := map_option
         (\<lambda>st. if last_processed_lsn st = InvalidXLogRecPtr \<or> last_processed_lsn st < flush_lsn
               then st\<lparr>last_processed_lsn := flush_lsn\<rparr> else st) (demux_shared w)\<rparr>)"

text \<open>The \<open>PG_CATCH\<close> block after \<open>XLogReadRecord\<close>.\<close>

definition read_raised :: "turn \<Rightarrow> worker \<Rightarrow> worker" where
  "read_raised t w =
     wait_latch (w\<lparr>reader_seg := DemuxCloseSegment (t_seg t), reader_pos := t_flush_skip t\<rparr>)"

text \<open>\<^verbatim>\<open>if (record == NULL) { ... continue; }\<close>\<close>

definition null_record :: "string option \<Rightarrow> turn \<Rightarrow> worker \<Rightarrow> worker" where
  "null_record errormsg t w =
     (let w1 = w\<lparr>wd := (case errormsg of
                          None \<Rightarrow> wd w
                        | Some m \<Rightarrow> (wd w)\<lparr>dstore := warn (WarnReadError (reader_pos w) m) (dstore (wd w))\<rparr>),
                 null_streak := Suc (null_streak w)\<rparr>
      in if null_streak w1 > 3
         then (case t_find t of
                 FindRaises e \<Rightarrow> wait_latch (w1\<lparr>reader_pos := e, reader_seg := t_find_seg t, null_streak := 0\<rparr>)
               | FindReturns next_valid e \<Rightarrow>
                   let w2 = w1\<lparr>reader_pos := e, reader_seg := t_find_seg t, null_streak := 0\<rparr>
                   in if next_valid \<noteq> InvalidXLogRecPtr then w2 else wait_latch w2)
         else wait_latch w1)"

definition publish :: "turn \<Rightarrow> XLogRecPtr \<Rightarrow> DemuxSharedState option \<Rightarrow> DemuxSharedState option" where
  "publish t end_ptr ds =
     map_option (\<lambda>st. st\<lparr>last_processed_lsn := end_ptr\<rparr>)
       (RecordLatencySample (t_secs t * 1000000 + t_us t) ds)"

definition save_progress :: "XLogRecPtr \<Rightarrow> worker \<Rightarrow> worker" where
  "save_progress flush_now w =
     (let safe_lsn = (if reader_pos w > flush_now then flush_now else reader_pos w)
      in w\<lparr>wd := (wd w)\<lparr>dstore := SaveDemuxProgress safe_lsn (dstore (wd w))\<rparr>\<rparr>)"

text \<open>The rest of the turn, from \<^verbatim>\<open>null_streak = 0;\<close> on, with \<open>r\<close> the record the reader's macros yield.\<close>

definition have_record :: "u64 \<Rightarrow> wal_record \<Rightarrow> turn \<Rightarrow> worker \<Rightarrow> worker" where
  "have_record wss r t w =
     (let w1 = w\<lparr>null_streak := 0,
                 wd := process_record wss r (wd w),
                 demux_shared := publish t (reader_pos w) (demux_shared w),
                 save_counter := Suc (save_counter w)\<rparr>
      in if save_counter w1 \<ge> 16 then (save_progress (t_flush_now t) w1)\<lparr>save_counter := 0\<rparr> else w1)"

text \<open>A turn: the state it leaves, or in which the process crashes.\<close>

definition demux_turn :: "u64 \<Rightarrow> turn \<Rightarrow> worker \<Rightarrow> worker" where
  "demux_turn wss t w =
     (if reader_pos w \<ge> t_flush t then caught_up (t_flush t) w
      else case t_read t of
             ReadRaises errormsg stale \<Rightarrow>
               (case stale of
                  StaleNull \<Rightarrow> null_record errormsg t (read_raised t w)
                | StaleSet (Some r) \<Rightarrow> have_record wss r t (read_raised t w)
                | StaleSet None \<Rightarrow> (read_raised t w)\<lparr>null_streak := 0\<rparr>)
           | ReadNull errormsg e \<Rightarrow> null_record errormsg t (w\<lparr>reader_pos := e, reader_seg := t_seg t\<rparr>)
           | ReadRecord r \<Rightarrow> have_record wss r t (w\<lparr>reader_pos := EndRecPtr r, reader_seg := t_seg t\<rparr>))"

text \<open>The turn dereferences a null \<open>reader->record\<close>.\<close>

definition null_dereference :: "read_result \<Rightarrow> bool" where
  "null_dereference rd = (case rd of ReadRaises m (StaleSet None) \<Rightarrow> True | _ \<Rightarrow> False)"

definition turn_crashes :: "turn \<Rightarrow> worker \<Rightarrow> bool" where
  "turn_crashes t w \<longleftrightarrow> reader_pos w < t_flush t \<and> null_dereference (t_read t)"

section \<open>Shutdown, and the whole\<close>

definition demux_shutdown :: "turn \<Rightarrow> worker \<Rightarrow> pg_error option \<times> worker" where
  "demux_shutdown t w =
     (let w1 = save_progress (t_flush_now t) (w\<lparr>wd := FlushAllWriters (wd w)\<rparr>)
      in case DestroyAllWriters (wd w1) of
           (Some e, d) \<Rightarrow> (Some e, w1\<lparr>wd := d\<rparr>)
         | (None, d) \<Rightarrow> (None, w1\<lparr>wd := d, demux_shared := set_active False (demux_shared w1)\<rparr>))"

text \<open>A run over a finite sequence of turns: it is still running, has exited, died of an error, or
  was killed by a crash.\<close>

datatype run = Running worker | Exited worker | Died pg_error worker | Crashed worker

fun main_loop :: "u64 \<Rightarrow> turn list \<Rightarrow> worker \<Rightarrow> run" where
  "main_loop wss [] w = Running w"
| "main_loop wss (t # ts) w =
     (if t_sigterm t
      then (case demux_shutdown t w of (Some e, w') \<Rightarrow> Died e w' | (None, w') \<Rightarrow> Exited w')
      else if turn_crashes t w then Crashed (demux_turn wss t w)
      else main_loop wss ts (demux_turn wss t w))"

definition DemuxWorkerMain :: "u64 \<Rightarrow> start_env \<Rightarrow> DemuxSharedState option \<Rightarrow> parwal_store \<Rightarrow> turn list \<Rightarrow> run" where
  "DemuxWorkerMain wss env ds s ts =
     (case demux_start env ds s of
        (Inl e, w) \<Rightarrow> Died e w
      | (Inr _, w) \<Rightarrow> main_loop wss ts w)"

section \<open>Counters\<close>

lemmas turn_defs = caught_up_def read_raised_def null_record_def have_record_def

text \<open>A turn in which the worker neither gets the signal nor crashes.\<close>

definition goes_on :: "turn \<Rightarrow> bool" where
  "goes_on t \<longleftrightarrow> \<not> t_sigterm t \<and> \<not> null_dereference (t_read t)"

lemma goes_on_no_crash: "goes_on t \<Longrightarrow> \<not> t_sigterm t \<and> \<not> turn_crashes t w"
  by (simp add: goes_on_def turn_crashes_def)

lemma turn_counters:
  "save_counter w < 16 \<and> null_streak w \<le> 3 \<Longrightarrow>
     save_counter (demux_turn wss t w) < 16 \<and> null_streak (demux_turn wss t w) \<le> 3"
  by (auto simp: demux_turn_def turn_defs save_progress_def
      wait_latch_def Let_def split: read_result.splits stale_record.splits option.splits find_result.splits)

lemma fold_counters:
  "save_counter w < 16 \<and> null_streak w \<le> 3 \<Longrightarrow>
     save_counter (fold (demux_turn wss) ts w) < 16 \<and> null_streak (fold (demux_turn wss) ts w) \<le> 3"
  by (induction ts arbitrary: w) (simp_all add: turn_counters)

lemma main_loop_fold: "list_all goes_on ts \<Longrightarrow> main_loop wss ts w = Running (fold (demux_turn wss) ts w)"
  by (induction ts arbitrary: w) (auto dest: goes_on_no_crash)

lemma main_loop_exit:
  "list_all goes_on ts \<Longrightarrow> t_sigterm t \<Longrightarrow>
     main_loop wss (ts @ t # us) w =
       (case demux_shutdown t (fold (demux_turn wss) ts w) of (Some e, w') \<Rightarrow> Died e w' | (None, w') \<Rightarrow> Exited w')"
  by (induction ts arbitrary: w) (auto dest: goes_on_no_crash)

section \<open>The logs of the partitions\<close>

text \<open>The record a turn processes: the one the reader delivers, or after a read that raised the one
  the reader's macros still yield.\<close>

definition turn_records :: "turn \<Rightarrow> worker \<Rightarrow> wal_record list" where
  "turn_records t w =
     (if reader_pos w \<ge> t_flush t then []
      else case t_read t of
             ReadRecord r \<Rightarrow> [r]
           | ReadRaises m (StaleSet (Some r)) \<Rightarrow> [r]
           | _ \<Rightarrow> [])"

fun records_read :: "u64 \<Rightarrow> turn list \<Rightarrow> worker \<Rightarrow> wal_record list" where
  "records_read wss [] w = []"
| "records_read wss (t # ts) w = turn_records t w @ records_read wss ts (demux_turn wss t w)"

lemma root_files_simps [simp]:
  "file_ino (s\<lparr>root_files := f\<rparr>) = file_ino s" "file_content (s\<lparr>root_files := f\<rparr>) = file_content s"
  "opendir p (s\<lparr>root_files := f\<rparr>) = opendir p s" "store_ok (s\<lparr>root_files := f\<rparr>) = store_ok s"
  "seg_names p (s\<lparr>root_files := f\<rparr>) = seg_names p s" "scan_headers p (s\<lparr>root_files := f\<rparr>) = scan_headers p s"
proof -
  show ino: "file_ino (s\<lparr>root_files := f\<rparr>) = file_ino s" by (intro ext) (simp add: file_ino_def)
  show fc: "file_content (s\<lparr>root_files := f\<rparr>) = file_content s" by (intro ext) (simp add: file_content_def ino)
  show od: "opendir p (s\<lparr>root_files := f\<rparr>) = opendir p s" by (simp add: opendir_def split: option.split)
  show "store_ok (s\<lparr>root_files := f\<rparr>) = store_ok s" by (simp add: store_ok_def ino)
  show "seg_names p (s\<lparr>root_files := f\<rparr>) = seg_names p s" by (simp add: seg_names_def fc)
  have "file_headers p (s\<lparr>root_files := f\<rparr>) = file_headers p s"
    by (intro ext) (simp add: file_headers_def open_rdonly_def fc)
  then show "scan_headers p (s\<lparr>root_files := f\<rparr>) = scan_headers p s"
    by (simp add: scan_headers_def segfiles_sorted_def od)
qed

lemma plog_ok_root_files: "plog_ok wss P p d \<Longrightarrow> plog_ok wss P p (d\<lparr>dstore := (dstore d)\<lparr>root_files := f\<rparr>\<rparr>)"
proof -
  assume ok: "plog_ok wss P p d"
  have "writer_inv wss w ((dstore d)\<lparr>root_files := f\<rparr>) = writer_inv wss w (dstore d)" for w
    by (simp add: writer_inv_def split: option.split)
  moreover have "part_ok wss p ((dstore d)\<lparr>root_files := f\<rparr>) = part_ok wss p (dstore d)"
    by (simp add: part_ok_def all_readable_def)
  ultimately show ?thesis using ok by (simp add: plog_ok_def demux_ok_def cache_shape_def)
qed

lemma SaveDemuxProgress_faultless: "script s = [] \<Longrightarrow> \<exists>f. SaveDemuxProgress lsn s = s\<lparr>root_files := f\<rparr>"
  by (cases "root_exists s") (auto simp: SaveDemuxProgress_def open_trunc_def write_root_retry_faultless
      fsync_faultless rename_root_def intro: exI [of _ "root_files s"] split: if_splits)

text \<open>With nothing buffered a flush of the writers changes nothing.\<close>

lemma flush_writers_empty: "\<forall>(pid, w)\<in>set ws. buffer w = [] \<Longrightarrow> flush_writers ws s = (ws, s)"
  by (induction ws s rule: flush_writers.induct) (auto simp: FlushPartitionWALWriter_def)

lemma FlushAll_empty: "demux_ok wss P d \<Longrightarrow> FlushAllWriters d = d"
proof -
  assume "demux_ok wss P d"
  then have "flush_writers (writers d) (dstore d) = (writers d, dstore d)"
    by (intro flush_writers_empty) (auto simp: demux_ok_def)
  then show ?thesis by (simp add: FlushAllWriters_def)
qed

text \<open>What a turn does to the partition logs, up to warnings and the progress file.\<close>

definition same_logs :: "u64 \<Rightarrow> oid set \<Rightarrow> oid \<Rightarrow> demux \<Rightarrow> demux \<Rightarrow> bool" where
  "same_logs wss P p d e \<longleftrightarrow>
     (plog_ok wss P p d \<longrightarrow> plog_ok wss P p e \<and> scan_headers p (dstore e) = scan_headers p (dstore d) \<and>
        seg_names p (dstore e) = seg_names p (dstore d))"

lemma same_logs_refl [simp]: "same_logs wss P p d d"
  by (simp add: same_logs_def)

lemma same_logs_trans [trans]: "same_logs wss P p d e \<Longrightarrow> same_logs wss P p e f \<Longrightarrow> same_logs wss P p d f"
  by (simp add: same_logs_def)

lemma same_logs_warn [simp]: "same_logs wss P p d (d\<lparr>dstore := warn x (dstore d)\<rparr>)"
proof -
  have "same_files (dstore d) (warn x (dstore d))" by (simp add: warn_def)
  from same_files_content [OF this] plog_ok_warn show ?thesis by (simp add: same_logs_def)
qed

lemma same_logs_flush [simp]: "same_logs wss P p d (FlushAllWriters d)"
  by (auto simp: same_logs_def plog_ok_def FlushAll_empty)

lemma same_logs_save [simp]: "wd w = d \<Longrightarrow> same_logs wss P p d (wd (save_progress f w))"
proof -
  assume d: "wd w = d"
  let ?lsn = "if f < reader_pos w then f else reader_pos w"
  have "plog_ok wss P p (wd (save_progress f w)) \<and>
      scan_headers p (dstore (wd (save_progress f w))) = scan_headers p (dstore d) \<and>
      seg_names p (dstore (wd (save_progress f w))) = seg_names p (dstore d)" if ok: "plog_ok wss P p d"
  proof -
    have "script (dstore d) = []" using ok by (simp add: plog_ok_def demux_ok_def)
    then obtain g where "SaveDemuxProgress ?lsn (dstore d) = (dstore d)\<lparr>root_files := g\<rparr>"
      using SaveDemuxProgress_faultless by blast
    then have "wd (save_progress f w) = d\<lparr>dstore := (dstore d)\<lparr>root_files := g\<rparr>\<rparr>"
      using d by (simp only: save_progress_def Let_def) simp
    with plog_ok_root_files [OF ok] show ?thesis by simp
  qed
  then show ?thesis by (simp add: same_logs_def)
qed

lemma turn_logs: "same_logs wss P p (fold (process_record wss) (turn_records t w) (wd w)) (wd (demux_turn wss t w))"
  by (auto simp: demux_turn_def turn_records_def turn_defs
      wait_latch_def Let_def split: read_result.split stale_record.split option.split find_result.split)

lemma last_lsn_append: "last_lsn (hs @ ks) = (if ks = [] then last_lsn hs else partition_lsn (last ks))"
  by (simp add: last_lsn_def)

lemma run_logs:
  assumes "plog_ok wss P p (wd w)" and "list_all (\<lambda>h. partition_id h \<in> P) (stream_headers (records_read wss ts w))"
    and "admissible (record_segno wss) wss p
      (accepted (last_lsn (scan_headers p (dstore (wd w))))
        (filter (own_record p) (stream_headers (records_read wss ts w)))) (dstore (wd w))"
  shows "plog_ok wss P p (wd (fold (demux_turn wss) ts w)) \<and>
    scan_headers p (dstore (wd (fold (demux_turn wss) ts w))) = scan_headers p (dstore (wd w))
      @ accepted (last_lsn (scan_headers p (dstore (wd w))))
          (filter (own_record p) (stream_headers (records_read wss ts w)))"
  using assms
proof (induction ts arbitrary: w)
  case Nil
  then show ?case by (simp add: stream_headers_def)
next
  case (Cons t ts)
  let ?w = "demux_turn wss t w" and ?m = "last_lsn (scan_headers p (dstore (wd w)))"
  let ?H = "stream_headers (turn_records t w)" and ?K = "stream_headers (records_read wss ts (demux_turn wss t w))"
  let ?A = "accepted ?m (filter (own_record p) ?H)"
  let ?n = "if ?A = [] then ?m else partition_lsn (last ?A)"
  let ?B = "accepted ?n (filter (own_record p) ?K)"
  have split: "stream_headers (records_read wss (t # ts) w) = ?H @ ?K" by (simp add: stream_headers_def)
  have acc: "accepted ?m (filter (own_record p) (?H @ ?K)) = ?A @ ?B"
    unfolding filter_append by (rule accepted_append)
  have fits: "list_all (\<lambda>h. partition_id h \<in> P) ?H" "list_all (\<lambda>h. partition_id h \<in> P) ?K"
    using Cons.prems(2) unfolding split by simp_all
  have adm: "admissible (record_segno wss) wss p (?A @ ?B) (dstore (wd w))"
    using Cons.prems(3) unfolding split acc .
  let ?d = "fold (process_record wss) (turn_records t w) (wd w)"
  note r = dmx.replay [OF fits(1) Cons.prems(1) adm, folded process_stream]
  have s: "plog_ok wss P p (wd ?w)" "scan_headers p (dstore (wd ?w)) = scan_headers p (dstore ?d)"
    "seg_names p (dstore (wd ?w)) = seg_names p (dstore ?d)"
    using turn_logs [of wss P p t w] r(1) by (simp_all add: same_logs_def)
  have m: "last_lsn (scan_headers p (dstore (wd ?w))) = ?n" by (simp add: s(2) r(3) last_lsn_append)
  have "admissible (record_segno wss) wss p ?B (dstore (wd ?w))" using r(2) admissible_cong [OF s(3)] by simp
  with Cons.IH [OF s(1) fits(2)] m s(2) r(3) show ?case unfolding split acc by simp
qed

text \<open>Without faults the start prepares the root directory only.\<close>

lemma ensure_root_faultless: "script s = [] \<Longrightarrow> ensure_root s = s\<lparr>root_exists := True\<rparr>"
  by (cases "root_exists s") (simp_all add: ensure_root_def mkdir_root_def)

lemma start_plog:
  assumes "recovery_ok wss p s" and "finite P" and "card P \<le> DEMUX_MAX_PARTITIONS"
    and "wd w = \<lparr>writers = [], dstore = ensure_root s\<rparr>"
  shows "plog_ok wss P p (wd w)" and "scan_headers p (dstore (wd w)) = scan_headers p s"
    and "seg_names p (dstore (wd w)) = seg_names p s"
proof -
  let ?s = "s\<lparr>root_exists := True\<rparr>"
  have s: "script s = []" "part_ok wss p s" "store_ok s" "IsValidWalSegSize wss" "wf_log p (scan_headers p s)"
    using assms(1) by (simp_all add: recovery_ok_def part_ok_def)
  have ino: "file_ino ?s = file_ino s" by (intro ext) (simp add: file_ino_def)
  have st: "store_ok ?s" using s(3) by (simp add: store_ok_def ino)
  have fc: "file_content ?s = file_content s" by (intro ext) (simp add: file_content_def ino)
  have fr: "same_frame s ?s" by (simp add: same_frame_def)
  note c = same_content_log [OF s(2) st fr fc]
  have w: "wd w = \<lparr>writers = [], dstore = ?s\<rparr>" using assms(4) ensure_root_faultless [OF s(1)] by simp
  show "plog_ok wss P p (wd w)"
    using s(1,4,5) assms(2,3) c st by (simp add: w plog_ok_def demux_ok_def cache_shape_def)
  show "scan_headers p (dstore (wd w)) = scan_headers p s" "seg_names p (dstore (wd w)) = seg_names p s"
    using c by (simp_all add: w)
qed

section \<open>The published position\<close>

text \<open>A turn in which the server moves forward: no position the reader is put at is behind the one it
  had, and the flush position asked for after a read that raised is not behind that of the turn's top.\<close>

definition found :: "find_result \<Rightarrow> XLogRecPtr" where
  "found f = (case f of FindRaises e \<Rightarrow> e | FindReturns n e \<Rightarrow> e)"

definition forward_turn :: "turn \<Rightarrow> XLogRecPtr \<Rightarrow> bool" where
  "forward_turn t pos \<longleftrightarrow>
     (case t_read t of
        ReadRaises m stale \<Rightarrow> t_flush t \<le> t_flush_skip t \<and> (stale = StaleNull \<longrightarrow> pos \<le> found (t_find t))
      | ReadRecord r \<Rightarrow> pos \<le> EndRecPtr r
      | ReadNull m e \<Rightarrow> pos \<le> e \<and> pos \<le> found (t_find t))"

fun forward_run :: "u64 \<Rightarrow> turn list \<Rightarrow> worker \<Rightarrow> bool" where
  "forward_run wss [] w = True"
| "forward_run wss (t # ts) w = (forward_turn t (reader_pos w) \<and> forward_run wss ts (demux_turn wss t w))"

definition published :: "worker \<Rightarrow> XLogRecPtr option" where
  "published w = map_option last_processed_lsn (demux_shared w)"

lemma publish_position: "map_option last_processed_lsn (publish t e ds) = map_option (\<lambda>_. e) ds"
  by (cases ds) (simp_all add: publish_def RecordLatencySample_def)

lemma turn_position:
  "reader_pos (demux_turn wss t w) =
     (if reader_pos w \<ge> t_flush t then reader_pos w
      else case t_read t of
             ReadRaises m stale \<Rightarrow>
               if stale = StaleNull \<and> \<not> null_streak w < 3 then found (t_find t) else t_flush_skip t
           | ReadRecord r \<Rightarrow> EndRecPtr r
           | ReadNull m e \<Rightarrow> if null_streak w < 3 then e else found (t_find t))"
  by (auto simp: found_def demux_turn_def turn_defs save_progress_def
      wait_latch_def Let_def split: read_result.split stale_record.split option.split find_result.split)

lemma turn_published:
  "published (demux_turn wss t w) =
     (if reader_pos w \<ge> t_flush t
      then map_option (\<lambda>p. if p = InvalidXLogRecPtr \<or> p < t_flush t then t_flush t else p) (published w)
      else case t_read t of
             ReadRecord r \<Rightarrow> map_option (\<lambda>_. EndRecPtr r) (published w)
           | ReadRaises m (StaleSet (Some r)) \<Rightarrow> map_option (\<lambda>_. t_flush_skip t) (published w)
           | _ \<Rightarrow> published w)"
  by (cases "demux_shared w")
    (auto simp: published_def demux_turn_def turn_defs save_progress_def
      wait_latch_def Let_def publish_def RecordLatencySample_def split: read_result.split stale_record.split option.split find_result.split)

lemma turn_forward:
  assumes "forward_turn t (reader_pos w)" and "published w = Some a" and "a \<le> reader_pos w"
  shows "\<exists>b. published (demux_turn wss t w) = Some b \<and> a \<le> b \<and> b \<le> reader_pos (demux_turn wss t w) \<and>
    reader_pos w \<le> reader_pos (demux_turn wss t w)"
  using assms
  by (auto simp: turn_published turn_position forward_turn_def split: read_result.splits stale_record.splits option.splits find_result.splits)

lemma run_forward:
  assumes "forward_run wss ts w" and "published w = Some a" and "a \<le> reader_pos w"
  shows "\<exists>b. published (fold (demux_turn wss) ts w) = Some b \<and> a \<le> b \<and>
    b \<le> reader_pos (fold (demux_turn wss) ts w) \<and> reader_pos w \<le> reader_pos (fold (demux_turn wss) ts w)"
  using assms
proof (induction ts arbitrary: w a)
  case (Cons t ts)
  then obtain b where b: "published (demux_turn wss t w) = Some b" "a \<le> b" "b \<le> reader_pos (demux_turn wss t w)"
    "reader_pos w \<le> reader_pos (demux_turn wss t w)"
    using turn_forward [of t w a wss] by auto
  with Cons.IH [of "demux_turn wss t w" b] Cons.prems(1) show ?case by (fastforce intro: order_trans)
qed auto

section \<open>The active flag, the latency ring, and the shutdown\<close>

definition active :: "worker \<Rightarrow> bool" where
  "active w = (case demux_shared w of None \<Rightarrow> False | Some st \<Rightarrow> worker_active st)"

lemma active_map:
  "active w = (map_option worker_active (demux_shared w) = Some True)"
  by (simp add: active_def split: option.split)

lemma publish_active: "map_option worker_active (publish t e ds) = map_option worker_active ds"
  by (cases ds) (simp_all add: publish_def RecordLatencySample_def)

text \<open>What a turn does to the shared state.\<close>

lemma turn_shared:
  "demux_shared (demux_turn wss t w) =
     (if reader_pos w \<ge> t_flush t
      then map_option (\<lambda>st. if last_processed_lsn st = InvalidXLogRecPtr \<or> last_processed_lsn st < t_flush t
             then st\<lparr>last_processed_lsn := t_flush t\<rparr> else st) (demux_shared w)
      else case t_read t of
             ReadRecord r \<Rightarrow> publish t (EndRecPtr r) (demux_shared w)
           | ReadRaises m (StaleSet (Some r)) \<Rightarrow> publish t (t_flush_skip t) (demux_shared w)
           | _ \<Rightarrow> demux_shared w)"
  by (simp add: demux_turn_def turn_defs save_progress_def
      wait_latch_def Let_def split: read_result.split stale_record.split option.split find_result.split)

lemma turn_active: "map_option worker_active (demux_shared (demux_turn wss t w)) = map_option worker_active (demux_shared w)"
  by (cases "demux_shared w") (simp_all add: turn_shared publish_def RecordLatencySample_def split: read_result.split stale_record.split option.split)

lemma shutdown_active:
  "demux_shutdown t w = (Some e, w') \<Longrightarrow> demux_shared w' = demux_shared w"
  "demux_shutdown t w = (None, w') \<Longrightarrow> demux_shared w' = set_active False (demux_shared w)"
  by (auto simp: demux_shutdown_def save_progress_def Let_def split: prod.splits option.splits)

lemma main_loop_active:
  "active w \<Longrightarrow>
     (case main_loop wss ts w of Running w' \<Rightarrow> active w' | Died e w' \<Rightarrow> active w' | Crashed w' \<Rightarrow> active w' | Exited w' \<Rightarrow> \<not> active w')"
proof (induction ts arbitrary: w)
  case (Cons t ts)
  have step: "active (demux_turn wss t w)" using Cons.prems by (simp add: active_map turn_active)
  show ?case
  proof (cases "t_sigterm t")
    case True
    obtain r w' where sh: "demux_shutdown t w = (r, w')" by fastforce
    show ?thesis
    proof (cases r)
      case None
      with sh have "demux_shared w' = set_active False (demux_shared w)" by (simp add: shutdown_active(2))
      with True sh None show ?thesis by (simp add: active_def set_active_def split: option.split)
    next
      case (Some e)
      with sh have "demux_shared w' = demux_shared w" by (simp add: shutdown_active(1))
      with True sh Some Cons.prems show ?thesis by (simp add: active_def)
    qed
  qed (use Cons.IH [OF step] step in simp)
qed simp

lemma start_active: "active (snd (demux_start env (Some st) s))"
  by (simp add: demux_start_def active_def set_active_def Let_def)

fun elapsed :: "u64 \<Rightarrow> turn list \<Rightarrow> worker \<Rightarrow> i64 list" where
  "elapsed wss [] w = []"
| "elapsed wss (t # ts) w =
     (if turn_records t w = [] then [] else [t_secs t * 1000000 + t_us t]) @ elapsed wss ts (demux_turn wss t w)"

lemma ring_position: "ring_inv xs (st\<lparr>last_processed_lsn := p\<rparr>) = ring_inv xs st"
  by (simp add: ring_inv_def)

lemma turn_ring:
  assumes "demux_shared w = Some st" and "ring_inv xs st"
  shows "\<exists>st'. demux_shared (demux_turn wss t w) = Some st' \<and>
    ring_inv (xs @ (if turn_records t w = [] then [] else [t_secs t * 1000000 + t_us t])) st'"
proof (cases "turn_records t w")
  case Nil
  then have "demux_shared (demux_turn wss t w) = demux_shared w \<or> t_flush t \<le> reader_pos w"
    by (auto simp: turn_shared turn_records_def split: read_result.splits stale_record.splits option.splits if_splits)
  with Nil assms show ?thesis by (auto simp: turn_shared ring_position)
next
  case (Cons r rs)
  then obtain e where e: "demux_shared (demux_turn wss t w) = publish t e (demux_shared w)"
    by (auto simp: turn_shared turn_records_def split: read_result.splits stale_record.splits option.splits if_splits)
  obtain st' where "RecordLatencySample (t_secs t * 1000000 + t_us t) (Some st) = Some st'"
    "ring_inv (xs @ [t_secs t * 1000000 + t_us t]) st'"
    using ring_record [OF assms(2)] by blast
  with Cons e assms(1) show ?thesis by (simp add: publish_def ring_position)
qed

lemma run_ring:
  assumes "demux_shared w = Some st" and "ring_inv xs st"
  shows "\<exists>st'. demux_shared (fold (demux_turn wss) ts w) = Some st' \<and> ring_inv (xs @ elapsed wss ts w) st'"
  using assms
proof (induction ts arbitrary: w st xs)
  case (Cons t ts)
  obtain st' where "demux_shared (demux_turn wss t w) = Some st'"
    "ring_inv (xs @ (if turn_records t w = [] then [] else [t_secs t * 1000000 + t_us t])) st'"
    using turn_ring [OF Cons.prems] by blast
  from Cons.IH [OF this] show ?case by simp
qed simp

lemma destroy_writers_empty:
  "script s = [] \<Longrightarrow> \<forall>(pid, w)\<in>set ws. buffer w = [] \<Longrightarrow> destroy_writers ws s = (None, s)"
  by (induction ws s rule: destroy_writers.induct)
    (auto simp: DestroyPartitionWALWriter_def FlushPartitionWALWriter_def fsync_faultless split: option.split)

lemma shutdown_faultless:
  assumes "demux_ok wss P (wd w)" and "root_exists (dstore (wd w))"
  shows "\<exists>w'. demux_shutdown t w = (None, w') \<and> writers (wd w') = [] \<and>
    (\<exists>f. dstore (wd w') = (dstore (wd w))\<lparr>root_files := f\<rparr>) \<and>
    LoadDemuxProgress (dstore (wd w')) = min (reader_pos w) (t_flush_now t)"
proof -
  have s: "script (dstore (wd w)) = []" using assms(1) by (simp add: demux_ok_def)
  have b: "\<forall>(pid, v)\<in>set (writers (wd w)). buffer v = []" using assms(1) by (auto simp: demux_ok_def)
  let ?lsn = "if reader_pos w > t_flush_now t then t_flush_now t else reader_pos w"
  obtain f where f: "SaveDemuxProgress ?lsn (dstore (wd w)) = (dstore (wd w))\<lparr>root_files := f\<rparr>"
    using SaveDemuxProgress_faultless [OF s] by blast
  have lsn: "LoadDemuxProgress ((dstore (wd w))\<lparr>root_files := f\<rparr>) = ?lsn"
    using SaveDemuxProgress_saved [OF s assms(2), of ?lsn] unfolding f .
  have d: "DestroyAllWriters ((wd w)\<lparr>dstore := (dstore (wd w))\<lparr>root_files := f\<rparr>\<rparr>)
      = (None, (wd w)\<lparr>dstore := (dstore (wd w))\<lparr>root_files := f\<rparr>, writers := []\<rparr>)"
    using destroy_writers_empty [of "(dstore (wd w))\<lparr>root_files := f\<rparr>" "writers (wd w)"] s b
    by (simp add: DestroyAllWriters_def)
  have sp: "save_progress (t_flush_now t) (w\<lparr>wd := FlushAllWriters (wd w)\<rparr>)
      = w\<lparr>wd := (wd w)\<lparr>dstore := (dstore (wd w))\<lparr>root_files := f\<rparr>\<rparr>\<rparr>"
    using f by (simp add: save_progress_def FlushAll_empty [OF assms(1)] Let_def split: if_splits)
  show ?thesis
    using lsn d unfolding demux_shutdown_def sp Let_def by (auto simp: min_def)
qed

section \<open>Properties\<close>

text \<open>C2: The worker builds the logs.  Suppose that no system call fails, that the WAL segment
  size is valid, that the worker has its reader, that all records of the run are of at most 512 partitions, and that partition \<open>p\<close> is in
  order: its files are readable, hold whole records of its own with growing LSNs (no torn tail), and
  the segments of its new records come in order, none before the newest file, and keep the
  directory within 256 files.  Then,
  whatever turns the main loop takes (idle turns, reads that raise or return nothing, repositionings,
  saves of the progress), as long as none gets the signal or crashes on the unassigned \<open>record\<close>, the
  worker is still running and \<open>p\<close> ends with the log it had, followed by those of its records among
  the processed ones whose LSN is above every earlier one.  The processed records are those the
  reader delivered and, after a read that raised, the one its macros still yield.\<close>

theorem demux_main_logs:
  assumes "recovery_ok wss p s" and "finite P" and "card P \<le> DEMUX_MAX_PARTITIONS" and "se_reader env"
    and "list_all goes_on ts"
    and "rs = records_read wss ts (snd (demux_start env ds s))"
    and "list_all (\<lambda>h. partition_id h \<in> P) (stream_headers rs)"
    and "admissible (record_segno wss) wss p
      (accepted (last_lsn (scan_headers p s)) (filter (own_record p) (stream_headers rs))) s"
  shows "\<exists>w. DemuxWorkerMain wss env ds s ts = Running w \<and>
    scan_headers p (dstore (wd w)) = scan_headers p s
      @ accepted (last_lsn (scan_headers p s)) (filter (own_record p) (stream_headers rs))"
proof -
  let ?w = "snd (demux_start env ds s)"
  have w: "wd ?w = \<lparr>writers = [], dstore = ensure_root s\<rparr>" "demux_start env ds s = (Inr (), ?w)"
    using assms(4) by (simp_all add: demux_start_def Let_def)
  note st = start_plog [OF assms(1-3) w(1)]
  have "scan_headers p (dstore (wd (fold (demux_turn wss) ts ?w))) = scan_headers p (dstore (wd ?w))
      @ accepted (last_lsn (scan_headers p (dstore (wd ?w)))) (filter (own_record p) (stream_headers (records_read wss ts ?w)))"
    by (rule conjunct2 [OF run_logs [OF st(1)]]) (use assms(6-8) st(2) admissible_cong [OF st(3)] in simp_all)
  moreover have "DemuxWorkerMain wss env ds s ts = Running (fold (demux_turn wss) ts ?w)"
    using w(2) main_loop_fold [OF assms(5)] by (metis (no_types, lifting) DemuxWorkerMain_def old.sum.simps(6) prod.simps(2))
  ultimately show ?thesis using st(2) assms(6) by simp
qed

definition wal_turn :: "XLogRecPtr \<Rightarrow> read_result \<Rightarrow> turn" where
  "wal_turn flush rd =
     \<lparr>t_sigterm = False, t_flush = flush, t_read = rd, t_seg = \<lparr>ws_file = None, ws_segno = 0, ws_tli = 0\<rparr>,
      t_flush_skip = flush, t_find = FindRaises flush, t_find_seg = \<lparr>ws_file = None, ws_segno = 0, ws_tli = 0\<rparr>,
      t_flush_now = flush, t_secs = 0, t_us = 5\<rparr>"

lemma wal_turn_simps [simp]:
  "t_sigterm (wal_turn f r) = False" "t_flush (wal_turn f r) = f" "t_read (wal_turn f r) = r"
  "t_find (wal_turn f r) = FindRaises f" "t_flush_skip (wal_turn f r) = f" "t_flush_now (wal_turn f r) = f" "t_secs (wal_turn f r) = 0" "t_us (wal_turn f r) = 5"
  by (simp_all add: wal_turn_def)

lemma wal_turn_goes_on: "goes_on (wal_turn f r) = (\<not> null_dereference r)"
  by (simp add: goes_on_def)

definition at_end :: "XLogRecPtr \<Rightarrow> PartWALHeader \<Rightarrow> read_result" where
  "at_end e h = ReadRecord ((redo_record h)\<lparr>EndRecPtr := e\<rparr>)"

lemma stream_at: "stream_headers ((redo_record h)\<lparr>EndRecPtr := e\<rparr> # rs) = h # stream_headers rs"
  by (simp add: stream_headers_def is_data_record_def redo_record_def XLogRecGetInfo_def PARTWAL_RMGR_INFO_DATA_def)

lemma stream_none: "stream_headers [] = []"
  by (simp add: stream_headers_def)

definition example_env :: start_env where
  "example_env = \<lparr>se_flush = 0x1000028, se_redo = 0x1000028, se_reader = True\<rparr>"

lemma example_start: "reader_pos (snd (demux_start example_env ds s)) = 0x1000028" "se_reader example_env"
  by (simp_all add: demux_start_def example_env_def Let_def)

text \<open>A run with every kind of turn: an idle one, a record, a read that raises and leaves a null
  \<open>record\<close>, a record, a read that raises and leaves the previous record in place, an empty read.\<close>

definition example_turns :: "turn list" where
  "example_turns =
     [wal_turn 0x1000028 (ReadNull None 0x1000028),
      wal_turn 0x1000050 (at_end 0x1000050 (new_header 7 1 0x1000028 1)),
      wal_turn 0x1000060 (ReadRaises None StaleNull),
      wal_turn 0x1000088 (at_end 0x1000088 (new_header 7 1 0x1000060 2)),
      wal_turn 0x1000090 (ReadRaises None (StaleSet (Some (redo_record (new_header 7 1 0x1000060 2))))),
      wal_turn 0x1000098 (ReadNull (Some ''invalid'') 0x1000090)]"

lemma example_goes_on: "list_all goes_on example_turns"
  by (simp add: example_turns_def wal_turn_goes_on null_dereference_def at_end_def)

lemma turn_streak:
  "null_streak (demux_turn wss t w) =
     (if reader_pos w \<ge> t_flush t then null_streak w
      else case t_read t of
             ReadNull m e \<Rightarrow> if null_streak w < 3 then Suc (null_streak w) else 0
           | ReadRaises m StaleNull \<Rightarrow> if null_streak w < 3 then Suc (null_streak w) else 0
           | _ \<Rightarrow> 0)"
  by (auto simp: demux_turn_def turn_defs save_progress_def wait_latch_def Let_def
      split: read_result.splits stale_record.splits option.splits find_result.splits)

lemma example_start_streak: "null_streak (snd (demux_start env ds s)) = 0"
  by (simp add: demux_start_def Let_def)

lemma stream_redo: "stream_headers (redo_record h # rs) = h # stream_headers rs"
  by (simp add: stream_headers_def is_data_record_def redo_record_def XLogRecGetInfo_def PARTWAL_RMGR_INFO_DATA_def)

theorem demux_main_logs_witness:
  "\<exists>w. DemuxWorkerMain 0x1000000 example_env None fresh_store example_turns = Running w \<and>
     scan_headers 7 (dstore (wd w)) = [new_header 7 1 0x1000028 1, new_header 7 1 0x1000060 2]"
proof -
  let ?w = "snd (demux_start example_env None fresh_store)"
  let ?hs = "[new_header 7 1 0x1000028 1, new_header 7 1 0x1000060 2, new_header 7 1 0x1000060 2]"
  let ?ks = "[new_header 7 1 0x1000028 1, new_header 7 1 0x1000060 2]"
  have rd: "stream_headers (records_read 0x1000000 example_turns ?w) = ?hs"
    by (simp add: example_turns_def turn_records_def turn_position turn_streak example_start example_start_streak at_end_def)
      (simp add: stream_at stream_redo stream_none)
  have own: "filter (own_record 7) ?hs = ?hs" by (simp add: own_record_def new_header_def)
  have acc: "accepted (last_lsn (scan_headers 7 fresh_store)) ?hs = ?ks"
    by (simp add: fresh_scan last_lsn_def new_header_def)
  have adm: "admissible (record_segno 0x1000000) 0x1000000 7 ?ks fresh_store"
    by (rule fresh_admissible) (simp_all add: new_header_def record_segno_def XLByteToSeg_def Let_def)
  have fits: "list_all (\<lambda>h. partition_id h \<in> {7}) ?hs" by (simp add: new_header_def)
  have "\<exists>w. DemuxWorkerMain 0x1000000 example_env None fresh_store example_turns = Running w \<and>
      scan_headers 7 (dstore (wd w)) = scan_headers 7 fresh_store
        @ accepted (last_lsn (scan_headers 7 fresh_store))
            (filter (own_record 7) (stream_headers (records_read 0x1000000 example_turns ?w)))"
    by (rule demux_main_logs [OF fresh_recovery_ok [of 7], of "{7}"])
      (unfold rd own acc, use adm fits example_start(2) example_goes_on in \<open>simp_all add: DEMUX_MAX_PARTITIONS_def\<close>)
  then show ?thesis unfolding rd own acc by (simp add: fresh_scan)
qed

text \<open>C16: The position the worker publishes only grows and never runs ahead of the reader.  Take a
  worker with a reader and with shared memory, and any turns in which it neither gets the signal nor
  crashes and in which the server moves forward (no position the reader is put at is behind the one it
  had, and the flush position asked for after a read that raised is not behind that at the top of the
  turn), from a start position not behind the published one.  After them the worker
  is still running, has published at least what was published at the start, and nothing beyond the
  reader's position (all of it read, or skipped by a read that raised or a repositioning).\<close>

theorem published_position_forward:
  assumes "se_reader env" and "list_all goes_on ts"
    and "last_processed_lsn st \<le> reader_pos (snd (demux_start env (Some st) s))"
    and "forward_run wss ts (snd (demux_start env (Some st) s))"
  shows "\<exists>w b. DemuxWorkerMain wss env (Some st) s ts = Running w \<and> published w = Some b \<and>
    last_processed_lsn st \<le> b \<and> b \<le> reader_pos w \<and> reader_pos (snd (demux_start env (Some st) s)) \<le> reader_pos w"
proof -
  let ?w = "snd (demux_start env (Some st) s)"
  have w: "demux_start env (Some st) s = (Inr (), ?w)" "published ?w = Some (last_processed_lsn st)"
    using assms(1) by (simp_all add: demux_start_def published_def set_active_def Let_def)
  have "DemuxWorkerMain wss env (Some st) s ts = Running (fold (demux_turn wss) ts ?w)"
    using w(1) main_loop_fold [OF assms(2)]
    by (metis (no_types, lifting) DemuxWorkerMain_def old.sum.simps(6) prod.simps(2))
  with run_forward [OF assms(4) w(2) assms(3)] show ?thesis by auto
qed

lemma example_forward: "forward_run 0x1000000 example_turns (snd (demux_start example_env ds s))"
  by (simp add: example_turns_def forward_turn_def turn_position turn_streak example_start example_start_streak
      at_end_def found_def)

theorem published_position_forward_witness:
  "\<exists>w b. DemuxWorkerMain 0x1000000 example_env (Some (DemuxShmemInit None)) fresh_store example_turns = Running w \<and>
     published w = Some b \<and> b \<le> reader_pos w"
  using published_position_forward [OF example_start(2) example_goes_on _ example_forward, of "DemuxShmemInit None"]
  by (fastforce simp: example_start DemuxShmemInit_def)

text \<open>C19: Once the reader of a worker with shared memory has caught up with a valid flush position, a \<open>demux_flush\<close> waiting for a position
  up to it is released in that turn, and it stays so: after any further turns in which the worker
  goes on (no signal, no crash) and the server moves forward (no position the reader
  is put at is behind the one it had, and the flush position asked for after a read that raised is
  not behind that at the top of the turn), the worker is running and the published position still counts as reached.  What was published before
  is assumed not to be ahead of the reader, as \<open>published_position_forward\<close> shows.\<close>

theorem caught_up_releases_flush:
  assumes "published w = Some a" and "a \<le> reader_pos w" and "t_flush t \<le> reader_pos w"
    and "t_flush t \<noteq> InvalidXLogRecPtr" and "target \<le> t_flush t"
    and "list_all goes_on (t # ts)" and "forward_run wss ts (demux_turn wss t w)"
  shows "\<exists>v. main_loop wss (t # ts) w = Running v \<and> reached target (published v)"
proof -
  obtain b where b: "published (demux_turn wss t w) = Some b" "t_flush t \<le> b" "b \<le> reader_pos (demux_turn wss t w)"
    using assms(1-3) by (cases "a = InvalidXLogRecPtr \<or> a < t_flush t") (auto simp: turn_published turn_position)
  then obtain c where "published (fold (demux_turn wss) ts (demux_turn wss t w)) = Some c" "b \<le> c"
    using run_forward [OF assms(7) b(1,3)] by blast
  with b(2) assms(4,5) main_loop_fold [OF assms(6)] show ?thesis by (auto simp: reached_def word_le_0_iff)
qed

theorem caught_up_releases_flush_witness:
  "\<exists>v. main_loop 0x1000000 example_turns (snd (demux_start example_env (Some (DemuxShmemInit None)) fresh_store))
       = Running v \<and> reached 0x1000028 (published v)"
proof -
  let ?w = "snd (demux_start example_env (Some (DemuxShmemInit None)) fresh_store)"
  let ?t = "wal_turn 0x1000028 (ReadNull None 0x1000028)"
  have ts: "example_turns = ?t # tl example_turns" by (simp add: example_turns_def)
  have "forward_run 0x1000000 (tl example_turns) (demux_turn 0x1000000 ?t ?w)"
    using example_forward [of "Some (DemuxShmemInit None)" fresh_store] by (subst (asm) ts) simp
  moreover have "published ?w = Some 0"
    by (simp add: demux_start_def published_def set_active_def DemuxShmemInit_def Let_def)
  ultimately show ?thesis
    using caught_up_releases_flush [of ?w 0 ?t "0x1000028" "tl example_turns" "0x1000000"] example_goes_on
    by (simp add: example_start flip: ts)
qed

text \<open>WAL whose segment cannot be opened is passed over.  After a read that raises, the reader is at
  the flush position.  When the unassigned \<open>record\<close> is null there, the worker publishes that position
  in its next turn, so that a waiting \<open>demux_flush\<close> reports success, although no record before it was
  read or written.\<close>

theorem unavailable_segment_skips:
  assumes "reader_pos w < t_flush t" and "t_read t = ReadRaises None StaleNull" and "null_streak w < 3"
    and "published w \<noteq> None"
    and "t_flush u \<le> t_flush_skip t" and "t_flush u \<noteq> InvalidXLogRecPtr" and "target \<le> t_flush u"
  shows "records_read wss [t, u] w = [] \<and> reached target (published (fold (demux_turn wss) [t, u] w)) \<and>
    wd (fold (demux_turn wss) [t, u] w) = FlushAllWriters (wd w)"
proof -
  let ?v = "demux_turn wss t w"
  have v: "reader_pos ?v = t_flush_skip t" "published ?v = published w" "wd ?v = wd w"
    using assms(1-3) by (auto simp: turn_position turn_published)
      (simp add: demux_turn_def turn_defs wait_latch_def Let_def)
  have "turn_records t w = []" "turn_records u ?v = []"
    using assms(1,2,5) v(1) by (simp_all add: turn_records_def)
  moreover have "wd (demux_turn wss u ?v) = FlushAllWriters (wd w)"
    using v assms(5) by (simp add: demux_turn_def caught_up_def wait_latch_def)
  moreover have "reached target (published (demux_turn wss u ?v))"
  proof -
    obtain p where "published w = Some p" using assms(4) by blast
    then have "published (demux_turn wss u ?v) = Some (if p = InvalidXLogRecPtr \<or> p < t_flush u then t_flush u else p)"
      using v assms(5) by (simp add: turn_published)
    then show ?thesis using assms(6,7) by (auto simp: reached_def)
  qed
  ultimately show ?thesis by simp
qed

theorem unavailable_segment_skips_witness:
  "let w = snd (demux_start example_env (Some (DemuxShmemInit None)) fresh_store) in
   reached 0x1000078 (published (fold (demux_turn 0x1000000)
     [wal_turn 0x1000078 (ReadRaises None StaleNull), wal_turn 0x1000078 (ReadNull None 0x1000078)] w))"
  using unavailable_segment_skips [of "snd (demux_start example_env (Some (DemuxShmemInit None)) fresh_store)"
      "wal_turn 0x1000078 (ReadRaises None StaleNull)" "wal_turn 0x1000078 (ReadNull None 0x1000078)" "0x1000078" "0x1000000"]
  by (simp add: example_start example_start_streak Let_def)
    (simp add: demux_start_def published_def set_active_def DemuxShmemInit_def Let_def)

text \<open>When it is not null, the same turn handles whatever record the reader's macros yield a further
  time and publishes the flush position at once.\<close>

theorem stale_record_publishes:
  assumes "reader_pos w < t_flush t" and "t_read t = ReadRaises m (StaleSet (Some r))"
  shows "records_read wss [t] w = [r] \<and> reader_pos (demux_turn wss t w) = t_flush_skip t \<and>
    published (demux_turn wss t w) = map_option (\<lambda>_. t_flush_skip t) (published w)"
  using assms by (auto simp: turn_records_def turn_position turn_published)

text \<open>A read that raises can end the worker: with a \<open>record\<close> that is not null and no record in the reader,
  the process crashes, with the shared state still saying that the worker is active.\<close>

theorem stale_record_crashes:
  assumes "reader_pos w < t_flush t" and "t_read t = ReadRaises m (StaleSet None)" and "\<not> t_sigterm t"
  shows "\<exists>v. main_loop wss (t # ts) w = Crashed v \<and> demux_shared v = demux_shared w"
  using assms by (auto simp: turn_crashes_def null_dereference_def turn_shared)

text \<open>A restart does not resume.  The position that a worker saved can be read back, but the next
  worker starts at the flush position of its start, whatever was saved: the records between the two
  are never read.\<close>

theorem restart_does_not_resume:
  assumes "script s = []" and "root_exists s" and "se_flush env \<noteq> InvalidXLogRecPtr"
  shows "LoadDemuxProgress (SaveDemuxProgress lsn s) = lsn \<and>
    reader_pos (snd (demux_start env ds (SaveDemuxProgress lsn s))) = se_flush env"
  using SaveDemuxProgress_saved [OF assms(1,2)] assms(3) by (simp add: demux_start_def Let_def)

theorem restart_does_not_resume_witness:
  "LoadDemuxProgress (SaveDemuxProgress 0x28 (fresh_store\<lparr>root_exists := True\<rparr>)) = 0x28 \<and>
   reader_pos (snd (demux_start example_env None (SaveDemuxProgress 0x28 (fresh_store\<lparr>root_exists := True\<rparr>)))) = 0x1000028"
  using restart_does_not_resume [of "fresh_store\<lparr>root_exists := True\<rparr>" example_env "0x28" None]
  by (simp add: example_env_def)

text \<open>The loop's two counters are bounded: fewer than 16 records since the last save, at most three
  failed reads since the last repositioning, after any turns.\<close>

theorem loop_counters_bounded:
  "save_counter (fold (demux_turn wss) ts (snd (demux_start env ds s))) < 16 \<and>
   null_streak (fold (demux_turn wss) ts (snd (demux_start env ds s))) \<le> 3"
  by (rule fold_counters) (simp add: demux_start_def Let_def)

text \<open>\<open>worker_active\<close> is true exactly until a clean exit: it holds while the worker runs, a worker
  that exits on \<open>SIGTERM\<close> clears it, and one that dies of an error (no reader, or a last flush that
  fails) or crashes leaves it set.\<close>

theorem worker_active_flag:
  "case DemuxWorkerMain wss env (Some st) s ts of
     Running w \<Rightarrow> active w | Exited w \<Rightarrow> \<not> active w | Died e w \<Rightarrow> active w | Crashed w \<Rightarrow> active w"
proof -
  obtain r w where w: "demux_start env (Some st) s = (r, w)" by fastforce
  have a: "active w" using start_active [of env st s] w by simp
  then show ?thesis
    using w main_loop_active [OF a, of wss ts] by (cases r) (simp_all add: DemuxWorkerMain_def split: run.splits)
qed

text \<open>The ring of latency samples holds, for any run, the elapsed times of exactly the turns that
  processed a record, in order.\<close>

theorem latency_ring_of_run:
  "\<exists>st'. demux_shared (fold (demux_turn wss) ts (snd (demux_start env (Some (DemuxShmemInit None)) s))) = Some st' \<and>
     ring_inv (elapsed wss ts (snd (demux_start env (Some (DemuxShmemInit None)) s))) st'"
proof -
  let ?w = "snd (demux_start env (Some (DemuxShmemInit None)) s)"
  have "demux_shared ?w = Some ((DemuxShmemInit None)\<lparr>worker_active := True\<rparr>)"
    by (simp add: demux_start_def set_active_def Let_def)
  moreover have "ring_inv [] ((DemuxShmemInit None)\<lparr>worker_active := True\<rparr>)"
    using ring_start by (simp add: ring_inv_def)
  ultimately show ?thesis using run_ring [of ?w _ "[]"] by simp
qed

text \<open>C18: A clean exit.  Suppose that the turns before \<open>SIGTERM\<close> leave the worker running (none of
  them crashes on the unassigned \<open>record\<close> after a read that raised) and in a state without faults: no
  failing system call ahead, at most 512 writers, each with an empty buffer and in step with its
  files, and the root directory present.  Then on \<open>SIGTERM\<close> it exits cleanly: every writer is closed,
  the records in the files of every partition are as the loop left them, and the progress file holds
  the reader's position, or the flush position where that is lower.\<close>

theorem graceful_shutdown:
  assumes "list_all goes_on ts" and "t_sigterm t"
    and "v = fold (demux_turn wss) ts w" and "demux_ok wss P (wd v)" and "root_exists (dstore (wd v))"
  shows "\<exists>w'. main_loop wss (ts @ t # us) w = Exited w' \<and> writers (wd w') = [] \<and>
    scan_headers p (dstore (wd w')) = scan_headers p (dstore (wd v)) \<and>
    LoadDemuxProgress (dstore (wd w')) = min (reader_pos v) (t_flush_now t)"
proof -
  obtain w' f where "demux_shutdown t v = (None, w')" "writers (wd w') = []"
    "dstore (wd w') = (dstore (wd v))\<lparr>root_files := f\<rparr>"
    "LoadDemuxProgress (dstore (wd w')) = min (reader_pos v) (t_flush_now t)"
    using shutdown_faultless [OF assms(4,5)] by blast
  then show ?thesis using main_loop_exit [OF assms(1,2), of wss us w] assms(3) by simp
qed

theorem graceful_shutdown_witness:
  "\<exists>w'. main_loop 0x1000000 [wal_turn 0x1000078 (ReadRaises None StaleNull),
         (wal_turn 0x1000078 (ReadNull None 0x1000078))\<lparr>t_sigterm := True\<rparr>]
       (snd (demux_start example_env None fresh_store)) = Exited w' \<and>
     LoadDemuxProgress (dstore (wd w')) = 0x1000078"
proof -
  let ?w = "snd (demux_start example_env None fresh_store)"
  let ?t = "wal_turn 0x1000078 (ReadRaises None StaleNull)"
  let ?u = "(wal_turn 0x1000078 (ReadNull None 0x1000078))\<lparr>t_sigterm := True\<rparr>"
  let ?v = "demux_turn 0x1000000 ?t ?w"
  have w: "wd ?w = \<lparr>writers = [], dstore = ensure_root fresh_store\<rparr>"
    by (simp add: demux_start_def example_env_def Let_def)
  have ok: "demux_ok 0x1000000 {} (wd ?w)"
    using start_plog(1) [OF fresh_recovery_ok _ _ w, of "{}" 7] by (simp add: plog_ok_def)
  have v: "wd ?v = wd ?w" "reader_pos ?v = 0x1000078"
    by (simp_all add: demux_turn_def turn_defs wait_latch_def example_start example_start_streak Let_def)
  have "root_exists (dstore (wd ?w))" by (simp add: w ensure_root_faultless)
  moreover have "list_all goes_on [?t]" by (simp add: wal_turn_goes_on null_dereference_def)
  ultimately show ?thesis
    using v ok graceful_shutdown [of "[?t]" ?u ?v "0x1000000" ?w "{}" "[]" 7] by auto
qed

end
