(* ===== verification/StoreInvariant.thy ===== *)
theory StoreInvariant
  imports DemuxMain
begin

text \<open>
  The invariant of the partition files under every operation of \<open>src/wal/partition_wal.c\<close>,
  \<open>src/wal/partition_wal_writer.c\<close> and \<open>src/worker/demux_worker.c\<close> that touches them, whatever
  system calls fail, write too little or are interrupted on the way.
\<close>

section \<open>The operations one by one\<close>

lemma store_ok_warn [simp]: "store_ok (warn x s) = store_ok s"
  by (rule store_ok_same) (simp add: warn_def same_files_def same_frame_def)

lemma fsync_ok: "fsync_fd s = (b, s') \<Longrightarrow> store_ok s' = store_ok s"
  by (rule store_ok_same [OF fsync_same])

lemma write_retry_ok:
  assumes "write_retry i bs s = (r, s')" and "store_ok s"
  shows "store_ok s'"
proof -
  obtain n where "same_files (s\<lparr>inode := (inode s)(i := inode s i @ take n bs)\<rparr>) s'"
    using write_retry_effect [OF assms(1)] by blast
  from store_ok_same [OF this] assms(2) show ?thesis by simp
qed

lemma flush_ok:
  assumes "FlushPartitionWALWriter w s = (r, w', s')" and "store_ok s"
  shows "store_ok s'"
proof -
  have "store_ok s1" if fl: "flush_loop i bs s = (e, s1)" for i bs e s1
  proof -
    obtain k where "same_files (s\<lparr>inode := (inode s)(i := inode s i @ take k bs)\<rparr>) s1"
      using flush_loop_effect [OF fl] by blast
    from store_ok_same [OF this] assms(2) show ?thesis by simp
  qed
  with assms show ?thesis
    by (auto simp: FlushPartitionWALWriter_def Let_def dest: fsync_ok
        split: if_splits option.splits prod.splits bool.splits)
qed

lemma open_segment_ok: "OpenWriterSegment w segno wss s = (r, w', s') \<Longrightarrow> store_ok s \<Longrightarrow> store_ok s'"
  by (auto simp: OpenWriterSegment_def Let_def dest!: fsync_ok open_append_ok
      store_ok_same [OF open_append_error(1)] split: option.splits prod.splits bool.splits sum.splits)

lemma prepare_ok:
  assumes "prepare_segment w segno wss s = (r, w', s')" and "store_ok s"
  shows "store_ok s'"
proof -
  obtain rf wf sf where f: "FlushPartitionWALWriter w s = (rf, wf, sf)" by (metis prod_cases3)
  show ?thesis
    using assms f flush_ok [OF f assms(2)] open_segment_ok [of wf segno wss sf] open_segment_ok [OF _ assms(2)]
    by (cases rf) (auto simp: prepare_segment_def split: if_splits)
qed

lemma write_ok:
  assumes "WritePartitionWAL w h wss s = (r, w', s')" and "store_ok s"
  shows "store_ok s'"
proof -
  obtain r1 w1 s1 where p: "prepare_segment w (record_segno wss (orig_node_lsn h)) wss s = (r1, w1, s1)"
    by (metis prod_cases3)
  obtain rf wf sf where f: "FlushPartitionWALWriter w1 s1 = (rf, wf, sf)" by (metis prod_cases3)
  show ?thesis
    using assms(1) p f prepare_ok [OF p assms(2)] flush_ok [OF f]
    by (cases r1; cases rf) (auto simp: WritePartitionWAL_alt split: if_splits)
qed

lemma create_ok: "CreatePartitionWALWriter p s = (r, s') \<Longrightarrow> store_ok s \<Longrightarrow> store_ok s'"
  by (auto simp: CreatePartitionWALWriter_def dest: Init_ok split: prod.splits sum.splits)

lemma destroy_ok: "DestroyPartitionWALWriter w s = (r, s') \<Longrightarrow> store_ok s \<Longrightarrow> store_ok s'"
  by (auto simp: DestroyPartitionWALWriter_def dest!: flush_ok fsync_ok split: prod.splits sum.splits option.splits bool.splits)

lemma header_to_file_ok: "WriteHeaderToFile wss h s = (r, s') \<Longrightarrow> store_ok s \<Longrightarrow> store_ok s'"
  by (auto simp: WriteHeaderToFile_segno dest!: fsync_ok dest: open_append_ok write_retry_ok
      store_ok_same [OF open_append_error(1)] split: prod.splits sum.splits if_splits bool.splits)

lemma redo_ok: "partdist_wal_redo wss r s = (x, s') \<Longrightarrow> store_ok s \<Longrightarrow> store_ok s'"
  by (auto simp: partdist_wal_redo_def Let_def dest: Init_ok header_to_file_ok split: if_splits prod.splits sum.splits)

lemma cleanup_ok: "CleanupPartitionWAL p keepPtr wss s = (r, s') \<Longrightarrow> store_ok s \<Longrightarrow> store_ok s'"
  by (auto simp: CleanupPartitionWAL_def cleanup_loop_ok split: sum.splits if_splits)

lemma route_ok: "route_to_writer wss h w s = (w', s') \<Longrightarrow> store_ok s \<Longrightarrow> store_ok s'"
  by (auto simp: route_to_writer_def write_and_flush_def Let_def dest: write_ok flush_ok
      split: if_splits prod.splits sum.splits)

lemma get_writer_ok: "GetOrCreateWriter p d = (r, d') \<Longrightarrow> store_ok (dstore d) \<Longrightarrow> store_ok (dstore d')"
  by (auto simp: GetOrCreateWriter_def dest: create_ok split: option.splits if_splits prod.splits sum.splits)

lemma process_ok: "store_ok (dstore d) \<Longrightarrow> store_ok (dstore (process_record wss r d))"
  by (auto simp: process_record_def Let_def dest: get_writer_ok route_ok split: prod.splits sum.splits option.splits)

lemma flush_writers_ok: "flush_writers ws s = (ws', s') \<Longrightarrow> store_ok s \<Longrightarrow> store_ok s'"
  by (induction ws s arbitrary: ws' s' rule: flush_writers.induct)
    (auto dest: flush_ok split: prod.splits sum.splits)

lemma destroy_writers_ok: "destroy_writers ws s = (r, s') \<Longrightarrow> store_ok s \<Longrightarrow> store_ok s'"
  by (induction ws s arbitrary: r s' rule: destroy_writers.induct)
    (auto dest: destroy_ok split: prod.splits sum.splits)

lemma next_outcome_ok: "next_outcome s = (x, s') \<Longrightarrow> store_ok s' = store_ok s"
  by (rule store_ok_same [OF next_outcome_same])

lemma write_root_ok: "write_root_retry n bs s = (r, s') \<Longrightarrow> store_ok s' = store_ok s"
proof (induction n bs s arbitrary: r s' rule: write_root_retry.induct)
  case (1 n bs s)
  obtain r1 s1 where w: "write_root n bs s = (r1, s1)" by fastforce
  then have s1: "store_ok s1 = store_ok s"
    by (auto simp: write_root_def dest: next_outcome_ok split: prod.splits outcome.splits)
  show ?case
    using "1.IH" [OF w [symmetric]] "1.prems" s1
    by (auto simp: write_root_retry.simps [of n bs s] w split: sum.splits errno.splits)
qed

lemma save_ok: "store_ok (SaveDemuxProgress lsn s) = store_ok s"
  by (auto simp: SaveDemuxProgress_def open_trunc_def rename_root_def dest!: next_outcome_ok write_root_ok fsync_ok
      split: prod.splits sum.splits outcome.splits if_splits)

section \<open>Every run\<close>

lemma flush_writers_shape:
  "flush_writers ws s = (ws', s') \<Longrightarrow> map fst ws' = map fst ws \<and>
     ((\<forall>(pid, w)\<in>set ws. w_partition_id w = pid \<and> buf_used w \<le> PARWAL_WRITER_BUFFER_SIZE) \<longrightarrow>
      (\<forall>(pid, w)\<in>set ws'. w_partition_id w = pid \<and> buf_used w \<le> PARWAL_WRITER_BUFFER_SIZE))"
proof (induction ws s arbitrary: ws' s' rule: flush_writers.induct)
  case (2 pid w ws s)
  obtain r w1 s1 where f: "FlushPartitionWALWriter w s = (r, w1, s1)" by (metis prod_cases3)
  obtain vs t where v: "flush_writers ws s1 = (vs, t)" by fastforce
  have "w_partition_id w1 = w_partition_id w" and "buf_used w1 \<le> buf_used w"
    using flush_outcomes(1) [OF f] by auto
  moreover obtain w2 where "ws' = (pid, w2) # vs" "w_partition_id w2 = w_partition_id w1" "buffer w2 = buffer w1"
    using "2.prems" f v by (cases r) auto
  moreover have "map fst vs = map fst ws \<and>
     ((\<forall>(pid, w)\<in>set ws. w_partition_id w = pid \<and> buf_used w \<le> PARWAL_WRITER_BUFFER_SIZE) \<longrightarrow>
      (\<forall>(pid, w)\<in>set vs. w_partition_id w = pid \<and> buf_used w \<le> PARWAL_WRITER_BUFFER_SIZE))"
    using "2.IH" [OF f [symmetric] _ refl v] by (cases r) blast+
  ultimately show ?case by auto
qed simp

lemma flush_all_shape: "cache_shape d \<Longrightarrow> cache_shape (FlushAllWriters d)"
proof -
  obtain ws s where f: "flush_writers (writers d) (dstore d) = (ws, s)" by fastforce
  have "length ws = length (writers d)" using flush_writers_shape [OF f] by (metis length_map)
  with flush_writers_shape [OF f] show "cache_shape d \<Longrightarrow> cache_shape (FlushAllWriters d)"
    by (simp add: cache_shape_def FlushAllWriters_def f)
qed

text \<open>One operation on the files below \<open>pg_parwal\<close>, by whichever process; \<open>faults\<close> lets the system
  decide anew how the next calls end and what can be opened, \<open>restart\<close> starts a new worker.\<close>

inductive file_step :: "u64 \<Rightarrow> demux \<Rightarrow> demux \<Rightarrow> bool" for wss where
  init: "InitPartitionWALDirectory p (dstore d) = (r, s) \<Longrightarrow> file_step wss d (d\<lparr>dstore := s\<rparr>)"
| cleanup: "CleanupPartitionWAL p keepPtr wss (dstore d) = (r, s) \<Longrightarrow> file_step wss d (d\<lparr>dstore := s\<rparr>)"
| reset: "file_step wss d (d\<lparr>dstore := reset_files p (dstore d)\<rparr>)"
| redo: "partdist_wal_redo wss rec (dstore d) = (r, s) \<Longrightarrow> file_step wss d (d\<lparr>dstore := s\<rparr>)"
| wal_rec: "file_step wss d (process_record wss rec d)"
| flush: "file_step wss d (FlushAllWriters d)"
| destroy: "DestroyAllWriters d = (r, d') \<Longrightarrow> file_step wss d d'"
| save: "file_step wss d (d\<lparr>dstore := SaveDemuxProgress lsn (dstore d)\<rparr>)"
| faults: "file_step wss d (d\<lparr>dstore := (dstore d)\<lparr>script := xs, unreadable := u, unreadable_dir := v\<rparr>\<rparr>)"
| restart: "file_step wss d (d\<lparr>writers := []\<rparr>)"

lemma faults_ok: "store_ok (s\<lparr>script := xs, unreadable := u, unreadable_dir := v\<rparr>) = store_ok s"
proof -
  have "file_ino (s\<lparr>script := xs, unreadable := u, unreadable_dir := v\<rparr>) = file_ino s"
    by (intro ext) (simp add: file_ino_def)
  then show ?thesis by (simp add: store_ok_def)
qed

lemma cache_shape_store: "cache_shape (d\<lparr>dstore := s\<rparr>) = cache_shape d"
  by (simp add: cache_shape_def)

lemma file_step_keeps:
  assumes "file_step wss d d'" and "store_ok (dstore d)" and "cache_shape d"
  shows "store_ok (dstore d') \<and> cache_shape d'"
  using assms
proof cases
  case (wal_rec rec)
  with assms show ?thesis by (simp add: process_ok process_record_shape)
next
  case flush
  obtain ws s where "flush_writers (writers d) (dstore d) = (ws, s)" by fastforce
  with flush assms flush_writers_ok [OF this] show ?thesis
    using flush_all_shape [OF assms(3)] by (simp add: FlushAllWriters_def)
next
  case (destroy r)
  obtain e s where "destroy_writers (writers d) (dstore d) = (e, s)" by fastforce
  with destroy assms destroy_writers_ok [OF this] show ?thesis
    by (auto simp: DestroyAllWriters_def cache_shape_def split: option.splits)
qed (auto simp: cache_shape_store faults_ok save_ok reset_files_ok cache_shape_def
      dest: Init_ok cleanup_ok redo_ok)

text \<open>Whatever operations the processes of a server run on the partition files, in any order, and
  whatever system calls fail, stop short or are interrupted on the way, the files stay consistent: no
  partition directory without the root, no name twice in a directory, no two names for one file; and
  the Demux worker's cache stays within its 512 writers and their buffers within their size.\<close>

theorem files_stay_consistent:
  assumes "(file_step wss)\<^sup>*\<^sup>* fresh_demux d"
  shows "store_ok (dstore d) \<and> cache_shape d"
  using assms
proof (induction rule: rtranclp_induct)
  case base
  then show ?case by (simp add: fresh_demux_def fresh_store_ok cache_shape_def)
next
  case (step d d')
  then show ?case using file_step_keeps by blast
qed

theorem files_stay_consistent_witness:
  "let d = process_record 0x1000000 (redo_record (new_header 7 1 0x1000028 1))
       (fresh_demux\<lparr>dstore := fresh_store\<lparr>script := [Succeed, Succeed, Fail ENOSPC], unreadable := (\<lambda>p n. False),
          unreadable_dir := (\<lambda>p. False)\<rparr>\<rparr>)
   in store_ok (dstore d) \<and> cache_shape d"
proof -
  let ?d = "fresh_demux\<lparr>dstore := fresh_store\<lparr>script := [Succeed, Succeed, Fail ENOSPC], unreadable := (\<lambda>p n. False),
          unreadable_dir := (\<lambda>p. False)\<rparr>\<rparr>"
  have "file_step 0x1000000 fresh_demux ?d"
    using file_step.faults [of "0x1000000" fresh_demux] by (simp add: fresh_demux_def)
  moreover have "file_step 0x1000000 ?d (process_record 0x1000000 (redo_record (new_header 7 1 0x1000028 1)) ?d)"
    by (rule file_step.wal_rec)
  ultimately have "(file_step 0x1000000)\<^sup>*\<^sup>* fresh_demux
      (process_record 0x1000000 (redo_record (new_header 7 1 0x1000028 1)) ?d)"
    by (meson converse_rtranclp_into_rtranclp r_into_rtranclp)
  from files_stay_consistent [OF this] show ?thesis by (simp add: Let_def)
qed

end
