(* ===== verification/XLogFiles.thy ===== *)
theory XLogFiles
  imports XLogNames
begin

text \<open>
  The rest of \<open>access/xlog_internal.h\<close>: the names of the other files of the WAL directory with
  the functions that recognise them, the segment arithmetic around a boundary, and the sizes of
  the page headers, with the alignment macros of \<open>c.h\<close> they use.  The lemmas show that the four
  kinds of names cannot be mistaken for each other, so the functions of the extension that list
  segment files skip all the others, and what the macros compute on numbers.
\<close>

section \<open>Alignment and page headers\<close>

definition TYPEALIGN :: "u64 \<Rightarrow> u64 \<Rightarrow> u64" where
  "TYPEALIGN alignval len = (len + (alignval - 1)) AND NOT (alignval - 1)"

definition TYPEALIGN_DOWN :: "u64 \<Rightarrow> u64 \<Rightarrow> u64" where
  "TYPEALIGN_DOWN alignval len = len AND NOT (alignval - 1)"

definition MAXALIGN :: "u64 \<Rightarrow> u64" where
  "MAXALIGN len = TYPEALIGN 8 len"

record XLogPageHeaderData =
  xlp_magic :: "16 word"
  xlp_info :: "16 word"
  xlp_tli :: TimeLineID
  xlp_pageaddr :: XLogRecPtr
  xlp_rem_len :: u32

record XLogLongPageHeaderData = XLogPageHeaderData +
  xlp_sysid :: u64
  xlp_seg_size :: u32
  xlp_xlog_blcksz :: u32

text \<open>The fields take 2 + 2 + 4 + 8 + 4 bytes, and the compiler pads the struct to a multiple of 8;
  the long header adds 8 + 4 + 4.\<close>

definition SizeOfXLogShortPHD :: u64 where
  "SizeOfXLogShortPHD = MAXALIGN 24"

definition SizeOfXLogLongPHD :: u64 where
  "SizeOfXLogLongPHD = MAXALIGN 40"

definition XLP_LONG_HEADER :: "16 word" where
  "XLP_LONG_HEADER = 0x0002"

definition XLogPageHeaderSize :: "'a XLogPageHeaderData_scheme \<Rightarrow> u64" where
  "XLogPageHeaderSize hdr =
     (if xlp_info hdr AND XLP_LONG_HEADER \<noteq> 0 then SizeOfXLogLongPHD else SizeOfXLogShortPHD)"

definition XRecOffIsValid :: "XLogRecPtr \<Rightarrow> bool" where
  "XRecOffIsValid xlrp \<longleftrightarrow> xlrp mod of_nat XLOG_BLCKSZ \<ge> SizeOfXLogShortPHD"

section \<open>Segment boundaries\<close>

definition XLByteToPrevSeg :: "XLogRecPtr \<Rightarrow> u64 \<Rightarrow> XLogSegNo" where
  "XLByteToPrevSeg xlrp wss = (xlrp - 1) div wss"

definition XLByteInSeg :: "XLogRecPtr \<Rightarrow> XLogSegNo \<Rightarrow> u64 \<Rightarrow> bool" where
  "XLByteInSeg xlrp logSegNo wss \<longleftrightarrow> xlrp div wss = logSegNo"

definition XLByteInPrevSeg :: "XLogRecPtr \<Rightarrow> XLogSegNo \<Rightarrow> u64 \<Rightarrow> bool" where
  "XLByteInPrevSeg xlrp logSegNo wss \<longleftrightarrow> (xlrp - 1) div wss = logSegNo"

definition XLogMBVarToSegs :: "u64 \<Rightarrow> u64 \<Rightarrow> u64" where
  "XLogMBVarToSegs mbvar wss = mbvar div (wss div (1024 * 1024))"

section \<open>File names of the WAL directory\<close>

abbreviation MAXFNAMELEN :: nat where
  "MAXFNAMELEN \<equiv> 64"

abbreviation strspn_hex :: "string \<Rightarrow> nat" where
  "strspn_hex s \<equiv> length (takeWhile (\<lambda>c. c \<in> set hexchars) s)"

definition XLogFileNameById :: "TimeLineID \<Rightarrow> u32 \<Rightarrow> u32 \<Rightarrow> string" where
  "XLogFileNameById tli log seg = snprintf MAXFNAMELEN (hex8 tli @ hex8 log @ hex8 seg)"

definition IsPartialXLogFileName :: "string \<Rightarrow> bool" where
  "IsPartialXLogFileName fname \<longleftrightarrow>
     length fname = XLOG_FNAME_LEN + length ''.partial'' \<and>
     strspn_hex fname = XLOG_FNAME_LEN \<and>
     strcmp (drop XLOG_FNAME_LEN fname) ''.partial'' = 0"

definition XLogFilePath :: "TimeLineID \<Rightarrow> XLogSegNo \<Rightarrow> u64 \<Rightarrow> string" where
  "XLogFilePath tli logSegNo wss =
     snprintf MAXPGPATH
       (''pg_wal/'' @ hex8 tli @ hex8 (ucast (logSegNo div XLogSegmentsPerXLogId wss))
         @ hex8 (ucast (logSegNo mod XLogSegmentsPerXLogId wss)))"

definition TLHistoryFileName :: "TimeLineID \<Rightarrow> string" where
  "TLHistoryFileName tli = snprintf MAXFNAMELEN (hex8 tli @ ''.history'')"

definition IsTLHistoryFileName :: "string \<Rightarrow> bool" where
  "IsTLHistoryFileName fname \<longleftrightarrow>
     length fname = 8 + length ''.history'' \<and>
     strspn_hex fname = 8 \<and>
     strcmp (drop 8 fname) ''.history'' = 0"

definition TLHistoryFilePath :: "TimeLineID \<Rightarrow> string" where
  "TLHistoryFilePath tli = snprintf MAXPGPATH (''pg_wal/'' @ hex8 tli @ ''.history'')"

definition StatusFilePath :: "string \<Rightarrow> string \<Rightarrow> string" where
  "StatusFilePath xlog suffix = snprintf MAXPGPATH (''pg_wal/archive_status/'' @ xlog @ suffix)"

definition BackupHistoryFileName :: "TimeLineID \<Rightarrow> XLogSegNo \<Rightarrow> XLogRecPtr \<Rightarrow> u64 \<Rightarrow> string" where
  "BackupHistoryFileName tli logSegNo startpoint wss =
     snprintf MAXFNAMELEN
       (hex8 tli @ hex8 (ucast (logSegNo div XLogSegmentsPerXLogId wss))
         @ hex8 (ucast (logSegNo mod XLogSegmentsPerXLogId wss)) @ ''.''
         @ hex8 (ucast (XLogSegmentOffset startpoint wss)) @ ''.backup'')"

definition IsBackupHistoryFileName :: "string \<Rightarrow> bool" where
  "IsBackupHistoryFileName fname \<longleftrightarrow>
     length fname > XLOG_FNAME_LEN \<and>
     strspn_hex fname = XLOG_FNAME_LEN \<and>
     strcmp (drop (length fname - length ''.backup'') fname) ''.backup'' = 0"

definition BackupHistoryFilePath :: "TimeLineID \<Rightarrow> XLogSegNo \<Rightarrow> XLogRecPtr \<Rightarrow> u64 \<Rightarrow> string" where
  "BackupHistoryFilePath tli logSegNo startpoint wss =
     snprintf MAXPGPATH
       (''pg_wal/'' @ hex8 tli @ hex8 (ucast (logSegNo div XLogSegmentsPerXLogId wss))
         @ hex8 (ucast (logSegNo mod XLogSegmentsPerXLogId wss)) @ ''.''
         @ hex8 (ucast (XLogSegmentOffset startpoint wss)) @ ''.backup'')"

section \<open>What the macros compute\<close>

lemma and_not_mask: "x AND NOT (2 ^ k - 1) = push_bit k (drop_bit k (x :: u64))"
proof -
  have "x AND NOT (mask k) = push_bit k (drop_bit k x)"
    by (rule bit_eqI) (auto simp: bit_simps)
  then show ?thesis by (simp add: mask_eq_exp_minus_1)
qed

lemma unat_and_not_mask: "unat ((x :: u64) AND NOT (2 ^ k - 1)) = 2 ^ k * (unat x div 2 ^ k)"
proof -
  have "2 ^ k * (unat x div 2 ^ k) < 2 ^ LENGTH(64)"
    by (rule order.strict_trans1 [OF times_div_less_eq_dividend unat_bound])
  then have "take_bit LENGTH(64) (push_bit k (drop_bit k (unat x))) = 2 ^ k * (unat x div 2 ^ k)"
    by (simp only: push_bit_eq_mult drop_bit_eq_div mult.commute take_bit_nat_eq_self)
  then show ?thesis
    by (simp only: and_not_mask unsigned_push_bit_eq unsigned_drop_bit_eq take_bit_nat_eq_self unat_bound
        take_bit_of_nat)
qed

text \<open>Rounding down and up to a multiple of a power of two.\<close>

lemma TYPEALIGN_DOWN_nat: "unat (TYPEALIGN_DOWN (2 ^ k) x) = 2 ^ k * (unat x div 2 ^ k)"
  by (simp add: TYPEALIGN_DOWN_def unat_and_not_mask)

lemma TYPEALIGN_nat:
  assumes "k < 64" and "unat x + (2 ^ k - 1) < 2 ^ 64"
  shows "unat (TYPEALIGN (2 ^ k) x) = 2 ^ k * ((unat x + (2 ^ k - 1)) div 2 ^ k)"
proof -
  have "(2::nat) ^ k < 2 ^ LENGTH(64)" using assms(1) by (simp add: power_strict_increasing del: power_numeral)
  then have p: "unat ((2::u64) ^ k) = 2 ^ k" by (metis mod_less of_nat_numeral of_nat_power unat_of_nat)
  then have "(2::u64) ^ k \<noteq> 0" by (metis power_not_zero unsigned_0 zero_neq_numeral)
  then have "unat ((2::u64) ^ k - 1) = 2 ^ k - 1" using p by (simp add: unat_minus_one)
  then have "unat (x + (2 ^ k - 1)) = unat x + (2 ^ k - 1)"
    using assms(2) by (simp add: unat_word_ariths)
  then show ?thesis by (simp add: TYPEALIGN_def unat_and_not_mask)
qed


text \<open>An address lies in exactly one segment, and at an offset in it.\<close>

lemma in_segment_nat: "XLByteInSeg a s wss \<longleftrightarrow> unat a div unat wss = unat s"
  by (simp add: XLByteInSeg_def word_unat_eq_iff unat_div_distrib)

lemma in_segment_iff: "XLByteInSeg a s wss \<longleftrightarrow> s = XLByteToSeg a wss"
  by (auto simp: XLByteInSeg_def XLByteToSeg_def)

lemma in_prev_segment_iff: "XLByteInPrevSeg a s wss \<longleftrightarrow> s = XLByteToPrevSeg a wss"
  by (auto simp: XLByteInPrevSeg_def XLByteToPrevSeg_def)

lemma segment_offset_nat:
  assumes "IsValidWalSegSize wss"
  shows "unat (XLogSegmentOffset a wss) = unat a mod unat wss"
proof -
  obtain k where k: "unat wss = 2 ^ k" using valid_seg_size_power [OF assms] .
  have "unat (wss - 1) = 2 ^ k - 1"
    using valid_seg_size_bounds(1) [OF assms] by (subst unat_minus_one) (auto simp flip: k)
  then have "unat (XLogSegmentOffset a wss) = unat a AND mask k"
    by (simp add: XLogSegmentOffset_def unsigned_and_eq mask_eq_exp_minus_1)
  then show ?thesis by (simp add: k take_bit_eq_mod flip: take_bit_eq_mask)
qed

lemma segment_and_offset:
  assumes "IsValidWalSegSize wss"
  shows "XLogSegNoOffsetToRecPtr (XLByteToSeg a wss) (XLogSegmentOffset a wss) wss = a"
proof -
  have "XLogSegmentOffset a wss = a mod wss"
    by (simp add: word_unat_eq_iff segment_offset_nat [OF assms] unat_mod_distrib)
  then show ?thesis by (simp add: XLogSegNoOffsetToRecPtr_def XLByteToSeg_def word_mod_div_equality)
qed

text \<open>Only on a boundary is the previous byte in another segment.\<close>

lemma prev_segment:
  assumes "IsValidWalSegSize wss" and "a \<noteq> 0"
  shows "unat (XLByteToPrevSeg a wss)
     = (if XLogSegmentOffset a wss = 0 then unat (XLByteToSeg a wss) - 1 else unat (XLByteToSeg a wss))"
proof -
  have w: "0 < unat wss" using valid_seg_size_bounds [OF assms(1)] by blast
  have "unat (a - 1) = unat a - 1" and "0 < unat a" using assms(2) by (simp_all add: unat_minus_one unat_gt_0)
  then have "(unat a - 1) div unat wss = (if unat a mod unat wss = 0 then unat a div unat wss - 1 else unat a div unat wss)"
    using w div_Suc [of "unat a - 1" "unat wss"] by (auto split: if_splits)
  with \<open>unat (a - 1) = unat a - 1\<close> show ?thesis
    by (simp add: XLByteToPrevSeg_def unat_div_distrib unat_byte_to_seg word_unat_eq_iff segment_offset_nat [OF assms(1)])
qed

lemma mb_to_segs:
  assumes "IsValidWalSegSize wss"
  shows "unat (XLogMBVarToSegs mb wss) = unat mb * 2 ^ 20 div unat wss"
proof -
  obtain k where k: "unat wss = 2 ^ k" "20 \<le> k" using valid_seg_size_power [OF assms] .
  have "(2::nat) ^ k = 2 ^ 20 * 2 ^ (k - 20)" using k(2) by (simp only: flip: power_add) simp
  then have "unat mb div (2 ^ k div 2 ^ 20) = unat mb * 2 ^ 20 div 2 ^ k" by simp
  moreover have "unat (1024 * 1024 :: u64) = 2 ^ 20" by simp
  ultimately show ?thesis by (simp only: XLogMBVarToSegs_def unat_div_distrib k(1))
qed


section \<open>What the names are\<close>

lemma names_not_cut:
  "XLogFileNameById tli log seg = hex8 tli @ hex8 log @ hex8 seg"
  "TLHistoryFileName tli = hex8 tli @ ''.history''"
  "XLogFilePath tli s wss = ''pg_wal/'' @ XLogFileName tli s wss"
  "TLHistoryFilePath tli = ''pg_wal/'' @ TLHistoryFileName tli"
  "BackupHistoryFileName tli s a wss
     = XLogFileName tli s wss @ ''.'' @ hex8 (ucast (XLogSegmentOffset a wss)) @ ''.backup''"
  "BackupHistoryFilePath tli s a wss = ''pg_wal/'' @ BackupHistoryFileName tli s a wss"
  by (simp_all add: XLogFileNameById_def TLHistoryFileName_def XLogFilePath_def TLHistoryFilePath_def
      BackupHistoryFileName_def BackupHistoryFilePath_def XLogFileName_parts snprintf_def)

text \<open>How many of the leading characters are hexadecimal digits.\<close>

lemma strspn_hex_append:
  assumes "set xs \<subseteq> set hexchars" and "c \<notin> set hexchars"
  shows "strspn_hex (xs @ c # cs) = length xs"
  using assms by (subst takeWhile_append2) auto

lemma dot_no_digit: "CHR ''.'' \<notin> set hexchars"
  by (simp add: hexchars_def)

lemma set_XLogFileName: "set (XLogFileName tli s wss) \<subseteq> set hexchars"
  using IsXLogFileName_XLogFileName by (simp add: IsXLogFileName_iff del: IsXLogFileName_XLogFileName)

text \<open>A name with a suffix after a point, and what the four functions say of it.\<close>

lemma dotted_name:
  assumes "set xs \<subseteq> set hexchars"
  shows "IsXLogFileName (xs @ CHR ''.'' # cs) \<longleftrightarrow> False"
    and "IsPartialXLogFileName (xs @ CHR ''.'' # cs) \<longleftrightarrow> length xs = 24 \<and> cs = ''partial''"
    and "IsTLHistoryFileName (xs @ CHR ''.'' # cs) \<longleftrightarrow> length xs = 8 \<and> cs = ''history''"
    and "IsBackupHistoryFileName (xs @ CHR ''.'' # cs) \<longleftrightarrow>
      length xs = 24 \<and> drop (length cs - 6) (CHR ''.'' # cs) = ''.backup''"
proof -
  note n = strspn_hex_append [OF assms dot_no_digit, of cs]
  show "IsXLogFileName (xs @ CHR ''.'' # cs) \<longleftrightarrow> False"
    using dot_no_digit by (auto simp: IsXLogFileName_iff)
  show "IsPartialXLogFileName (xs @ CHR ''.'' # cs) \<longleftrightarrow> length xs = 24 \<and> cs = ''partial''"
    by (auto simp: IsPartialXLogFileName_def n strcmp_0_iff)
  show "IsTLHistoryFileName (xs @ CHR ''.'' # cs) \<longleftrightarrow> length xs = 8 \<and> cs = ''history''"
    by (auto simp: IsTLHistoryFileName_def n strcmp_0_iff)
  show "IsBackupHistoryFileName (xs @ CHR ''.'' # cs) \<longleftrightarrow>
      length xs = 24 \<and> drop (length cs - 6) (CHR ''.'' # cs) = ''.backup''"
  proof -
    have "drop k xs @ ds = ''.backup'' \<longleftrightarrow> drop k xs = [] \<and> ds = ''.backup''" for k ds
    proof (cases "drop k xs")
      case (Cons d _)
      then have "d \<in> set xs" by (metis in_set_dropD list.set_intros(1))
      with assms dot_no_digit have "d \<noteq> CHR ''.''" by auto
      with Cons show ?thesis by simp
    qed simp
    moreover have "6 \<le> length cs" if "drop (length cs - 6) (CHR ''.'' # cs) = ''.backup''"
      using arg_cong [OF that, of length] by simp
    moreover have "IsBackupHistoryFileName (xs @ CHR ''.'' # cs) \<longleftrightarrow> length xs = 24 \<and>
        drop (18 + length cs) xs @ drop (length cs - 6) (CHR ''.'' # cs) = ''.backup''"
    proof (cases "length xs = 24")
      case True
      then have "length (xs @ CHR ''.'' # cs) - length ''.backup'' = 18 + length cs" by simp
      with True show ?thesis unfolding IsBackupHistoryFileName_def n strcmp_0_iff by (simp only:) simp
    qed (simp add: IsBackupHistoryFileName_def n)
    ultimately show ?thesis by fastforce
  qed
qed


text \<open>No two of the recognisers accept one name.\<close>

lemma recognisers_exclusive:
  "IsXLogFileName s \<Longrightarrow> \<not> IsPartialXLogFileName s \<and> \<not> IsTLHistoryFileName s \<and> \<not> IsBackupHistoryFileName s"
  "IsPartialXLogFileName s \<Longrightarrow> \<not> IsTLHistoryFileName s \<and> \<not> IsBackupHistoryFileName s"
  "IsTLHistoryFileName s \<Longrightarrow> \<not> IsBackupHistoryFileName s"
proof -
  show "IsXLogFileName s \<Longrightarrow> \<not> IsPartialXLogFileName s \<and> \<not> IsTLHistoryFileName s \<and> \<not> IsBackupHistoryFileName s"
    "IsTLHistoryFileName s \<Longrightarrow> \<not> IsBackupHistoryFileName s"
    by (auto simp: IsXLogFileName_def IsPartialXLogFileName_def IsTLHistoryFileName_def IsBackupHistoryFileName_def)
  assume p: "IsPartialXLogFileName s"
  then have "length s = 32" and d: "drop 24 s = ''.partial''"
    by (simp_all add: IsPartialXLogFileName_def strcmp_0_iff)
  moreover have "drop 25 s = drop 1 (drop 24 s)" by simp
  ultimately have "drop (length s - 7) s = ''partial''" by (simp only: d) simp
  with p show "\<not> IsTLHistoryFileName s \<and> \<not> IsBackupHistoryFileName s"
    by (auto simp: IsPartialXLogFileName_def IsTLHistoryFileName_def IsBackupHistoryFileName_def strcmp_0_iff)
qed

lemma partial_name_iff: "IsPartialXLogFileName s \<longleftrightarrow> (\<exists>seg. IsXLogFileName seg \<and> s = seg @ ''.partial'')"
proof
  assume "IsPartialXLogFileName s"
  then have "length s = 32" "strspn_hex s = 24" "drop 24 s = ''.partial''"
    by (simp_all add: IsPartialXLogFileName_def strcmp_0_iff)
  moreover from this(2) have "set (take 24 s) \<subseteq> set hexchars"
    by (metis set_takeWhileD subsetI takeWhile_eq_take)
  ultimately have "IsXLogFileName (take 24 s)" and "s = take 24 s @ ''.partial''"
    using append_take_drop_id [of 24 s] by (simp_all add: IsXLogFileName_iff)
  then show "\<exists>seg. IsXLogFileName seg \<and> s = seg @ ''.partial''" by blast
qed (auto simp: IsXLogFileName_iff dotted_name)

section \<open>Properties\<close>

text \<open>What the four recognisers say of a name.\<close>

definition name_kinds :: "string \<Rightarrow> bool list" where
  "name_kinds s = [IsXLogFileName s, IsPartialXLogFileName s, IsTLHistoryFileName s, IsBackupHistoryFileName s]"

text \<open>The names of the WAL directory cannot be confused: of the four recognisers each accepts its own
  kind of name, whatever the numbers in it are, a name that one accepts no other accepts, and the
  names of partial segments are exactly segment names with the suffix.\<close>

theorem wal_file_names_distinct:
  "name_kinds (XLogFileName tli s wss) = [True, False, False, False] \<and>
   name_kinds (XLogFileName tli s wss @ ''.partial'') = [False, True, False, False] \<and>
   name_kinds (TLHistoryFileName tli) = [False, False, True, False] \<and>
   name_kinds (BackupHistoryFileName tli s a wss) = [False, False, False, True] \<and>
   length (filter id (name_kinds fname)) \<le> 1 \<and>
   IsPartialXLogFileName fname = (\<exists>seg. IsXLogFileName seg \<and> fname = seg @ ''.partial'')"
proof (intro conjI)
  let ?seg = "XLogFileName tli s wss"
  have "strspn_hex ?seg = 24"
    using IsXLogFileName_XLogFileName [of tli s wss] unfolding IsXLogFileName_def by blast
  then show "name_kinds ?seg = [True, False, False, False]"
    by (simp add: name_kinds_def IsPartialXLogFileName_def IsTLHistoryFileName_def IsBackupHistoryFileName_def)
  show "name_kinds (?seg @ ''.partial'') = [False, True, False, False]"
    by (simp add: name_kinds_def dotted_name [OF set_XLogFileName])
  show "name_kinds (TLHistoryFileName tli) = [False, False, True, False]"
    by (simp add: name_kinds_def names_not_cut dotted_name [OF set_hex8])
  show "name_kinds (BackupHistoryFileName tli s a wss) = [False, False, False, True]"
    by (simp add: name_kinds_def names_not_cut dotted_name [OF set_XLogFileName])
  show "length (filter id (name_kinds fname)) \<le> 1"
    using recognisers_exclusive [of fname] by (auto simp: name_kinds_def)
  show "IsPartialXLogFileName fname = (\<exists>seg. IsXLogFileName seg \<and> fname = seg @ ''.partial'')"
    by (rule partial_name_iff)
qed

text \<open>Addresses around a segment boundary, as numbers: every address is its segment times the size plus
  its offset; it is in the segment whose range holds it; as the end of something it counts to the
  segment before when it lies on a boundary, except for 0, where the subtraction wraps around to
  the last segment there is.\<close>

theorem segment_boundaries:
  assumes "IsValidWalSegSize wss"
  shows "XLogSegNoOffsetToRecPtr (XLByteToSeg a wss) (XLogSegmentOffset a wss) wss = a \<and>
    (XLByteInSeg a s wss \<longleftrightarrow> unat s * unat wss \<le> unat a \<and> unat a < (unat s + 1) * unat wss) \<and>
    (XLByteInPrevSeg a s wss \<longleftrightarrow>
       (if a = 0 then unat s = (2 ^ 64 - 1) div unat wss
        else unat s * unat wss < unat a \<and> unat a \<le> (unat s + 1) * unat wss))"
proof (intro conjI)
  have w: "0 < unat wss" using valid_seg_size_bounds [OF assms] by blast
  have between: "n div unat wss = k \<longleftrightarrow> k * unat wss \<le> n \<and> n < (k + 1) * unat wss" for n k
  proof
    assume "n div unat wss = k"
    then show "k * unat wss \<le> n \<and> n < (k + 1) * unat wss"
      using dividend_less_div_times [OF w, of n] by auto
  next
    assume "k * unat wss \<le> n \<and> n < (k + 1) * unat wss"
    then show "n div unat wss = k" by (intro div_nat_eqI) (simp_all add: mult.commute)
  qed
  show "XLogSegNoOffsetToRecPtr (XLByteToSeg a wss) (XLogSegmentOffset a wss) wss = a"
    by (rule segment_and_offset [OF assms])
  show "XLByteInSeg a s wss \<longleftrightarrow> unat s * unat wss \<le> unat a \<and> unat a < (unat s + 1) * unat wss"
    by (simp only: in_segment_nat between)
  have prev: "XLByteInPrevSeg a s wss \<longleftrightarrow> unat (a - 1) div unat wss = unat s"
    by (simp add: XLByteInPrevSeg_def word_unat_eq_iff unat_div_distrib)
  show "XLByteInPrevSeg a s wss \<longleftrightarrow>
       (if a = 0 then unat s = (2 ^ 64 - 1) div unat wss
        else unat s * unat wss < unat a \<and> unat a \<le> (unat s + 1) * unat wss)"
  proof (cases "a = 0")
    case True
    then show ?thesis unfolding prev by (auto simp: unsigned_minus_1_eq_mask mask_eq_exp_minus_1)
  next
    case False
    then have "unat (a - 1) = unat a - 1" "0 < unat a" by (simp_all add: unat_minus_one unat_gt_0)
    with False show ?thesis unfolding prev between by auto
  qed
qed

theorem segment_boundaries_witness:
  "XLByteInSeg 0x3000000 3 0x1000000 \<and> XLByteInPrevSeg 0x3000000 2 0x1000000 \<and> XLByteInPrevSeg 0 0xFFFFFFFFFF 0x1000000"
proof -
  note b = segment_boundaries [OF wss_16MB]
  show ?thesis using b [of "0x3000000" 3] b [of "0x3000000" 2] b [of 0 "0xFFFFFFFFFF"] by simp
qed

text \<open>The alignment macros round to the multiples of a power of two, up and down.\<close>

theorem alignment_rounds:
  assumes "k < 64" and "unat len + 2 ^ k \<le> 2 ^ 64"
  shows "2 ^ k dvd unat (TYPEALIGN (2 ^ k) len) \<and> unat len \<le> unat (TYPEALIGN (2 ^ k) len) \<and>
    unat (TYPEALIGN (2 ^ k) len) < unat len + 2 ^ k \<and>
    2 ^ k dvd unat (TYPEALIGN_DOWN (2 ^ k) len) \<and> unat (TYPEALIGN_DOWN (2 ^ k) len) \<le> unat len \<and>
    unat len < unat (TYPEALIGN_DOWN (2 ^ k) len) + 2 ^ k"
proof -
  let ?p = "2 ^ k :: nat"
  have p: "0 < ?p" by simp
  have up: "unat (TYPEALIGN (2 ^ k) len) = ?p * ((unat len + (?p - 1)) div ?p)"
    using assms p by (intro TYPEALIGN_nat) linarith+
  have "?p * ((unat len + (?p - 1)) div ?p) + (unat len + (?p - 1)) mod ?p = unat len + (?p - 1)"
    and "?p * (unat len div ?p) + unat len mod ?p = unat len" by simp_all
  moreover have "(unat len + (?p - 1)) mod ?p < ?p" and "unat len mod ?p < ?p" using p by simp_all
  ultimately show ?thesis
    unfolding up TYPEALIGN_DOWN_nat using p by (intro conjI dvd_triv_left) linarith+
qed

theorem alignment_rounds_witness: "unat (TYPEALIGN (2 ^ 3) 20) < 20 + 8 \<and> MAXALIGN 20 = 24"
  using alignment_rounds [of 3 20] by (simp add: MAXALIGN_def TYPEALIGN_def)

end
