(* ===== verification/Datums.thy ===== *)
theory Datums
  imports Prelude
begin

text \<open>
  \<open>Datum\<close> of \<open>postgres.h\<close>: the 64-bit value as which the server passes arguments and results of every
  type, and the inline functions by which the SQL functions of the extension convert them.  Types of
  at most 8 bytes are passed by value, on the 64-bit platform of the build (\<open>USE_FLOAT8_BYVAL\<close>);
  signed types are extended with their sign and unsigned ones with zeros.  A floating-point number is
  its bits, and a pointer its address.  Every pair of conversions satisfies one contract, the locale
  \<open>datum_type\<close>: what is put in is got back, and so equal datums are equal values.
\<close>

section \<open>Conversions\<close>

type_synonym Datum = u64

record NullableDatum =
  nd_value :: Datum
  nd_isnull :: bool

definition DatumGetBool :: "Datum \<Rightarrow> bool" where
  "DatumGetBool X \<longleftrightarrow> X \<noteq> 0"

definition BoolGetDatum :: "bool \<Rightarrow> Datum" where
  "BoolGetDatum X = (if X then 1 else 0)"

definition DatumGetChar :: "Datum \<Rightarrow> 8 word" where
  "DatumGetChar X = ucast X"

definition CharGetDatum :: "8 word \<Rightarrow> Datum" where
  "CharGetDatum X = scast X"

definition DatumGetUInt8 :: "Datum \<Rightarrow> 8 word" where
  "DatumGetUInt8 X = ucast X"

definition UInt8GetDatum :: "8 word \<Rightarrow> Datum" where
  "UInt8GetDatum X = ucast X"

definition DatumGetInt16 :: "Datum \<Rightarrow> 16 word" where
  "DatumGetInt16 X = ucast X"

definition Int16GetDatum :: "16 word \<Rightarrow> Datum" where
  "Int16GetDatum X = scast X"

definition DatumGetUInt16 :: "Datum \<Rightarrow> 16 word" where
  "DatumGetUInt16 X = ucast X"

definition UInt16GetDatum :: "16 word \<Rightarrow> Datum" where
  "UInt16GetDatum X = ucast X"

definition DatumGetInt32 :: "Datum \<Rightarrow> i32" where
  "DatumGetInt32 X = ucast X"

definition Int32GetDatum :: "i32 \<Rightarrow> Datum" where
  "Int32GetDatum X = scast X"

definition DatumGetUInt32 :: "Datum \<Rightarrow> u32" where
  "DatumGetUInt32 X = ucast X"

definition UInt32GetDatum :: "u32 \<Rightarrow> Datum" where
  "UInt32GetDatum X = ucast X"

definition DatumGetObjectId :: "Datum \<Rightarrow> oid" where
  "DatumGetObjectId X = ucast X"

definition ObjectIdGetDatum :: "oid \<Rightarrow> Datum" where
  "ObjectIdGetDatum X = ucast X"

definition DatumGetTransactionId :: "Datum \<Rightarrow> u32" where
  "DatumGetTransactionId X = ucast X"

definition TransactionIdGetDatum :: "u32 \<Rightarrow> Datum" where
  "TransactionIdGetDatum X = ucast X"

definition DatumGetCommandId :: "Datum \<Rightarrow> u32" where
  "DatumGetCommandId X = ucast X"

definition CommandIdGetDatum :: "u32 \<Rightarrow> Datum" where
  "CommandIdGetDatum X = ucast X"

definition Int8GetDatum :: "8 word \<Rightarrow> Datum" where
  "Int8GetDatum X = scast X"

definition MultiXactIdGetDatum :: "u32 \<Rightarrow> Datum" where
  "MultiXactIdGetDatum X = ucast X"

definition DatumGetPointer :: "Datum \<Rightarrow> u64" where
  "DatumGetPointer X = X"

definition PointerGetDatum :: "u64 \<Rightarrow> Datum" where
  "PointerGetDatum X = X"

definition DatumGetCString :: "Datum \<Rightarrow> u64" where
  "DatumGetCString X = DatumGetPointer X"

definition CStringGetDatum :: "u64 \<Rightarrow> Datum" where
  "CStringGetDatum X = PointerGetDatum X"

definition DatumGetName :: "Datum \<Rightarrow> u64" where
  "DatumGetName X = DatumGetPointer X"

text \<open>The characters of a name are the first field of its struct, at the same address.\<close>

definition NameGetDatum :: "u64 \<Rightarrow> Datum" where
  "NameGetDatum X = CStringGetDatum X"

definition DatumGetInt64 :: "Datum \<Rightarrow> i64" where
  "DatumGetInt64 X = X"

definition Int64GetDatum :: "i64 \<Rightarrow> Datum" where
  "Int64GetDatum X = X"

definition DatumGetUInt64 :: "Datum \<Rightarrow> u64" where
  "DatumGetUInt64 X = X"

definition UInt64GetDatum :: "u64 \<Rightarrow> Datum" where
  "UInt64GetDatum X = X"

definition DatumGetFloat4 :: "Datum \<Rightarrow> 32 word" where
  "DatumGetFloat4 X = (let value = DatumGetInt32 X in value)"

definition Float4GetDatum :: "32 word \<Rightarrow> Datum" where
  "Float4GetDatum X = (let retval = X in Int32GetDatum retval)"

definition DatumGetFloat8 :: "Datum \<Rightarrow> 64 word" where
  "DatumGetFloat8 X = (let value = DatumGetInt64 X in value)"

definition Float8GetDatum :: "64 word \<Rightarrow> Datum" where
  "Float8GetDatum X = (let retval = X in Int64GetDatum retval)"

section \<open>The contract of a type\<close>

locale datum_type =
  fixes to_datum :: "'a \<Rightarrow> Datum" and of_datum :: "Datum \<Rightarrow> 'a"
  assumes get_put: "of_datum (to_datum x) = x"
begin

lemma put_eq_iff: "to_datum x = to_datum y \<longleftrightarrow> x = y"
  using get_put by metis

lemma get_all_put_all: "map of_datum (map to_datum xs) = xs"
  by (simp add: get_put comp_def map_idI)

end

lemma uint_widened:
  fixes x :: "'a::len word"
  assumes "LENGTH('a) \<le> 64"
  shows "uint (ucast x :: 64 word) = uint x"
proof -
  have "(2::int) ^ LENGTH('a) \<le> 2 ^ 64" using assms by (intro power_increasing) auto
  then have "uint x < 2 ^ 64" using uint_lt2p [of x] by linarith
  then show ?thesis by (simp add: unsigned_ucast_eq take_bit_int_eq_self)
qed

lemma ucast_widened:
  fixes x :: "'a::len word"
  assumes "LENGTH('a) \<le> 64"
  shows "ucast (ucast x :: 64 word) = x" and "ucast (scast x :: 64 word) = x"
proof -
  show "ucast (ucast x :: 64 word) = x"
  proof (rule word_uint_eqI)
    have "uint (ucast (ucast x :: 64 word) :: 'a word) = take_bit LENGTH('a) (uint (ucast x :: 64 word))"
      by (rule unsigned_ucast_eq)
    then show "uint (ucast (ucast x :: 64 word) :: 'a word) = uint x" 
      by (simp only: uint_widened [OF assms] take_bit_int_eq_self uint_ge_0 uint_lt2p)
  qed
  show "ucast (scast x :: 64 word) = x"
  proof (rule word_uint_eqI)
    have "sint (scast x :: 64 word) = sint x" using assms by (intro sint_up_scast) (simp add: is_up)
    then have "uint (scast x :: 64 word) = take_bit 64 (sint x)" by (subst uint_sint) simp
    moreover have "uint (ucast (scast x :: 64 word) :: 'a word) = take_bit LENGTH('a) (uint (scast x :: 64 word))"
      by (rule unsigned_ucast_eq)
    ultimately show "uint (ucast (scast x :: 64 word) :: 'a word) = uint x"
      by (simp only: take_bit_take_bit min_absorb1 [OF assms] uint_sint [of x])
  qed
qed

interpretation bool_datum: datum_type BoolGetDatum DatumGetBool
  by unfold_locales (simp add: BoolGetDatum_def DatumGetBool_def)

interpretation char_datum: datum_type CharGetDatum DatumGetChar
  by unfold_locales (simp add: CharGetDatum_def DatumGetChar_def ucast_widened)

interpretation uint8_datum: datum_type UInt8GetDatum DatumGetUInt8
  by unfold_locales (simp add: UInt8GetDatum_def DatumGetUInt8_def ucast_widened)

interpretation int16_datum: datum_type Int16GetDatum DatumGetInt16
  by unfold_locales (simp add: Int16GetDatum_def DatumGetInt16_def ucast_widened)

interpretation uint16_datum: datum_type UInt16GetDatum DatumGetUInt16
  by unfold_locales (simp add: UInt16GetDatum_def DatumGetUInt16_def ucast_widened)

interpretation int32_datum: datum_type Int32GetDatum DatumGetInt32
  by unfold_locales (simp add: Int32GetDatum_def DatumGetInt32_def ucast_widened)

interpretation uint32_datum: datum_type UInt32GetDatum DatumGetUInt32
  by unfold_locales (simp add: UInt32GetDatum_def DatumGetUInt32_def ucast_widened)

interpretation objectid_datum: datum_type ObjectIdGetDatum DatumGetObjectId
  by unfold_locales (simp add: ObjectIdGetDatum_def DatumGetObjectId_def ucast_widened)

interpretation transactionid_datum: datum_type TransactionIdGetDatum DatumGetTransactionId
  by unfold_locales (simp add: TransactionIdGetDatum_def DatumGetTransactionId_def ucast_widened)

interpretation commandid_datum: datum_type CommandIdGetDatum DatumGetCommandId
  by unfold_locales (simp add: CommandIdGetDatum_def DatumGetCommandId_def ucast_widened)

interpretation pointer_datum: datum_type PointerGetDatum DatumGetPointer
  by unfold_locales (simp add: PointerGetDatum_def DatumGetPointer_def)

interpretation cstring_datum: datum_type CStringGetDatum DatumGetCString
  by unfold_locales (simp add: CStringGetDatum_def DatumGetCString_def PointerGetDatum_def DatumGetPointer_def)

interpretation name_datum: datum_type NameGetDatum DatumGetName
  by unfold_locales (simp add: NameGetDatum_def DatumGetName_def CStringGetDatum_def PointerGetDatum_def DatumGetPointer_def)

interpretation int64_datum: datum_type Int64GetDatum DatumGetInt64
  by unfold_locales (simp add: Int64GetDatum_def DatumGetInt64_def)

interpretation uint64_datum: datum_type UInt64GetDatum DatumGetUInt64
  by unfold_locales (simp add: UInt64GetDatum_def DatumGetUInt64_def)

interpretation float4_datum: datum_type Float4GetDatum DatumGetFloat4
  by unfold_locales (simp add: Float4GetDatum_def DatumGetFloat4_def int32_datum.get_put)

interpretation float8_datum: datum_type Float8GetDatum DatumGetFloat8
  by unfold_locales (simp add: Float8GetDatum_def DatumGetFloat8_def Int64GetDatum_def DatumGetInt64_def)

section \<open>Properties\<close>

text \<open>Arguments and results arrive as they were sent: for every type, the value got from a datum is the
  value that was put in.\<close>

theorem datum_roundtrip:
  "DatumGetBool (BoolGetDatum b) = b \<and>
   DatumGetChar (CharGetDatum c0) = c0 \<and>
   DatumGetUInt8 (UInt8GetDatum u1) = u1 \<and>
   DatumGetInt16 (Int16GetDatum i2) = i2 \<and>
   DatumGetUInt16 (UInt16GetDatum u3) = u3 \<and>
   DatumGetInt32 (Int32GetDatum i4) = i4 \<and>
   DatumGetUInt32 (UInt32GetDatum u5) = u5 \<and>
   DatumGetObjectId (ObjectIdGetDatum o6) = o6 \<and>
   DatumGetTransactionId (TransactionIdGetDatum t7) = t7 \<and>
   DatumGetCommandId (CommandIdGetDatum c8) = c8 \<and>
   DatumGetPointer (PointerGetDatum p) = p \<and>
   DatumGetCString (CStringGetDatum s) = s \<and>
   DatumGetName (NameGetDatum nm) = nm \<and>
   DatumGetInt64 (Int64GetDatum i64) = i64 \<and>
   DatumGetUInt64 (UInt64GetDatum u64) = u64 \<and>
   DatumGetFloat4 (Float4GetDatum f4) = f4 \<and>
   DatumGetFloat8 (Float8GetDatum f8) = f8"
  by (simp add: bool_datum.get_put char_datum.get_put uint8_datum.get_put int16_datum.get_put uint16_datum.get_put int32_datum.get_put uint32_datum.get_put objectid_datum.get_put transactionid_datum.get_put commandid_datum.get_put pointer_datum.get_put cstring_datum.get_put name_datum.get_put int64_datum.get_put uint64_datum.get_put float4_datum.get_put float8_datum.get_put)

text \<open>The datum of a signed type is the number itself as a 64-bit signed integer, that of an unsigned type
  as an unsigned one, so datums compare as their values do; the datum of a negative integer is not
  that of the object identifier with the same bits, though both read back as it.\<close>

theorem datum_extends:
  "sint (Int16GetDatum i) = sint i \<and> sint (Int32GetDatum j) = sint j \<and>
   uint (UInt16GetDatum u) = uint u \<and> uint (UInt32GetDatum v) = uint v \<and> uint (ObjectIdGetDatum q) = uint q \<and>
   (Int32GetDatum j = ObjectIdGetDatum j) = (0 \<le> sint j) \<and> DatumGetObjectId (Int32GetDatum j) = j"
proof -
  have s: "sint (scast x :: 64 word) = sint x" if "LENGTH('a) \<le> 64" for x :: "'a::len word"
    using that by (intro sint_up_scast) (simp add: is_up)
  have "Int32GetDatum j = ObjectIdGetDatum j \<longleftrightarrow> 0 \<le> sint j"
  proof
    assume "Int32GetDatum j = ObjectIdGetDatum j"
    then have "sint (ucast j :: 64 word) = sint j" using s [of j] by (simp add: Int32GetDatum_def ObjectIdGetDatum_def)
    moreover have "sint (ucast j :: 64 word) = uint j"
    proof -
      have "uint j < 2 ^ 32" using uint_lt2p [of j] by simp
      then have "uint j < 2 ^ 63" by (rule order.strict_trans2) simp
      moreover have "- (2 ^ 63) \<le> uint j" by (rule order.trans [OF _ uint_ge_0]) simp
      ultimately have "signed_take_bit 63 (uint j) = uint j" by (intro signed_take_bit_int_eq_self) simp_all
      then show ?thesis by (simp add: signed_ucast_eq)
    qed
    ultimately show "0 \<le> sint j" by (metis uint_ge_0)
  next
    assume "0 \<le> sint j"
    moreover have "sint j < 2 ^ 32" using sint_lt [of j] by simp
    ultimately have "uint j = sint j" by (simp add: uint_sint take_bit_int_eq_self)
    moreover have "uint (scast j :: 64 word) = take_bit 64 (sint j)" by (subst uint_sint) (simp add: s)
    moreover have "uint (ucast j :: 64 word) = take_bit 64 (uint j)" by (simp add: unsigned_ucast_eq)
    ultimately show "Int32GetDatum j = ObjectIdGetDatum j"
      unfolding Int32GetDatum_def ObjectIdGetDatum_def by (intro word_uint_eqI) (simp only:)
  qed
  moreover have "DatumGetObjectId (Int32GetDatum j) = j"
    by (simp add: DatumGetObjectId_def Int32GetDatum_def ucast_widened)
  ultimately show ?thesis
    by (simp add: s uint_widened Int16GetDatum_def Int32GetDatum_def UInt16GetDatum_def UInt32GetDatum_def ObjectIdGetDatum_def)
qed

end
