(* ===== verification/Ilist.thy ===== *)
theory Ilist
  imports Prelude
begin

text \<open>
  The intrusive linked lists of \<open>lib/ilist.h\<close>: doubly linked circular lists, the same with a count,
  and singly linked lists.  Memory is a function from addresses to nodes, 0 is the null pointer, and
  a list head is the node at its own address, so that the code's branch-free pointer updates act on
  heads and members alike.  A list is abstracted to the addresses of its members.  The lemmas show
  that every operation does on the ring of pointers what it promises on the list, that the loops
  visit the members in order, and that both kinds of lists with two ends are queues.
\<close>

section \<open>Doubly linked lists\<close>

type_synonym addr = u64

abbreviation NULL :: addr where
  "NULL \<equiv> 0"

record dlist_node =
  nprev :: addr
  nnext :: addr

type_synonym dheap = "addr \<Rightarrow> dlist_node"

abbreviation set_next :: "addr \<Rightarrow> addr \<Rightarrow> dheap \<Rightarrow> dheap" where
  "set_next a v h \<equiv> h(a := (h a)\<lparr>nnext := v\<rparr>)"

abbreviation set_prev :: "addr \<Rightarrow> addr \<Rightarrow> dheap \<Rightarrow> dheap" where
  "set_prev a v h \<equiv> h(a := (h a)\<lparr>nprev := v\<rparr>)"

definition dlist_init :: "addr \<Rightarrow> dheap \<Rightarrow> dheap" where
  "dlist_init head h = set_next head head (set_prev head head h)"

definition dlist_node_init :: "addr \<Rightarrow> dheap \<Rightarrow> dheap" where
  "dlist_node_init node h = set_next node NULL (set_prev node NULL h)"

definition dlist_is_empty :: "dheap \<Rightarrow> addr \<Rightarrow> bool" where
  "dlist_is_empty h head \<longleftrightarrow> nnext (h head) = NULL \<or> nnext (h head) = head"

text \<open>A zeroed head is made circular before a node is pushed.\<close>

definition dlist_make_circular :: "addr \<Rightarrow> dheap \<Rightarrow> dheap" where
  "dlist_make_circular head h = (if nnext (h head) = NULL then dlist_init head h else h)"

definition dlist_push_head :: "addr \<Rightarrow> addr \<Rightarrow> dheap \<Rightarrow> dheap" where
  "dlist_push_head head node h =
     (let h0 = dlist_make_circular head h;
          h1 = set_next node (nnext (h0 head)) h0;
          h2 = set_prev node head h1;
          h3 = set_prev (nnext (h2 node)) node h2
      in set_next head node h3)"

definition dlist_push_tail :: "addr \<Rightarrow> addr \<Rightarrow> dheap \<Rightarrow> dheap" where
  "dlist_push_tail head node h =
     (let h0 = dlist_make_circular head h;
          h1 = set_next node head h0;
          h2 = set_prev node (nprev (h1 head)) h1;
          h3 = set_next (nprev (h2 node)) node h2
      in set_prev head node h3)"

definition dlist_insert_after :: "addr \<Rightarrow> addr \<Rightarrow> dheap \<Rightarrow> dheap" where
  "dlist_insert_after after node h =
     (let h1 = set_prev node after h;
          h2 = set_next node (nnext (h1 after)) h1;
          h3 = set_next after node h2
      in set_prev (nnext (h3 node)) node h3)"

definition dlist_insert_before :: "addr \<Rightarrow> addr \<Rightarrow> dheap \<Rightarrow> dheap" where
  "dlist_insert_before before node h =
     (let h1 = set_prev node (nprev (h before)) h;
          h2 = set_next node before h1;
          h3 = set_prev before node h2
      in set_next (nprev (h3 node)) node h3)"

definition dlist_delete :: "addr \<Rightarrow> dheap \<Rightarrow> dheap" where
  "dlist_delete node h =
     (let h1 = set_next (nprev (h node)) (nnext (h node)) h
      in set_prev (nnext (h1 node)) (nprev (h1 node)) h1)"

definition dlist_delete_thoroughly :: "addr \<Rightarrow> dheap \<Rightarrow> dheap" where
  "dlist_delete_thoroughly node h =
     (let h1 = set_next (nprev (h node)) (nnext (h node)) h;
          h2 = set_prev (nnext (h1 node)) (nprev (h1 node)) h1;
          h3 = set_next node NULL h2
      in set_prev node NULL h3)"

text \<open>The checks of the two variants with a head are compiled in only for debugging the lists.\<close>

definition dlist_delete_from :: "addr \<Rightarrow> addr \<Rightarrow> dheap \<Rightarrow> dheap" where
  "dlist_delete_from head node h = dlist_delete node h"

definition dlist_delete_from_thoroughly :: "addr \<Rightarrow> addr \<Rightarrow> dheap \<Rightarrow> dheap" where
  "dlist_delete_from_thoroughly head node h = dlist_delete_thoroughly node h"

definition dlist_pop_head_node :: "addr \<Rightarrow> dheap \<Rightarrow> addr \<times> dheap" where
  "dlist_pop_head_node head h = (let node = nnext (h head) in (node, dlist_delete node h))"

definition dlist_move_head :: "addr \<Rightarrow> addr \<Rightarrow> dheap \<Rightarrow> dheap" where
  "dlist_move_head head node h =
     (if nnext (h head) = node then h else dlist_push_head head node (dlist_delete node h))"

definition dlist_move_tail :: "addr \<Rightarrow> addr \<Rightarrow> dheap \<Rightarrow> dheap" where
  "dlist_move_tail head node h =
     (if nprev (h head) = node then h else dlist_push_tail head node (dlist_delete node h))"

definition dlist_has_next :: "dheap \<Rightarrow> addr \<Rightarrow> addr \<Rightarrow> bool" where
  "dlist_has_next h head node \<longleftrightarrow> nnext (h node) \<noteq> head"

definition dlist_has_prev :: "dheap \<Rightarrow> addr \<Rightarrow> addr \<Rightarrow> bool" where
  "dlist_has_prev h head node \<longleftrightarrow> nprev (h node) \<noteq> head"

definition dlist_node_is_detached :: "dheap \<Rightarrow> addr \<Rightarrow> bool" where
  "dlist_node_is_detached h node \<longleftrightarrow> nnext (h node) = NULL"

definition dlist_next_node :: "dheap \<Rightarrow> addr \<Rightarrow> addr \<Rightarrow> addr" where
  "dlist_next_node h head node = nnext (h node)"

definition dlist_prev_node :: "dheap \<Rightarrow> addr \<Rightarrow> addr \<Rightarrow> addr" where
  "dlist_prev_node h head node = nprev (h node)"

text \<open>The address of the struct around a node: the node's offset in it is subtracted.\<close>

definition dlist_head_element_off :: "dheap \<Rightarrow> addr \<Rightarrow> u64 \<Rightarrow> addr" where
  "dlist_head_element_off h head off = nnext (h head) - off"

definition dlist_head_node :: "dheap \<Rightarrow> addr \<Rightarrow> addr" where
  "dlist_head_node h head = dlist_head_element_off h head 0"

definition dlist_tail_element_off :: "dheap \<Rightarrow> addr \<Rightarrow> u64 \<Rightarrow> addr" where
  "dlist_tail_element_off h head off = nprev (h head) - off"

definition dlist_tail_node :: "dheap \<Rightarrow> addr \<Rightarrow> addr" where
  "dlist_tail_node h head = dlist_tail_element_off h head 0"

definition dlist_container :: "u64 \<Rightarrow> addr \<Rightarrow> addr" where
  "dlist_container offset ptr = ptr - offset"

text \<open>The loops: \<open>body\<close> acts on the program's state; the one that may modify the list deletes the
  current node where \<open>del\<close> says so and collects what it visited.\<close>

partial_function (option) dlist_foreach_loop ::
    "dheap \<Rightarrow> addr \<Rightarrow> addr \<Rightarrow> (addr \<Rightarrow> 's \<Rightarrow> 's) \<Rightarrow> 's \<Rightarrow> 's option" where
  "dlist_foreach_loop h stop cur body s =
     (if cur = stop then Some s else dlist_foreach_loop h stop (nnext (h cur)) body (body cur s))"

definition dlist_foreach :: "dheap \<Rightarrow> addr \<Rightarrow> (addr \<Rightarrow> 's \<Rightarrow> 's) \<Rightarrow> 's \<Rightarrow> 's option" where
  "dlist_foreach h head = dlist_foreach_loop h head (if nnext (h head) \<noteq> NULL then nnext (h head) else head)"

partial_function (option) dlist_reverse_loop ::
    "dheap \<Rightarrow> addr \<Rightarrow> addr \<Rightarrow> (addr \<Rightarrow> 's \<Rightarrow> 's) \<Rightarrow> 's \<Rightarrow> 's option" where
  "dlist_reverse_loop h stop cur body s =
     (if cur = stop then Some s else dlist_reverse_loop h stop (nprev (h cur)) body (body cur s))"

definition dlist_reverse_foreach :: "dheap \<Rightarrow> addr \<Rightarrow> (addr \<Rightarrow> 's \<Rightarrow> 's) \<Rightarrow> 's \<Rightarrow> 's option" where
  "dlist_reverse_foreach h head = dlist_reverse_loop h head (if nprev (h head) \<noteq> NULL then nprev (h head) else head)"

partial_function (option) dlist_modify_loop ::
    "addr \<Rightarrow> (addr \<Rightarrow> bool) \<Rightarrow> addr \<Rightarrow> addr \<Rightarrow> dheap \<Rightarrow> addr list \<Rightarrow> (addr list \<times> dheap) option" where
  "dlist_modify_loop stop del cur nxt h visited =
     (if cur = stop then Some (visited, h)
      else let h1 = (if del cur then dlist_delete cur h else h)
           in dlist_modify_loop stop del nxt (nnext (h1 nxt)) h1 (visited @ [cur]))"

definition dlist_foreach_modify :: "addr \<Rightarrow> (addr \<Rightarrow> bool) \<Rightarrow> dheap \<Rightarrow> (addr list \<times> dheap) option" where
  "dlist_foreach_modify head del h =
     (let cur = (if nnext (h head) \<noteq> NULL then nnext (h head) else head)
      in dlist_modify_loop head del cur (nnext (h cur)) h [])"

section \<open>Rings\<close>

text \<open>Neighbours in a sequence of addresses point at each other.\<close>

fun linked :: "dheap \<Rightarrow> addr list \<Rightarrow> bool" where
  "linked h (a # b # xs) \<longleftrightarrow> nnext (h a) = b \<and> nprev (h b) = a \<and> linked h (b # xs)"
| "linked h xs \<longleftrightarrow> True"

definition ring :: "dheap \<Rightarrow> addr \<Rightarrow> addr list \<Rightarrow> bool" where
  "ring h head xs \<longleftrightarrow> distinct (head # xs) \<and> NULL \<notin> set (head # xs) \<and> linked h (head # xs @ [head])"

text \<open>A list is a ring, or an empty list whose head was never more than zeroed.\<close>

definition dlist :: "dheap \<Rightarrow> addr \<Rightarrow> addr list \<Rightarrow> bool" where
  "dlist h head xs \<longleftrightarrow>
     ring h head xs \<or> xs = [] \<and> head \<noteq> NULL \<and> nnext (h head) = NULL \<and> nprev (h head) = NULL"

lemma linked_append:
  "xs \<noteq> [] \<Longrightarrow> ys \<noteq> [] \<Longrightarrow>
     linked h (xs @ ys) \<longleftrightarrow> linked h xs \<and> nnext (h (last xs)) = hd ys \<and> nprev (h (hd ys)) = last xs \<and> linked h ys"
proof (induction xs rule: induct_list012)
  case (2 a)
  then show ?case by (cases ys) auto
qed auto

lemma linked_cong:
  assumes "\<And>a. a \<in> set (butlast xs) \<Longrightarrow> nnext (h' a) = nnext (h a)"
    and "\<And>a. a \<in> set (tl xs) \<Longrightarrow> nprev (h' a) = nprev (h a)"
  shows "linked h' xs = linked h xs"
  using assms by (induction h xs rule: linked.induct) auto

text \<open>A ring is its members up to some point and the rest, which point at each other.\<close>

lemma ring_split:
  "ring h head (us @ vs) \<longleftrightarrow>
     distinct (head # us @ vs) \<and> NULL \<notin> set (head # us @ vs) \<and> linked h (head # us) \<and> linked h (vs @ [head]) \<and>
     nnext (h (last (head # us))) = hd (vs @ [head]) \<and> nprev (h (hd (vs @ [head]))) = last (head # us)"
proof -
  have "head # (us @ vs) @ [head] = (head # us) @ (vs @ [head])" by simp
  then show ?thesis unfolding ring_def using linked_append [of "head # us" "vs @ [head]" h] by auto
qed

text \<open>Any update of the two pointers around the cut, and of nodes outside, keeps the two parts.\<close>

lemma parts_cong:
  assumes "distinct (head # us @ vs)"
    and "\<And>x. x \<in> set (head # us @ vs) \<Longrightarrow> x \<noteq> last (head # us) \<Longrightarrow> nnext (h' x) = nnext (h x)"
    and "\<And>x. x \<in> set (head # us @ vs) \<Longrightarrow> x \<noteq> hd (vs @ [head]) \<Longrightarrow> nprev (h' x) = nprev (h x)"
  shows "linked h' (head # us) = linked h (head # us)" and "linked h' (vs @ [head]) = linked h (vs @ [head])"
proof -
  have "x \<noteq> last (head # us)" if "x \<in> set (butlast (head # us))" for x
    using that assms(1) by (metis append_butlast_last_id distinct_append distinct_butlast list.distinct(1)
        not_distinct_conv_prefix append_Cons)
  moreover have "x \<noteq> hd (vs @ [head])" if "x \<in> set us" for x
    using that assms(1) by (cases vs) auto
  ultimately show "linked h' (head # us) = linked h (head # us)"
    by (intro linked_cong assms(2,3)) (auto dest: in_set_butlastD simp del: last.simps butlast.simps)
  have "x \<noteq> last (head # us)" if "x \<in> set vs" for x
    using that assms(1) last_in_set [of "head # us"] by fastforce
  moreover have "x \<noteq> hd (vs @ [head])" if "x \<in> set (tl (vs @ [head]))" for x
    using that assms(1) by (cases vs) auto
  moreover have "x \<in> set (head # us @ vs)" if "x \<in> set (tl (vs @ [head]))" for x
    using that by (cases vs) auto
  ultimately show "linked h' (vs @ [head]) = linked h (vs @ [head])"
    by (intro linked_cong assms(2,3)) (auto simp del: last.simps)
qed


text \<open>Linking a node in at the cut, and unlinking it.\<close>

lemma ring_insert:
  assumes "ring h head (us @ vs)" and "n \<notin> set (head # us @ vs)" and "n \<noteq> NULL"
    and "a = last (head # us)" and "b = hd (vs @ [head])"
    and "\<And>x. nnext (h' x) = (if x = a then n else if x = n then b else nnext (h x))"
    and "\<And>x. nprev (h' x) = (if x = b then n else if x = n then a else nprev (h x))"
  shows "ring h' head (us @ n # vs)"
proof -
  have a: "a \<in> set (head # us)" unfolding assms(4) by (rule last_in_set) simp
  have b: "b \<in> set (vs @ [head])" using assms(5) by (metis append_is_Nil_conv hd_in_set list.distinct(1))
  have ne: "n \<noteq> a" "n \<noteq> b" using a b assms(2) by auto
  have d: "distinct (head # us @ vs)" and l: "linked h (head # us)" "linked h (vs @ [head])"
    using assms(1) by (auto simp: ring_split)
  have "nnext (h' x) = nnext (h x)" if "x \<in> set (head # us @ vs)" "x \<noteq> last (head # us)" for x
    using that assms(2) assms(6) [of x] unfolding assms(4) by metis
  moreover have "nprev (h' x) = nprev (h x)" if "x \<in> set (head # us @ vs)" "x \<noteq> hd (vs @ [head])" for x
    using that assms(2) assms(7) [of x] unfolding assms(5) by metis
  ultimately have l': "linked h' (head # us)" "linked h' (vs @ [head])"
    using parts_cong [OF d, of h' h] l by blast+
  have "linked h' ((n # vs) @ [head])"
    using l'(2) assms(5-7) ne by (cases vs) auto
  moreover have "nnext (h' a) = n" "nprev (h' n) = a" using assms(6) [of a] assms(7) [of n] ne by auto
  ultimately show ?thesis
    unfolding ring_split using l'(1) assms(2,3) d assms(1) unfolding assms(4) by (simp add: ring_def del: last.simps) blast
qed

lemma ring_remove:
  assumes "ring h head (us @ n # vs)" and "a = nprev (h n)" and "b = nnext (h n)"
    and "\<And>x. x \<noteq> n \<Longrightarrow> nnext (h' x) = (if x = a then b else nnext (h x))"
    and "\<And>x. x \<noteq> n \<Longrightarrow> nprev (h' x) = (if x = b then a else nprev (h x))"
  shows "ring h' head (us @ vs)"
proof -
  have r: "distinct (head # us @ n # vs)" "NULL \<notin> set (head # us @ n # vs)" "linked h (head # us)"
    "linked h (n # vs @ [head])" "nprev (h n) = last (head # us)"
    using assms(1) by (auto simp: ring_split)
  have a: "a = last (head # us)" using assms(2) r(5) by simp
  have b: "b = hd (vs @ [head])" and l: "linked h (vs @ [head])" using r(4) assms(3) by (cases vs; simp)+
  have "a \<in> set (head # us)" unfolding a by (rule last_in_set) simp
  moreover have "b \<in> set (vs @ [head])" unfolding b by (rule hd_in_set) simp
  ultimately have ne: "n \<noteq> a" "n \<noteq> b" using r(1) by auto
  have d: "distinct (head # us @ vs)" using r(1) by simp
  have n: "x \<noteq> n" if "x \<in> set (head # us @ vs)" for x using that r(1) by auto
  have "nnext (h' x) = nnext (h x)" if "x \<in> set (head # us @ vs)" "x \<noteq> last (head # us)" for x
    using that n [OF that(1)] assms(4) [of x] unfolding a by metis
  moreover have "nprev (h' x) = nprev (h x)" if "x \<in> set (head # us @ vs)" "x \<noteq> hd (vs @ [head])" for x
    using that n [OF that(1)] assms(5) [of x] unfolding b by metis
  ultimately have "linked h' (head # us)" "linked h' (vs @ [head])"
    using parts_cong [OF d, of h' h] r(3) l by blast+
  moreover have "nnext (h' a) = b" "nprev (h' b) = a" using assms(4) [of a] assms(5) [of b] ne by auto
  ultimately show ?thesis
    unfolding ring_split using d r(2) unfolding a b by simp
qed


section \<open>The operations on rings\<close>

lemma ring_ends: "ring h head xs \<Longrightarrow> nnext (h head) = hd (xs @ [head]) \<and> nprev (h head) = last (head # xs)"
  using ring_split [of h head "[]" xs] ring_split [of h head xs "[]"] by simp

lemma ring_neighbours:
  assumes "ring h head (us @ n # vs)"
  shows "nprev (h n) = last (head # us)" and "nnext (h n) = hd (vs @ [head])"
  using assms ring_split [of h head us "n # vs"] ring_split [of h head "us @ [n]" vs] by auto

lemma ring_next_not_null: "ring h head xs \<Longrightarrow> nnext (h head) \<noteq> NULL"
  using ring_ends [of h head xs, THEN conjunct1] by (cases xs) (auto simp: ring_def simp del: linked.simps)

lemma ring_init: "head \<noteq> NULL \<Longrightarrow> ring (dlist_init head h) head []"
  by (simp add: ring_def dlist_init_def)

lemma dlist_ring:
  "dlist h head xs \<Longrightarrow> ring (dlist_make_circular head h) head xs"
  using ring_init ring_next_not_null by (auto simp: dlist_def dlist_make_circular_def)

lemma ring_dlist [intro]: "ring h head xs \<Longrightarrow> dlist h head xs"
  by (simp add: dlist_def)

lemma dlist_empty_iff: "dlist h head xs \<Longrightarrow> dlist_is_empty h head \<longleftrightarrow> xs = []"
  using ring_ends [of h head xs, THEN conjunct1]
  by (cases xs) (auto simp: dlist_def dlist_is_empty_def ring_def simp del: linked.simps)

text \<open>The pointers each operation leaves.\<close>

lemma push_head_pointers:
  fixes h :: dheap and head :: addr
  defines "h0 \<equiv> dlist_make_circular head h"
  assumes "n \<noteq> head" and "n \<noteq> nnext (h0 head)"
  shows "nnext (dlist_push_head head n h x) = (if x = head then n else if x = n then nnext (h0 head) else nnext (h0 x))"
    and "nprev (dlist_push_head head n h x) = (if x = nnext (h0 head) then n else if x = n then head else nprev (h0 x))"
  using assms(2,3) unfolding dlist_push_head_def Let_def h0_def by auto

lemma push_tail_pointers:
  fixes h :: dheap and head :: addr
  defines "h0 \<equiv> dlist_make_circular head h"
  assumes "n \<noteq> head" and "n \<noteq> nprev (h0 head)"
  shows "nnext (dlist_push_tail head n h x) = (if x = nprev (h0 head) then n else if x = n then head else nnext (h0 x))"
    and "nprev (dlist_push_tail head n h x) = (if x = head then n else if x = n then nprev (h0 head) else nprev (h0 x))"
  using assms(2,3) unfolding dlist_push_tail_def Let_def h0_def by auto

lemma insert_after_pointers:
  assumes "n \<noteq> m" and "n \<noteq> nnext (h m)"
  shows "nnext (dlist_insert_after m n h x) = (if x = m then n else if x = n then nnext (h m) else nnext (h x))"
    and "nprev (dlist_insert_after m n h x) = (if x = nnext (h m) then n else if x = n then m else nprev (h x))"
  using assms unfolding dlist_insert_after_def Let_def by auto

lemma insert_before_pointers:
  assumes "n \<noteq> m" and "n \<noteq> nprev (h m)"
  shows "nnext (dlist_insert_before m n h x) = (if x = nprev (h m) then n else if x = n then m else nnext (h x))"
    and "nprev (dlist_insert_before m n h x) = (if x = m then n else if x = n then nprev (h m) else nprev (h x))"
  using assms unfolding dlist_insert_before_def Let_def by auto

lemma delete_pointers:
  assumes "n \<noteq> nprev (h n)" and "n \<noteq> nnext (h n)"
  shows "nnext (dlist_delete n h x) = (if x = nprev (h n) then nnext (h n) else nnext (h x))"
    and "nprev (dlist_delete n h x) = (if x = nnext (h n) then nprev (h n) else nprev (h x))"
    and "nnext (dlist_delete_thoroughly n h x) =
      (if x = n then NULL else if x = nprev (h n) then nnext (h n) else nnext (h x))"
    and "nprev (dlist_delete_thoroughly n h x) =
      (if x = n then NULL else if x = nnext (h n) then nprev (h n) else nprev (h x))"
  using assms unfolding dlist_delete_def dlist_delete_thoroughly_def Let_def by auto

lemma ends_in_ring:
  assumes "ring h head xs"
  shows "nnext (h head) \<in> set (head # xs)" and "nprev (h head) \<in> set (head # xs)"
proof -
  have "hd (xs @ [head]) \<in> set (xs @ [head])" "last (head # xs) \<in> set (head # xs)"
    by (rule hd_in_set last_in_set; simp)+
  then show "nnext (h head) \<in> set (head # xs)" "nprev (h head) \<in> set (head # xs)"
    using ring_ends [OF assms] by auto
qed

lemma neighbours_in_ring:
  assumes "ring h head (us @ m # vs)"
  shows "nprev (h m) \<in> set (head # us)" and "nnext (h m) \<in> set (vs @ [head])"
  unfolding ring_neighbours [OF assms] by (rule hd_in_set last_in_set; simp)+

lemma push_head_ring:
  assumes "dlist h head xs" and "n \<notin> set (head # xs)" and "n \<noteq> NULL"
  shows "ring (dlist_push_head head n h) head (n # xs)"
proof -
  have r: "ring (dlist_make_circular head h) head ([] @ xs)" using dlist_ring [OF assms(1)] by simp
  moreover have "n \<noteq> head" "n \<noteq> nnext (dlist_make_circular head h head)"
    using assms(2) ends_in_ring [OF dlist_ring [OF assms(1)]] by auto
  ultimately have "ring (dlist_push_head head n h) head ([] @ n # xs)"
    using assms(2,3) ring_ends [OF r]
    by (intro ring_insert [OF r _ _ _ _ push_head_pointers]) simp_all
  then show ?thesis by simp
qed

lemma push_tail_ring:
  assumes "dlist h head xs" and "n \<notin> set (head # xs)" and "n \<noteq> NULL"
  shows "ring (dlist_push_tail head n h) head (xs @ [n])"
proof -
  have r: "ring (dlist_make_circular head h) head (xs @ [])" using dlist_ring [OF assms(1)] by simp
  moreover have "n \<noteq> head" "n \<noteq> nprev (dlist_make_circular head h head)"
    using assms(2) ends_in_ring [OF dlist_ring [OF assms(1)]] by auto
  ultimately show ?thesis
    using assms(2,3) ring_ends [OF r]
    by (intro ring_insert [OF r _ _ _ _ push_tail_pointers]) simp_all
qed

lemma insert_after_ring:
  assumes "ring h head (us @ m # vs)" and "n \<notin> set (head # us @ m # vs)" and "n \<noteq> NULL"
  shows "ring (dlist_insert_after m n h) head (us @ m # n # vs)"
proof -
  have r: "ring h head ((us @ [m]) @ vs)" using assms(1) by simp
  moreover have "n \<noteq> m" "n \<noteq> nnext (h m)" using assms(2) neighbours_in_ring [OF assms(1)] by auto
  ultimately have "ring (dlist_insert_after m n h) head ((us @ [m]) @ n # vs)"
    using assms(2,3) ring_neighbours [OF assms(1)]
    by (intro ring_insert [OF r _ _ _ _ insert_after_pointers]) simp_all
  then show ?thesis by simp
qed

lemma insert_before_ring:
  assumes "ring h head (us @ m # vs)" and "n \<notin> set (head # us @ m # vs)" and "n \<noteq> NULL"
  shows "ring (dlist_insert_before m n h) head (us @ n # m # vs)"
proof -
  have "n \<noteq> m" "n \<noteq> nprev (h m)" using assms(2) neighbours_in_ring [OF assms(1)] by auto
  then show ?thesis
    using assms(2,3) ring_neighbours [OF assms(1)]
    by (intro ring_insert [OF assms(1) _ _ _ _ insert_before_pointers]) simp_all
qed

lemma delete_ring:
  assumes "ring h head (us @ n # vs)"
  shows "ring (dlist_delete n h) head (us @ vs)" and "ring (dlist_delete_thoroughly n h) head (us @ vs)"
    and "nnext (dlist_delete n h n) = nnext (h n)" and "dlist_node_is_detached (dlist_delete_thoroughly n h) n"
proof -
  have "n \<notin> set (head # us)" "n \<notin> set (vs @ [head])" using assms by (auto simp: ring_def)
  then have ne: "n \<noteq> nprev (h n)" "n \<noteq> nnext (h n)" using neighbours_in_ring [OF assms] by auto
  note p = delete_pointers [of n h, OF ne]
  show "ring (dlist_delete n h) head (us @ vs)" "ring (dlist_delete_thoroughly n h) head (us @ vs)"
    by (rule ring_remove [OF assms refl refl]; simp add: p)+
  show "nnext (dlist_delete n h n) = nnext (h n)" "dlist_node_is_detached (dlist_delete_thoroughly n h) n"
    using ne by (simp_all add: p dlist_node_is_detached_def)
qed


lemma pop_ring:
  assumes "ring h head (n # vs)"
  shows "fst (dlist_pop_head_node head h) = n" and "ring (snd (dlist_pop_head_node head h)) head vs"
  using ring_ends [OF assms] delete_ring(1) [of h head "[]" n vs] assms
  by (simp_all add: dlist_pop_head_node_def Let_def)

lemma removed_node:
  "ring h head (us @ n # vs) \<Longrightarrow> n \<notin> set (head # us @ vs) \<and> n \<noteq> NULL"
  by (auto simp: ring_def)

lemma move_ring:
  assumes "ring h head (us @ n # vs)"
  shows "ring (dlist_move_head head n h) head (n # us @ vs)" and "ring (dlist_move_tail head n h) head (us @ vs @ [n])"
proof -
  have d: "distinct (us @ n # vs)" using assms by (simp add: ring_def)
  note r = ring_dlist [OF delete_ring(1) [OF assms]] and n = removed_node [OF assms] and e = ring_ends [OF assms]
  have "us = []" if "nnext (h head) = n"
    using that e d by (cases us) auto
  then show "ring (dlist_move_head head n h) head (n # us @ vs)"
    using push_head_ring [OF r] n assms by (auto simp: dlist_move_head_def)
  have "vs = []" if "nprev (h head) = n"
    using that e d by (cases vs rule: rev_cases) auto
  then show "ring (dlist_move_tail head n h) head (us @ vs @ [n])"
    using push_tail_ring [OF r] n assms by (auto simp: dlist_move_tail_def)
qed

lemma ring_has:
  assumes "ring h head (us @ n # vs)"
  shows "dlist_has_next h head n \<longleftrightarrow> vs \<noteq> []" and "dlist_has_prev h head n \<longleftrightarrow> us \<noteq> []"
    and "vs \<noteq> [] \<Longrightarrow> dlist_next_node h head n = hd vs" and "us \<noteq> [] \<Longrightarrow> dlist_prev_node h head n = last us"
proof -
  have "head \<notin> set us" "head \<notin> set vs" using assms by (auto simp: ring_def)
  then show "dlist_has_next h head n \<longleftrightarrow> vs \<noteq> []" "dlist_has_prev h head n \<longleftrightarrow> us \<noteq> []"
    "vs \<noteq> [] \<Longrightarrow> dlist_next_node h head n = hd vs" "us \<noteq> [] \<Longrightarrow> dlist_prev_node h head n = last us"
    unfolding dlist_has_next_def dlist_has_prev_def dlist_next_node_def dlist_prev_node_def ring_neighbours [OF assms]
    using hd_in_set [of vs] last_in_set [of us] by (cases vs; auto)+
qed

lemma ring_end_nodes:
  "ring h head xs \<Longrightarrow> xs \<noteq> [] \<Longrightarrow> dlist_head_node h head = hd xs \<and> dlist_tail_node h head = last xs"
  using ring_ends [of h head xs]
  by (simp add: dlist_head_node_def dlist_tail_node_def dlist_head_element_off_def dlist_tail_element_off_def)

text \<open>A node's struct is found again from the node.\<close>

lemma head_element_container:
  "ring h head xs \<Longrightarrow> xs \<noteq> [] \<Longrightarrow> dlist_head_element_off h head off = dlist_container off (hd xs)"
  using ring_ends [of h head xs] by (simp add: dlist_head_element_off_def dlist_container_def)

section \<open>The loops on rings\<close>

lemma foreach_ring:
  "ring h head (us @ vs) \<Longrightarrow> dlist_foreach_loop h head (hd (vs @ [head])) body s = Some (fold body vs s)"
proof (induction vs arbitrary: us s)
  case Nil
  show ?case by (subst dlist_foreach_loop.simps) simp
next
  case (Cons v vs)
  have "v \<noteq> head" using Cons.prems by (auto simp: ring_def)
  moreover have "nnext (h v) = hd (vs @ [head])" by (rule ring_neighbours(2) [OF Cons.prems])
  moreover have "ring h head ((us @ [v]) @ vs)" using Cons.prems by simp
  ultimately show ?case using Cons.IH [of "us @ [v]" "body v s"] by (subst dlist_foreach_loop.simps) simp
qed

lemma reverse_ring:
  "ring h head (us @ vs) \<Longrightarrow> dlist_reverse_loop h head (last (head # us)) body s = Some (fold body (rev us) s)"
proof (induction us arbitrary: vs s rule: rev_induct)
  case Nil
  show ?case by (subst dlist_reverse_loop.simps) simp
next
  case (snoc u us)
  then have r: "ring h head (us @ u # vs)" by simp
  have "u \<noteq> head" using r by (auto simp: ring_def)
  moreover have "nprev (h u) = last (head # us)" by (rule ring_neighbours(1) [OF r])
  ultimately show ?case using snoc.IH [OF r, of "body u s"] by (subst dlist_reverse_loop.simps) simp
qed

lemma modify_ring:
  "ring h head (us @ vs) \<Longrightarrow>
     \<exists>h'. dlist_modify_loop head del (hd (vs @ [head])) (nnext (h (hd (vs @ [head])))) h visited = Some (visited @ vs, h') \<and>
       ring h' head (us @ filter (\<lambda>x. \<not> del x) vs)"
proof (induction vs arbitrary: us h visited)
  case Nil
  then show ?case by (subst dlist_modify_loop.simps) simp
next
  case (Cons v vs)
  let ?h1 = "if del v then dlist_delete v h else h" and ?us = "if del v then us else us @ [v]"
  have v: "v \<noteq> head" using Cons.prems by (auto simp: ring_def)
  have nx: "nnext (h v) = hd (vs @ [head])" by (rule ring_neighbours(2) [OF Cons.prems])
  have "ring ?h1 head (?us @ vs)" using Cons.prems delete_ring(1) [OF Cons.prems] by simp
  from Cons.IH [OF this, of "visited @ [v]"] show ?case
    using v nx by (subst dlist_modify_loop.simps) (auto simp: Let_def)
qed

text \<open>The same for a list whose head may never have been made circular.\<close>

lemma dlist_loops:
  assumes "dlist h head xs"
  shows "dlist_foreach h head body s = Some (fold body xs s)"
    and "dlist_reverse_foreach h head body s = Some (fold body (rev xs) s)"
    and "\<exists>h'. dlist_foreach_modify head del h = Some (xs, h') \<and> dlist h' head (filter (\<lambda>x. \<not> del x) xs)"
proof -
  have "dlist_foreach h head body s = Some (fold body xs s) \<and>
    dlist_reverse_foreach h head body s = Some (fold body (rev xs) s) \<and>
    (\<exists>h'. dlist_foreach_modify head del h = Some (xs, h') \<and> dlist h' head (filter (\<lambda>x. \<not> del x) xs))"
  proof (cases "ring h head xs")
    case True
    have ne: "nnext (h head) \<noteq> NULL" "nprev (h head) \<noteq> NULL"
      using ends_in_ring [OF True] True by (auto simp: ring_def simp del: linked.simps)
    have e: "nnext (h head) = hd (xs @ [head])" "nprev (h head) = last (head # xs)"
      using ring_ends [OF True] by blast+
    have f: "dlist_foreach_loop h head (nnext (h head)) body s = Some (fold body xs s)"
      unfolding e(1) using foreach_ring [of h head "[]" xs] True by simp
    have b: "dlist_reverse_loop h head (nprev (h head)) body s = Some (fold body (rev xs) s)"
      unfolding e(2) using reverse_ring [of h head xs "[]" body s] True by (simp only: append_Nil2)
    have "\<exists>h'. dlist_modify_loop head del (nnext (h head)) (nnext (h (nnext (h head)))) h [] = Some (xs, h') \<and>
        ring h' head (filter (\<lambda>x. \<not> del x) xs)"
      unfolding e(1) using modify_ring [of h head "[]" xs del "[]"] True by simp
    with f b ne show ?thesis
      unfolding dlist_foreach_def dlist_reverse_foreach_def dlist_foreach_modify_def Let_def by auto
  next
    case False
    then have "xs = []" "nnext (h head) = NULL" "nprev (h head) = NULL" using assms by (auto simp: dlist_def)
    then show ?thesis
      using assms unfolding dlist_foreach_def dlist_reverse_foreach_def dlist_foreach_modify_def Let_def
      by (subst dlist_foreach_loop.simps, subst dlist_reverse_loop.simps, subst dlist_modify_loop.simps) simp
  qed
  then show "dlist_foreach h head body s = Some (fold body xs s)"
    "dlist_reverse_foreach h head body s = Some (fold body (rev xs) s)"
    "\<exists>h'. dlist_foreach_modify head del h = Some (xs, h') \<and> dlist h' head (filter (\<lambda>x. \<not> del x) xs)" by blast+
qed


section \<open>Lists with a count\<close>

text \<open>The head of such a list is a \<open>dlist_head\<close> followed by its count.\<close>

type_synonym dcheap = "dheap \<times> (addr \<Rightarrow> u32)"

abbreviation count_by :: "u32 \<Rightarrow> addr \<Rightarrow> (addr \<Rightarrow> u32) \<Rightarrow> addr \<Rightarrow> u32" where
  "count_by d head c \<equiv> c(head := c head + d)"

definition dclist_init :: "addr \<Rightarrow> dcheap \<Rightarrow> dcheap" where
  "dclist_init head hc = (dlist_init head (fst hc), (snd hc)(head := 0))"

definition dclist_is_empty :: "dcheap \<Rightarrow> addr \<Rightarrow> bool" where
  "dclist_is_empty hc head \<longleftrightarrow> snd hc head = 0"

definition dclist_make_circular :: "addr \<Rightarrow> dcheap \<Rightarrow> dcheap" where
  "dclist_make_circular head hc = (if nnext (fst hc head) = NULL then dclist_init head hc else hc)"

definition dclist_push_head :: "addr \<Rightarrow> addr \<Rightarrow> dcheap \<Rightarrow> dcheap" where
  "dclist_push_head head node hc =
     (let (h, c) = dclist_make_circular head hc in (dlist_push_head head node h, count_by 1 head c))"

definition dclist_push_tail :: "addr \<Rightarrow> addr \<Rightarrow> dcheap \<Rightarrow> dcheap" where
  "dclist_push_tail head node hc =
     (let (h, c) = dclist_make_circular head hc in (dlist_push_tail head node h, count_by 1 head c))"

definition dclist_insert_after :: "addr \<Rightarrow> addr \<Rightarrow> addr \<Rightarrow> dcheap \<Rightarrow> dcheap" where
  "dclist_insert_after head after node hc =
     (dlist_insert_after after node (fst hc), count_by 1 head (snd hc))"

definition dclist_insert_before :: "addr \<Rightarrow> addr \<Rightarrow> addr \<Rightarrow> dcheap \<Rightarrow> dcheap" where
  "dclist_insert_before head before node hc =
     (dlist_insert_before before node (fst hc), count_by 1 head (snd hc))"

definition dclist_delete_from :: "addr \<Rightarrow> addr \<Rightarrow> dcheap \<Rightarrow> dcheap" where
  "dclist_delete_from head node hc =
     (dlist_delete_from head node (fst hc), count_by (- 1) head (snd hc))"

definition dclist_delete_from_thoroughly :: "addr \<Rightarrow> addr \<Rightarrow> dcheap \<Rightarrow> dcheap" where
  "dclist_delete_from_thoroughly head node hc =
     (dlist_delete_from_thoroughly head node (fst hc), count_by (- 1) head (snd hc))"

definition dclist_pop_head_node :: "addr \<Rightarrow> dcheap \<Rightarrow> addr \<times> dcheap" where
  "dclist_pop_head_node head hc =
     (let (node, h) = dlist_pop_head_node head (fst hc) in (node, h, count_by (- 1) head (snd hc)))"

definition dclist_move_head :: "addr \<Rightarrow> addr \<Rightarrow> dcheap \<Rightarrow> dcheap" where
  "dclist_move_head head node hc = (dlist_move_head head node (fst hc), snd hc)"

definition dclist_move_tail :: "addr \<Rightarrow> addr \<Rightarrow> dcheap \<Rightarrow> dcheap" where
  "dclist_move_tail head node hc = (dlist_move_tail head node (fst hc), snd hc)"

definition dclist_has_next :: "dcheap \<Rightarrow> addr \<Rightarrow> addr \<Rightarrow> bool" where
  "dclist_has_next hc head node \<longleftrightarrow> dlist_has_next (fst hc) head node"

definition dclist_has_prev :: "dcheap \<Rightarrow> addr \<Rightarrow> addr \<Rightarrow> bool" where
  "dclist_has_prev hc head node \<longleftrightarrow> dlist_has_prev (fst hc) head node"

definition dclist_next_node :: "dcheap \<Rightarrow> addr \<Rightarrow> addr \<Rightarrow> addr" where
  "dclist_next_node hc head node = dlist_next_node (fst hc) head node"

definition dclist_prev_node :: "dcheap \<Rightarrow> addr \<Rightarrow> addr \<Rightarrow> addr" where
  "dclist_prev_node hc head node = dlist_prev_node (fst hc) head node"

definition dclist_head_element_off :: "dcheap \<Rightarrow> addr \<Rightarrow> u64 \<Rightarrow> addr" where
  "dclist_head_element_off hc head off = nnext (fst hc head) - off"

definition dclist_head_node :: "dcheap \<Rightarrow> addr \<Rightarrow> addr" where
  "dclist_head_node hc head = dlist_head_element_off (fst hc) head 0"

definition dclist_tail_element_off :: "dcheap \<Rightarrow> addr \<Rightarrow> u64 \<Rightarrow> addr" where
  "dclist_tail_element_off hc head off = nprev (fst hc head) - off"

definition dclist_tail_node :: "dcheap \<Rightarrow> addr \<Rightarrow> addr" where
  "dclist_tail_node hc head = dlist_tail_element_off (fst hc) head 0"

definition dclist_count :: "dcheap \<Rightarrow> addr \<Rightarrow> u32" where
  "dclist_count hc head = snd hc head"

definition dclist :: "dcheap \<Rightarrow> addr \<Rightarrow> addr list \<Rightarrow> bool" where
  "dclist hc head xs \<longleftrightarrow> dlist (fst hc) head xs \<and> unat (snd hc head) = length xs"

definition dcring :: "dcheap \<Rightarrow> addr \<Rightarrow> addr list \<Rightarrow> bool" where
  "dcring hc head xs \<longleftrightarrow> ring (fst hc) head xs \<and> unat (snd hc head) = length xs"

lemma dcring_dclist [intro]: "dcring hc head xs \<Longrightarrow> dclist hc head xs"
  by (simp add: dcring_def dclist_def ring_dlist)

text \<open>The count follows the list while it does not overflow.\<close>

lemma count_up: "unat (c :: u32) = k \<Longrightarrow> Suc k < 2 ^ 32 \<Longrightarrow> unat (c + 1) = Suc k"
  by (simp add: unat_word_ariths)

lemma count_down: "unat (c :: u32) = Suc k \<Longrightarrow> unat (c - 1) = k"
  by (subst unat_minus_one) auto

lemma make_circular_count:
  assumes "dclist hc head xs"
  shows "\<exists>c. dclist_make_circular head hc = (dlist_make_circular head (fst hc), c) \<and> unat (c head) = length xs"
proof (cases "nnext (fst hc head) = NULL")
  case True
  then have "xs = []" using assms ring_next_not_null by (auto simp: dclist_def dlist_def)
  with True show ?thesis by (simp add: dclist_make_circular_def dclist_init_def dlist_make_circular_def)
next
  case False
  with assms show ?thesis by (cases hc) (simp add: dclist_make_circular_def dlist_make_circular_def dclist_def)
qed

lemma push_circular:
  "dlist_push_head head n (dlist_make_circular head h) = dlist_push_head head n h"
  "dlist_push_tail head n (dlist_make_circular head h) = dlist_push_tail head n h" if "head \<noteq> NULL"
  using that by (auto simp: dlist_push_head_def dlist_push_tail_def dlist_make_circular_def dlist_init_def)

lemma dclist_push:
  assumes "dclist hc head xs" and "n \<notin> set (head # xs)" and "n \<noteq> NULL" and "Suc (length xs) < 2 ^ 32"
  shows "dcring (dclist_push_head head n hc) head (n # xs)" and "dcring (dclist_push_tail head n hc) head (xs @ [n])"
proof -
  have d: "dlist (fst hc) head xs" and nn: "head \<noteq> NULL" using assms(1) by (auto simp: dclist_def dlist_def ring_def)
  obtain c where c: "dclist_make_circular head hc = (dlist_make_circular head (fst hc), c)" "unat (c head) = length xs"
    using make_circular_count [OF assms(1)] by blast
  show "dcring (dclist_push_head head n hc) head (n # xs)" "dcring (dclist_push_tail head n hc) head (xs @ [n])"
    using push_head_ring [OF d assms(2,3)] push_tail_ring [OF d assms(2,3)] count_up [OF c(2) assms(4)]
    by (simp_all add: dcring_def dclist_push_head_def dclist_push_tail_def c(1) push_circular [OF nn])
qed

lemma dclist_pop:
  assumes "dcring hc head (n # xs)"
  shows "fst (dclist_pop_head_node head hc) = n" and "dcring (snd (dclist_pop_head_node head hc)) head xs"
  using assms pop_ring [of "fst hc" head n xs] count_down [of "snd hc head" "length xs"]
  by (simp_all add: dclist_pop_head_node_def dcring_def case_prod_beta)

text \<open>The assertion of \<open>dclist_is_empty\<close> and \<open>dclist_count\<close>: the count is 0 exactly on an empty list.\<close>

lemma dclist_empty_iff:
  assumes "dclist hc head xs"
  shows "dclist_is_empty hc head \<longleftrightarrow> xs = []" and "dclist_is_empty hc head \<longleftrightarrow> dlist_is_empty (fst hc) head"
  using assms dlist_empty_iff [of "fst hc" head xs]
  by (auto simp: dclist_def dclist_is_empty_def unat_eq_zero simp flip: length_0_conv)


lemma dclist_insert:
  assumes "dcring hc head (us @ m # vs)" and "n \<notin> set (head # us @ m # vs)" and "n \<noteq> NULL"
    and "Suc (length (us @ m # vs)) < 2 ^ 32"
  shows "dcring (dclist_insert_after head m n hc) head (us @ m # n # vs)"
    and "dcring (dclist_insert_before head m n hc) head (us @ n # m # vs)"
  using assms insert_after_ring [of "fst hc" head us m vs n] insert_before_ring [of "fst hc" head us m vs n]
    count_up [of "snd hc head" "length (us @ m # vs)"]
  by (auto simp: dcring_def dclist_insert_after_def dclist_insert_before_def)

lemma dclist_remove:
  assumes "dcring hc head (us @ n # vs)"
  shows "dcring (dclist_delete_from head n hc) head (us @ vs)"
    and "dcring (dclist_delete_from_thoroughly head n hc) head (us @ vs)"
  using assms delete_ring(1,2) [of "fst hc" head us n vs] count_down [of "snd hc head" "length (us @ vs)"]
  by (auto simp: dcring_def dclist_delete_from_def dclist_delete_from_thoroughly_def dlist_delete_from_def
      dlist_delete_from_thoroughly_def)

lemma dclist_move:
  assumes "dcring hc head (us @ n # vs)"
  shows "dcring (dclist_move_head head n hc) head (n # us @ vs)"
    and "dcring (dclist_move_tail head n hc) head (us @ vs @ [n])"
  using assms move_ring [of "fst hc" head us n vs] by (auto simp: dcring_def dclist_move_head_def dclist_move_tail_def)

section \<open>Singly linked lists\<close>

type_synonym sheap = "addr \<Rightarrow> addr"

definition slist_init :: "addr \<Rightarrow> sheap \<Rightarrow> sheap" where
  "slist_init head h = h(head := NULL)"

definition slist_is_empty :: "sheap \<Rightarrow> addr \<Rightarrow> bool" where
  "slist_is_empty h head \<longleftrightarrow> h head = NULL"

definition slist_push_head :: "addr \<Rightarrow> addr \<Rightarrow> sheap \<Rightarrow> sheap" where
  "slist_push_head head node h = (let h1 = h(node := h head) in h1(head := node))"

definition slist_insert_after :: "addr \<Rightarrow> addr \<Rightarrow> sheap \<Rightarrow> sheap" where
  "slist_insert_after after node h = (let h1 = h(node := h after) in h1(after := node))"

definition slist_pop_head_node :: "addr \<Rightarrow> sheap \<Rightarrow> addr \<times> sheap" where
  "slist_pop_head_node head h = (let node = h head in (node, h(head := h node)))"

definition slist_has_next :: "sheap \<Rightarrow> addr \<Rightarrow> addr \<Rightarrow> bool" where
  "slist_has_next h head node \<longleftrightarrow> h node \<noteq> NULL"

definition slist_next_node :: "sheap \<Rightarrow> addr \<Rightarrow> addr \<Rightarrow> addr" where
  "slist_next_node h head node = h node"

definition slist_head_element_off :: "sheap \<Rightarrow> addr \<Rightarrow> u64 \<Rightarrow> addr" where
  "slist_head_element_off h head off = h head - off"

definition slist_head_node :: "sheap \<Rightarrow> addr \<Rightarrow> addr" where
  "slist_head_node h head = slist_head_element_off h head 0"

definition slist_container :: "u64 \<Rightarrow> addr \<Rightarrow> addr" where
  "slist_container offset ptr = ptr - offset"

record slist_mutable_iter =
  it_cur :: addr
  it_next :: addr
  it_prev :: addr

definition slist_delete_current :: "slist_mutable_iter \<Rightarrow> sheap \<Rightarrow> slist_mutable_iter \<times> sheap" where
  "slist_delete_current iter h = (iter\<lparr>it_cur := it_prev iter\<rparr>, h(it_prev iter := it_next iter))"

partial_function (option) slist_foreach_loop ::
    "sheap \<Rightarrow> addr \<Rightarrow> (addr \<Rightarrow> 's \<Rightarrow> 's) \<Rightarrow> 's \<Rightarrow> 's option" where
  "slist_foreach_loop h cur body s =
     (if cur \<noteq> NULL then slist_foreach_loop h (h cur) body (body cur s) else Some s)"

definition slist_foreach :: "sheap \<Rightarrow> addr \<Rightarrow> (addr \<Rightarrow> 's \<Rightarrow> 's) \<Rightarrow> 's \<Rightarrow> 's option" where
  "slist_foreach h head = slist_foreach_loop h (h head)"

partial_function (option) slist_modify_loop ::
    "(addr \<Rightarrow> bool) \<Rightarrow> slist_mutable_iter \<Rightarrow> sheap \<Rightarrow> addr list \<Rightarrow> (addr list \<times> sheap) option" where
  "slist_modify_loop del iter h visited =
     (if it_cur iter \<noteq> NULL
      then let (iter1, h1) = (if del (it_cur iter) then slist_delete_current iter h else (iter, h));
               iter2 = \<lparr>it_cur = it_next iter1,
                        it_next = (if it_next iter1 \<noteq> NULL then h1 (it_next iter1) else NULL),
                        it_prev = it_cur iter1\<rparr>
           in slist_modify_loop del iter2 h1 (visited @ [it_cur iter])
      else Some (visited, h))"

definition slist_foreach_modify :: "addr \<Rightarrow> (addr \<Rightarrow> bool) \<Rightarrow> sheap \<Rightarrow> (addr list \<times> sheap) option" where
  "slist_foreach_modify head del h =
     slist_modify_loop del
       \<lparr>it_cur = h head, it_next = (if h head \<noteq> NULL then h (h head) else NULL), it_prev = head\<rparr> h []"

text \<open>A path to the null pointer.\<close>

fun spath :: "sheap \<Rightarrow> addr \<Rightarrow> addr list \<Rightarrow> bool" where
  "spath h a [] \<longleftrightarrow> h a = NULL"
| "spath h a (x # xs) \<longleftrightarrow> h a = x \<and> spath h x xs"

definition slist :: "sheap \<Rightarrow> addr \<Rightarrow> addr list \<Rightarrow> bool" where
  "slist h head xs \<longleftrightarrow> distinct (head # xs) \<and> NULL \<notin> set (head # xs) \<and> spath h head xs"

lemma spath_cong: "(\<And>x. x \<in> set (a # xs) \<Longrightarrow> h' x = h x) \<Longrightarrow> spath h' a xs = spath h a xs"
  by (induction xs arbitrary: a) auto

text \<open>The links inside a prefix, and the rest from its last node on.\<close>

fun sseg :: "sheap \<Rightarrow> addr \<Rightarrow> addr list \<Rightarrow> bool" where
  "sseg h a [] \<longleftrightarrow> True"
| "sseg h a (x # xs) \<longleftrightarrow> h a = x \<and> sseg h x xs"

lemma spath_append: "spath h a (us @ vs) \<longleftrightarrow> sseg h a us \<and> spath h (last (a # us)) vs"
  by (induction us arbitrary: a) auto

lemma sseg_cong:
  "distinct (a # us) \<Longrightarrow> (\<And>x. x \<in> set (a # us) \<Longrightarrow> x \<noteq> last (a # us) \<Longrightarrow> h' x = h x) \<Longrightarrow> sseg h' a us = sseg h a us"
proof (induction us arbitrary: a)
  case (Cons u us)
  have "a \<noteq> last (u # us)" using Cons.prems(1) last_in_set [of "u # us"] by auto
  then show ?case using Cons.IH [of u] Cons.prems by simp
qed simp

text \<open>Whatever is done to the pointer of the last node of a prefix, the prefix stays.\<close>

lemma slist_replace_rest:
  assumes "slist h head (us @ vs)" and "distinct (head # us @ ws)" and "NULL \<notin> set ws"
    and "\<And>x. x \<in> set (head # us) \<Longrightarrow> x \<noteq> last (head # us) \<Longrightarrow> h' x = h x" and "spath h' (last (head # us)) ws"
  shows "slist h' head (us @ ws)"
proof -
  have "sseg h' head us = sseg h head us" using assms(2,4) by (intro sseg_cong) auto
  then show ?thesis using assms by (auto simp: slist_def spath_append)
qed

lemma slist_rest: "slist h head (us @ vs) \<Longrightarrow> spath h (last (head # us)) vs"
  by (simp add: slist_def spath_append)

lemma slist_last_not_in:
  "slist h head (us @ vs) \<Longrightarrow> last (head # us) \<notin> set vs"
  using last_in_set [of "head # us"] by (auto simp: slist_def)

lemma slist_link:
  assumes "slist h head (us @ vs)" and "n \<notin> set (head # us @ vs)" and "n \<noteq> NULL"
    and "a = last (head # us)"
  shows "slist (h(n := h a, a := n)) head (us @ n # vs)"
proof (rule slist_replace_rest [OF assms(1)])
  have a: "a \<in> set (head # us)" unfolding assms(4) by (rule last_in_set) simp
  have v: "spath h a vs" and av: "a \<notin> set vs"
    using slist_rest [OF assms(1)] slist_last_not_in [OF assms(1)] unfolding assms(4) by auto
  show "distinct (head # us @ n # vs)" "NULL \<notin> set (n # vs)" using assms by (auto simp: slist_def)
  show "(h(n := h a, a := n)) x = h x" if "x \<in> set (head # us)" "x \<noteq> last (head # us)" for x
    using that assms(2) unfolding assms(4) by auto
  have na: "n \<noteq> a" using a assms(2) by auto
  have "spath (h(n := h a, a := n)) n vs"
  proof (cases vs)
    case Nil
    then show ?thesis using v na by simp
  next
    case (Cons w ws)
    have "spath (h(n := h a, a := n)) w ws = spath h w ws"
      using Cons av assms(2) by (intro spath_cong) auto
    then show ?thesis using v na Cons by simp
  qed
  then show "spath (h(n := h a, a := n)) (last (head # us)) (n # vs)" by (simp add: assms(4))
qed

lemma slist_unlink:
  assumes "slist h head (us @ n # vs)" and "a = last (head # us)"
  shows "slist (h(a := h n)) head (us @ vs)"
proof (rule slist_replace_rest [OF assms(1)])
  have v: "spath h a (n # vs)" and av: "a \<notin> set (n # vs)"
    using slist_rest [OF assms(1)] slist_last_not_in [OF assms(1)] unfolding assms(2) by auto
  show "distinct (head # us @ vs)" "NULL \<notin> set vs" using assms by (auto simp: slist_def)
  show "(h(a := h n)) x = h x" if "x \<in> set (head # us)" "x \<noteq> last (head # us)" for x
    using that unfolding assms(2) by auto
  have "spath (h(a := h n)) a vs"
  proof (cases vs)
    case (Cons w ws)
    have "spath (h(a := h n)) w ws = spath h w ws" using Cons av by (intro spath_cong) auto
    then show ?thesis using v Cons by simp
  qed (use v in simp)
  then show "spath (h(a := h n)) (last (head # us)) vs" by (simp add: assms(2))
qed

lemma slist_push:
  assumes "slist h head xs" and "n \<notin> set (head # xs)" and "n \<noteq> NULL"
  shows "slist (slist_push_head head n h) head (n # xs)"
proof -
  have "slist (h(n := h head, head := n)) head ([] @ n # xs)"
    by (rule slist_link) (use assms in simp_all)
  then show ?thesis by (simp add: slist_push_head_def)
qed

lemma slist_insert:
  assumes "slist h head (us @ m # vs)" and "n \<notin> set (head # us @ m # vs)" and "n \<noteq> NULL"
  shows "slist (slist_insert_after m n h) head (us @ m # n # vs)"
proof -
  have "slist (h(n := h m, m := n)) head ((us @ [m]) @ n # vs)"
    by (rule slist_link) (use assms in simp_all)
  then show ?thesis by (simp add: slist_insert_after_def)
qed

lemma slist_pop:
  assumes "slist h head (n # xs)"
  shows "fst (slist_pop_head_node head h) = n" and "slist (snd (slist_pop_head_node head h)) head xs"
proof -
  have n: "h head = n" using assms by (simp add: slist_def)
  then show "fst (slist_pop_head_node head h) = n" by (simp add: slist_pop_head_node_def)
  have "slist (h(head := h n)) head ([] @ xs)" by (rule slist_unlink) (use assms in simp_all)
  then show "slist (snd (slist_pop_head_node head h)) head xs" by (simp add: slist_pop_head_node_def n)
qed

lemma slist_foreach_path:
  "spath h a xs \<Longrightarrow> NULL \<notin> set xs \<Longrightarrow> slist_foreach_loop h (h a) body s = Some (fold body xs s)"
proof (induction xs arbitrary: a s)
  case Nil
  then show ?case by (subst slist_foreach_loop.simps) simp
next
  case (Cons x xs)
  then show ?case by (subst slist_foreach_loop.simps) simp
qed

lemma slist_modify_step:
  assumes "v \<noteq> NULL"
  shows "slist_modify_loop del \<lparr>it_cur = v, it_next = w, it_prev = p\<rparr> h visited =
     (let h1 = (if del v then h(p := w) else h)
      in slist_modify_loop del \<lparr>it_cur = w, it_next = (if w \<noteq> NULL then h1 w else NULL), it_prev = (if del v then p else v)\<rparr>
           h1 (visited @ [v]))"
  using assms by (subst slist_modify_loop.simps) (cases "del v"; simp add: slist_delete_current_def Let_def)

text \<open>The iterator at the last node that was kept.\<close>

definition iter_at :: "sheap \<Rightarrow> addr \<Rightarrow> slist_mutable_iter" where
  "iter_at h p = \<lparr>it_cur = h p, it_next = (if h p \<noteq> NULL then h (h p) else NULL), it_prev = p\<rparr>"

lemma slist_modify_path:
  assumes "slist h head (us @ vs)"
  shows "\<exists>h'. slist_modify_loop del (iter_at h (last (head # us))) h visited = Some (visited @ vs, h') \<and>
    slist h' head (us @ filter (\<lambda>x. \<not> del x) vs)"
  using assms
proof (induction vs arbitrary: us h visited)
  case Nil
  have "h (last (head # us)) = NULL" using slist_rest [OF Nil] by simp
  then show ?case using Nil by (subst slist_modify_loop.simps) (simp add: iter_at_def)
next
  case (Cons v vs)
  let ?us = "if del v then us else us @ [v]"
  obtain a where a: "a = last (head # us)" by blast
  let ?h1 = "if del v then h(a := h v) else h"
  have v: "h a = v" "v \<noteq> NULL" and av: "a \<noteq> v"
    using slist_rest [OF Cons.prems] slist_last_not_in [OF Cons.prems] Cons.prems unfolding a by (auto simp: slist_def)
  have s1: "slist ?h1 head (?us @ vs)" using Cons.prems slist_unlink [OF Cons.prems a] by simp
  have l: "last (head # ?us) = (if del v then a else v)" using a by simp
  have "?h1 (last (head # ?us)) = h v" using av unfolding l by simp
  then have "slist_modify_loop del (iter_at h a) h visited
      = slist_modify_loop del (iter_at ?h1 (last (head # ?us))) ?h1 (visited @ [v])"
    unfolding iter_at_def v(1) l using v(2) by (simp only: slist_modify_step [OF v(2)] Let_def if_True not_False_eq_True)
  with Cons.IH [OF s1, of "visited @ [v]"] show ?case
    unfolding a [symmetric] by (cases "del v") (simp_all del: fun_upd_apply last.simps)
qed


lemma slist_loops:
  assumes "slist h head xs"
  shows "slist_foreach h head body s = Some (fold body xs s)"
    and "\<exists>h'. slist_foreach_modify head del h = Some (xs, h') \<and> slist h' head (filter (\<lambda>x. \<not> del x) xs)"
proof -
  show "slist_foreach h head body s = Some (fold body xs s)"
    using assms by (simp add: slist_foreach_def slist_def slist_foreach_path)
  show "\<exists>h'. slist_foreach_modify head del h = Some (xs, h') \<and> slist h' head (filter (\<lambda>x. \<not> del x) xs)"
    using slist_modify_path [of h head "[]" xs del "[]"] assms by (simp add: slist_foreach_modify_def iter_at_def)
qed

section \<open>Lists as queues\<close>

text \<open>What the clients of a list with two ends rely on; \<open>room\<close> is the condition under which one more
  node fits.\<close>

locale intrusive_queue =
  fixes rep :: "'h \<Rightarrow> addr \<Rightarrow> addr list \<Rightarrow> bool"
    and push_head push_tail :: "addr \<Rightarrow> addr \<Rightarrow> 'h \<Rightarrow> 'h"
    and pop :: "addr \<Rightarrow> 'h \<Rightarrow> addr \<times> 'h"
    and room :: "nat \<Rightarrow> bool"
  assumes push_head_rep: "rep h head xs \<Longrightarrow> n \<notin> set (head # xs) \<Longrightarrow> n \<noteq> NULL \<Longrightarrow> room (length xs) \<Longrightarrow>
      rep (push_head head n h) head (n # xs)"
    and push_tail_rep: "rep h head xs \<Longrightarrow> n \<notin> set (head # xs) \<Longrightarrow> n \<noteq> NULL \<Longrightarrow> room (length xs) \<Longrightarrow>
      rep (push_tail head n h) head (xs @ [n])"
    and pop_rep: "rep h head (n # xs) \<Longrightarrow> fst (pop head h) = n \<and> rep (snd (pop head h)) head xs"
    and rep_distinct: "rep h head xs \<Longrightarrow> distinct (head # xs)"
begin

lemma push_all:
  assumes "rep h head xs" and "distinct (head # xs @ ns)" and "NULL \<notin> set ns"
    and "\<And>k. k < length (xs @ ns) \<Longrightarrow> room k"
  shows "rep (fold (push_tail head) ns h) head (xs @ ns)" and "rep (fold (push_head head) ns h) head (rev ns @ xs)"
proof -
  show "rep (fold (push_tail head) ns h) head (xs @ ns)"
    using assms
  proof (induction ns arbitrary: h xs)
    case (Cons n ns)
    have "rep (push_tail head n h) head (xs @ [n])" using Cons.prems by (intro push_tail_rep) auto
    then show ?case using Cons.IH [of "push_tail head n h" "xs @ [n]"] Cons.prems by simp
  qed simp
  show "rep (fold (push_head head) ns h) head (rev ns @ xs)"
    using assms
  proof (induction ns arbitrary: h xs)
    case (Cons n ns)
    have "rep (push_head head n h) head (n # xs)" using Cons.prems by (intro push_head_rep) auto
    then show ?case using Cons.IH [of "push_head head n h" "n # xs"] Cons.prems by simp
  qed simp
qed

end

text \<open>Taking the first node a number of times.\<close>

primrec pop_times :: "(addr \<Rightarrow> 'h \<Rightarrow> addr \<times> 'h) \<Rightarrow> nat \<Rightarrow> addr \<Rightarrow> 'h \<Rightarrow> addr list \<times> 'h" where
  "pop_times pop 0 head h = ([], h)"
| "pop_times pop (Suc k) head h =
     (case pop head h of (n, h1) \<Rightarrow> case pop_times pop k head h1 of (ns, h2) \<Rightarrow> (n # ns, h2))"

context intrusive_queue
begin

lemma pop_all: "rep h head xs \<Longrightarrow> fst (pop_times pop (length xs) head h) = xs \<and> rep (snd (pop_times pop (length xs) head h)) head []"
proof (induction xs arbitrary: h)
  case (Cons x xs)
  have "fst (pop head h) = x" "rep (snd (pop head h)) head xs" using pop_rep [OF Cons.prems] by auto
  with Cons.IH [of "snd (pop head h)"] show ?case by (simp add: case_prod_beta)
qed simp

lemma first_in_first_out:
  assumes "rep h head xs" and "distinct (head # xs @ ns)" and "NULL \<notin> set ns"
    and "\<And>k. k < length (xs @ ns) \<Longrightarrow> room k"
  shows "fst (pop_times pop (length (xs @ ns)) head (fold (push_tail head) ns h)) = xs @ ns"
    and "fst (pop_times pop (length (xs @ ns)) head (fold (push_head head) ns h)) = rev ns @ xs"
  using pop_all [OF push_all(1) [OF assms]] pop_all [OF push_all(2) [OF assms]] by (simp_all add: add.commute)

end

interpretation dq: intrusive_queue dlist dlist_push_head dlist_push_tail dlist_pop_head_node "\<lambda>_. True"
proof
  show "fst (dlist_pop_head_node head h) = n \<and> dlist (snd (dlist_pop_head_node head h)) head xs"
    if "dlist h head (n # xs)" for h head n xs
    using that pop_ring [of h head n xs] by (auto simp: dlist_def)
qed (auto simp: push_head_ring push_tail_ring ring_dlist, auto simp: dlist_def ring_def)

interpretation dcq: intrusive_queue dclist dclist_push_head dclist_push_tail dclist_pop_head_node "\<lambda>k. Suc k < 2 ^ 32"
proof
  show "fst (dclist_pop_head_node head h) = n \<and> dclist (snd (dclist_pop_head_node head h)) head xs"
    if "dclist h head (n # xs)" for h head n xs
    using that dclist_pop [of h head n xs] by (auto simp: dclist_def dcring_def dlist_def)
qed (auto simp: dclist_push dcring_dclist, auto simp: dclist_def dlist_def ring_def)

section \<open>Properties\<close>

text \<open>C29: The branch-free pointer updates act as list operations: on a list that holds \<open>m\<close> between \<open>us\<close> and
  \<open>vs\<close>, pushing, inserting, deleting and moving give the list one expects, a deletion keeps the
  pointers of the deleted node, so that a loop can step over it, unless it is thorough, and then the
  node is detached; the neighbours of \<open>m\<close> and the two ends are found.\<close>

theorem dlist_operations:
  assumes "ring h head (us @ m # vs)" and "n \<notin> set (head # us @ m # vs)" and "n \<noteq> NULL"
  shows "ring (dlist_push_head head n h) head (n # us @ m # vs) \<and>
    ring (dlist_push_tail head n h) head (us @ m # vs @ [n]) \<and>
    ring (dlist_insert_after m n h) head (us @ m # n # vs) \<and>
    ring (dlist_insert_before m n h) head (us @ n # m # vs) \<and>
    ring (dlist_delete_from head m h) head (us @ vs) \<and> nnext (dlist_delete_from head m h m) = nnext (h m) \<and>
    ring (dlist_delete_from_thoroughly head m h) head (us @ vs) \<and>
    dlist_node_is_detached (dlist_delete_from_thoroughly head m h) m \<and>
    ring (dlist_move_head head m h) head (m # us @ vs) \<and>
    ring (dlist_move_tail head m h) head (us @ vs @ [m]) \<and>
    dlist_has_next h head m = (vs \<noteq> []) \<and> dlist_has_prev h head m = (us \<noteq> []) \<and>
    dlist_head_node h head = hd (us @ [m]) \<and> dlist_tail_node h head = last (m # vs)"
  using push_head_ring [OF ring_dlist [OF assms(1)] assms(2,3)] push_tail_ring [OF ring_dlist [OF assms(1)] assms(2,3)]
    insert_after_ring [OF assms] insert_before_ring [OF assms] delete_ring [OF assms(1)] move_ring [OF assms(1)]
    ring_has(1,2) [OF assms(1)] ring_end_nodes [OF assms(1)]
  by (auto simp: dlist_delete_from_def dlist_delete_from_thoroughly_def hd_append)

theorem dlist_operations_witness:
  "let h = dlist_push_tail 8 24 (dlist_push_tail 8 16 (dlist_init 8 (\<lambda>_. \<lparr>nprev = 0, nnext = 0\<rparr>)))
   in ring (dlist_insert_before 24 32 h) 8 [16, 32, 24]"
proof -
  let ?h = "dlist_push_tail 8 24 (dlist_push_tail 8 16 (dlist_init 8 (\<lambda>_. \<lparr>nprev = 0, nnext = 0\<rparr>)))"
  have "ring ?h 8 ([16] @ 24 # [])"
    by (simp add: ring_def dlist_push_tail_def dlist_make_circular_def dlist_init_def)
  from dlist_operations [OF this, of 32] show ?thesis by simp
qed

text \<open>The loops over a doubly linked list always end: \<open>dlist_foreach\<close> visits the members from first to
  last, the reverse loop from last to first, and the loop that may delete the current node visits
  every member of the original list once and leaves those that were not deleted.  All of it holds
  also for a list whose head was only zeroed.\<close>

theorem dlist_loops_visit:
  assumes "dlist h head xs"
  shows "dlist_foreach h head body s = Some (fold body xs s) \<and>
    dlist_reverse_foreach h head body s = Some (fold body (rev xs) s) \<and>
    (\<exists>h'. dlist_foreach_modify head del h = Some (xs, h') \<and> dlist h' head (filter (\<lambda>x. \<not> del x) xs))"
  by (intro conjI dlist_loops [OF assms])

theorem dlist_loops_visit_witness:
  "dlist_foreach (dlist_push_tail 8 24 (dlist_push_tail 8 16 (dlist_init 8 (\<lambda>_. \<lparr>nprev = 0, nnext = 0\<rparr>)))) 8
     (\<lambda>x s. s @ [x]) [] = Some [16, 24] \<and>
   dlist_foreach (\<lambda>_. \<lparr>nprev = 0, nnext = 0\<rparr>) 8 (\<lambda>x s. s @ [x]) [] = Some []"
proof -
  let ?h = "dlist_push_tail 8 24 (dlist_push_tail 8 16 (dlist_init 8 (\<lambda>_. \<lparr>nprev = 0, nnext = 0\<rparr>)))"
  have "ring ?h 8 [16, 24]"
    by (simp add: ring_def dlist_push_tail_def dlist_make_circular_def dlist_init_def)
  moreover have "dlist (\<lambda>_. \<lparr>nprev = 0, nnext = 0\<rparr>) 8 []" by (simp add: dlist_def)
  ultimately show ?thesis
    using dlist_loops_visit [of ?h 8 "[16, 24]" "\<lambda>x s. s @ [x]" "[]"]
      dlist_loops_visit [of "\<lambda>_. \<lparr>nprev = 0, nnext = 0\<rparr>" 8 "[]" "\<lambda>x s. s @ [x]" "[]"]
    by (simp add: ring_dlist)
qed

text \<open>A counted list is a queue with a correct count: as long as fewer than \<open>2 ^ 32\<close> nodes are in it,
  pushing nodes at the tail and taking them from the head returns them in the order they came, and
  the count, which is what \<open>dclist_is_empty\<close> looks at, is the number of nodes.\<close>

theorem dclist_is_queue:
  assumes "dclist hc head xs" and "distinct (head # xs @ ns)" and "NULL \<notin> set ns" and "length (xs @ ns) < 2 ^ 32"
  shows "fst (pop_times dclist_pop_head_node (length (xs @ ns)) head (fold (dclist_push_tail head) ns hc)) = xs @ ns \<and>
    unat (dclist_count (fold (dclist_push_tail head) ns hc) head) = length (xs @ ns) \<and>
    dclist_is_empty (fold (dclist_push_tail head) ns hc) head = (xs @ ns = [])"
proof -
  have room: "\<And>k. k < length (xs @ ns) \<Longrightarrow> Suc k < 2 ^ 32" using assms(4) by simp
  note d = dcq.push_all(1) [OF assms(1-3) room]
  show ?thesis
    using dcq.first_in_first_out(1) [OF assms(1-3) room] d dclist_empty_iff(1) [OF d]
    by (simp add: dclist_def dclist_count_def)
qed

theorem dclist_is_queue_witness:
  "fst (pop_times dclist_pop_head_node 3 8 (fold (dclist_push_tail 8) [32, 16, 24] (\<lambda>_. \<lparr>nprev = 0, nnext = 0\<rparr>, \<lambda>_. 0)))
     = [32, 16, 24]"
proof -
  have "dclist (\<lambda>_. \<lparr>nprev = 0, nnext = 0\<rparr>, \<lambda>_. 0) 8 []" by (simp add: dclist_def dlist_def)
  from dclist_is_queue [OF this, of "[32, 16, 24]"] show ?thesis by (simp del: fold.simps pop_times.simps add: numeral_3_eq_3)
qed

text \<open>Singly linked lists: pushing, inserting and taking the first node act as on lists, and a loop that
  deletes with \<open>slist_delete_current\<close> ends, visits every member once and leaves the others.\<close>

theorem slist_operations:
  assumes "slist h head (us @ m # vs)" and "n \<notin> set (head # us @ m # vs)" and "n \<noteq> NULL"
  shows "slist (slist_push_head head n h) head (n # us @ m # vs) \<and>
    slist (slist_insert_after m n h) head (us @ m # n # vs) \<and>
    fst (slist_pop_head_node head h) = hd (us @ [m]) \<and>
    slist (snd (slist_pop_head_node head h)) head (tl (us @ m # vs)) \<and>
    slist_foreach h head body s = Some (fold body (us @ m # vs) s) \<and>
    (\<exists>h'. slist_foreach_modify head del h = Some (us @ m # vs, h') \<and> slist h' head (filter (\<lambda>x. \<not> del x) (us @ m # vs)))"
proof -
  have "us @ m # vs = hd (us @ [m]) # tl (us @ m # vs)" by (cases us) auto
  then have "slist h head (hd (us @ [m]) # tl (us @ m # vs))" using assms(1) by metis
  then show ?thesis
    by (intro conjI slist_push [OF assms] slist_insert [OF assms] slist_pop slist_loops [OF assms(1)])
qed

theorem slist_operations_witness:
  "slist_foreach (slist_push_head 8 24 (slist_push_head 8 16 (slist_init 8 (\<lambda>_. 0)))) 8 (\<lambda>x s. s @ [x]) [] = Some [24, 16]"
proof -
  let ?h = "slist_push_head 8 24 (slist_push_head 8 16 (slist_init 8 (\<lambda>_. 0)))"
  have "slist ?h 8 ([] @ 24 # [16])" by (simp add: slist_def slist_push_head_def slist_init_def)
  from slist_operations [OF this, of 32 "\<lambda>x s. s @ [x]" "[]"] show ?thesis by simp
qed

end
