(* ===== verification/IntOverflow.thy ===== *)
theory IntOverflow
  imports Prelude "HOL-Library.Signed_Division"
begin

text \<open>
  Integer arithmetic that reports overflow, \<open>common/int.h\<close>.  Each function has up to three bodies, of
  which the preprocessor keeps one: the compiler's built-in operation, arithmetic at twice the
  width, or tests before or after the operation; \<open>int_impl\<close> says which.  A function returns whether
  it overflows, and the value stored through its pointer.  The lemmas show that every body reports
  exactly the overflows and otherwise stores the exact result, so that the bodies are
  interchangeable, and that the portable tests never compute an overflowing intermediate value.
\<close>

section \<open>The ways to detect overflow\<close>

datatype int_impl = Builtin | Int128 | Portable

text \<open>The compiler's operation computes the exact result, stores it wrapped around, and reports
  whether it changed.\<close>

definition builtin_signed :: "int \<Rightarrow> bool \<times> 'a::len word" where
  "builtin_signed z = (sint (word_of_int z :: 'a word) \<noteq> z, word_of_int z)"

definition builtin_unsigned :: "int \<Rightarrow> bool \<times> 'a::len word" where
  "builtin_unsigned z = (uint (word_of_int z :: 'a word) \<noteq> z, word_of_int z)"

text \<open>A result computed at a greater width is stored if it is in the range of the narrower type.\<close>

definition narrow_signed :: "'w::len word \<Rightarrow> bool \<times> 'a::len word" where
  "narrow_signed res =
     (if sint res > 2 ^ (LENGTH('a) - 1) - 1 \<or> sint res < - (2 ^ (LENGTH('a) - 1)) then (True, 0x5EED)
      else (False, scast res))"

definition narrow_unsigned :: "'w::len word \<Rightarrow> bool \<times> 'a::len word" where
  "narrow_unsigned res = (if uint res > 2 ^ LENGTH('a) - 1 then (True, 0x5EED) else (False, ucast res))"

definition PG_INT32_MAX :: int where
  "PG_INT32_MAX = 0x7FFFFFFF"

definition PG_INT32_MIN :: int where
  "PG_INT32_MIN = - 0x7FFFFFFF - 1"

definition PG_INT64_MAX :: int where
  "PG_INT64_MAX = 0x7FFFFFFFFFFFFFFF"

definition PG_INT64_MIN :: int where
  "PG_INT64_MIN = - 0x7FFFFFFFFFFFFFFF - 1"

section \<open>Signed integers\<close>

definition pg_add_s16_overflow :: "int_impl \<Rightarrow> 16 word \<Rightarrow> 16 word \<Rightarrow> bool \<times> 16 word" where
  "pg_add_s16_overflow impl a b =
     (if impl = Builtin then builtin_signed (sint a + sint b)
      else narrow_signed (scast a + scast b :: 32 word))"

definition pg_sub_s16_overflow :: "int_impl \<Rightarrow> 16 word \<Rightarrow> 16 word \<Rightarrow> bool \<times> 16 word" where
  "pg_sub_s16_overflow impl a b =
     (if impl = Builtin then builtin_signed (sint a - sint b)
      else narrow_signed (scast a - scast b :: 32 word))"

definition pg_mul_s16_overflow :: "int_impl \<Rightarrow> 16 word \<Rightarrow> 16 word \<Rightarrow> bool \<times> 16 word" where
  "pg_mul_s16_overflow impl a b =
     (if impl = Builtin then builtin_signed (sint a * sint b)
      else narrow_signed (scast a * scast b :: 32 word))"

definition pg_add_s32_overflow :: "int_impl \<Rightarrow> 32 word \<Rightarrow> 32 word \<Rightarrow> bool \<times> 32 word" where
  "pg_add_s32_overflow impl a b =
     (if impl = Builtin then builtin_signed (sint a + sint b)
      else narrow_signed (scast a + scast b :: 64 word))"

definition pg_sub_s32_overflow :: "int_impl \<Rightarrow> 32 word \<Rightarrow> 32 word \<Rightarrow> bool \<times> 32 word" where
  "pg_sub_s32_overflow impl a b =
     (if impl = Builtin then builtin_signed (sint a - sint b)
      else narrow_signed (scast a - scast b :: 64 word))"

definition pg_mul_s32_overflow :: "int_impl \<Rightarrow> 32 word \<Rightarrow> 32 word \<Rightarrow> bool \<times> 32 word" where
  "pg_mul_s32_overflow impl a b =
     (if impl = Builtin then builtin_signed (sint a * sint b)
      else narrow_signed (scast a * scast b :: 64 word))"

text \<open>At 64 bits the portable bodies compare before they compute; the comparisons are on mathematical
  integers, and the lemma \<open>portable_tests_in_range\<close> shows that their operands are 64-bit values.\<close>

definition pg_add_s64_overflow :: "int_impl \<Rightarrow> 64 word \<Rightarrow> 64 word \<Rightarrow> bool \<times> 64 word" where
  "pg_add_s64_overflow impl a b =
     (case impl of
        Builtin \<Rightarrow> builtin_signed (sint a + sint b)
      | Int128 \<Rightarrow> narrow_signed (scast a + scast b :: 128 word)
      | Portable \<Rightarrow>
          if (sint a > 0 \<and> sint b > 0 \<and> sint a > PG_INT64_MAX - sint b) \<or>
            (sint a < 0 \<and> sint b < 0 \<and> sint a < PG_INT64_MIN - sint b)
          then (True, 0x5EED) else (False, a + b))"

definition pg_sub_s64_overflow :: "int_impl \<Rightarrow> 64 word \<Rightarrow> 64 word \<Rightarrow> bool \<times> 64 word" where
  "pg_sub_s64_overflow impl a b =
     (case impl of
        Builtin \<Rightarrow> builtin_signed (sint a - sint b)
      | Int128 \<Rightarrow> narrow_signed (scast a - scast b :: 128 word)
      | Portable \<Rightarrow>
          if (sint a < 0 \<and> sint b > 0 \<and> sint a < PG_INT64_MIN + sint b) \<or>
            (sint a \<ge> 0 \<and> sint b < 0 \<and> sint a > PG_INT64_MAX + sint b)
          then (True, 0x5EED) else (False, a - b))"

definition pg_mul_s64_overflow :: "int_impl \<Rightarrow> 64 word \<Rightarrow> 64 word \<Rightarrow> bool \<times> 64 word" where
  "pg_mul_s64_overflow impl a b =
     (case impl of
        Builtin \<Rightarrow> builtin_signed (sint a * sint b)
      | Int128 \<Rightarrow> narrow_signed (scast a * scast b :: 128 word)
      | Portable \<Rightarrow>
          if (sint a > PG_INT32_MAX \<or> sint a < PG_INT32_MIN \<or> sint b > PG_INT32_MAX \<or> sint b < PG_INT32_MIN) \<and>
            sint a \<noteq> 0 \<and> sint a \<noteq> 1 \<and> sint b \<noteq> 0 \<and> sint b \<noteq> 1 \<and>
            ((sint a > 0 \<and> sint b > 0 \<and> sint a > PG_INT64_MAX sdiv sint b) \<or>
             (sint a > 0 \<and> sint b < 0 \<and> sint b < PG_INT64_MIN sdiv sint a) \<or>
             (sint a < 0 \<and> sint b > 0 \<and> sint a < PG_INT64_MIN sdiv sint b) \<or>
             (sint a < 0 \<and> sint b < 0 \<and> sint a < PG_INT64_MAX sdiv sint b))
          then (True, 0x5EED) else (False, a * b))"

section \<open>Unsigned integers\<close>

definition pg_add_u16_overflow :: "int_impl \<Rightarrow> 16 word \<Rightarrow> 16 word \<Rightarrow> bool \<times> 16 word" where
  "pg_add_u16_overflow impl a b =
     (if impl = Builtin then builtin_unsigned (uint a + uint b)
      else let res = a + b in if res < a then (True, 0x5EED) else (False, res))"

definition pg_sub_u16_overflow :: "int_impl \<Rightarrow> 16 word \<Rightarrow> 16 word \<Rightarrow> bool \<times> 16 word" where
  "pg_sub_u16_overflow impl a b =
     (if impl = Builtin then builtin_unsigned (uint a - uint b)
      else if b > a then (True, 0x5EED) else (False, a - b))"

definition pg_mul_u16_overflow :: "int_impl \<Rightarrow> 16 word \<Rightarrow> 16 word \<Rightarrow> bool \<times> 16 word" where
  "pg_mul_u16_overflow impl a b =
     (if impl = Builtin then builtin_unsigned (uint a * uint b)
      else narrow_unsigned (ucast a * ucast b :: 32 word))"

definition pg_add_u32_overflow :: "int_impl \<Rightarrow> 32 word \<Rightarrow> 32 word \<Rightarrow> bool \<times> 32 word" where
  "pg_add_u32_overflow impl a b =
     (if impl = Builtin then builtin_unsigned (uint a + uint b)
      else let res = a + b in if res < a then (True, 0x5EED) else (False, res))"

definition pg_sub_u32_overflow :: "int_impl \<Rightarrow> 32 word \<Rightarrow> 32 word \<Rightarrow> bool \<times> 32 word" where
  "pg_sub_u32_overflow impl a b =
     (if impl = Builtin then builtin_unsigned (uint a - uint b)
      else if b > a then (True, 0x5EED) else (False, a - b))"

definition pg_mul_u32_overflow :: "int_impl \<Rightarrow> 32 word \<Rightarrow> 32 word \<Rightarrow> bool \<times> 32 word" where
  "pg_mul_u32_overflow impl a b =
     (if impl = Builtin then builtin_unsigned (uint a * uint b)
      else narrow_unsigned (ucast a * ucast b :: 64 word))"

definition pg_add_u64_overflow :: "int_impl \<Rightarrow> 64 word \<Rightarrow> 64 word \<Rightarrow> bool \<times> 64 word" where
  "pg_add_u64_overflow impl a b =
     (if impl = Builtin then builtin_unsigned (uint a + uint b)
      else let res = a + b in if res < a then (True, 0x5EED) else (False, res))"

definition pg_sub_u64_overflow :: "int_impl \<Rightarrow> 64 word \<Rightarrow> 64 word \<Rightarrow> bool \<times> 64 word" where
  "pg_sub_u64_overflow impl a b =
     (if impl = Builtin then builtin_unsigned (uint a - uint b)
      else if b > a then (True, 0x5EED) else (False, a - b))"

definition pg_mul_u64_overflow :: "int_impl \<Rightarrow> 64 word \<Rightarrow> 64 word \<Rightarrow> bool \<times> 64 word" where
  "pg_mul_u64_overflow impl a b =
     (case impl of
        Builtin \<Rightarrow> builtin_unsigned (uint a * uint b)
      | Int128 \<Rightarrow> narrow_unsigned (ucast a * ucast b :: 128 word)
      | Portable \<Rightarrow> let res = a * b in if a \<noteq> 0 \<and> b \<noteq> res div a then (True, 0x5EED) else (False, res))"

definition pg_add_size_overflow :: "int_impl \<Rightarrow> 64 word \<Rightarrow> 64 word \<Rightarrow> bool \<times> 64 word" where
  "pg_add_size_overflow impl a b =
     (if impl = Builtin then builtin_unsigned (uint a + uint b)
      else let res = a + b in if res < a then (True, 0x5EED) else (False, res))"

definition pg_sub_size_overflow :: "int_impl \<Rightarrow> 64 word \<Rightarrow> 64 word \<Rightarrow> bool \<times> 64 word" where
  "pg_sub_size_overflow impl a b =
     (if impl = Builtin then builtin_unsigned (uint a - uint b)
      else if b > a then (True, 0x5EED) else (False, a - b))"

definition pg_mul_size_overflow :: "int_impl \<Rightarrow> 64 word \<Rightarrow> 64 word \<Rightarrow> bool \<times> 64 word" where
  "pg_mul_size_overflow impl a b =
     (if impl = Builtin then builtin_unsigned (uint a * uint b)
      else let res = a * b in if a \<noteq> 0 \<and> b \<noteq> res div a then (True, 0x5EED) else (False, res))"

section \<open>What they report\<close>

definition exact_signed :: "bool \<times> 'a::len word \<Rightarrow> int \<Rightarrow> bool" where
  "exact_signed r z \<longleftrightarrow>
     fst r = (\<not> (- (2 ^ (LENGTH('a) - 1)) \<le> z \<and> z < 2 ^ (LENGTH('a) - 1))) \<and> (\<not> fst r \<longrightarrow> sint (snd r) = z)"

definition exact_unsigned :: "bool \<times> 'a::len word \<Rightarrow> int \<Rightarrow> bool" where
  "exact_unsigned r z \<longleftrightarrow> fst r = (\<not> (0 \<le> z \<and> z < 2 ^ LENGTH('a))) \<and> (\<not> fst r \<longrightarrow> uint (snd r) = z)"

lemma sint_word_of_int_iff:
  "sint (word_of_int z :: 'a::len word) = z \<longleftrightarrow> - (2 ^ (LENGTH('a) - 1)) \<le> z \<and> z < 2 ^ (LENGTH('a) - 1)"
proof
  assume "sint (word_of_int z :: 'a word) = z"
  then show "- (2 ^ (LENGTH('a) - 1)) \<le> z \<and> z < 2 ^ (LENGTH('a) - 1)"
    using sint_ge [of "word_of_int z :: 'a word"] sint_lt [of "word_of_int z :: 'a word"] by simp
next
  assume "- (2 ^ (LENGTH('a) - 1)) \<le> z \<and> z < 2 ^ (LENGTH('a) - 1)"
  then show "sint (word_of_int z :: 'a word) = z"
    by (simp add: signed_of_int signed_take_bit_int_eq_self)
qed

lemma builtin_signed_exact: "exact_signed (builtin_signed z) z"
  by (simp add: exact_signed_def builtin_signed_def sint_word_of_int_iff)

lemma builtin_unsigned_exact: "exact_unsigned (builtin_unsigned z) z"
  by (simp add: exact_unsigned_def builtin_unsigned_def unsigned_of_int take_bit_int_eq_self_iff)

lemma narrow_signed_exact: "sint (res :: 'w::len word) = z \<Longrightarrow> exact_signed (narrow_signed res :: bool \<times> 'a::len word) z"
  by (auto simp: exact_signed_def narrow_signed_def signed_scast_eq signed_take_bit_int_eq_self)

lemma narrow_unsigned_exact: "uint (res :: 'w::len word) = z \<Longrightarrow> exact_unsigned (narrow_unsigned res :: bool \<times> 'a::len word) z"
  by (auto simp: exact_unsigned_def narrow_unsigned_def unsigned_ucast_eq take_bit_int_eq_self)


text \<open>At twice the width nothing overflows.\<close>

lemma sint_product_bound:
  fixes x y B :: int
  assumes "- B \<le> x" "x < B" "- B \<le> y" "y < B"
  shows "- (B * B) \<le> x * y" and "x * y \<le> B * B"
proof -
  have "\<bar>x\<bar> * \<bar>y\<bar> \<le> B * B" using assms by (intro mult_mono) auto
  then show "- (B * B) \<le> x * y" "x * y \<le> B * B" by (simp_all add: abs_le_iff flip: abs_mult)
qed

lemma wide_signed:
  fixes a b :: "'a::len word"
  assumes "2 * LENGTH('a) \<le> LENGTH('w::len)"
  shows "sint (scast a + scast b :: 'w word) = sint a + sint b"
    and "sint (scast a - scast b :: 'w word) = sint a - sint b"
    and "sint (scast a * scast b :: 'w word) = sint a * sint b"
proof -
  let ?B = "2 ^ (LENGTH('a) - 1) :: int" and ?W = "2 ^ (LENGTH('w) - 1) :: int"
  have len: "0 < LENGTH('a)" by simp
  have B: "0 < ?B" "2 * ?B \<le> ?W" "?B * ?B < ?W"
  proof -
    have "2 * ?B = 2 ^ LENGTH('a)" using len by (metis Suc_diff_1 power_Suc)
    also have "\<dots> \<le> ?W" using assms len by (intro power_increasing) linarith+
    finally show "2 * ?B \<le> ?W" .
    have "?B * ?B = 2 ^ (2 * LENGTH('a) - 2)" using len by (simp flip: power_add add: mult_2)
    also have "\<dots> < ?W" using assms len by (intro power_strict_increasing) linarith+
    finally show "?B * ?B < ?W" .
  qed simp
  have up: "sint (scast x :: 'w word) = sint x" for x :: "'a word"
    using assms len by (intro sint_up_scast) (simp add: is_up)
  have a: "- ?B \<le> sint a" "sint a < ?B" and b: "- ?B \<le> sint b" "sint b < ?B"
    using sint_ge [of a] sint_lt [of a] sint_ge [of b] sint_lt [of b] by simp_all
  have eq: "signed_take_bit (LENGTH('w) - 1) z = z" if "- ?W \<le> z" "z < ?W" for z
    using that by (intro signed_take_bit_int_eq_self) simp_all
  show "sint (scast a + scast b :: 'w word) = sint a + sint b"
    unfolding sint_word_ariths up by (rule eq) (use a b B in linarith)+
  show "sint (scast a - scast b :: 'w word) = sint a - sint b"
    unfolding sint_word_ariths up by (rule eq) (use a b B in linarith)+
  show "sint (scast a * scast b :: 'w word) = sint a * sint b"
    unfolding sint_word_ariths up by (rule eq) (use sint_product_bound [OF a b] B in linarith)+
qed

lemma wide_unsigned:
  fixes a b :: "'a::len word"
  assumes "2 * LENGTH('a) \<le> LENGTH('w::len)"
  shows "uint (ucast a * ucast b :: 'w word) = uint a * uint b"
proof -
  have up: "uint (ucast x :: 'w word) = uint x" for x :: "'a word"
  proof -
    have "LENGTH('a) \<le> LENGTH('w)" using assms by linarith
    then show ?thesis by (simp add: unsigned_ucast_eq take_bit_int_eq_self order.strict_trans2 [OF uint_lt2p power_increasing])
  qed
  have "uint a * uint b < 2 ^ LENGTH('a) * 2 ^ LENGTH('a)"
    by (intro mult_strict_mono) auto
  also have "\<dots> \<le> 2 ^ LENGTH('w)" using assms by (simp add: mult_2 flip: power_add)
  finally show ?thesis by (simp add: uint_word_ariths up)
qed

text \<open>The portable bodies for unsigned integers, at any width.\<close>

lemma unsigned_add_exact:
  "exact_unsigned (let res = a + b in if res < a then (True, e) else (False, res)) (uint a + uint b)" for a b e :: "'a::len word"
proof -
  have "uint (a + b) = (if uint a + uint b < 2 ^ LENGTH('a) then uint a + uint b else uint a + uint b - 2 ^ LENGTH('a))"
    by (simp add: uint_plus_if')
  moreover have "uint a < 2 ^ LENGTH('a)" "uint b < 2 ^ LENGTH('a)" "0 \<le> uint a" "0 \<le> uint b" by simp_all
  ultimately show ?thesis by (auto simp: exact_unsigned_def Let_def word_less_def split: if_splits)
qed

lemma unsigned_sub_exact:
  "exact_unsigned (if b > a then (True, e) else (False, a - b)) (uint a - uint b)" for a b e :: "'a::len word"
proof -
  have "uint a - uint b < 2 ^ LENGTH('a)" using uint_lt2p [of a] uint_ge_0 [of b] by linarith
  then show ?thesis by (auto simp: exact_unsigned_def word_less_def uint_sub_if')
qed

lemma unsigned_mul_exact:
  "exact_unsigned (let res = a * b in if a \<noteq> 0 \<and> b \<noteq> res div a then (True, e) else (False, res)) (uint a * uint b)"
  for a b e :: "'a::len word"
proof (cases "uint a * uint b < 2 ^ LENGTH('a)")
  case True
  then have "uint (a * b) = uint a * uint b" by (simp add: uint_word_ariths)
  moreover have "b = a * b div a" if "a \<noteq> 0"
  proof -
    have "uint a \<noteq> 0" using that by (simp add: uint_0_iff)
    then show ?thesis using \<open>uint (a * b) = uint a * uint b\<close> by (simp add: word_uint_eq_iff uint_div)
  qed
  ultimately show ?thesis using True by (auto simp: exact_unsigned_def Let_def)
next
  case False
  then have a: "uint a \<noteq> 0" by auto
  have "b \<noteq> a * b div a"
  proof
    assume "b = a * b div a"
    then have "uint b = uint (a * b) div uint a" by (metis uint_div)
    moreover have "uint a * (uint (a * b) div uint a) = uint (a * b) - uint (a * b) mod uint a"
      by (simp add: minus_mod_eq_mult_div)
    moreover have "0 \<le> uint (a * b) mod uint a" using a by (simp add: order_less_le)
    ultimately have "uint a * uint b \<le> uint (a * b)" by simp
    with False uint_lt2p [of "a * b"] show False by linarith
  qed
  with a False show ?thesis by (auto simp: exact_unsigned_def Let_def)
qed


section \<open>The portable bodies at 64 bits\<close>

lemma div_less_int: "0 < c \<Longrightarrow> n div c < a \<longleftrightarrow> n < a * (c :: int)"
proof
  assume c: "0 < c" and "n div c < a"
  then have "n div c + 1 \<le> a" by simp
  then have "(n div c + 1) * c \<le> a * c" using c by (intro mult_right_mono) auto
  moreover have "n < (n div c + 1) * c" using pos_mod_bound [OF c, of n] div_mult_mod_eq [of n c] unfolding distrib_right mult_1 by linarith
  ultimately show "n < a * c" by linarith
next
  assume c: "0 < c" and "n < a * c"
  moreover have "n div c * c \<le> n" using c by (simp add: minus_mod_eq_div_mult [symmetric])
  ultimately have "n div c * c < a * c" by linarith
  then show "n div c < a" using c by (simp add: mult_less_cancel_right)
qed

lemma sdiv_signs:
  fixes n c :: int
  assumes "0 \<le> n" and "0 < c"
  shows "n sdiv c = n div c" and "(- n) sdiv c = - (n div c)" and "n sdiv (- c) = - (n div c)"
  using assms by (auto simp: signed_divide_int_def sgn_if)

lemma PG_INT64_bounds: "PG_INT64_MAX = 2 ^ 63 - 1" "PG_INT64_MIN = - (2 ^ 63)"
  by (simp_all add: PG_INT64_MAX_def PG_INT64_MIN_def)

text \<open>The four tests of the multiplication, by the signs of the factors.\<close>

lemma mul_tests:
  fixes x y :: int
  shows "0 < x \<Longrightarrow> 0 < y \<Longrightarrow> x > PG_INT64_MAX sdiv y \<longleftrightarrow> x * y > PG_INT64_MAX"
    and "0 < x \<Longrightarrow> y < 0 \<Longrightarrow> y < PG_INT64_MIN sdiv x \<longleftrightarrow> x * y < PG_INT64_MIN"
    and "x < 0 \<Longrightarrow> 0 < y \<Longrightarrow> x < PG_INT64_MIN sdiv y \<longleftrightarrow> x * y < PG_INT64_MIN"
    and "x < 0 \<Longrightarrow> y < 0 \<Longrightarrow> x < PG_INT64_MAX sdiv y \<longleftrightarrow> x * y > PG_INT64_MAX"
proof -
  have M: "(0::int) \<le> 2 ^ 63 - 1" "(0::int) \<le> 2 ^ 63" by simp_all
  show "0 < x \<Longrightarrow> 0 < y \<Longrightarrow> x > PG_INT64_MAX sdiv y \<longleftrightarrow> x * y > PG_INT64_MAX"
    by (simp only: PG_INT64_bounds sdiv_signs [OF M(1)] div_less_int)
  show "x < PG_INT64_MAX sdiv y \<longleftrightarrow> x * y > PG_INT64_MAX" if "x < 0" "y < 0"
  proof -
    have "PG_INT64_MAX sdiv y = - ((2 ^ 63 - 1) div (- y))"
      using sdiv_signs(3) [OF M(1), of "- y"] that by (simp add: PG_INT64_bounds)
    moreover have "(2 ^ 63 - 1) div (- y) < - x \<longleftrightarrow> 2 ^ 63 - 1 < (- x) * (- y)"
      using that by (intro div_less_int) simp
    ultimately show ?thesis by (simp only: PG_INT64_bounds minus_mult_minus less_minus_iff)
  qed
  have neg: "z < PG_INT64_MIN sdiv w \<longleftrightarrow> w * z < PG_INT64_MIN" if "0 < w" "z < 0" for z w :: int
  proof -
    have "PG_INT64_MIN sdiv w = - (2 ^ 63 div w)"
      using sdiv_signs(2) [OF M(2) that(1)] by (simp only: PG_INT64_bounds)
    moreover have "2 ^ 63 div w < - z \<longleftrightarrow> 2 ^ 63 < (- z) * w" using that by (intro div_less_int)
    ultimately show ?thesis unfolding PG_INT64_bounds mult_minus_left mult.commute [of w] by linarith
  qed
  show "0 < x \<Longrightarrow> y < 0 \<Longrightarrow> y < PG_INT64_MIN sdiv x \<longleftrightarrow> x * y < PG_INT64_MIN" by (rule neg)
  show "x < 0 \<Longrightarrow> 0 < y \<Longrightarrow> x < PG_INT64_MIN sdiv y \<longleftrightarrow> x * y < PG_INT64_MIN"
    using neg [of y x] by (simp only: mult.commute)
qed

lemma sint64_range: "PG_INT64_MIN \<le> sint (a :: 64 word)" "sint a \<le> PG_INT64_MAX"
  using sint_ge [of a] sint_lt [of a] by (simp_all add: PG_INT64_MIN_def PG_INT64_MAX_def)

text \<open>No portable test computes a value out of range: the bounds it compares with are 64-bit values.\<close>

lemma portable_tests_in_range:
  fixes a b :: "64 word"
  shows "0 < sint b \<Longrightarrow> PG_INT64_MIN \<le> PG_INT64_MAX - sint b \<and> PG_INT64_MAX - sint b \<le> PG_INT64_MAX"
    and "sint b < 0 \<Longrightarrow> PG_INT64_MIN \<le> PG_INT64_MIN - sint b \<and> PG_INT64_MIN - sint b \<le> PG_INT64_MAX"
    and "0 < sint b \<Longrightarrow> PG_INT64_MIN \<le> PG_INT64_MIN + sint b \<and> PG_INT64_MIN + sint b \<le> PG_INT64_MAX"
    and "sint b < 0 \<Longrightarrow> PG_INT64_MIN \<le> PG_INT64_MAX + sint b \<and> PG_INT64_MAX + sint b \<le> PG_INT64_MAX"
  using sint64_range [of b] by (simp_all add: PG_INT64_MIN_def PG_INT64_MAX_def)

lemma mul_portable_test:
  fixes a b :: "64 word"
  defines "x \<equiv> sint a" and "y \<equiv> sint b"
  shows "((x > PG_INT32_MAX \<or> x < PG_INT32_MIN \<or> y > PG_INT32_MAX \<or> y < PG_INT32_MIN) \<and>
      x \<noteq> 0 \<and> x \<noteq> 1 \<and> y \<noteq> 0 \<and> y \<noteq> 1 \<and>
      ((x > 0 \<and> y > 0 \<and> x > PG_INT64_MAX sdiv y) \<or> (x > 0 \<and> y < 0 \<and> y < PG_INT64_MIN sdiv x) \<or>
       (x < 0 \<and> y > 0 \<and> x < PG_INT64_MIN sdiv y) \<or> (x < 0 \<and> y < 0 \<and> x < PG_INT64_MAX sdiv y)))
    \<longleftrightarrow> \<not> (PG_INT64_MIN \<le> x * y \<and> x * y \<le> PG_INT64_MAX)"
  (is "?guard \<and> x \<noteq> 0 \<and> x \<noteq> 1 \<and> y \<noteq> 0 \<and> y \<noteq> 1 \<and> ?tests \<longleftrightarrow> \<not> ?fits")
proof -
  have r: "PG_INT64_MIN \<le> x" "x \<le> PG_INT64_MAX" "PG_INT64_MIN \<le> y" "y \<le> PG_INT64_MAX"
    unfolding x_def y_def by (rule sint64_range)+
  have one: "?fits" if "x \<in> {0, 1} \<or> y \<in> {0, 1}" using that r by (auto simp: PG_INT64_bounds)
  have small: "?fits" if "\<not> ?guard"
    using that sint_product_bound [of "2 ^ 31" x y] by (simp add: PG_INT32_MAX_def PG_INT32_MIN_def PG_INT64_MAX_def PG_INT64_MIN_def)
  have pos: "0 \<le> x * y \<Longrightarrow> PG_INT64_MIN \<le> x * y" and neg: "x * y \<le> 0 \<Longrightarrow> x * y \<le> PG_INT64_MAX"
    by (simp_all add: PG_INT64_bounds)
  have "?tests \<longleftrightarrow> \<not> ?fits" if "x \<noteq> 0" "y \<noteq> 0"
  proof (cases "0 < x"; cases "0 < y")
    assume s: "0 < x" "0 < y"
    then have "0 \<le> x * y" by simp
    with s mul_tests(1) [OF s] pos show ?thesis by auto
  next
    assume "0 < x" "\<not> 0 < y"
    then have s: "0 < x" "y < 0" using that by auto
    then have "x * y \<le> 0" by (simp add: mult_nonneg_nonpos)
    with s mul_tests(2) [OF s] neg show ?thesis by auto
  next
    assume "\<not> 0 < x" "0 < y"
    then have s: "x < 0" "0 < y" using that by auto
    then have "x * y \<le> 0" by (simp add: mult_nonpos_nonneg)
    with s mul_tests(3) [OF s] neg show ?thesis by auto
  next
    assume "\<not> 0 < x" "\<not> 0 < y"
    then have s: "x < 0" "y < 0" using that by auto
    then have "0 \<le> x * y" by (simp add: mult_nonpos_nonpos)
    with s mul_tests(4) [OF s] pos show ?thesis by auto
  qed
  with one small show ?thesis by auto
qed

text \<open>A result that fits is what the word operation stores.\<close>

lemma fits_signed:
  fixes a b :: "'a::len word"
  assumes "- (2 ^ (LENGTH('a) - 1)) \<le> z" and "z < 2 ^ (LENGTH('a) - 1)"
  shows "z = sint a + sint b \<Longrightarrow> sint (a + b) = z" and "z = sint a - sint b \<Longrightarrow> sint (a - b) = z"
    and "z = sint a * sint b \<Longrightarrow> sint (a * b) = z"
  using assms signed_take_bit_int_eq_self [of "LENGTH('a) - 1" z] by (auto simp only: sint_word_ariths)

lemma s64_portable:
  fixes a b :: "64 word"
  shows "exact_signed (pg_add_s64_overflow Portable a b) (sint a + sint b)"
    and "exact_signed (pg_sub_s64_overflow Portable a b) (sint a - sint b)"
    and "exact_signed (pg_mul_s64_overflow Portable a b) (sint a * sint b)"
proof -
  have e: "exact_signed (if test then (True, e) else (False, res)) z"
    if "test \<longleftrightarrow> \<not> (PG_INT64_MIN \<le> z \<and> z \<le> PG_INT64_MAX)"
      "- (2 ^ 63) \<le> z \<Longrightarrow> z < 2 ^ 63 \<Longrightarrow> sint res = z" for test z and e res :: "64 word"
    using that by (auto simp: exact_signed_def PG_INT64_bounds)
  note f = fits_signed [where 'a = 64, simplified]
  show "exact_signed (pg_add_s64_overflow Portable a b) (sint a + sint b)"
    unfolding pg_add_s64_overflow_def int_impl.case
    by (rule e) (use sint64_range [of a] sint64_range [of b] in \<open>auto simp: PG_INT64_bounds intro: f(1)\<close>)
  show "exact_signed (pg_sub_s64_overflow Portable a b) (sint a - sint b)"
    unfolding pg_sub_s64_overflow_def int_impl.case
    by (rule e) (use sint64_range [of a] sint64_range [of b] in \<open>auto simp: PG_INT64_bounds intro: f(2)\<close>)
  show "exact_signed (pg_mul_s64_overflow Portable a b) (sint a * sint b)"
    unfolding pg_mul_s64_overflow_def int_impl.case
    by (rule e [OF mul_portable_test]) (auto intro: f(3))
qed

section \<open>Properties\<close>

text \<open>C30: Whatever body the preprocessor keeps, the functions for signed integers report exactly the
  overflows of the type and otherwise store the exact result; so the bodies are equivalent, and a
  caller that looks at the result only when nothing was reported cannot tell them apart.\<close>

theorem signed_overflow_exact:
  "exact_signed (pg_add_s16_overflow impl (a16 :: 16 word) b16) (sint a16 + sint b16) \<and>
    exact_signed (pg_sub_s16_overflow impl (a16 :: 16 word) b16) (sint a16 - sint b16) \<and>
    exact_signed (pg_mul_s16_overflow impl (a16 :: 16 word) b16) (sint a16 * sint b16) \<and>
    exact_signed (pg_add_s32_overflow impl (a32 :: 32 word) b32) (sint a32 + sint b32) \<and>
    exact_signed (pg_sub_s32_overflow impl (a32 :: 32 word) b32) (sint a32 - sint b32) \<and>
    exact_signed (pg_mul_s32_overflow impl (a32 :: 32 word) b32) (sint a32 * sint b32) \<and>
    exact_signed (pg_add_s64_overflow impl (a64 :: 64 word) b64) (sint a64 + sint b64) \<and>
    exact_signed (pg_sub_s64_overflow impl (a64 :: 64 word) b64) (sint a64 - sint b64) \<and>
    exact_signed (pg_mul_s64_overflow impl (a64 :: 64 word) b64) (sint a64 * sint b64)"
  by (cases impl)
    (simp_all add: pg_add_s16_overflow_def pg_sub_s16_overflow_def pg_mul_s16_overflow_def
      pg_add_s32_overflow_def pg_sub_s32_overflow_def pg_mul_s32_overflow_def
      builtin_signed_exact narrow_signed_exact wide_signed s64_portable
      pg_add_s64_overflow_def [of Builtin] pg_sub_s64_overflow_def [of Builtin] pg_mul_s64_overflow_def [of Builtin]
      pg_add_s64_overflow_def [of Int128] pg_sub_s64_overflow_def [of Int128] pg_mul_s64_overflow_def [of Int128])

text \<open>The same for the unsigned integers, where the portable bodies test the wrapped result: a sum
  that is smaller than an operand, a product that the first factor does not divide back.\<close>

theorem unsigned_overflow_exact:
  "exact_unsigned (pg_add_u16_overflow impl (a16 :: 16 word) b16) (uint a16 + uint b16) \<and>
    exact_unsigned (pg_sub_u16_overflow impl (a16 :: 16 word) b16) (uint a16 - uint b16) \<and>
    exact_unsigned (pg_mul_u16_overflow impl (a16 :: 16 word) b16) (uint a16 * uint b16) \<and>
    exact_unsigned (pg_add_u32_overflow impl (a32 :: 32 word) b32) (uint a32 + uint b32) \<and>
    exact_unsigned (pg_sub_u32_overflow impl (a32 :: 32 word) b32) (uint a32 - uint b32) \<and>
    exact_unsigned (pg_mul_u32_overflow impl (a32 :: 32 word) b32) (uint a32 * uint b32) \<and>
    exact_unsigned (pg_add_u64_overflow impl (a64 :: 64 word) b64) (uint a64 + uint b64) \<and>
    exact_unsigned (pg_sub_u64_overflow impl (a64 :: 64 word) b64) (uint a64 - uint b64) \<and>
    exact_unsigned (pg_mul_u64_overflow impl (a64 :: 64 word) b64) (uint a64 * uint b64) \<and>
    exact_unsigned (pg_add_size_overflow impl (a64 :: 64 word) b64) (uint a64 + uint b64) \<and>
    exact_unsigned (pg_sub_size_overflow impl (a64 :: 64 word) b64) (uint a64 - uint b64) \<and>
    exact_unsigned (pg_mul_size_overflow impl (a64 :: 64 word) b64) (uint a64 * uint b64)"
  by (cases impl)
    (simp_all add: pg_add_u16_overflow_def pg_sub_u16_overflow_def pg_mul_u16_overflow_def
      pg_add_u32_overflow_def pg_sub_u32_overflow_def pg_mul_u32_overflow_def
      pg_add_u64_overflow_def pg_sub_u64_overflow_def pg_mul_u64_overflow_def
      pg_add_size_overflow_def pg_sub_size_overflow_def pg_mul_size_overflow_def
      builtin_unsigned_exact narrow_unsigned_exact wide_unsigned
      unsigned_add_exact unsigned_sub_exact unsigned_mul_exact)

end
