(* ===== verification/Int128.thy ===== *)
theory Int128
  imports IntOverflow
begin

text \<open>
  128-bit arithmetic: \<open>common/int128.h\<close> with both of its branches, the emulation by two 64-bit halves and
  the native type, and their agreement.  Arithmetic on the signed upper half is modulo \<open>2 ^ 64\<close>, as on
  every platform the server supports.
\<close>

unbundle bit_operations_syntax

section \<open>The emulation\<close>

record INT128 =
  i128_lo :: u64
  i128_hi :: i64

definition int128_add_uint64 :: "INT128 \<Rightarrow> u64 \<Rightarrow> INT128" where
  "int128_add_uint64 i128 v =
     (let oldlo = i128_lo i128;
          i128 = i128\<lparr>i128_lo := i128_lo i128 + v\<rparr>
      in if (v <s 0 \<and> oldlo <s 0) \<or> ((v <s 0 \<or> oldlo <s 0) \<and> 0 \<le>s i128_lo i128)
         then i128\<lparr>i128_hi := i128_hi i128 + 1\<rparr> else i128)"

definition int128_add_int64 :: "INT128 \<Rightarrow> i64 \<Rightarrow> INT128" where
  "int128_add_int64 i128 v =
     (let oldlo = i128_lo i128;
          i128 = i128\<lparr>i128_lo := i128_lo i128 + v\<rparr>
      in if 0 \<le>s v
         then if oldlo <s 0 \<and> 0 \<le>s i128_lo i128 then i128\<lparr>i128_hi := i128_hi i128 + 1\<rparr> else i128
         else if \<not> (oldlo <s 0 \<or> 0 \<le>s i128_lo i128) then i128\<lparr>i128_hi := i128_hi i128 - 1\<rparr> else i128)"

definition INT64_AU32 :: "i64 \<Rightarrow> i64" where
  "INT64_AU32 i = signed_drop_bit 32 i"

definition INT64_AL32 :: "i64 \<Rightarrow> u64" where
  "INT64_AL32 i = i AND 0xFFFFFFFF"

text \<open>\<open>tmp\<close> is added at the middle of the result, with its sign or without.\<close>

definition add_middle :: "bool \<Rightarrow> i64 \<Rightarrow> INT128 \<Rightarrow> INT128" where
  "add_middle sx tmp i128 =
     int128_add_uint64 (i128\<lparr>i128_hi := i128_hi i128 + (if sx then INT64_AU32 tmp else drop_bit 32 tmp)\<rparr>)
       (push_bit 32 (INT64_AL32 tmp))"

definition int128_add_int64_mul_int64 :: "INT128 \<Rightarrow> i64 \<Rightarrow> i64 \<Rightarrow> INT128" where
  "int128_add_int64_mul_int64 i128 x y =
     (if x \<noteq> 0 \<and> y \<noteq> 0
      then
        let x_u32 = INT64_AU32 x; x_l32 = INT64_AL32 x; y_u32 = INT64_AU32 y; y_l32 = INT64_AL32 y;
            i128 = i128\<lparr>i128_hi := i128_hi i128 + x_u32 * y_u32\<rparr>;
            i128 = add_middle (x <s 0) (x_u32 * y_l32) i128;
            i128 = add_middle (y <s 0) (x_l32 * y_u32) i128
        in int128_add_uint64 i128 (x_l32 * y_l32)
      else i128)"

definition int128_compare :: "INT128 \<Rightarrow> INT128 \<Rightarrow> int" where
  "int128_compare x y =
     (if i128_hi x <s i128_hi y then - 1
      else if i128_hi y <s i128_hi x then 1
      else if i128_lo x < i128_lo y then - 1
      else if i128_lo y < i128_lo x then 1
      else 0)"

definition int64_to_int128 :: "i64 \<Rightarrow> INT128" where
  "int64_to_int128 v = \<lparr>i128_lo = v, i128_hi = (if v <s 0 then - 1 else 0)\<rparr>"

definition int128_to_int64 :: "INT128 \<Rightarrow> i64" where
  "int128_to_int64 val = i128_lo val"

section \<open>With a native type\<close>

text \<open>The other branch of the header, where the compiler has 128-bit integers.\<close>

type_synonym int128 = "128 word"

definition native_add_uint64 :: "int128 \<Rightarrow> u64 \<Rightarrow> int128" where
  "native_add_uint64 i128 v = i128 + ucast v"

definition native_add_int64 :: "int128 \<Rightarrow> i64 \<Rightarrow> int128" where
  "native_add_int64 i128 v = i128 + scast v"

definition native_add_int64_mul_int64 :: "int128 \<Rightarrow> i64 \<Rightarrow> i64 \<Rightarrow> int128" where
  "native_add_int64_mul_int64 i128 x y = i128 + scast x * scast y"

definition native_compare :: "int128 \<Rightarrow> int128 \<Rightarrow> int" where
  "native_compare x y = (if x <s y then - 1 else if y <s x then 1 else 0)"

definition native_of_int64 :: "i64 \<Rightarrow> int128" where
  "native_of_int64 v = scast v"

definition native_to_int64 :: "int128 \<Rightarrow> i64" where
  "native_to_int64 val = ucast val"

section \<open>The number that a pair stands for\<close>

definition int128_val :: "INT128 \<Rightarrow> int" where
  "int128_val i = sint (i128_hi i) * 2 ^ 64 + uint (i128_lo i)"

text \<open>The same modulo \<open>2 ^ 128\<close>, where addition has no exceptions.\<close>

definition int128_word :: "INT128 \<Rightarrow> 128 word" where
  "int128_word i = word_of_int (int128_val i)"

lemma uint_less: "uint (w :: u64) < 2 ^ 64" "0 \<le> uint w"
  using uint_bounded [of w] by simp_all

lemma sint_range: "- (2 ^ 63) \<le> sint (w :: i64)" "sint w < 2 ^ 63"
  using sint_ge [of w] sint_lt [of w] by simp_all

lemma sint_cases: "sint (w :: i64) = (if uint w < 2 ^ 63 then uint w else uint w - 2 ^ 64)"
proof (cases "uint w < 2 ^ 63")
  case True
  then have "sint (word_of_int (uint w) :: i64) = uint w" unfolding sint_word_of_int_iff by simp (use uint_less(2) [of w] in linarith)
  with True show ?thesis by simp
next
  case False
  have w: "(word_of_int (uint w - 2 ^ 64) :: i64) = w" by simp
  have "sint (word_of_int (uint w - 2 ^ 64) :: i64) = uint w - 2 ^ 64"
    unfolding sint_word_of_int_iff using False uint_less [of w] by simp
  then show ?thesis using False unfolding w by simp
qed

lemma negative_i64: "(w :: i64) <s 0 \<longleftrightarrow> 2 ^ 63 \<le> uint w"
  using uint_less [of w] by (simp add: word_sless_alt sint_cases)

lemma nonnegative_i64: "0 \<le>s (w :: i64) \<longleftrightarrow> uint w < 2 ^ 63"
  using uint_less [of w] by (simp add: word_sle_eq sint_cases)

lemma val_range: "- (2 ^ 127) \<le> int128_val i \<and> int128_val i < 2 ^ 127"
proof -
  have s: "- 9223372036854775808 \<le> sint (i128_hi i)" "sint (i128_hi i) < 9223372036854775808"
    using sint_range [of "i128_hi i"] by simp_all
  have u: "uint (i128_lo i) < 18446744073709551616" using uint_less [of "i128_lo i"] by simp
  have "- 170141183460469231731687303715884105728 \<le> sint (i128_hi i) * 18446744073709551616 + uint (i128_lo i)"
    "sint (i128_hi i) * 18446744073709551616 + uint (i128_lo i) < 170141183460469231731687303715884105728"
    using s u uint_less(2) [of "i128_lo i"] by linarith+
  then show ?thesis by (simp add: int128_val_def)
qed

lemma word_val: "sint (int128_word i) = int128_val i"
  unfolding int128_word_def sint_word_of_int_iff using val_range [of i] by simp

definition high_word :: "i64 \<Rightarrow> 128 word" where
  "high_word h = word_of_int (sint h * 2 ^ 64)"

lemma int128_word_split: "int128_word i = high_word (i128_hi i) + word_of_int (uint (i128_lo i))"
  by (simp add: int128_word_def int128_val_def high_word_def)

lemma high_word_of_int: "high_word (word_of_int z) = word_of_int (z * 2 ^ 64)"
proof -
  have "sint (word_of_int z :: i64) mod 2 ^ 64 = z mod 2 ^ 64"
    using uint_sint [of "word_of_int z :: i64"] by (simp add: take_bit_eq_mod unsigned_of_int)
  then have "(2 ^ 64 * sint (word_of_int z :: i64)) mod (2 ^ 64 * 2 ^ 64) = (2 ^ 64 * z) mod (2 ^ 64 * 2 ^ 64)"
    by (simp only: mult_mod_right [symmetric])
  then show ?thesis unfolding high_word_def word_of_int_eq_iff take_bit_eq_mod by (simp add: mult.commute)
qed

lemma high_word_add: "high_word (a + b) = high_word a + high_word b"
proof -
  have "a + b = word_of_int (sint a + sint b)" by simp
  then show ?thesis by (simp only: high_word_of_int) (simp add: high_word_def distrib_right)
qed

lemma high_word_mult: "high_word (a * b) = word_of_int (sint a * sint b * 2 ^ 64)"
proof -
  have "a * b = word_of_int (sint a * sint b)" by simp
  then show ?thesis by (simp only: high_word_of_int)
qed

lemma high_word_1: "high_word 1 = word_of_int (2 ^ 64)" "high_word (- 1) = - word_of_int (2 ^ 64)"
  using high_word_of_int [of 1] high_word_of_int [of "- 1"] by simp_all

text \<open>The carry out of the lower half.\<close>

lemma low_carry: "uint (a + b :: u64) = (if uint a + uint b < 2 ^ 64 then uint a + uint b else uint a + uint b - 2 ^ 64)"
proof (cases "uint a + uint b < 2 ^ 64")
  case True
  then show ?thesis using uint_less(2) [of a] uint_less(2) [of b] by (simp add: uint_word_ariths)
next
  case False
  have "(uint a + uint b) mod 2 ^ 64 = (uint a + uint b - 2 ^ 64) mod 2 ^ 64" by simp
  also have "\<dots> = uint a + uint b - 2 ^ 64"
    by (rule mod_pos_pos_trivial) (use False uint_less [of a] uint_less [of b] in linarith)+
  finally show ?thesis using False by (simp add: uint_word_ariths)
qed

lemma carries:
  fixes a b :: int
  assumes "0 \<le> a" "a < 2 ^ 64" "0 \<le> b" "b < 2 ^ 64"
  defines "c \<equiv> (if a + b < 2 ^ 64 then a + b else a + b - 2 ^ 64)"
  shows "(2 ^ 63 \<le> b \<and> 2 ^ 63 \<le> a) \<or> ((2 ^ 63 \<le> b \<or> 2 ^ 63 \<le> a) \<and> c < 2 ^ 63) \<longleftrightarrow> 2 ^ 64 \<le> a + b"
    and "b < 2 ^ 63 \<Longrightarrow> 2 ^ 63 \<le> a \<and> c < 2 ^ 63 \<longleftrightarrow> 2 ^ 64 \<le> a + b"
    and "2 ^ 63 \<le> b \<Longrightarrow> \<not> (2 ^ 63 \<le> a \<or> c < 2 ^ 63) \<longleftrightarrow> \<not> 2 ^ 64 \<le> a + b"
  using assms by auto

theorem add_uint64_exact: "int128_word (int128_add_uint64 i v) = int128_word i + word_of_int (uint v)"
proof -
  let ?l = "i128_lo i"
  have c: "(v <s 0 \<and> ?l <s 0) \<or> ((v <s 0 \<or> ?l <s 0) \<and> 0 \<le>s ?l + v) \<longleftrightarrow> 2 ^ 64 \<le> uint ?l + uint v"
    unfolding negative_i64 nonnegative_i64 low_carry by (rule carries(1)) (rule uint_less)+
  have "(word_of_int (uint (?l + v)) :: 128 word) =
      word_of_int (uint ?l) + word_of_int (uint v) - (if 2 ^ 64 \<le> uint ?l + uint v then word_of_int (2 ^ 64) else 0)"
    by (simp only: low_carry) (simp add: not_le [symmetric])
  then show ?thesis
    unfolding int128_add_uint64_def Let_def
    by (simp add: c int128_word_split high_word_add high_word_1)
qed

theorem add_int64_exact: "int128_word (int128_add_int64 i v) = int128_word i + word_of_int (sint v)"
proof -
  let ?l = "i128_lo i"
  have l: "(word_of_int (uint (?l + v)) :: 128 word) =
      word_of_int (uint ?l) + word_of_int (uint v) - (if 2 ^ 64 \<le> uint ?l + uint v then word_of_int (2 ^ 64) else 0)"
    by (simp only: low_carry) (simp add: not_le [symmetric])
  have s: "(word_of_int (sint v) :: 128 word) = word_of_int (uint v) - (if v <s 0 then word_of_int (2 ^ 64) else 0)"
    by (simp add: sint_cases negative_i64)
  show ?thesis
  proof (cases "v <s 0")
    case True
    have "\<not> (?l <s 0 \<or> 0 \<le>s ?l + v) \<longleftrightarrow> \<not> 2 ^ 64 \<le> uint ?l + uint v"
      using True unfolding negative_i64 nonnegative_i64 low_carry by (intro carries(3)) (rule uint_less | assumption)+
    then show ?thesis using True l s uint_less [of v] high_word_add [of "i128_hi i" "- 1"]
      unfolding int128_add_int64_def Let_def
      by (simp add: int128_word_split high_word_1 nonnegative_i64 negative_i64)
  next
    case False
    have "?l <s 0 \<and> 0 \<le>s ?l + v \<longleftrightarrow> 2 ^ 64 \<le> uint ?l + uint v"
      using False unfolding negative_i64 nonnegative_i64 low_carry by (intro carries(2)) (rule uint_less | simp)+
    then show ?thesis using False l s
      unfolding int128_add_int64_def Let_def
      by (simp add: int128_word_split high_word_add high_word_1 nonnegative_i64 negative_i64)
  qed
qed


lemma AL32_uint: "uint (INT64_AL32 i) = uint i mod 2 ^ 32"
proof -
  have "(0xFFFFFFFF :: u64) = mask 32" by (simp add: mask_eq_exp_minus_1)
  then have "INT64_AL32 i = take_bit 32 i" by (simp only: INT64_AL32_def take_bit_eq_mask)
  then show ?thesis by (simp only: unsigned_take_bit_eq) (simp add: take_bit_eq_mod)
qed

lemma AL32_less: "0 \<le> uint (INT64_AL32 i)" "uint (INT64_AL32 i) < 2 ^ 32"
  by (simp_all add: AL32_uint)

lemma AU32_sint: "sint (INT64_AU32 i) = sint i div 2 ^ 32"
  by (simp add: INT64_AU32_def sint_signed_drop_bit_eq drop_bit_eq_div)

lemma word_hi_add: "int128_word (i\<lparr>i128_hi := i128_hi i + h\<rparr>) = int128_word i + high_word h"
proof -
  have "i128_hi (i\<lparr>i128_hi := i128_hi i + h\<rparr>) = i128_hi i + h" "i128_lo (i\<lparr>i128_hi := i128_hi i + h\<rparr>) = i128_lo i" by simp_all
  then show ?thesis by (simp only: int128_word_split high_word_add ac_simps)
qed

lemma middle_exact:
  "int128_word (add_middle sx tmp i) = int128_word i + word_of_int ((if sx then sint tmp else uint tmp) * 2 ^ 32)"
proof -
  let ?x = "if sx then sint tmp else uint tmp"
  have "(uint tmp - 2 ^ 64) mod 2 ^ 32 = uint tmp mod 2 ^ 32"
    using mod_mult_self1 [of "uint tmp" "- (2 ^ 32)" "2 ^ 32 :: int"] by simp
  then have "uint tmp mod 2 ^ 32 = sint tmp mod 2 ^ 32" by (simp add: sint_cases)
  then have low: "uint (INT64_AL32 tmp) = ?x mod 2 ^ 32" by (simp add: AL32_uint)
  have "uint (INT64_AL32 tmp) * 2 ^ 32 < 2 ^ 64" using AL32_less [of tmp] by simp
  then have p: "uint (push_bit 32 (INT64_AL32 tmp)) = ?x mod 2 ^ 32 * 2 ^ 32"
    unfolding low [symmetric] by (simp add: push_bit_eq_mult uint_word_ariths)
  have "high_word (if sx then INT64_AU32 tmp else drop_bit 32 tmp) = word_of_int (?x div 2 ^ 32 * 2 ^ 64)"
  proof (cases sx)
    case True
    then show ?thesis by (simp only: high_word_def AU32_sint if_True)
  next
    case False
    have "uint (drop_bit 32 tmp) = uint tmp div 2 ^ 32"
    proof -
      have "take_bit 64 (uint tmp) = uint tmp" by (rule take_bit_int_eq_self) (rule uint_less)+
      then show ?thesis by (simp only: unsigned_drop_bit_eq) (simp add: drop_bit_eq_div)
    qed
    then have "drop_bit 32 tmp = word_of_int (uint tmp div 2 ^ 32)" by (metis word_of_int_uint)
    with False show ?thesis by (simp only: high_word_of_int if_False)
  qed
  then have "int128_word (add_middle sx tmp i) = int128_word i + word_of_int (?x div 2 ^ 32 * 2 ^ 64 + ?x mod 2 ^ 32 * 2 ^ 32)"
    unfolding add_middle_def add_uint64_exact word_hi_add p by (simp only: of_int_add add.assoc)
  also have "?x div 2 ^ 32 * 2 ^ 64 + ?x mod 2 ^ 32 * 2 ^ 32 = (?x div 2 ^ 32 * 2 ^ 32 + ?x mod 2 ^ 32) * 2 ^ 32"
    by (simp only: distrib_right) simp
  also have "?x div 2 ^ 32 * 2 ^ 32 + ?x mod 2 ^ 32 = ?x" by (rule div_mult_mod_eq)
  finally show ?thesis .
qed


lemma product_low:
  "uint (INT64_AL32 x * INT64_AL32 y) = uint (INT64_AL32 x) * uint (INT64_AL32 y)"
proof -
  have "uint (INT64_AL32 x) * uint (INT64_AL32 y) \<le> (2 ^ 32 - 1) * (2 ^ 32 - 1)"
    using AL32_less [of x] AL32_less [of y] by (intro mult_mono) simp_all
  then show ?thesis using AL32_less [of x] AL32_less [of y] by (simp add: uint_word_ariths)
qed

lemma AU32_range: "- (2 ^ 31) \<le> sint (INT64_AU32 x)" "sint (INT64_AU32 x) < 2 ^ 31" "sint (INT64_AU32 x) < 0 \<longleftrightarrow> x <s 0"
proof -
  have "- 9223372036854775808 \<le> sint x" "sint x < 9223372036854775808" using sint_range [of x] by simp_all
  then show "- (2 ^ 31) \<le> sint (INT64_AU32 x)" "sint (INT64_AU32 x) < 2 ^ 31" "sint (INT64_AU32 x) < 0 \<longleftrightarrow> x <s 0"
    by (auto simp: AU32_sint word_sless_alt)
qed

lemma uint_of_int: "0 \<le> z \<Longrightarrow> z < 2 ^ 64 \<Longrightarrow> uint (word_of_int z :: u64) = z"
  by (simp add: unsigned_of_int take_bit_int_eq_self)

lemma product_middle:
  "(if x <s 0 then sint (INT64_AU32 x * INT64_AL32 y) else uint (INT64_AU32 x * INT64_AL32 y))
    = sint (INT64_AU32 x) * uint (INT64_AL32 y)"
proof -
  let ?h = "sint (INT64_AU32 x)" and ?l = "uint (INT64_AL32 y)"
  have l: "0 \<le> ?l" "?l \<le> 2 ^ 32 - 1" using AL32_less [of y] by simp_all
  have w: "INT64_AU32 x * INT64_AL32 y = word_of_int (?h * ?l)" by simp
  show ?thesis
  proof (cases "x <s 0")
    case True
    then have h: "?h < 0" "- (2 ^ 31) \<le> ?h" using AU32_range [of x] by simp_all
    have "- (2 ^ 31) * (2 ^ 32 - 1) \<le> ?h * (2 ^ 32 - 1)" using h(2) by (intro mult_right_mono) simp_all
    also have "\<dots> \<le> ?h * ?l" using h(1) l(2) by (intro mult_left_mono_neg) simp_all
    finally have "- (2 ^ 31) * (2 ^ 32 - 1) \<le> ?h * ?l" .
    moreover have "?h * ?l \<le> 0" using h(1) l(1) by (simp add: mult_nonpos_nonneg)
    ultimately have "sint (word_of_int (?h * ?l) :: i64) = ?h * ?l" unfolding sint_word_of_int_iff by simp
    then show ?thesis unfolding w if_P [OF True] .
  next
    case False
    then have h: "0 \<le> ?h" "?h \<le> 2 ^ 31 - 1" using AU32_range [of x] by simp_all
    have "?h * ?l \<le> (2 ^ 31 - 1) * (2 ^ 32 - 1)" using h l by (intro mult_mono) simp_all
    then have "uint (word_of_int (?h * ?l) :: u64) = ?h * ?l"
      using h(1) l(1) by (intro uint_of_int) simp_all
    then show ?thesis unfolding w if_not_P [OF False] .
  qed
qed

lemma halves: "sint x = sint (INT64_AU32 x) * 2 ^ 32 + uint (INT64_AL32 x)"
proof -
  have "(uint x - 2 ^ 64) mod 2 ^ 32 = uint x mod 2 ^ 32"
    using mod_mult_self1 [of "uint x" "- (2 ^ 32)" "2 ^ 32 :: int"] by simp
  then have "uint (INT64_AL32 x) = sint x mod 2 ^ 32" by (simp add: AL32_uint sint_cases)
  then show ?thesis by (simp add: AU32_sint)
qed

theorem mul_exact:
  "int128_word (int128_add_int64_mul_int64 i x y) = int128_word i + word_of_int (sint x * sint y)"
proof (cases "x \<noteq> 0 \<and> y \<noteq> 0")
  case True
  let ?X = "sint (INT64_AU32 x)" and ?x = "uint (INT64_AL32 x)" and ?Y = "sint (INT64_AU32 y)" and ?y = "uint (INT64_AL32 y)"
  let ?i = "i\<lparr>i128_hi := i128_hi i + INT64_AU32 x * INT64_AU32 y\<rparr>"
  have first: "int128_word ?i = int128_word i + word_of_int (?X * ?Y * 2 ^ 64)"
    unfolding word_hi_add high_word_mult ..
  have m: "(if y <s 0 then sint (INT64_AL32 x * INT64_AU32 y) else uint (INT64_AL32 x * INT64_AU32 y)) = ?Y * ?x"
    using product_middle [of y x] by (simp only: mult.commute)
  have "int128_word (int128_add_int64_mul_int64 i x y) =
      int128_word i + word_of_int (?X * ?Y * 2 ^ 64) + word_of_int (?X * ?y * 2 ^ 32) + word_of_int (?Y * ?x * 2 ^ 32) + word_of_int (?x * ?y)"
    unfolding int128_add_int64_mul_int64_def Let_def if_P [OF True] add_uint64_exact middle_exact first product_middle m product_low
    by (rule refl)
  also have "\<dots> = int128_word i + word_of_int (?X * ?Y * 2 ^ 64 + ?X * ?y * 2 ^ 32 + ?Y * ?x * 2 ^ 32 + ?x * ?y)"
    by simp
  also have "?X * ?Y * 2 ^ 64 + ?X * ?y * 2 ^ 32 + ?Y * ?x * 2 ^ 32 + ?x * ?y = (?X * 2 ^ 32 + ?x) * (?Y * 2 ^ 32 + ?y)"
    by (simp add: algebra_simps)
  finally show ?thesis by (simp only: halves [symmetric])
next
  case False
  then show ?thesis by (auto simp: int128_add_int64_mul_int64_def)
qed

section \<open>Exactness\<close>

text \<open>As long as the sum is a 128-bit number, it is exact.\<close>

lemma exact_sum:
  assumes "int128_word i' = int128_word i + word_of_int z" "- (2 ^ 127) \<le> int128_val i + z" "int128_val i + z < 2 ^ 127"
  shows "int128_val i' = int128_val i + z"
proof -
  have "int128_word i' = word_of_int (int128_val i + z)" using assms(1) by (simp add: int128_word_def)
  then have "sint (int128_word i') = int128_val i + z"
    using sint_word_of_int_iff [where 'a = 128, of "int128_val i + z"] assms(2,3) by simp
  then show ?thesis by (simp only: word_val)
qed

theorem compare_exact: "int128_compare x y = sgn (int128_val x - int128_val y)"
proof -
  have l: "0 \<le> uint (i128_lo x)" "uint (i128_lo x) < 18446744073709551616" "0 \<le> uint (i128_lo y)" "uint (i128_lo y) < 18446744073709551616"
    using uint_less [of "i128_lo x"] uint_less [of "i128_lo y"] by simp_all
  have hi: "sint (i128_hi x) < sint (i128_hi y) \<Longrightarrow> int128_val x < int128_val y"
    "sint (i128_hi y) < sint (i128_hi x) \<Longrightarrow> int128_val y < int128_val x"
    by (simp_all add: int128_val_def) (use l in linarith)+
  have lo: "sint (i128_hi x) = sint (i128_hi y) \<Longrightarrow> int128_val x - int128_val y = uint (i128_lo x) - uint (i128_lo y)"
    by (simp add: int128_val_def)
  show ?thesis
    using hi lo by (auto simp: int128_compare_def word_sless_alt word_less_def sgn_if not_less)
qed

theorem convert_exact: "int128_val (int64_to_int128 v) = sint v" "int128_to_int64 (int64_to_int128 v) = v"
proof -
  show "int128_val (int64_to_int128 v) = sint v"
    using sint_cases [of v] negative_i64 [of v] by (cases "v <s 0") (simp_all add: int128_val_def int64_to_int128_def)
  show "int128_to_int64 (int64_to_int128 v) = v" by (simp add: int128_to_int64_def int64_to_int128_def)
qed

section \<open>Both branches agree\<close>

lemma scast_of_int: "(scast (v :: i64) :: int128) = word_of_int (sint v)"
  by (rule scast_eq)

lemma ucast_of_int: "(ucast (v :: u64) :: int128) = word_of_int (uint v)"
  by (rule ucast_eq)

lemma to_int64_low: "int128_to_int64 i = native_to_int64 (int128_word i)"
proof -
  have "(ucast (int128_word i) :: u64) = word_of_int (uint (int128_word i))" by (rule ucast_eq)
  also have "\<dots> = word_of_int (int128_val i mod 2 ^ 128)"
    by (simp only: int128_word_def unsigned_of_int take_bit_eq_mod) simp
  also have "\<dots> = i128_lo i"
  proof (rule word_uint_eqI)
    have "int128_val i mod 2 ^ 128 mod 2 ^ 64 = int128_val i mod 2 ^ 64"
      by (rule mod_mod_cancel) (rule le_imp_power_dvd, simp)
    also have "\<dots> = uint (i128_lo i)" using uint_less [of "i128_lo i"] by (simp add: int128_val_def)
    finally show "uint (word_of_int (int128_val i mod 2 ^ 128) :: u64) = uint (i128_lo i)"
      by (simp only: unsigned_of_int take_bit_eq_mod) simp
  qed
  finally show ?thesis by (simp add: int128_to_int64_def native_to_int64_def)
qed

text \<open>C31: The emulation of 128-bit integers by pairs of 64-bit ones computes what a native type computes: sums
  and products with carries and signs, comparison, widening and narrowing.\<close>

theorem int128_emulates_native:
  "int128_word (int128_add_uint64 i v) = native_add_uint64 (int128_word i) v \<and>
   int128_word (int128_add_int64 i w) = native_add_int64 (int128_word i) w \<and>
   int128_word (int128_add_int64_mul_int64 i x y) = native_add_int64_mul_int64 (int128_word i) x y \<and>
   int128_compare i j = native_compare (int128_word i) (int128_word j) \<and>
   int128_word (int64_to_int128 w) = native_of_int64 w \<and> int128_to_int64 i = native_to_int64 (int128_word i) \<and>
   sint (int128_word i) = int128_val i"
proof (intro conjI)
  show "int128_word (int128_add_uint64 i v) = native_add_uint64 (int128_word i) v"
    by (simp only: add_uint64_exact native_add_uint64_def ucast_of_int)
  show "int128_word (int128_add_int64 i w) = native_add_int64 (int128_word i) w"
    by (simp only: add_int64_exact native_add_int64_def scast_of_int)
  show "int128_word (int128_add_int64_mul_int64 i x y) = native_add_int64_mul_int64 (int128_word i) x y"
    by (simp only: mul_exact native_add_int64_mul_int64_def scast_of_int of_int_mult)
  show "int128_compare i j = native_compare (int128_word i) (int128_word j)"
    unfolding compare_exact by (simp add: native_compare_def word_sless_alt word_val sgn_if)
  show "int128_word (int64_to_int128 w) = native_of_int64 w"
    by (simp only: int128_word_def convert_exact native_of_int64_def scast_of_int)
qed (rule to_int64_low, rule word_val)

end
