(* ===== verification/BitUtils.thy ===== *)
theory BitUtils
  imports Prelude
begin

text \<open>
  The bit operations of the server, \<open>port/pg_bitutils.h\<close>, and its byte orders, \<open>port/pg_bswap.h\<close>.
  Which body the preprocessor keeps is an argument: the compiler's builtins, the intrinsics of the
  Microsoft compiler, or the portable loops over bytes, whose two tables belong to \<open>pg_bitutils.c\<close>,
  which is not in the repository, and are parameters.
\<close>

unbundle bit_operations_syntax

section \<open>Positions of bits\<close>

text \<open>\<open>__builtin_clz\<close> and \<open>__builtin_ctz\<close> count the leading and the trailing zeros of a word that is
  not 0; \<open>_BitScanReverse\<close> and \<open>_BitScanForward\<close> find the index of the highest and of the lowest
  bit that is set.\<close>

definition builtin_clz :: "'a::len word \<Rightarrow> nat" where
  "builtin_clz w = length (takeWhile (\<lambda>i. \<not> bit w i) (rev [0..<LENGTH('a)]))"

definition builtin_ctz :: "'a::len word \<Rightarrow> nat" where
  "builtin_ctz w = length (takeWhile (\<lambda>i. \<not> bit w i) [0..<LENGTH('a)])"

definition BitScanReverse :: "'a::len word \<Rightarrow> nat" where
  "BitScanReverse w = last (filter (bit w) [0..<LENGTH('a)])"

definition BitScanForward :: "'a::len word \<Rightarrow> nat" where
  "BitScanForward w = hd (filter (bit w) [0..<LENGTH('a)])"

text \<open>The bodies, with the tables \<open>pg_leftmost_one_pos\<close> and \<open>pg_rightmost_one_pos\<close> of the last.\<close>

datatype bits_impl = BuiltinBits | MscBits | TableBits "u8 \<Rightarrow> u8" "u8 \<Rightarrow> u8"

text \<open>The two loops over bytes.  On 0, where the assertion fails, they would not end; the test for it
  makes the recursion end.\<close>

function leftmost_shift :: "'a::len word \<Rightarrow> nat \<Rightarrow> nat" where
  "leftmost_shift w shift =
     (if w \<noteq> 0 \<and> drop_bit shift w = 0 then leftmost_shift w (shift - 8) else shift)"
  by pat_completeness auto
termination
proof (relation "measure snd")
  show "((w, shift - 8), w, shift) \<in> measure snd" if "w \<noteq> 0 \<and> drop_bit shift w = 0" for w :: "'a word" and shift
    using that by (cases "shift = 0") auto
qed simp

lemma unat_drop_bit: "unat (drop_bit n (w :: 'a::len word)) = unat w div 2 ^ n"
  by (subst unat_drop_bit_eq) (rule drop_bit_eq_div)

lemma drop_byte_less: "(w :: 'a::len word) \<noteq> 0 \<Longrightarrow> unat (drop_bit 8 w) < unat w"
  using div_less_dividend [of 256 "unat w"] unat_0_iff [of w] by (simp only: unat_drop_bit) simp

function rightmost_loop :: "'a::len word \<Rightarrow> nat \<Rightarrow> 'a word \<times> nat" where
  "rightmost_loop w result =
     (if w \<noteq> 0 \<and> w AND 255 = 0 then rightmost_loop (drop_bit 8 w) (result + 8) else (w, result))"
  by pat_completeness auto
termination
  by (relation "measure (\<lambda>(w, result). unat w)") (auto intro: drop_byte_less)

declare leftmost_shift.simps [simp del] rightmost_loop.simps [simp del]

definition pg_leftmost_one_pos32 :: "bits_impl \<Rightarrow> u32 \<Rightarrow> nat" where
  "pg_leftmost_one_pos32 impl word =
     (case impl of
        BuiltinBits \<Rightarrow> 31 - builtin_clz word
      | MscBits \<Rightarrow> BitScanReverse word
      | TableBits left right \<Rightarrow>
          let shift = leftmost_shift word (32 - 8)
          in shift + unat (left (ucast (drop_bit shift word AND 255))))"

definition pg_leftmost_one_pos64 :: "bits_impl \<Rightarrow> u64 \<Rightarrow> nat" where
  "pg_leftmost_one_pos64 impl word =
     (case impl of
        BuiltinBits \<Rightarrow> 63 - builtin_clz word
      | MscBits \<Rightarrow> BitScanReverse word
      | TableBits left right \<Rightarrow>
          let shift = leftmost_shift word (64 - 8)
          in shift + unat (left (ucast (drop_bit shift word AND 255))))"

definition pg_rightmost_one_pos32 :: "bits_impl \<Rightarrow> u32 \<Rightarrow> nat" where
  "pg_rightmost_one_pos32 impl word =
     (case impl of
        BuiltinBits \<Rightarrow> builtin_ctz word
      | MscBits \<Rightarrow> BitScanForward word
      | TableBits left right \<Rightarrow>
          (case rightmost_loop word 0 of
             (word, result) \<Rightarrow> result + unat (right (ucast (word AND 255)))))"

definition pg_rightmost_one_pos64 :: "bits_impl \<Rightarrow> u64 \<Rightarrow> nat" where
  "pg_rightmost_one_pos64 impl word =
     (case impl of
        BuiltinBits \<Rightarrow> builtin_ctz word
      | MscBits \<Rightarrow> BitScanForward word
      | TableBits left right \<Rightarrow>
          (case rightmost_loop word 0 of
             (word, result) \<Rightarrow> result + unat (right (ucast (word AND 255)))))"

section \<open>Powers of two and logarithms\<close>

definition pg_nextpower2_32 :: "bits_impl \<Rightarrow> u32 \<Rightarrow> u32" where
  "pg_nextpower2_32 impl num =
     (if num AND (num - 1) = 0 then num else push_bit (pg_leftmost_one_pos32 impl num + 1) 1)"

definition pg_nextpower2_64 :: "bits_impl \<Rightarrow> u64 \<Rightarrow> u64" where
  "pg_nextpower2_64 impl num =
     (if num AND (num - 1) = 0 then num else push_bit (pg_leftmost_one_pos64 impl num + 1) 1)"

definition pg_prevpower2_32 :: "bits_impl \<Rightarrow> u32 \<Rightarrow> u32" where
  "pg_prevpower2_32 impl num = push_bit (pg_leftmost_one_pos32 impl num) 1"

definition pg_prevpower2_64 :: "bits_impl \<Rightarrow> u64 \<Rightarrow> u64" where
  "pg_prevpower2_64 impl num = push_bit (pg_leftmost_one_pos64 impl num) 1"

definition pg_ceil_log2_32 :: "bits_impl \<Rightarrow> u32 \<Rightarrow> u32" where
  "pg_ceil_log2_32 impl num =
     (if num < 2 then 0 else word_of_nat (pg_leftmost_one_pos32 impl (num - 1) + 1))"

definition pg_ceil_log2_64 :: "bits_impl \<Rightarrow> u64 \<Rightarrow> u64" where
  "pg_ceil_log2_64 impl num =
     (if num < 2 then 0 else word_of_nat (pg_leftmost_one_pos64 impl (num - 1) + 1))"

definition pg_rotate_right32 :: "u32 \<Rightarrow> nat \<Rightarrow> u32" where
  "pg_rotate_right32 word n = drop_bit n word OR push_bit (32 - n) word"

definition pg_rotate_left32 :: "u32 \<Rightarrow> nat \<Rightarrow> u32" where
  "pg_rotate_left32 word n = push_bit n word OR drop_bit (32 - n) word"

section \<open>Byte order\<close>

definition pg_bswap16 :: "16 word \<Rightarrow> 16 word" where
  "pg_bswap16 x = (push_bit 8 x AND 0xff00) OR (drop_bit 8 x AND 0x00ff)"

definition pg_bswap32 :: "u32 \<Rightarrow> u32" where
  "pg_bswap32 x =
     (push_bit 24 x AND 0xff000000) OR (push_bit 8 x AND 0x00ff0000) OR
     (drop_bit 8 x AND 0x0000ff00) OR (drop_bit 24 x AND 0x000000ff)"

definition pg_bswap64 :: "u64 \<Rightarrow> u64" where
  "pg_bswap64 x =
     (push_bit 56 x AND 0xff00000000000000) OR (push_bit 40 x AND 0x00ff000000000000) OR
     (push_bit 24 x AND 0x0000ff0000000000) OR (push_bit 8 x AND 0x000000ff00000000) OR
     (drop_bit 8 x AND 0x00000000ff000000) OR (drop_bit 24 x AND 0x0000000000ff0000) OR
     (drop_bit 40 x AND 0x000000000000ff00) OR (drop_bit 56 x AND 0x00000000000000ff)"

text \<open>The byte orders of a little-endian machine (\<open>WORDS_BIGENDIAN\<close> is not defined).\<close>

definition pg_hton16 :: "16 word \<Rightarrow> 16 word" where "pg_hton16 x = pg_bswap16 x"
definition pg_hton32 :: "u32 \<Rightarrow> u32" where "pg_hton32 x = pg_bswap32 x"
definition pg_hton64 :: "u64 \<Rightarrow> u64" where "pg_hton64 x = pg_bswap64 x"
definition pg_ntoh16 :: "16 word \<Rightarrow> 16 word" where "pg_ntoh16 x = pg_bswap16 x"
definition pg_ntoh32 :: "u32 \<Rightarrow> u32" where "pg_ntoh32 x = pg_bswap32 x"
definition pg_ntoh64 :: "u64 \<Rightarrow> u64" where "pg_ntoh64 x = pg_bswap64 x"

definition DatumBigEndianToNative :: "u64 \<Rightarrow> u64" where
  "DatumBigEndianToNative x = pg_bswap64 x"

lemma below_64: "(n :: nat) < 64 \<Longrightarrow> n \<in> set (0 # 1 # [2..<64])"
  by (simp only: list.set set_upt insert_iff atLeastLessThan_iff simp_thms) linarith

lemma bswap64_bit: "n < 64 \<Longrightarrow> bit (pg_bswap64 x) n \<longleftrightarrow> bit x (8 * (7 - n div 8) + n mod 8)"
proof -
  have "list_all (\<lambda>n. bit (pg_bswap64 x) n \<longleftrightarrow> bit x (8 * (7 - n div 8) + n mod 8)) (0 # 1 # [2..<64])"
    by (simp add: pg_bswap64_def bit_simps) (simp add: numeral_2_eq_2)
  then show "n < 64 \<Longrightarrow> ?thesis" using below_64 [of n] by (auto simp only: list_all_iff)
qed

section \<open>The highest and the lowest bit\<close>

lemma bit_unat: "bit (unat (w :: 'a::len word)) i \<longleftrightarrow> bit w i"
  by (simp add: bit_unsigned_iff)

lemma upt_split: "r < n \<Longrightarrow> [0..<n] = [0..<r] @ r # [Suc r..<n]"
  using upt_add_eq_append [of 0 r "n - r"] upt_conv_Cons [of r n] by simp

lemma highest_exists:
  assumes "(w :: 'a::len word) \<noteq> 0"
  obtains r where "r < LENGTH('a)" "bit w r" "\<And>i. r < i \<Longrightarrow> \<not> bit w i"
proof -
  obtain k where "bit w k" using assms by (metis bit_eqI bit_0_eq bot_apply bot_bool_def)
  then obtain r where "bit w r" "\<forall>i. bit w i \<longrightarrow> i \<le> r"
    using ex_has_greatest_nat [of "bit w" k id "LENGTH('a)"] bit_imp_le_length [of w] by auto
  then show thesis using that bit_imp_le_length by (metis leD)
qed

lemma lowest_exists:
  assumes "(w :: 'a::len word) \<noteq> 0"
  obtains r where "r < LENGTH('a)" "bit w r" "\<And>i. i < r \<Longrightarrow> \<not> bit w i"
proof -
  obtain k where "bit w k" using assms by (metis bit_eqI bit_0_eq bot_apply bot_bool_def)
  then have "bit w (LEAST i. bit w i)" by (rule LeastI)
  then show thesis using that not_less_Least bit_imp_le_length by metis
qed

lemma highest_bounds:
  assumes "bit (w :: 'a::len word) r" and "\<And>i. r < i \<Longrightarrow> \<not> bit w i"
  shows "2 ^ r \<le> unat w \<and> unat w < 2 ^ (r + 1)"
proof
  have "odd (unat w div 2 ^ r)" using assms(1) by (simp flip: bit_unat add: bit_iff_odd)
  then have "unat w div 2 ^ r \<noteq> 0" by (metis even_zero)
  then show "2 ^ r \<le> unat w" by (simp add: div_eq_0_iff)
  have "take_bit (r + 1) (unat w) = unat w"
    by (intro bit_eqI) (use assms(2) in \<open>auto simp: bit_take_bit_iff bit_unat not_less intro: ccontr\<close>)
  then show "unat w < 2 ^ (r + 1)" by (metis take_bit_nat_less_exp)
qed

lemma lowest_divides:
  assumes "bit (w :: 'a::len word) r" and "\<And>i. i < r \<Longrightarrow> \<not> bit w i"
  shows "2 ^ r dvd unat w \<and> \<not> 2 ^ (r + 1) dvd unat w"
proof
  have "take_bit r (unat w) = 0" using assms(2) by (intro bit_eqI) (auto simp: bit_take_bit_iff bit_unat)
  then show d: "2 ^ r dvd unat w" by (simp add: take_bit_eq_mod mod_eq_0_iff_dvd)
  have "odd (unat w div 2 ^ r)" using assms(1) by (simp flip: bit_unat add: bit_iff_odd)
  then show "\<not> 2 ^ (r + 1) dvd unat w" using d by (auto elim!: dvdE)
qed

lemma builtins_highest:
  assumes "r < LENGTH('a)" "bit (w :: 'a::len word) r" "\<And>i. r < i \<Longrightarrow> \<not> bit w i"
  shows "LENGTH('a) - 1 - builtin_clz w = r" and "BitScanReverse w = r"
proof -
  note split = upt_split [OF assms(1)]
  show "LENGTH('a) - 1 - builtin_clz w = r"
    using assms by (simp add: builtin_clz_def split takeWhile_append)
  show "BitScanReverse w = r"
    using assms by (simp add: BitScanReverse_def split filter_empty_conv [THEN iffD2])
qed

lemma builtins_lowest:
  assumes "r < LENGTH('a)" "bit (w :: 'a::len word) r" "\<And>i. i < r \<Longrightarrow> \<not> bit w i"
  shows "builtin_ctz w = r" and "BitScanForward w = r"
proof -
  note split = upt_split [OF assms(1)]
  show "builtin_ctz w = r"
    using assms by (simp add: builtin_ctz_def split takeWhile_append)
  show "BitScanForward w = r"
    using assms by (simp add: BitScanForward_def split filter_empty_conv [THEN iffD2])
qed

text \<open>What the two tables hold: the highest and the lowest bit of each byte.\<close>

definition position_tables :: "bits_impl \<Rightarrow> bool" where
  "position_tables impl \<longleftrightarrow>
     (case impl of
        TableBits left right \<Rightarrow>
          (\<forall>b. b \<noteq> 0 \<longrightarrow> 2 ^ unat (left b) \<le> unat b \<and> unat b < 2 ^ (unat (left b) + 1) \<and>
             2 ^ unat (right b) dvd unat b \<and> \<not> 2 ^ (unat (right b) + 1) dvd unat b)
      | _ \<Rightarrow> True)"

lemma leftmost_shift_stop:
  assumes "w \<noteq> 0" "8 dvd shift" "drop_bit (shift + 8) w = 0"
  shows "drop_bit (leftmost_shift w shift) w \<noteq> 0 \<and> drop_bit (leftmost_shift w shift + 8) w = 0"
  using assms
proof (induction w shift rule: leftmost_shift.induct)
  case (1 w shift)
  show ?case
  proof (cases "drop_bit shift w = 0")
    case True
    then have "8 \<le> shift" using 1(2,3) by (cases "shift = 0") (auto dest: dvd_imp_le)
    with True 1 show ?thesis by (subst (1 2) leftmost_shift.simps) (auto simp: dvd_minus_self)
  next
    case False
    with 1 show ?thesis by (subst (1 2) leftmost_shift.simps) auto
  qed
qed

lemma unat_low_byte: "unat (ucast (w AND 255) :: u8) = unat (w :: 'a::len word) mod 256"
proof -
  have "w AND 255 = take_bit 8 w" by (simp add: take_bit_eq_mask mask_numeral)
  then show ?thesis by (simp only: unsigned_ucast_eq unsigned_take_bit_eq) (simp add: take_bit_eq_mod)
qed

lemma table_leftmost:
  assumes "position_tables (TableBits left right)" "w \<noteq> 0" "8 dvd shift" "drop_bit (shift + 8) w = 0"
  defines "s \<equiv> leftmost_shift w shift"
  defines "r \<equiv> s + unat (left (ucast (drop_bit s w AND 255)))"
  shows "2 ^ r \<le> unat w \<and> unat w < 2 ^ (r + 1)"
proof -
  define b :: u8 where "b = ucast (drop_bit s w AND 255)"
  have s: "drop_bit s w \<noteq> 0" "drop_bit (s + 8) w = 0"
    using leftmost_shift_stop [OF assms(2-4)] by (simp_all add: s_def)
  have "unat w div 2 ^ s \<noteq> 0" using s(1) unat_0_iff [of "drop_bit s w"] by (simp only: unat_drop_bit simp_thms)
  moreover have "unat w div 2 ^ s div 256 = 0"
    using s(2) unat_drop_bit [of "s + 8" w] by (simp add: power_add div_mult2_eq)
  ultimately have b: "unat b = unat w div 2 ^ s" "b \<noteq> 0"
    by (auto simp: b_def unat_low_byte unat_drop_bit div_eq_0_iff simp flip: unat_0_iff)
  have "2 ^ unat (left b) \<le> unat b" "unat b < 2 ^ (unat (left b) + 1)"
    using assms(1) b(2) by (auto simp: position_tables_def)
  then have "2 ^ unat (left b) * 2 ^ s \<le> unat w" "unat w < 2 ^ (unat (left b) + 1) * 2 ^ s"
    by (simp_all add: b(1) less_eq_div_iff_mult_less_eq div_less_iff_less_mult)
  then show ?thesis by (simp add: r_def b_def power_add mult.commute mult.left_commute)
qed

lemma rightmost_loop_stop:
  "(w :: 'a::len word) \<noteq> 0 \<Longrightarrow> rightmost_loop w res = (w', res') \<Longrightarrow>
     res \<le> res' \<and> unat w = unat w' * 2 ^ (res' - res) \<and> unat w' mod 256 \<noteq> 0"
proof (induction w res rule: rightmost_loop.induct)
  case (1 w res)
  have low: "w AND 255 = 0 \<longleftrightarrow> unat w mod 256 = 0"
  proof -
    have "w AND 255 = take_bit 8 w" by (simp add: take_bit_eq_mask mask_numeral)
    then have "unat (w AND 255) = unat w mod 256" by (simp only: unsigned_take_bit_eq) (simp add: take_bit_eq_mod)
    then show ?thesis by (metis unat_0_iff)
  qed
  show ?case
  proof (cases "w AND 255 = 0")
    case True
    then have up: "unat w = unat (drop_bit 8 w) * 256" using div_mult_mod_eq [of "unat w" 256] by (simp add: low unat_drop_bit)
    then have "drop_bit 8 w \<noteq> 0" using 1(2) by (metis mult_0 unat_0 unat_0_iff)
    then have IH: "res + 8 \<le> res'" "unat (drop_bit 8 w) = unat w' * 2 ^ (res' - (res + 8))" "unat w' mod 256 \<noteq> 0"
      using 1 True by (auto simp: rightmost_loop.simps [of w res])
    have "res' - res = (res' - (res + 8)) + 8" using IH(1) by simp
    then have "(2 :: nat) ^ (res' - res) = 2 ^ (res' - (res + 8)) * 256" by (simp only: power_add) simp
    then show ?thesis using up IH by simp
  next
    case False
    then show ?thesis using 1 low by (auto simp: rightmost_loop.simps [of w res])
  qed
qed

lemma table_rightmost:
  assumes "position_tables (TableBits left right)" "(w :: 'a::len word) \<noteq> 0" "rightmost_loop w 0 = (w', res)"
  defines "r \<equiv> res + unat (right (ucast (w' AND 255)))"
  shows "2 ^ r dvd unat w \<and> \<not> 2 ^ (r + 1) dvd unat w"
proof -
  define b :: u8 where "b = ucast (w' AND 255)"
  have w: "unat w = unat w' * 2 ^ res" "unat w' mod 256 \<noteq> 0" using rightmost_loop_stop [OF assms(2,3)] by simp_all
  have b: "unat b = unat w' mod 256" "b \<noteq> 0" using w(2) by (auto simp: b_def unat_low_byte simp flip: unat_0_iff)
  have d: "2 ^ unat (right b) dvd unat b" "\<not> 2 ^ (unat (right b) + 1) dvd unat b"
    using assms(1) b(2) by (auto simp: position_tables_def)
  have "2 ^ unat (right b) \<le> unat b" using d(1) b(2) by (simp add: dvd_imp_le unat_gt_0)
  then have "2 ^ unat (right b) < (2 :: nat) ^ 8" using unat_byte_bound [of b] by simp
  then have small: "unat (right b) < 8" by (rule power_less_imp_less_exp [rotated]) simp
  have "2 ^ k dvd unat w' \<longleftrightarrow> 2 ^ k dvd unat b" if "k \<le> 8" for k
    using that le_imp_power_dvd [of k 8 "2 :: nat"] by (simp add: b(1) dvd_mod_iff)
  from this [of "unat (right b)"] this [of "unat (right b) + 1"]
  have "2 ^ unat (right b) dvd unat w'" "\<not> 2 ^ (unat (right b) + 1) dvd unat w'" using d small by auto
  then have "2 ^ unat (right b) * 2 ^ res dvd unat w" "\<not> 2 ^ (unat (right b) + 1) * 2 ^ res dvd unat w"
    by (simp_all only: w(1) dvd_mult_cancel_right power_not_zero simp_thms mult_dvd_mono) auto
  then show ?thesis by (simp add: r_def b_def power_add mult.commute mult.left_commute)
qed

lemma leftmost_one_pos32:
  assumes "position_tables impl" "w \<noteq> 0"
  shows "2 ^ pg_leftmost_one_pos32 impl w \<le> unat w \<and> unat w < 2 ^ (pg_leftmost_one_pos32 impl w + 1)"
proof -
  obtain r where r: "r < LENGTH(32)" "bit w r" "\<And>i. r < i \<Longrightarrow> \<not> bit w i" using highest_exists [OF assms(2)] by auto
  show ?thesis
  proof (cases impl)
    case (TableBits left right)
    then show ?thesis using table_leftmost [of left right w 24] assms
      by (simp add: pg_leftmost_one_pos32_def Let_def)
  qed (use highest_bounds [OF r(2,3)] builtins_highest [OF r] in \<open>simp_all add: pg_leftmost_one_pos32_def\<close>)
qed

lemma leftmost_one_pos64:
  assumes "position_tables impl" "w \<noteq> 0"
  shows "2 ^ pg_leftmost_one_pos64 impl w \<le> unat w \<and> unat w < 2 ^ (pg_leftmost_one_pos64 impl w + 1)"
proof -
  obtain r where r: "r < LENGTH(64)" "bit w r" "\<And>i. r < i \<Longrightarrow> \<not> bit w i" using highest_exists [OF assms(2)] by auto
  show ?thesis
  proof (cases impl)
    case (TableBits left right)
    then show ?thesis using table_leftmost [of left right w 56] assms
      by (simp add: pg_leftmost_one_pos64_def Let_def)
  qed (use highest_bounds [OF r(2,3)] builtins_highest [OF r] in \<open>simp_all add: pg_leftmost_one_pos64_def\<close>)
qed

lemma rightmost_one_pos32:
  assumes "position_tables impl" "w \<noteq> 0"
  shows "2 ^ pg_rightmost_one_pos32 impl w dvd unat w \<and> \<not> 2 ^ (pg_rightmost_one_pos32 impl w + 1) dvd unat w"
proof -
  obtain r where r: "r < LENGTH(32)" "bit w r" "\<And>i. i < r \<Longrightarrow> \<not> bit w i" using lowest_exists [OF assms(2)] by auto
  show ?thesis
  proof (cases impl)
    case (TableBits left right)
    then show ?thesis using table_rightmost [of left right w] assms
      by (auto simp: pg_rightmost_one_pos32_def split: prod.splits)
  qed (use lowest_divides [OF r(2,3)] builtins_lowest [OF r] in \<open>simp_all add: pg_rightmost_one_pos32_def\<close>)
qed

lemma rightmost_one_pos64:
  assumes "position_tables impl" "w \<noteq> 0"
  shows "2 ^ pg_rightmost_one_pos64 impl w dvd unat w \<and> \<not> 2 ^ (pg_rightmost_one_pos64 impl w + 1) dvd unat w"
proof -
  obtain r where r: "r < LENGTH(64)" "bit w r" "\<And>i. i < r \<Longrightarrow> \<not> bit w i" using lowest_exists [OF assms(2)] by auto
  show ?thesis
  proof (cases impl)
    case (TableBits left right)
    then show ?thesis using table_rightmost [of left right w] assms
      by (auto simp: pg_rightmost_one_pos64_def split: prod.splits)
  qed (use lowest_divides [OF r(2,3)] builtins_lowest [OF r] in \<open>simp_all add: pg_rightmost_one_pos64_def\<close>)
qed

section \<open>What the powers of two rest on\<close>

locale leftmost_one =
  fixes pos :: "'a::len word \<Rightarrow> nat"
  assumes pos: "w \<noteq> 0 \<Longrightarrow> 2 ^ pos w \<le> unat w \<and> unat w < 2 ^ (pos w + 1)"
begin

lemma pos_less:
  assumes "w \<noteq> 0" shows "pos w < LENGTH('a)"
proof -
  have "2 ^ pos w < (2 :: nat) ^ LENGTH('a)" using pos [OF assms] unat_bound [of w] by linarith
  then show ?thesis by simp
qed

lemma unat_power: "k < LENGTH('a) \<Longrightarrow> unat (push_bit k 1 :: 'a word) = 2 ^ k"
  by (simp only: unsigned_push_bit_eq) (simp add: push_bit_eq_mult take_bit_eq_mod)

lemma prevpower:
  assumes "w \<noteq> 0"
  shows "unat (push_bit (pos w) 1 :: 'a word) = 2 ^ pos w \<and> 2 ^ pos w \<le> unat w \<and> unat w < 2 * 2 ^ pos w"
  using pos [OF assms] unat_power [OF pos_less [OF assms]] by simp

lemma top_bit_odd: "2 ^ k \<le> n \<Longrightarrow> n < 2 ^ (k + 1) \<Longrightarrow> bit (n :: nat) k"
  using div_nat_eqI [of "2 ^ k" 1 n] by (simp add: bit_iff_odd)

lemma single_bit:
  assumes "w \<noteq> 0" shows "w AND (w - 1) = 0 \<longleftrightarrow> unat w = 2 ^ pos w"
proof -
  have pred: "unat (w - 1) = unat w - 1" using assms by (simp add: unat_minus_one)
  show ?thesis
  proof
    assume and0: "w AND (w - 1) = 0"
    show "unat w = 2 ^ pos w"
    proof (rule ccontr)
      assume "unat w \<noteq> 2 ^ pos w"
      then have "2 ^ pos w \<le> unat (w - 1)" "unat (w - 1) < 2 ^ (pos w + 1)" using pos [OF assms] pred by auto
      then have "bit (unat (w - 1)) (pos w)" "bit (unat w) (pos w)"
        using pos [OF assms] by (auto intro: top_bit_odd)
      then have "bit (w AND (w - 1)) (pos w)" by (simp add: bit_unat bit_and_iff)
      with and0 show False by simp
    qed
  next
    assume "unat w = 2 ^ pos w"
    then have w: "w = push_bit (pos w) 1" using unat_power [OF pos_less [OF assms]] by (simp add: word_unat_eq_iff)
    have "w - 1 = mask (pos w)" by (subst w) (simp add: mask_eq_exp_minus_1 push_bit_eq_mult)
    then have "w AND (w - 1) = take_bit (pos w) w" by (simp add: take_bit_eq_mask)
    moreover have "take_bit (pos w) (push_bit (pos w) 1 :: 'a word) = 0"
      by (rule bit_eqI) (auto simp: bit_take_bit_iff bit_exp_iff)
    ultimately show "w AND (w - 1) = 0" using w by metis
  qed
qed

lemma nextpower:
  assumes "w \<noteq> 0" and "unat w \<le> 2 ^ (LENGTH('a) - 1)"
  shows "\<exists>k. unat (if w AND (w - 1) = 0 then w else push_bit (pos w + 1) 1) = 2 ^ k \<and>
    unat w \<le> 2 ^ k \<and> 2 ^ k < 2 * unat w"
proof (cases "w AND (w - 1) = 0")
  case True
  then show ?thesis using single_bit [OF assms(1)] assms(1) by (auto simp: unat_gt_0)
next
  case False
  then have w: "2 ^ pos w < unat w" "unat w < 2 ^ (pos w + 1)" using single_bit [OF assms(1)] pos [OF assms(1)] by auto
  then have "2 ^ pos w < (2 :: nat) ^ (LENGTH('a) - 1)" using assms(2) by linarith
  then have "pos w + 1 < LENGTH('a)" by simp
  with False w show ?thesis by (intro exI [of _ "pos w + 1"], simp only: if_False unat_power) simp
qed

end

context leftmost_one
begin

lemma ceil_log2:
  assumes "2 \<le> unat w" and "LENGTH('a) < 2 ^ LENGTH('b :: len)"
  shows "\<exists>k. unat (word_of_nat (pos (w - 1) + 1) :: 'b word) = k + 1 \<and> 2 ^ k < unat w \<and> unat w \<le> 2 ^ (k + 1)"
proof -
  have "w \<noteq> 0" using assms(1) by auto
  then have pred: "unat (w - 1) = unat w - 1" by (simp add: unat_minus_one)
  then have "w - 1 \<noteq> 0" using assms(1) by (metis diff_is_0_eq not_less_eq_eq numeral_2_eq_2 One_nat_def unat_0)
  note p = pos [OF this] pos_less [OF this]
  have "unat (word_of_nat (pos (w - 1) + 1) :: 'b word) = pos (w - 1) + 1"
    using p(2) assms(2) by (simp only: unat_of_nat) simp
  then show ?thesis using p(1) pred assms(1) by (intro exI [of _ "pos (w - 1)"]) linarith
qed

lemma ceil_log2_exact:
  fixes w :: "'a word"
  assumes "LENGTH('a) < 2 ^ LENGTH('b :: len)" and two: "unat (2 :: 'a word) = 2"
  defines "c \<equiv> if w < 2 then 0 else (word_of_nat (pos (w - 1) + 1) :: 'b word)"
  shows "unat w \<le> 2 ^ unat c \<and> (\<forall>j. unat w \<le> 2 ^ j \<longrightarrow> unat c \<le> j)"
proof (cases "w < 2")
  case True
  then show ?thesis using two by (simp add: c_def word_less_nat_alt)
next
  case False
  then have "2 \<le> unat w" using two by (simp add: word_less_nat_alt)
  from ceil_log2 [OF this assms(1)] False obtain k
    where k: "unat c = k + 1" "2 ^ k < unat w" "unat w \<le> 2 ^ (k + 1)" by (auto simp: c_def)
  have "k + 1 \<le> j" if "unat w \<le> 2 ^ j" for j
  proof -
    have "2 ^ k < (2 :: nat) ^ j" using that k(2) by linarith
    then show ?thesis by simp
  qed
  with k show ?thesis by simp
qed

end

lemma leftmost_one_32: "position_tables impl \<Longrightarrow> leftmost_one (pg_leftmost_one_pos32 impl)"
  by (rule leftmost_one.intro) (rule leftmost_one_pos32)

lemma leftmost_one_64: "position_tables impl \<Longrightarrow> leftmost_one (pg_leftmost_one_pos64 impl)"
  by (rule leftmost_one.intro) (rule leftmost_one_pos64)

text \<open>The bodies that \<open>pg_config.h\<close> selects.\<close>

interpretation clz32: leftmost_one "pg_leftmost_one_pos32 BuiltinBits"
  by (rule leftmost_one_32) (simp add: position_tables_def)

interpretation clz64: leftmost_one "pg_leftmost_one_pos64 BuiltinBits"
  by (rule leftmost_one_64) (simp add: position_tables_def)

text \<open>C39: The bit functions compute what their comments say, whichever body is compiled: the position
  of the highest bit is the integral logarithm, that of the lowest bit is the largest power of two
  that divides the word, the next (previous) power of two is the least one that is not below (the
  greatest one that is not above) the number, and the rounded-up logarithm is exact for every number,
  0 and 1 included.\<close>

theorem bit_functions_exact:
  fixes n :: u64
  assumes tables: "position_tables impl"
  shows "(n \<noteq> 0 \<longrightarrow>
      2 ^ pg_leftmost_one_pos64 impl n \<le> unat n \<and> unat n < 2 ^ (pg_leftmost_one_pos64 impl n + 1) \<and>
      2 ^ pg_rightmost_one_pos64 impl n dvd unat n \<and> \<not> 2 ^ (pg_rightmost_one_pos64 impl n + 1) dvd unat n \<and>
      (\<exists>k. unat (pg_prevpower2_64 impl n) = 2 ^ k \<and> 2 ^ k \<le> unat n \<and> unat n < 2 * 2 ^ k)) \<and>
    (n \<noteq> 0 \<and> unat n \<le> 2 ^ 63 \<longrightarrow>
      (\<exists>k. unat (pg_nextpower2_64 impl n) = 2 ^ k \<and> unat n \<le> 2 ^ k \<and> 2 ^ k < 2 * unat n)) \<and>
    unat n \<le> 2 ^ unat (pg_ceil_log2_64 impl n) \<and>
    (\<forall>k. unat n \<le> 2 ^ k \<longrightarrow> unat (pg_ceil_log2_64 impl n) \<le> k)"
proof -
  note lo = leftmost_one_64 [OF tables]
  show ?thesis
    using leftmost_one_pos64 [OF tables, of n] rightmost_one_pos64 [OF tables, of n]
      leftmost_one.prevpower [OF lo, of n] leftmost_one.nextpower [OF lo, of n]
      leftmost_one.ceil_log2_exact [OF lo, where 'b = 64, of n]
    by (auto simp: pg_prevpower2_64_def pg_nextpower2_64_def pg_ceil_log2_64_def)
qed

text \<open>Tables as the loops need them, and the portable bodies with them.\<close>

definition byte_tables :: bits_impl where
  "byte_tables = TableBits (\<lambda>b. word_of_nat (BitScanReverse b)) (\<lambda>b. word_of_nat (BitScanForward b))"

lemma byte_tables_ok: "position_tables byte_tables"
proof -
  have "2 ^ unat (word_of_nat (BitScanReverse b) :: u8) \<le> unat b \<and> unat b < 2 ^ (unat (word_of_nat (BitScanReverse b) :: u8) + 1) \<and>
      2 ^ unat (word_of_nat (BitScanForward b) :: u8) dvd unat b \<and> \<not> 2 ^ (unat (word_of_nat (BitScanForward b) :: u8) + 1) dvd unat b"
    if nz: "b \<noteq> 0" for b :: u8
  proof -
    obtain h where h: "h < LENGTH(8)" "bit b h" "\<And>i. h < i \<Longrightarrow> \<not> bit b i" using highest_exists [OF nz] by auto
    obtain l where l: "l < LENGTH(8)" "bit b l" "\<And>i. i < l \<Longrightarrow> \<not> bit b i" using lowest_exists [OF nz] by auto
    have "unat (word_of_nat h :: u8) = h" "unat (word_of_nat l :: u8) = l" using h(1) l(1) by (simp_all only: unat_of_nat) simp_all
    then show ?thesis
      using highest_bounds [OF h(2,3)] lowest_divides [OF l(2,3)] builtins_highest(2) [OF h] builtins_lowest(2) [OF l] by simp
  qed
  then show ?thesis by (simp add: position_tables_def byte_tables_def)
qed

theorem bit_functions_exact_witness:
  "unat (1000 :: u64) \<le> 2 ^ unat (pg_ceil_log2_64 byte_tables 1000)"
  using bit_functions_exact [OF byte_tables_ok, of 1000] by blast

theorem bit_functions_exact_32:
  fixes n :: u32
  assumes tables: "position_tables impl"
  shows "(n \<noteq> 0 \<longrightarrow>
      2 ^ pg_leftmost_one_pos32 impl n \<le> unat n \<and> unat n < 2 ^ (pg_leftmost_one_pos32 impl n + 1) \<and>
      2 ^ pg_rightmost_one_pos32 impl n dvd unat n \<and> \<not> 2 ^ (pg_rightmost_one_pos32 impl n + 1) dvd unat n \<and>
      (\<exists>k. unat (pg_prevpower2_32 impl n) = 2 ^ k \<and> 2 ^ k \<le> unat n \<and> unat n < 2 * 2 ^ k)) \<and>
    (n \<noteq> 0 \<and> unat n \<le> 2 ^ 31 \<longrightarrow>
      (\<exists>k. unat (pg_nextpower2_32 impl n) = 2 ^ k \<and> unat n \<le> 2 ^ k \<and> 2 ^ k < 2 * unat n)) \<and>
    unat n \<le> 2 ^ unat (pg_ceil_log2_32 impl n) \<and>
    (\<forall>k. unat n \<le> 2 ^ k \<longrightarrow> unat (pg_ceil_log2_32 impl n) \<le> k)"
proof -
  note lo = leftmost_one_32 [OF tables]
  show ?thesis
    using leftmost_one_pos32 [OF tables, of n] rightmost_one_pos32 [OF tables, of n]
      leftmost_one.prevpower [OF lo, of n] leftmost_one.nextpower [OF lo, of n]
      leftmost_one.ceil_log2_exact [OF lo, where 'b = 32, of n]
    by (auto simp: pg_prevpower2_32_def pg_nextpower2_32_def pg_ceil_log2_32_def)
qed

text \<open>Rotation, by less than the width and more than 0 (a shift by 32 is undefined in C).\<close>

lemma rotations:
  assumes "0 < n" "n < 32"
  shows "pg_rotate_right32 w n = word_rotr n w" and "pg_rotate_left32 w n = word_rotl n w"
proof -
  have up: "(i + n) mod 32 = (if i < 32 - n then i + n else i - (32 - n))" if "i < 32" for i
    using that assms by (auto simp: mod_if)
  show "pg_rotate_right32 w n = word_rotr n w"
  proof (rule bit_word_eqI)
    fix i assume "i < LENGTH(32)"
    then show "bit (pg_rotate_right32 w n) i \<longleftrightarrow> bit (word_rotr n w) i"
      using up [of i] assms bit_imp_le_length [of w "i + n"]
      by (auto simp: pg_rotate_right32_def bit_word_rotr_iff bit_or_iff bit_drop_bit_eq bit_push_bit_iff add.commute)
  qed
  show "pg_rotate_left32 w n = word_rotl n w"
  proof (rule bit_word_eqI)
    fix i assume i: "i < LENGTH(32)"
    have "bit (word_rotl n w) i \<longleftrightarrow> bit w (if i < n then i + (32 - n) else i - n)"
      using i assms by (simp add: bit_word_rotl_iff mod_if)
    then show "bit (pg_rotate_left32 w n) i \<longleftrightarrow> bit (word_rotl n w) i"
      using i assms bit_imp_le_length [of w "i + (32 - n)"]
      by (auto simp: pg_rotate_left32_def bit_or_iff bit_drop_bit_eq bit_push_bit_iff add.commute)
  qed
qed

section \<open>Bytes in memory\<close>

lemma below_16: "(n :: nat) < 16 \<Longrightarrow> n \<in> set (0 # 1 # [2..<16])"
  by (simp only: list.set set_upt insert_iff atLeastLessThan_iff simp_thms) linarith

lemma below_32: "(n :: nat) < 32 \<Longrightarrow> n \<in> set (0 # 1 # [2..<32])"
  by (simp only: list.set set_upt insert_iff atLeastLessThan_iff simp_thms) linarith

lemma bswap16_bit: "n < 16 \<Longrightarrow> bit (pg_bswap16 x) n \<longleftrightarrow> bit x (8 * (1 - n div 8) + n mod 8)"
proof -
  have "list_all (\<lambda>n. bit (pg_bswap16 x) n \<longleftrightarrow> bit x (8 * (1 - n div 8) + n mod 8)) (0 # 1 # [2..<16])"
    by (simp add: pg_bswap16_def bit_simps) (simp add: numeral_2_eq_2)
  then show "n < 16 \<Longrightarrow> ?thesis" using below_16 [of n] by (auto simp only: list_all_iff)
qed

lemma bswap32_bit: "n < 32 \<Longrightarrow> bit (pg_bswap32 x) n \<longleftrightarrow> bit x (8 * (3 - n div 8) + n mod 8)"
proof -
  have "list_all (\<lambda>n. bit (pg_bswap32 x) n \<longleftrightarrow> bit x (8 * (3 - n div 8) + n mod 8)) (0 # 1 # [2..<32])"
    by (simp add: pg_bswap32_def bit_simps) (simp add: numeral_2_eq_2)
  then show "n < 32 \<Longrightarrow> ?thesis" using below_32 [of n] by (auto simp only: list_all_iff)
qed

lemma nth_nat_le: "i < n \<Longrightarrow> nat_le n k ! i = word_of_nat (k div 256 ^ i)"
proof (induction n arbitrary: k i)
  case (Suc n)
  have "(word_of_nat (k mod 256) :: u8) = word_of_nat k" by (simp add: word_unat_eq_iff unat_of_nat)
  with Suc show ?case by (cases i) (simp_all add: div_mult2_eq)
qed simp

lemma bit_image:
  "i < n \<Longrightarrow> bit (nat_le n (unat (x :: 'a::len word)) ! i) j \<longleftrightarrow> j < 8 \<and> bit x (8 * i + j)"
proof -
  assume i: "i < n"
  have "unat x div 256 ^ i = drop_bit (8 * i) (unat x)" by (simp add: drop_bit_eq_div power_mult)
  then show ?thesis
    using i by (simp only: nth_nat_le bit_of_nat_iff bit_drop_bit_eq comp_apply bit_unat) simp
qed

text \<open>Swapping reverses the bytes in memory.\<close>

lemma image_reversed:
  fixes x y :: "'a::len word"
  assumes "LENGTH('a) = 8 * k"
    and "\<And>n. n < 8 * k \<Longrightarrow> bit y n \<longleftrightarrow> bit x (8 * (k - 1 - n div 8) + n mod 8)"
  shows "nat_le k (unat y) = rev (nat_le k (unat x))"
proof (rule nth_equalityI)
  fix i assume "i < length (nat_le k (unat y))"
  then have i: "i < k" by simp
  have "bit (nat_le k (unat y) ! i) j \<longleftrightarrow> bit (nat_le k (unat x) ! (k - Suc i)) j" for j
  proof (cases "j < 8")
    case True
    then have "8 * i + j < 8 * k" "(8 * i + j) div 8 = i" "(8 * i + j) mod 8 = j" using i by auto
    with assms(2) [of "8 * i + j"] True i show ?thesis by (simp add: bit_image)
  next
    case False
    with i show ?thesis by (simp add: bit_image)
  qed
  then show "nat_le k (unat y) ! i = rev (nat_le k (unat x)) ! i" using i by (simp add: rev_nth bit_eq_iff)
qed simp

theorem bswap_reverses_bytes:
  "nat_le 2 (unat (pg_bswap16 u)) = rev (nat_le 2 (unat u)) \<and>
   nat_le 4 (unat (pg_bswap32 v)) = rev (nat_le 4 (unat v)) \<and>
   nat_le 8 (unat (pg_bswap64 w)) = rev (nat_le 8 (unat w))"
  by (intro conjI image_reversed) (simp_all add: bswap16_bit bswap32_bit bswap64_bit)

text \<open>\<open>memcmp\<close> on blocks of the same length.\<close>

fun memcmp :: "bytes \<Rightarrow> bytes \<Rightarrow> int" where
  "memcmp (a # as) (b # bs) = (if a = b then memcmp as bs else if a < b then - 1 else 1)"
| "memcmp as bs = 0"

lemma le_nat_append: "le_nat (as @ [b]) = le_nat as + 256 ^ length as * unat b"
  by (induction as) (simp_all add: algebra_simps)

lemma memcmp_big_endian:
  "length as = length bs \<Longrightarrow>
     (memcmp as bs < 0 \<longleftrightarrow> le_nat (rev as) < le_nat (rev bs)) \<and> (memcmp as bs = 0 \<longleftrightarrow> le_nat (rev as) = le_nat (rev bs))"
proof (induction as bs rule: list_induct2)
  case (Cons a as b bs)
  have bound: "le_nat (rev as) < 256 ^ length as" "le_nat (rev bs) < 256 ^ length as"
    using le_nat_bound [of "rev as"] le_nat_bound [of "rev bs"] Cons.hyps by simp_all
  have gap: "u + 256 ^ length as * unat c < v + 256 ^ length as * unat d"
    if "c < d" "u < 256 ^ length as" for u v and c d :: u8
  proof -
    have "unat c + 1 \<le> unat d" using that(1) by (simp add: word_less_nat_alt)
    then have "256 ^ length as * (unat c + 1) \<le> 256 ^ length as * unat d" by (rule mult_le_mono2)
    then show ?thesis using that(2) by (simp add: algebra_simps)
  qed
  show ?case
  proof (cases a b rule: linorder_cases)
    case less
    then have "a \<noteq> b" by blast
    with less show ?thesis using gap [of a b "le_nat (rev as)" "le_nat (rev bs)"] bound Cons.hyps
      by (simp add: le_nat_append)
  next
    case equal
    then show ?thesis using Cons by (simp add: le_nat_append)
  next
    case greater
    then have "a \<noteq> b" "\<not> a < b" by auto
    with greater show ?thesis using gap [of b a "le_nat (rev bs)" "le_nat (rev as)"] bound Cons.hyps
      by (simp add: le_nat_append)
  qed
qed simp

theorem big_endian_compare:
  "(memcmp (nat_le 8 (unat x)) (nat_le 8 (unat y)) < 0 \<longleftrightarrow> DatumBigEndianToNative x < DatumBigEndianToNative y) \<and>
   (memcmp (nat_le 8 (unat x)) (nat_le 8 (unat y)) = 0 \<longleftrightarrow> DatumBigEndianToNative x = DatumBigEndianToNative y)"
proof -
  have "le_nat (rev (nat_le 8 (unat z))) = unat (pg_bswap64 z)" for z
    using bswap_reverses_bytes unat_bound [of "pg_bswap64 z"] by (simp add: le_nat_nat_le flip: bswap_reverses_bytes)
  then show ?thesis
    using memcmp_big_endian [of "nat_le 8 (unat x)" "nat_le 8 (unat y)"]
    by (simp add: DatumBigEndianToNative_def word_less_nat_alt word_unat_eq_iff)
qed

end
