(* ===== verification/TransactionIds.thy ===== *)
theory TransactionIds
  imports Prelude
begin

text \<open>
  Transaction ids: the inline functions and macros of \<open>access/transam.h\<close>.  Ids of 32 bits are compared
  modulo \<open>2 ^ 32\<close>; ids of 64 bits, with their epoch, are ordered as numbers and are an instance of the
  library's linear orders.  The loops that step over the special ids are functions with a termination
  proof.  \<open>TransactionIdPrecedes\<close>, a function of the server, is a parameter.  The lemmas: advancing and
  retreating are inverse to each other, and what lies between an id and the next one.
\<close>

unbundle bit_operations_syntax

section \<open>Transaction ids of 32 bits\<close>

type_synonym TransactionId = "32 word"

abbreviation InvalidTransactionId :: TransactionId where
  "InvalidTransactionId \<equiv> 0"

definition FirstNormalTransactionId :: TransactionId where
  "FirstNormalTransactionId = 3"

definition TransactionIdIsValid :: "TransactionId \<Rightarrow> bool" where
  "TransactionIdIsValid xid \<longleftrightarrow> xid \<noteq> InvalidTransactionId"

definition TransactionIdIsNormal :: "TransactionId \<Rightarrow> bool" where
  "TransactionIdIsNormal xid \<longleftrightarrow> xid \<ge> FirstNormalTransactionId"

definition TransactionIdAdvance :: "TransactionId \<Rightarrow> TransactionId" where
  "TransactionIdAdvance dest =
     (let dest = dest + 1 in if dest < FirstNormalTransactionId then FirstNormalTransactionId else dest)"

text \<open>The decrement that the loops below repeat while the id is special.\<close>

lemma xid_less_3: "(xid :: TransactionId) < FirstNormalTransactionId \<longleftrightarrow> xid = 0 \<or> xid = 1 \<or> xid = 2"
  by (simp add: FirstNormalTransactionId_def word_less_nat_alt word_unat_eq_iff) linarith

function skip_special_down :: "TransactionId \<Rightarrow> TransactionId" where
  "skip_special_down xid = (if xid < FirstNormalTransactionId then skip_special_down (xid - 1) else xid)"
  by pat_completeness auto
termination
  by (relation "measure (\<lambda>xid. if xid < FirstNormalTransactionId then unat xid + 1 else 0)")
    (auto simp: xid_less_3)

declare skip_special_down.simps [simp del]

definition TransactionIdRetreat :: "TransactionId \<Rightarrow> TransactionId" where
  "TransactionIdRetreat dest = skip_special_down (dest - 1)"

definition TransactionIdRetreatedBy :: "TransactionId \<Rightarrow> u32 \<Rightarrow> TransactionId" where
  "TransactionIdRetreatedBy xid amount = skip_special_down (xid - amount)"

definition NormalTransactionIdPrecedes :: "TransactionId \<Rightarrow> TransactionId \<Rightarrow> bool" where
  "NormalTransactionIdPrecedes id1 id2 \<longleftrightarrow> (id1 - id2) <s 0"

definition NormalTransactionIdFollows :: "TransactionId \<Rightarrow> TransactionId \<Rightarrow> bool" where
  "NormalTransactionIdFollows id1 id2 \<longleftrightarrow> 0 <s (id1 - id2)"

definition NormalTransactionIdOlder :: "TransactionId \<Rightarrow> TransactionId \<Rightarrow> TransactionId" where
  "NormalTransactionIdOlder a b = (if NormalTransactionIdPrecedes a b then a else b)"

text \<open>\<open>TransactionIdPrecedes\<close> is a function of the server.\<close>

definition TransactionIdOlder :: "(TransactionId \<Rightarrow> TransactionId \<Rightarrow> bool) \<Rightarrow> TransactionId \<Rightarrow> TransactionId \<Rightarrow> TransactionId" where
  "TransactionIdOlder TransactionIdPrecedes a b =
     (if \<not> TransactionIdIsValid a then b else if \<not> TransactionIdIsValid b then a
      else if TransactionIdPrecedes a b then a else b)"

definition MaxTransactionId :: TransactionId where
  "MaxTransactionId = 0xFFFFFFFF"

lemma special_ids: "\<not> MaxTransactionId < FirstNormalTransactionId" "0 - 1 = MaxTransactionId" "MaxTransactionId + 1 = 0"
  "FirstNormalTransactionId - 1 = 2" "(2 :: TransactionId) + 1 = FirstNormalTransactionId"
  by (simp_all add: MaxTransactionId_def FirstNormalTransactionId_def)

lemma skip_special_down: "skip_special_down xid = (if TransactionIdIsNormal xid then xid else MaxTransactionId)"
proof -
  have top: "skip_special_down MaxTransactionId = MaxTransactionId"
    by (subst skip_special_down.simps) (simp add: special_ids)
  have 0: "skip_special_down 0 = MaxTransactionId"
    by (subst skip_special_down.simps) (simp only: xid_less_3 special_ids top simp_thms if_True)
  have 1: "skip_special_down 1 = MaxTransactionId"
    by (subst skip_special_down.simps) (simp add: xid_less_3 0)
  have 2: "skip_special_down 2 = MaxTransactionId"
    by (subst skip_special_down.simps) (simp add: xid_less_3 1)
  show ?thesis
  proof (cases "xid < FirstNormalTransactionId")
    case True
    then have "skip_special_down xid = MaxTransactionId" using 0 1 2 by (auto simp: xid_less_3)
    with True show ?thesis by (simp add: TransactionIdIsNormal_def not_le [symmetric])
  next
    case False
    then show ?thesis unfolding skip_special_down.simps [of xid] if_not_P [OF False]
      by (simp add: TransactionIdIsNormal_def not_less)
  qed
qed

lemma TransactionIdAdvance_eq:
  "TransactionIdAdvance xid = (if TransactionIdIsNormal (xid + 1) then xid + 1 else FirstNormalTransactionId)"
  by (auto simp: TransactionIdAdvance_def TransactionIdIsNormal_def Let_def)

lemma normal_unat: "TransactionIdIsNormal xid \<longleftrightarrow> 3 \<le> unat xid"
  by (simp add: TransactionIdIsNormal_def FirstNormalTransactionId_def word_le_nat_alt)

lemma normal_pred: "TransactionIdIsNormal xid \<Longrightarrow> \<not> TransactionIdIsNormal (xid - 1) \<longleftrightarrow> xid = FirstNormalTransactionId"
proof -
  assume n: "TransactionIdIsNormal xid"
  then have "xid \<noteq> 0" by (auto simp: normal_unat)
  then have "unat (xid - 1) = unat xid - 1" by (rule unat_minus_one)
  then show ?thesis using n
    by (simp add: normal_unat FirstNormalTransactionId_def word_unat_eq_iff) linarith
qed

lemma normal_succ: "TransactionIdIsNormal xid \<Longrightarrow> \<not> TransactionIdIsNormal (xid + 1) \<longleftrightarrow> xid = MaxTransactionId"
proof -
  assume n: "TransactionIdIsNormal xid"
  have u: "unat (xid + 1) = (if unat xid = 4294967295 then 0 else unat xid + 1)"
    using unat_bound [of xid] by (simp add: unat_word_ariths)
  show ?thesis using n u unat_bound [of xid]
    by (auto simp: normal_unat MaxTransactionId_def word_unat_eq_iff)
qed

text \<open>Advancing and retreating go round the normal ids in opposite directions.\<close>

theorem advance_retreat:
  assumes "TransactionIdIsNormal xid"
  shows "TransactionIdIsNormal (TransactionIdAdvance xid)" "TransactionIdIsNormal (TransactionIdRetreat xid)"
    "TransactionIdRetreat (TransactionIdAdvance xid) = xid" "TransactionIdAdvance (TransactionIdRetreat xid) = xid"
proof -
  have c: "TransactionIdIsNormal FirstNormalTransactionId" "TransactionIdIsNormal MaxTransactionId"
    "\<not> TransactionIdIsNormal (FirstNormalTransactionId - 1)" "\<not> TransactionIdIsNormal (MaxTransactionId + 1)"
    by (simp_all add: TransactionIdIsNormal_def FirstNormalTransactionId_def MaxTransactionId_def)
  show "TransactionIdIsNormal (TransactionIdAdvance xid)" "TransactionIdIsNormal (TransactionIdRetreat xid)"
    using c by (simp_all add: TransactionIdAdvance_eq TransactionIdRetreat_def skip_special_down)
  show "TransactionIdRetreat (TransactionIdAdvance xid) = xid"
    using assms normal_succ [OF assms] c by (auto simp: TransactionIdAdvance_eq TransactionIdRetreat_def skip_special_down)
  show "TransactionIdAdvance (TransactionIdRetreat xid) = xid"
    using assms normal_pred [OF assms] c by (auto simp: TransactionIdAdvance_eq TransactionIdRetreat_def skip_special_down)
qed

text \<open>The circular comparison: an id precedes those up to \<open>2 ^ 31\<close> ahead of it.  Of two ids that are just
  \<open>2 ^ 31\<close> apart each precedes the other.\<close>

lemma negative_i32: "(w :: i32) <s 0 \<longleftrightarrow> 2 ^ 31 \<le> unat w"
proof -
  have "w <s 0 \<longleftrightarrow> sint w < 0" by (simp add: word_sless_alt)
  also have "\<dots> \<longleftrightarrow> bit w 31" by (simp add: sint_uint signed_take_bit_negative_iff bit_uint_iff)
  also have "\<dots> \<longleftrightarrow> bit (unat w) 31" by (simp add: bit_unsigned_iff)
  also have "\<dots> \<longleftrightarrow> odd (unat w div 2 ^ 31)" by (simp only: bit_iff_odd)
  also have "\<dots> \<longleftrightarrow> 2 ^ 31 \<le> unat w"
  proof -
    have "unat w div 2 ^ 31 < 2" using unat_bound [of w] by (simp add: less_mult_imp_div_less)
    then have "odd (unat w div 2 ^ 31) \<longleftrightarrow> unat w div 2 ^ 31 \<noteq> 0" by (auto simp: less_2_cases_iff)
    then show ?thesis by (simp add: div_eq_0_iff not_less)
  qed
  finally show ?thesis .
qed

theorem precedes_circular: "NormalTransactionIdPrecedes a b \<longleftrightarrow> a \<noteq> b \<and> unat (b - a) \<le> 2 ^ 31"
proof (cases "a = b")
  case False
  then have "unat (a - b) \<noteq> 0" by (simp add: unat_eq_0)
  moreover have "(unat (b - a) + unat (a - b)) mod 2 ^ 32 = 0"
    using unat_word_ariths(1) [of "b - a" "a - b"] by simp
  then obtain k where k: "unat (b - a) + unat (a - b) = 2 ^ 32 * k" by (auto simp: mod_eq_0_iff_dvd)
  ultimately have "0 < k" "k < 2" using unat_bound [of "b - a"] unat_bound [of "a - b"] by auto
  then have "unat (b - a) = 2 ^ 32 - unat (a - b)" using k by (simp add: less_2_cases_iff)
  then show ?thesis using False unat_bound [of "a - b"] by (simp add: NormalTransactionIdPrecedes_def negative_i32) linarith
qed (simp add: NormalTransactionIdPrecedes_def negative_i32)

section \<open>Transaction ids of 64 bits\<close>

datatype FullTransactionId = FullTransactionId (U64FromFullTransactionId: u64)

definition EpochFromFullTransactionId :: "FullTransactionId \<Rightarrow> u32" where
  "EpochFromFullTransactionId x = ucast (drop_bit 32 (U64FromFullTransactionId x))"

definition XidFromFullTransactionId :: "FullTransactionId \<Rightarrow> TransactionId" where
  "XidFromFullTransactionId x = ucast (U64FromFullTransactionId x)"

definition FullTransactionIdFromEpochAndXid :: "u32 \<Rightarrow> TransactionId \<Rightarrow> FullTransactionId" where
  "FullTransactionIdFromEpochAndXid epoch xid = FullTransactionId (push_bit 32 (ucast epoch) OR ucast xid)"

definition FullTransactionIdPrecedes :: "FullTransactionId \<Rightarrow> FullTransactionId \<Rightarrow> bool" where
  "FullTransactionIdPrecedes a b \<longleftrightarrow> U64FromFullTransactionId a < U64FromFullTransactionId b"

definition FullTransactionIdPrecedesOrEquals :: "FullTransactionId \<Rightarrow> FullTransactionId \<Rightarrow> bool" where
  "FullTransactionIdPrecedesOrEquals a b \<longleftrightarrow> U64FromFullTransactionId a \<le> U64FromFullTransactionId b"

definition FullTransactionIdFollows :: "FullTransactionId \<Rightarrow> FullTransactionId \<Rightarrow> bool" where
  "FullTransactionIdFollows a b \<longleftrightarrow> U64FromFullTransactionId a > U64FromFullTransactionId b"

definition FullTransactionIdFollowsOrEquals :: "FullTransactionId \<Rightarrow> FullTransactionId \<Rightarrow> bool" where
  "FullTransactionIdFollowsOrEquals a b \<longleftrightarrow> U64FromFullTransactionId a \<ge> U64FromFullTransactionId b"

text \<open>These comparisons make the type a linear order of the library.\<close>

instantiation FullTransactionId :: linorder
begin

definition less_eq_FullTransactionId :: "FullTransactionId \<Rightarrow> FullTransactionId \<Rightarrow> bool" where
  "a \<le> b \<longleftrightarrow> FullTransactionIdPrecedesOrEquals a b"

definition less_FullTransactionId :: "FullTransactionId \<Rightarrow> FullTransactionId \<Rightarrow> bool" where
  "a < b \<longleftrightarrow> FullTransactionIdPrecedes a b"

instance
  by standard (auto simp: less_eq_FullTransactionId_def less_FullTransactionId_def FullTransactionIdPrecedes_def
      FullTransactionIdPrecedesOrEquals_def FullTransactionId.expand)

end

lemma full_comparisons:
  "FullTransactionIdPrecedes a b \<longleftrightarrow> a < b" "FullTransactionIdPrecedesOrEquals a b \<longleftrightarrow> a \<le> b"
  "FullTransactionIdFollows a b \<longleftrightarrow> b < a" "FullTransactionIdFollowsOrEquals a b \<longleftrightarrow> b \<le> a"
  by (simp_all add: less_eq_FullTransactionId_def less_FullTransactionId_def FullTransactionIdPrecedes_def
      FullTransactionIdPrecedesOrEquals_def FullTransactionIdFollows_def FullTransactionIdFollowsOrEquals_def)

lemma full_less: "f < g \<longleftrightarrow> unat (U64FromFullTransactionId f) < unat (U64FromFullTransactionId g)"
  by (simp add: less_FullTransactionId_def FullTransactionIdPrecedes_def word_less_nat_alt)

lemma full_le: "f \<le> g \<longleftrightarrow> unat (U64FromFullTransactionId f) \<le> unat (U64FromFullTransactionId g)"
  by (simp add: less_eq_FullTransactionId_def FullTransactionIdPrecedesOrEquals_def word_le_nat_alt)

definition FirstNormalFullTransactionId :: FullTransactionId where
  "FirstNormalFullTransactionId = FullTransactionIdFromEpochAndXid 0 FirstNormalTransactionId"

definition FullTransactionIdIsValid :: "FullTransactionId \<Rightarrow> bool" where
  "FullTransactionIdIsValid x \<longleftrightarrow> TransactionIdIsValid (XidFromFullTransactionId x)"

definition FullTransactionIdIsNormal :: "FullTransactionId \<Rightarrow> bool" where
  "FullTransactionIdIsNormal x \<longleftrightarrow> FullTransactionIdFollowsOrEquals x FirstNormalFullTransactionId"

lemma low_add: "(ucast (a + b :: u64) :: u32) = ucast a + ucast b"
  by (simp add: word_unat_eq_iff unsigned_ucast_eq take_bit_eq_mod unat_word_ariths mod_mod_cancel mod_simps)

lemma low_diff: "(ucast (a - b :: u64) :: u32) = ucast a - ucast b"
  using low_add [of "a - b" b] by (simp add: algebra_simps)

function skip_up :: "u64 \<Rightarrow> u64" where
  "skip_up v = (if (ucast v :: TransactionId) < FirstNormalTransactionId then skip_up (v + 1) else v)"
  by pat_completeness auto
termination
  by (relation "measure (\<lambda>v. 3 - unat (ucast v :: TransactionId))") (auto simp: xid_less_3 low_add)

function skip_down :: "u64 \<Rightarrow> u64" where
  "skip_down v = (if (ucast v :: TransactionId) < FirstNormalTransactionId then skip_down (v - 1) else v)"
  by pat_completeness auto
termination
  by (relation "measure (\<lambda>v. if (ucast v :: TransactionId) < FirstNormalTransactionId then unat (ucast v :: TransactionId) + 1 else 0)")
    (auto simp: xid_less_3 low_diff)

declare skip_up.simps [simp del] skip_down.simps [simp del]

definition FullTransactionIdRetreat :: "FullTransactionId \<Rightarrow> FullTransactionId" where
  "FullTransactionIdRetreat dest =
     (let dest = FullTransactionId (U64FromFullTransactionId dest - 1) in
      if FullTransactionIdPrecedes dest FirstNormalFullTransactionId then dest
      else FullTransactionId (skip_down (U64FromFullTransactionId dest)))"

definition FullTransactionIdAdvance :: "FullTransactionId \<Rightarrow> FullTransactionId" where
  "FullTransactionIdAdvance dest =
     (let dest = FullTransactionId (U64FromFullTransactionId dest + 1) in
      if FullTransactionIdPrecedes dest FirstNormalFullTransactionId then dest
      else FullTransactionId (skip_up (U64FromFullTransactionId dest)))"

definition FullTransactionIdNewer :: "FullTransactionId \<Rightarrow> FullTransactionId \<Rightarrow> FullTransactionId" where
  "FullTransactionIdNewer a b =
     (if \<not> FullTransactionIdIsValid a then b else if \<not> FullTransactionIdIsValid b then a
      else if FullTransactionIdFollows a b then a else b)"


section \<open>What the 64-bit ids are\<close>

lemma u64_split: "unat (U64FromFullTransactionId f) = unat (EpochFromFullTransactionId f) * 2 ^ 32 + unat (XidFromFullTransactionId f)"
proof -
  let ?v = "U64FromFullTransactionId f"
  have "unat ?v div 2 ^ 32 < 2 ^ 32" using unat_bound [of ?v] by (simp add: less_mult_imp_div_less)
  then have "unat (EpochFromFullTransactionId f) = unat ?v div 2 ^ 32"
    by (simp only: EpochFromFullTransactionId_def unsigned_ucast_eq take_bit_eq_mod unat_drop_bit_eq) (simp add: drop_bit_eq_div)
  moreover have "unat (XidFromFullTransactionId f) = unat ?v mod 2 ^ 32"
    by (simp add: XidFromFullTransactionId_def unsigned_ucast_eq take_bit_eq_mod)
  ultimately show ?thesis by simp
qed

lemma full_eqI: "unat (U64FromFullTransactionId f) = unat (U64FromFullTransactionId g) \<Longrightarrow> f = g"
  by (simp add: FullTransactionId.expand word_unat_eq_iff)

lemma from_epoch_xid: "unat (U64FromFullTransactionId (FullTransactionIdFromEpochAndXid e x)) = unat e * 2 ^ 32 + unat x"
proof -
  have e: "(ucast e :: u64) = word_of_nat (unat e)" "(ucast x :: u64) = word_of_nat (unat x)" by simp_all
  have "push_bit 32 (ucast e :: u64) OR ucast x = push_bit 32 (ucast e) + ucast x"
    by (rule disjunctive_add [symmetric]) (auto simp: bit_push_bit_iff bit_ucast_iff dest: bit_imp_le_length)
  moreover have "unat (push_bit 32 (ucast e :: u64)) = unat e * 2 ^ 32"
    using unat_bound [of e] by (simp add: push_bit_eq_mult unat_word_ariths unsigned_ucast_eq take_bit_eq_mod)
  moreover have "unat (ucast x :: u64) = unat x" using unat_bound [of x] by (simp add: unsigned_ucast_eq take_bit_eq_mod)
  ultimately show ?thesis using unat_bound [of x] unat_bound [of e]
    by (simp add: FullTransactionIdFromEpochAndXid_def unat_word_ariths)
qed

lemma halves_unique: "a * n + b = a' * n + b' \<Longrightarrow> b < n \<Longrightarrow> b' < (n :: nat) \<Longrightarrow> a = a' \<and> b = b'"
proof -
  assume eq: "a * n + b = a' * n + b'" and "b < n" "b' < n"
  then have "b = b'" by (metis add.commute mod_less mod_mult_self1)
  with eq \<open>b < n\<close> show ?thesis by simp
qed

theorem epoch_xid_roundtrip:
  "EpochFromFullTransactionId (FullTransactionIdFromEpochAndXid e x) = e"
  "XidFromFullTransactionId (FullTransactionIdFromEpochAndXid e x) = x"
  "FullTransactionIdFromEpochAndXid (EpochFromFullTransactionId f) (XidFromFullTransactionId f) = f"
proof -
  let ?g = "FullTransactionIdFromEpochAndXid e x"
  have "unat (EpochFromFullTransactionId ?g) * 2 ^ 32 + unat (XidFromFullTransactionId ?g) = unat e * 2 ^ 32 + unat x"
    using u64_split [of ?g] from_epoch_xid [of e x] by simp
  then have "unat (EpochFromFullTransactionId ?g) = unat e \<and> unat (XidFromFullTransactionId ?g) = unat x"
    by (rule halves_unique) (use unat_bound [of x] unat_bound [of "XidFromFullTransactionId ?g"] in simp_all)
  then show "EpochFromFullTransactionId ?g = e" "XidFromFullTransactionId ?g = x" by (simp_all add: word_unat_eq_iff)
  show "FullTransactionIdFromEpochAndXid (EpochFromFullTransactionId f) (XidFromFullTransactionId f) = f"
    by (rule full_eqI, unfold from_epoch_xid, rule u64_split [symmetric])
qed

theorem full_order_lexicographic:
  "f < g \<longleftrightarrow> EpochFromFullTransactionId f < EpochFromFullTransactionId g \<or>
     EpochFromFullTransactionId f = EpochFromFullTransactionId g \<and> XidFromFullTransactionId f < XidFromFullTransactionId g"
proof -
  have "f < g \<longleftrightarrow> unat (U64FromFullTransactionId f) < unat (U64FromFullTransactionId g)"
    by (rule full_less)
  then show ?thesis
    using unat_bound [of "XidFromFullTransactionId f"] unat_bound [of "XidFromFullTransactionId g"]
    by (auto simp: u64_split word_less_nat_alt word_unat_eq_iff)
qed

lemma low_unat: "unat (ucast (v :: u64) :: TransactionId) = unat v mod 2 ^ 32"
  by (simp add: unsigned_ucast_eq take_bit_eq_mod)

lemma low_special: "(ucast (v :: u64) :: TransactionId) < FirstNormalTransactionId \<longleftrightarrow> unat v mod 2 ^ 32 < 3"
  by (simp add: word_less_nat_alt low_unat FirstNormalTransactionId_def)

lemma low_high:
  obtains D m where "(n :: nat) = D * 2 ^ 32 + m" "m < 2 ^ 32" "n div 2 ^ 32 = D" "n mod 2 ^ 32 = m"
  by (rule that [of "n div 2 ^ 32" "n mod 2 ^ 32"]) simp_all

lemma low_parts: "x < 2 ^ 32 \<Longrightarrow> (D * 2 ^ 32 + x) div 2 ^ 32 = (D :: nat) \<and> (D * 2 ^ 32 + x) mod 2 ^ 32 = x"
  by simp

lemma skip_up_unat: "unat (skip_up v) = (if unat v mod 2 ^ 32 < 3 then unat v div 2 ^ 32 * 2 ^ 32 + 3 else unat v)"
proof (induction v rule: skip_up.induct)
  case (1 v)
  obtain D m where n: "unat v = D * 2 ^ 32 + m" "m < 2 ^ 32" "unat v div 2 ^ 32 = D" "unat v mod 2 ^ 32 = m" by (rule low_high)
  show ?case
  proof (cases "m < 3")
    case True
    have "unat v \<noteq> 2 ^ 64 - 1" using True n(4) by auto
    then have "unat v + 1 < 2 ^ 64" using unat_bound [of v] by simp
    then have v: "unat (v + 1) = D * 2 ^ 32 + (m + 1)" using n(1) by (simp add: unat_word_ariths)
    have "unat (skip_up (v + 1)) = (if m + 1 < 3 then D * 2 ^ 32 + 3 else D * 2 ^ 32 + (m + 1))"
      using 1 True n(4) low_parts [of "m + 1" D] unfolding low_special v by (simp only: if_True) simp
    moreover have "skip_up v = skip_up (v + 1)" using True n(4) by (subst skip_up.simps) (simp add: low_special)
    ultimately show ?thesis using True n(3,4) by auto
  next
    case False
    then show ?thesis using n(4) by (subst skip_up.simps) (simp add: low_special)
  qed
qed

lemma skip_down_unat:
  "3 \<le> unat v \<Longrightarrow> unat (skip_down v) = (if unat v mod 2 ^ 32 < 3 then unat v div 2 ^ 32 * 2 ^ 32 - 1 else unat v)"
proof (induction v rule: skip_down.induct)
  case (1 v)
  obtain D m where n: "unat v = D * 2 ^ 32 + m" "m < 2 ^ 32" "unat v div 2 ^ 32 = D" "unat v mod 2 ^ 32 = m" by (rule low_high)
  show ?case
  proof (cases "m < 3")
    case True
    then obtain D' where D: "D = Suc D'" using "1.prems" n(1) by (cases D) auto
    then have "v \<noteq> 0" using n(1) by auto
    then have v: "unat (v - 1) = unat v - 1" by (rule unat_minus_one)
    have step: "skip_down v = skip_down (v - 1)" using True n(4) by (subst skip_down.simps) (simp add: low_special)
    show ?thesis
    proof (cases m)
      case 0
      then have u: "unat (v - 1) = D' * 2 ^ 32 + (2 ^ 32 - 1)" using v n(1) D by simp
      then have "skip_down (v - 1) = v - 1" by (subst skip_down.simps) (simp add: low_special)
      then show ?thesis using step u n(3,4) 0 D by simp
    next
      case (Suc l)
      then have u: "unat (v - 1) = D * 2 ^ 32 + l" using v n(1) by simp
      have "l < 3" "3 \<le> unat (v - 1)" using True Suc D u by simp_all
      then have "unat (skip_down (v - 1)) = D * 2 ^ 32 - 1"
        using 1(1) True n(4) low_parts [of l D] unfolding low_special u by simp
      then show ?thesis using True n(3,4) step by simp
    qed
  next
    case False
    then show ?thesis using n(4) by (subst skip_down.simps) (simp add: low_special)
  qed
qed

text \<open>Advancing goes to the next id whose lower half is not one of the special ids; below the first
  normal id there is nothing to step over.\<close>

lemma first_normal_unat: "unat (U64FromFullTransactionId FirstNormalFullTransactionId) = 3"
  by (simp add: FirstNormalFullTransactionId_def from_epoch_xid FirstNormalTransactionId_def)

lemma full_normal: "FullTransactionIdIsNormal h \<longleftrightarrow> 3 \<le> unat (U64FromFullTransactionId h)"
  by (simp add: FullTransactionIdIsNormal_def full_comparisons full_le first_normal_unat)

lemma xid_normal: "TransactionIdIsNormal (XidFromFullTransactionId h) \<longleftrightarrow> 3 \<le> unat (U64FromFullTransactionId h) mod 2 ^ 32"
  by (simp add: normal_unat XidFromFullTransactionId_def low_unat)

lemma advance_unat:
  assumes "unat (U64FromFullTransactionId f) < 2 ^ 64 - 1"
  shows "unat (U64FromFullTransactionId (FullTransactionIdAdvance f)) =
    (let v = unat (U64FromFullTransactionId f) + 1 in
     if 3 \<le> v \<and> v mod 2 ^ 32 < 3 then v div 2 ^ 32 * 2 ^ 32 + 3 else v)"
proof -
  have "unat (U64FromFullTransactionId f + 1) = unat (U64FromFullTransactionId f) + 1"
    using assms by (simp add: unat_word_ariths)
  then show ?thesis
    by (simp add: FullTransactionIdAdvance_def Let_def full_comparisons full_less first_normal_unat skip_up_unat)
qed

theorem advance_next:
  assumes "unat (U64FromFullTransactionId f) < 2 ^ 64 - 1"
  defines "g \<equiv> FullTransactionIdAdvance f"
  shows "f < g \<and> (g < FirstNormalFullTransactionId \<or> TransactionIdIsNormal (XidFromFullTransactionId g)) \<and>
    (\<forall>h. f < h \<and> h < g \<longrightarrow> FullTransactionIdIsNormal h \<and> \<not> TransactionIdIsNormal (XidFromFullTransactionId h))"
proof -
  obtain D m where n: "unat (U64FromFullTransactionId f) + 1 = D * 2 ^ 32 + m" "m < 2 ^ 32"
    "(unat (U64FromFullTransactionId f) + 1) div 2 ^ 32 = D" "(unat (U64FromFullTransactionId f) + 1) mod 2 ^ 32 = m" by (rule low_high)
  have g: "unat (U64FromFullTransactionId g) =
      (if 3 \<le> unat (U64FromFullTransactionId f) + 1 \<and> m < 3 then D * 2 ^ 32 + 3 else D * 2 ^ 32 + m)"
    using advance_unat [OF assms(1)] n by (simp add: g_def Let_def)
  have "f < g" using g n(1) unfolding full_less by (auto split: if_splits)
  moreover have "g < FirstNormalFullTransactionId \<or> TransactionIdIsNormal (XidFromFullTransactionId g)"
    using g n(1,2) unfolding full_less first_normal_unat xid_normal by (auto split: if_splits)
  moreover have "FullTransactionIdIsNormal h \<and> \<not> TransactionIdIsNormal (XidFromFullTransactionId h)" if h: "f < h" "h < g" for h
  proof -
    let ?m = "unat (U64FromFullTransactionId h)"
    have m: "unat (U64FromFullTransactionId f) + 1 \<le> ?m" "?m < unat (U64FromFullTransactionId g)" using h unfolding full_less by simp_all
    then have s: "3 \<le> unat (U64FromFullTransactionId f) + 1" "?m < D * 2 ^ 32 + 3" using g n(1) by (auto split: if_splits)
    have "D * 2 ^ 32 \<le> ?m" using m(1) n(1) by simp
    then obtain d where d: "?m = D * 2 ^ 32 + d" by (rule less_eqE)
    have "d < 3" using s(2) d by simp
    then have "?m mod 2 ^ 32 = d" unfolding d by simp
    then show ?thesis using \<open>d < 3\<close> s(1) m(1) unfolding full_normal xid_normal by simp
  qed
  ultimately show ?thesis by blast
qed

lemma retreat_unat:
  assumes "3 < unat (U64FromFullTransactionId f)"
  shows "unat (U64FromFullTransactionId (FullTransactionIdRetreat f)) =
    (let v = unat (U64FromFullTransactionId f) - 1 in if v mod 2 ^ 32 < 3 then v div 2 ^ 32 * 2 ^ 32 - 1 else v)"
proof -
  have "U64FromFullTransactionId f \<noteq> 0" using assms by auto
  then have "unat (U64FromFullTransactionId f - 1) = unat (U64FromFullTransactionId f) - 1" by (rule unat_minus_one)
  then show ?thesis using assms
    by (simp add: FullTransactionIdRetreat_def Let_def full_comparisons full_less first_normal_unat skip_down_unat)
qed

theorem retreat_advance:
  assumes "unat (U64FromFullTransactionId f) < 2 ^ 64 - 1"
    and "FullTransactionIdIsNormal f" "TransactionIdIsNormal (XidFromFullTransactionId f)"
  shows "FullTransactionIdRetreat (FullTransactionIdAdvance f) = f"
proof (rule full_eqI)
  let ?g = "FullTransactionIdAdvance f"
  obtain D m where n: "unat (U64FromFullTransactionId f) = D * 2 ^ 32 + m" "m < 2 ^ 32"
    "unat (U64FromFullTransactionId f) div 2 ^ 32 = D" "unat (U64FromFullTransactionId f) mod 2 ^ 32 = m" by (rule low_high)
  have m: "3 \<le> m" using assms(3) n(4) by (simp add: xid_normal)
  show "unat (U64FromFullTransactionId (FullTransactionIdRetreat ?g)) = unat (U64FromFullTransactionId f)"
  proof (cases "m + 1 = 2 ^ 32")
    case True
    then have "unat (U64FromFullTransactionId f) + 1 = Suc D * 2 ^ 32" using n(1) by simp
    then have g: "unat (U64FromFullTransactionId ?g) = Suc D * 2 ^ 32 + 3" using advance_unat [OF assms(1)] by (simp add: Let_def)
    then have "unat (U64FromFullTransactionId ?g) - 1 = Suc D * 2 ^ 32 + 2" by simp
    then show ?thesis using retreat_unat [of ?g] g n(1) True by (simp add: Let_def)
  next
    case False
    then have "(unat (U64FromFullTransactionId f) + 1) mod 2 ^ 32 = m + 1" using n(1,2) by simp
    then have "unat (U64FromFullTransactionId ?g) = unat (U64FromFullTransactionId f) + 1"
      using advance_unat [OF assms(1)] m by (simp add: Let_def)
    then show ?thesis using retreat_unat [of ?g] m n(4) assms(2) by (simp add: Let_def full_normal)
  qed
qed

text \<open>The newer of two ids.\<close>

lemma newer_max:
  "FullTransactionIdIsValid a \<Longrightarrow> FullTransactionIdIsValid b \<Longrightarrow> FullTransactionIdNewer a b = max a b"
  by (auto simp: FullTransactionIdNewer_def full_comparisons max_def)

end
