(* ===== verification/MemoryChunks.thy ===== *)
theory MemoryChunks
  imports Prelude
begin

text \<open>
  The header that \<open>palloc\<close> puts in front of a piece of memory: the bit fields of
  \<open>utils/memutils_memorychunk.h\<close>.  Addresses are 64-bit words; the assertions of the setters are the
  hypotheses of the theorem.
\<close>

unbundle bit_operations_syntax

section \<open>The header of a chunk\<close>

datatype MemoryContextMethodID =
  MCTX_UNUSED1_ID | MCTX_UNUSED2_ID | MCTX_UNUSED3_ID | MCTX_ASET_ID | MCTX_GENERATION_ID | MCTX_SLAB_ID
  | MCTX_ALIGNED_REDIRECT_ID | MCTX_UNUSED4_ID

primrec method_id :: "MemoryContextMethodID \<Rightarrow> u64" where
  "method_id MCTX_UNUSED1_ID = 0"
| "method_id MCTX_UNUSED2_ID = 1"
| "method_id MCTX_UNUSED3_ID = 2"
| "method_id MCTX_ASET_ID = 3"
| "method_id MCTX_GENERATION_ID = 4"
| "method_id MCTX_SLAB_ID = 5"
| "method_id MCTX_ALIGNED_REDIRECT_ID = 6"
| "method_id MCTX_UNUSED4_ID = 7"

definition MEMORY_CONTEXT_METHODID_BITS :: nat where
  "MEMORY_CONTEXT_METHODID_BITS = 3"

definition MEMORY_CONTEXT_METHODID_MASK :: u64 where
  "MEMORY_CONTEXT_METHODID_MASK = push_bit MEMORY_CONTEXT_METHODID_BITS 1 - 1"

definition MEMORYCHUNK_MAX_VALUE :: u64 where
  "MEMORYCHUNK_MAX_VALUE = 0x3FFFFFFF"

definition MEMORYCHUNK_MAX_BLOCKOFFSET :: u64 where
  "MEMORYCHUNK_MAX_BLOCKOFFSET = 0x3FFFFFFF"

definition MEMORYCHUNK_EXTERNAL_BASEBIT :: nat where
  "MEMORYCHUNK_EXTERNAL_BASEBIT = MEMORY_CONTEXT_METHODID_BITS"

definition MEMORYCHUNK_VALUE_BASEBIT :: nat where
  "MEMORYCHUNK_VALUE_BASEBIT = MEMORYCHUNK_EXTERNAL_BASEBIT + 1"

definition MEMORYCHUNK_BLOCKOFFSET_BASEBIT :: nat where
  "MEMORYCHUNK_BLOCKOFFSET_BASEBIT = MEMORYCHUNK_VALUE_BASEBIT + 30"

definition MEMORYCHUNK_MAGIC :: u64 where
  "MEMORYCHUNK_MAGIC = push_bit MEMORYCHUNK_VALUE_BASEBIT (drop_bit MEMORYCHUNK_VALUE_BASEBIT 0xB1A8DB858EB6EFBA)"

definition HdrMaskIsExternal :: "u64 \<Rightarrow> bool" where
  "HdrMaskIsExternal hdrmask \<longleftrightarrow> hdrmask AND push_bit MEMORYCHUNK_EXTERNAL_BASEBIT 1 \<noteq> 0"

definition HdrMaskGetValue :: "u64 \<Rightarrow> u64" where
  "HdrMaskGetValue hdrmask = drop_bit MEMORYCHUNK_VALUE_BASEBIT hdrmask AND MEMORYCHUNK_MAX_VALUE"

definition HdrMaskBlockOffset :: "u64 \<Rightarrow> u64" where
  "HdrMaskBlockOffset hdrmask = drop_bit MEMORYCHUNK_BLOCKOFFSET_BASEBIT hdrmask AND MEMORYCHUNK_MAX_BLOCKOFFSET"

definition HdrMaskCheckMagic :: "u64 \<Rightarrow> bool" where
  "HdrMaskCheckMagic hdrmask \<longleftrightarrow>
     MEMORYCHUNK_MAGIC = push_bit MEMORYCHUNK_VALUE_BASEBIT (drop_bit MEMORYCHUNK_VALUE_BASEBIT hdrmask)"

text \<open>A chunk and its block are addresses; the operations store and read \<open>hdrmask\<close>.\<close>

definition MemoryChunkSetHdrMask :: "u64 \<Rightarrow> u64 \<Rightarrow> u64 \<Rightarrow> MemoryContextMethodID \<Rightarrow> u64" where
  "MemoryChunkSetHdrMask chunk block value methodid =
     (let blockoffset = chunk - block in
      push_bit MEMORYCHUNK_BLOCKOFFSET_BASEBIT blockoffset OR push_bit MEMORYCHUNK_VALUE_BASEBIT value OR method_id methodid)"

definition MemoryChunkSetHdrMaskExternal :: "MemoryContextMethodID \<Rightarrow> u64" where
  "MemoryChunkSetHdrMaskExternal methodid =
     MEMORYCHUNK_MAGIC OR push_bit MEMORYCHUNK_EXTERNAL_BASEBIT 1 OR method_id methodid"

definition MemoryChunkIsExternal :: "u64 \<Rightarrow> bool" where
  "MemoryChunkIsExternal hdrmask = HdrMaskIsExternal hdrmask"

definition MemoryChunkGetValue :: "u64 \<Rightarrow> u64" where
  "MemoryChunkGetValue hdrmask = HdrMaskGetValue hdrmask"

definition MemoryChunkGetBlock :: "u64 \<Rightarrow> u64 \<Rightarrow> u64" where
  "MemoryChunkGetBlock chunk hdrmask = chunk - HdrMaskBlockOffset hdrmask"

section \<open>The fields do not overlap\<close>

lemma basebits:
  "MEMORYCHUNK_EXTERNAL_BASEBIT = 3" "MEMORYCHUNK_VALUE_BASEBIT = 4" "MEMORYCHUNK_BLOCKOFFSET_BASEBIT = 34"
  by (simp_all add: MEMORYCHUNK_EXTERNAL_BASEBIT_def MEMORYCHUNK_VALUE_BASEBIT_def MEMORYCHUNK_BLOCKOFFSET_BASEBIT_def
      MEMORY_CONTEXT_METHODID_BITS_def)

lemma field_masks:
  "MEMORYCHUNK_MAX_VALUE = mask 30" "MEMORYCHUNK_MAX_BLOCKOFFSET = mask 30" "MEMORY_CONTEXT_METHODID_MASK = mask 3"
  by (simp_all add: MEMORYCHUNK_MAX_VALUE_def MEMORYCHUNK_MAX_BLOCKOFFSET_def MEMORY_CONTEXT_METHODID_MASK_def
      MEMORY_CONTEXT_METHODID_BITS_def mask_eq_exp_minus_1)

lemma small_bit: "uint (w :: u64) < 2 ^ n \<Longrightarrow> bit w i \<Longrightarrow> i < n"
proof -
  assume "uint w < 2 ^ n" and b: "bit w i"
  then have "w AND mask n = w" by (simp add: mask_eq_iff)
  then show "i < n" using b by (metis bit_and_iff bit_mask_iff)
qed

lemma method_bit: "bit (method_id m) i \<Longrightarrow> i < 3"
proof -
  have "uint (method_id m) < 2 ^ 3" by (cases m) simp_all
  then show "bit (method_id m) i \<Longrightarrow> i < 3" by (rule small_bit)
qed

text \<open>A chunk's header gives back the block, the value and the context's method; an external chunk is told
  from the others, with its method, and passes the check of the magic number.\<close>

theorem memory_chunk_roundtrip:
  assumes "chunk - block \<le> MEMORYCHUNK_MAX_BLOCKOFFSET" and "value \<le> MEMORYCHUNK_MAX_VALUE"
  shows "let h = MemoryChunkSetHdrMask chunk block value methodid; e = MemoryChunkSetHdrMaskExternal methodid in
    MemoryChunkGetBlock chunk h = block \<and> MemoryChunkGetValue h = value \<and> \<not> MemoryChunkIsExternal h \<and>
    h AND MEMORY_CONTEXT_METHODID_MASK = method_id methodid \<and>
    MemoryChunkIsExternal e \<and> HdrMaskCheckMagic e \<and> e AND MEMORY_CONTEXT_METHODID_MASK = method_id methodid"
proof -
  define h where "h = MemoryChunkSetHdrMask chunk block value methodid"
  define e where "e = MemoryChunkSetHdrMaskExternal methodid"
  have off: "bit (chunk - block) i \<Longrightarrow> i < 30" and val: "bit value i \<Longrightarrow> i < 30" for i
    using small_bit [of "chunk - block" 30 i] small_bit [of "value" 30 i] assms
    by (simp_all add: MEMORYCHUNK_MAX_VALUE_def MEMORYCHUNK_MAX_BLOCKOFFSET_def word_le_def)
  have h: "bit h i \<longleftrightarrow> i < 64 \<and> (34 \<le> i \<and> bit (chunk - block) (i - 34) \<or> 4 \<le> i \<and> bit value (i - 4) \<or> bit (method_id methodid) i)" for i
    by (auto simp: h_def MemoryChunkSetHdrMask_def Let_def basebits bit_or_iff bit_push_bit_iff dest: bit_imp_le_length)
  define c :: u64 where "c = 0xB1A8DB858EB6EFBA"
  have magic: "MEMORYCHUNK_MAGIC = push_bit 4 (drop_bit 4 c)" unfolding MEMORYCHUNK_MAGIC_def basebits c_def ..
  have eight: "bit (8 :: u64) i \<longleftrightarrow> i = 3" for i
    using bit_push_bit_iff [of 3 "1 :: u64" i] by (auto simp: bit_1_iff)
  have e: "bit e i \<longleftrightarrow> i < 64 \<and> (4 \<le> i \<and> bit c i \<or> i = 3 \<or> bit (method_id methodid) i)" for i
  proof -
    have "bit e i \<longleftrightarrow> i < 64 \<and> 4 \<le> i \<and> bit c i \<or> bit (8 :: u64) i \<or> bit (method_id methodid) i"
      by (auto simp: e_def MemoryChunkSetHdrMaskExternal_def magic basebits bit_or_iff bit_push_bit_iff
          bit_drop_bit_eq dest: bit_imp_le_length)
    then show ?thesis unfolding eight by (auto dest: bit_imp_le_length)
  qed
  have external: "HdrMaskIsExternal m \<longleftrightarrow> bit m 3" for m
    by (simp add: HdrMaskIsExternal_def basebits bit_iff_and_push_bit_not_eq_0)
  have "HdrMaskBlockOffset h = chunk - block"
    by (rule bit_word_eqI)
      (auto simp: HdrMaskBlockOffset_def basebits field_masks bit_and_iff bit_mask_iff bit_drop_bit_eq h dest: off val method_bit)
  then have "MemoryChunkGetBlock chunk h = block" by (simp add: MemoryChunkGetBlock_def)
  moreover have "MemoryChunkGetValue h = value"
    by (rule bit_word_eqI)
      (auto simp: MemoryChunkGetValue_def HdrMaskGetValue_def basebits field_masks bit_and_iff bit_mask_iff bit_drop_bit_eq h
        dest: off val method_bit)
  moreover have "\<not> MemoryChunkIsExternal h" using method_bit [of methodid 3] by (auto simp: MemoryChunkIsExternal_def external h)
  moreover have "h AND MEMORY_CONTEXT_METHODID_MASK = method_id methodid"
    by (rule bit_word_eqI) (auto simp: field_masks bit_and_iff bit_mask_iff h dest: method_bit)
  moreover have "MemoryChunkIsExternal e" by (simp add: MemoryChunkIsExternal_def external e)
  moreover have "HdrMaskCheckMagic e" unfolding HdrMaskCheckMagic_def magic basebits
    by (rule bit_word_eqI) (auto simp: bit_push_bit_iff bit_drop_bit_eq e dest: method_bit)
  moreover have "e AND MEMORY_CONTEXT_METHODID_MASK = method_id methodid"
    by (rule bit_word_eqI) (auto simp: field_masks bit_and_iff bit_mask_iff e dest: method_bit)
  ultimately show ?thesis by (simp add: h_def e_def Let_def)
qed

end
