(* ===== verification/ByteSearch.thy ===== *)
theory ByteSearch
  imports Prelude
begin

text \<open>
  Searching bytes eight at a time: the branch of \<open>port/simd.h\<close> for a machine without vector instructions,
  and the linear searches of \<open>port/pg_lfind.h\<close>.  The searches take the operations on vectors as arguments,
  so that the locale \<open>byte_vector\<close> states what any of the three branches has to provide; it is interpreted on
  the emulation.  The bytes of a vector are those of a little-endian machine.
\<close>

unbundle bit_operations_syntax

section \<open>Eight bytes in a 64-bit integer\<close>

type_synonym Vector8 = u64

text \<open>\<open>memcpy\<close> from memory, and a byte of the vector as memory has it.\<close>

definition vector8_load :: "bytes \<Rightarrow> Vector8" where
  "vector8_load s = word_of_nat (le_nat (take 8 s))"

definition vector8_byte :: "Vector8 \<Rightarrow> nat \<Rightarrow> u8" where
  "vector8_byte v i = ucast (drop_bit (8 * i) v)"

definition vector8_broadcast :: "u8 \<Rightarrow> Vector8" where
  "vector8_broadcast c = NOT 0 div 0xFF * ucast c"

function byte_le_loop :: "Vector8 \<Rightarrow> u8 \<Rightarrow> nat \<Rightarrow> bool" where
  "byte_le_loop v c i = (if i < 8 then if vector8_byte v i \<le> c then True else byte_le_loop v c (i + 1) else False)"
  by pat_completeness auto
termination
  by (relation "measure (\<lambda>(v, c, i). 8 - i)") auto

declare byte_le_loop.simps [simp del]

definition vector8_has_le :: "Vector8 \<Rightarrow> u8 \<Rightarrow> bool" where
  "vector8_has_le v c =
     (if 0 \<le>s v \<and> c < 0x80
      then (v - vector8_broadcast (c + 1)) AND NOT v AND vector8_broadcast 0x80 \<noteq> 0
      else byte_le_loop v c 0)"

definition vector8_has_zero :: "Vector8 \<Rightarrow> bool" where
  "vector8_has_zero v = vector8_has_le v 0"

definition vector8_has :: "Vector8 \<Rightarrow> u8 \<Rightarrow> bool" where
  "vector8_has v c = vector8_has_zero (v XOR vector8_broadcast c)"

definition vector8_is_highbit_set :: "Vector8 \<Rightarrow> bool" where
  "vector8_is_highbit_set v \<longleftrightarrow> v AND vector8_broadcast 0x80 \<noteq> 0"

definition vector8_or :: "Vector8 \<Rightarrow> Vector8 \<Rightarrow> Vector8" where
  "vector8_or v1 v2 = v1 OR v2"

section \<open>Linear search\<close>

text \<open>The loop over whole vectors, and the one over the rest; the operations on vectors are arguments.\<close>

function chunk_loop :: "nat \<Rightarrow> ('a list \<Rightarrow> 'v) \<Rightarrow> ('v \<Rightarrow> bool) \<Rightarrow> 'a list \<Rightarrow> nat \<Rightarrow> nat \<Rightarrow> bool" where
  "chunk_loop width load has base i tail_idx =
     (if i < tail_idx \<and> 0 < width
      then if has (load (take width (drop i base))) then True else chunk_loop width load has base (i + width) tail_idx
      else False)"
  by pat_completeness auto
termination
  by (relation "measure (\<lambda>(width, load, has, base, i, tail_idx). tail_idx - i)") auto

function tail_loop :: "('a \<Rightarrow> bool) \<Rightarrow> 'a list \<Rightarrow> nat \<Rightarrow> nat \<Rightarrow> bool" where
  "tail_loop p base i nelem = (if i < nelem then if p (base ! i) then True else tail_loop p base (i + 1) nelem else False)"
  by pat_completeness auto
termination
  by (relation "measure (\<lambda>(p, base, i, nelem). nelem - i)") auto

declare chunk_loop.simps [simp del] tail_loop.simps [simp del]

definition tail_index :: "nat \<Rightarrow> u32 \<Rightarrow> nat" where
  "tail_index width nelem = unat (ucast ((ucast nelem :: u64) AND NOT (word_of_nat width - 1)) :: u32)"

definition pg_lfind8 :: "nat \<Rightarrow> (bytes \<Rightarrow> 'v) \<Rightarrow> ('v \<Rightarrow> u8 \<Rightarrow> bool) \<Rightarrow> u8 \<Rightarrow> bytes \<Rightarrow> u32 \<Rightarrow> bool" where
  "pg_lfind8 width load has key base nelem =
     (let tail_idx = tail_index width nelem in
      if chunk_loop width load (\<lambda>chunk. has chunk key) base 0 tail_idx then True
      else tail_loop (\<lambda>b. key = b) base tail_idx (unat nelem))"

definition pg_lfind8_le :: "nat \<Rightarrow> (bytes \<Rightarrow> 'v) \<Rightarrow> ('v \<Rightarrow> u8 \<Rightarrow> bool) \<Rightarrow> u8 \<Rightarrow> bytes \<Rightarrow> u32 \<Rightarrow> bool" where
  "pg_lfind8_le width load has_le key base nelem =
     (let tail_idx = tail_index width nelem in
      if chunk_loop width load (\<lambda>chunk. has_le chunk key) base 0 tail_idx then True
      else tail_loop (\<lambda>b. b \<le> key) base tail_idx (unat nelem))"

definition pg_lfind32 :: "u32 \<Rightarrow> u32 list \<Rightarrow> u32 \<Rightarrow> bool" where
  "pg_lfind32 key base nelem = tail_loop (\<lambda>b. key = b) base 0 (unat nelem)"

section \<open>The bit trick\<close>

fun rep :: "nat \<Rightarrow> int" where
  "rep 0 = 0"
| "rep (Suc k) = 1 + 256 * rep k"

lemma bit_high_byte: "0 \<le> r \<Longrightarrow> r < 256 \<Longrightarrow> bit (r + 256 * y :: int) (8 + m) = bit y m"
proof -
  assume r: "0 \<le> r" "r < 256"
  have "bit (r + 256 * y) (8 + m) = bit (drop_bit 8 (r + 256 * y)) m" by (simp add: bit_drop_bit_eq)
  also have "drop_bit 8 (r + 256 * y) = y" using r by (simp add: drop_bit_eq_div)
  finally show ?thesis .
qed

lemma bit_low_byte: "0 \<le> r \<Longrightarrow> r < 256 \<Longrightarrow> bit (r + 256 * y :: int) 7 \<longleftrightarrow> 128 \<le> r"
proof -
  assume r: "0 \<le> r" "r < 256"
  have "(r + 256 * y) div 128 = r div 128 + 2 * y"
    using div_mult_self4 [of 128 "2 * y" r] by (simp add: add.commute)
  then have "bit (r + 256 * y) 7 \<longleftrightarrow> odd (r div 128)" by (simp add: bit_iff_odd)
  also have "\<dots> \<longleftrightarrow> 128 \<le> r"
  proof (cases "128 \<le> r")
    case True
    then have "r div 128 = 1" using r by (simp add: div_pos_geq)
    then show ?thesis using True by simp
  next
    case False
    then show ?thesis using r by simp
  qed
  finally show ?thesis .
qed

lemma less_trick:
  assumes n: "1 \<le> n" "n \<le> 128"
  shows "(\<exists>i<k. bit (V - n * rep k) (8 * i + 7) \<and> \<not> bit V (8 * i + 7)) \<longleftrightarrow> (\<exists>i<k. V div 256 ^ i mod 256 < n)"
proof (induction k arbitrary: V)
  case (Suc k)
  define b where "b = V mod 256"
  define V' where "V' = V div 256"
  have V: "V = b + 256 * V'" and b: "0 \<le> b" "b < 256" by (simp_all add: b_def V'_def)
  have split: "(\<exists>i<Suc k. P i) \<longleftrightarrow> P 0 \<or> (\<exists>i<k. P (Suc i))" for P by (auto simp: less_Suc_eq_0_disj)
  have hi: "V div 256 ^ Suc i mod 256 = V' div 256 ^ i mod 256" for i
    by (simp add: V'_def zdiv_zmult2_eq [symmetric])
  have lo: "V div 256 ^ 0 mod 256 = b" by (simp add: b_def)
  show ?case
  proof (cases "b < n")
    case True
    have "V - n * rep (Suc k) = (b - n + 256) + 256 * (V' - n * rep k - 1)" by (simp add: V algebra_simps)
    then have "bit (V - n * rep (Suc k)) (8 * 0 + 7)" using bit_low_byte [of "b - n + 256" "V' - n * rep k - 1"] True b n by simp
    moreover have "\<not> bit V (8 * 0 + 7)" using bit_low_byte [OF b, of V'] True n V by simp
    ultimately show ?thesis unfolding split lo using True by blast
  next
    case False
    have d: "V - n * rep (Suc k) = (b - n) + 256 * (V' - n * rep k)" by (simp add: V algebra_simps)
    have r: "0 \<le> b - n" "b - n < 256" using False b n by simp_all
    have n0: "\<not> (bit (V - n * rep (Suc k)) (8 * 0 + 7) \<and> \<not> bit V (8 * 0 + 7))"
    proof -
      have "bit (V - n * rep (Suc k)) 7 \<longleftrightarrow> 128 \<le> b - n" unfolding d by (rule bit_low_byte [OF r])
      moreover have "bit V 7 \<longleftrightarrow> 128 \<le> b" unfolding V by (rule bit_low_byte [OF b])
      ultimately show ?thesis using n by simp
    qed
    have hb: "bit (V - n * rep (Suc k)) (8 * Suc i + 7) = bit (V' - n * rep k) (8 * i + 7)" for i
      unfolding d using bit_high_byte [OF r, of "V' - n * rep k" "8 * i + 7"] by (simp add: add.assoc)
    have hc: "bit V (8 * Suc i + 7) = bit V' (8 * i + 7)" for i
      using bit_high_byte [OF b, of V' "8 * i + 7"] V by (simp add: add.assoc)
    show ?thesis unfolding split lo hi hb hc using n0 False Suc.IH [of V'] by blast
  qed
qed simp

section \<open>The vector operations of the emulation\<close>

lemma broadcast_uint: "uint (vector8_broadcast c) = uint c * rep 8"
proof -
  have r: "rep 8 = 72340172838076673" by (simp add: eval_nat_numeral)
  have "(NOT 0 div 0xFF :: u64) = 72340172838076673" by (simp add: word_div_def unsigned_minus_1_eq_mask mask_eq_exp_minus_1)
  then have "uint (vector8_broadcast c) = (72340172838076673 * uint c) mod 2 ^ 64"
    by (simp add: vector8_broadcast_def uint_word_ariths unsigned_ucast_eq take_bit_eq_mod mod_mult_right_eq)
  then show ?thesis using uint_lt2p [of c] by (simp add: r)
qed

lemma rep_high: "bit (128 * rep k) m \<longleftrightarrow> (\<exists>i<k. m = 8 * i + 7)"
proof (induction k arbitrary: m)
  case (Suc k)
  have d: "128 * rep (Suc k) = 128 + 256 * (128 * rep k)" by simp
  have split: "(\<exists>i<Suc k. m = 8 * i + 7) \<longleftrightarrow> m = 7 \<or> (\<exists>i<k. m = 8 * Suc i + 7)"
    by (auto simp: less_Suc_eq_0_disj)
  show ?case
  proof (cases "m < 8")
    case True
    then have "bit (128 + 256 * (128 * rep k)) m = bit (take_bit 8 (128 + 256 * (128 * rep k))) m" by (simp add: bit_take_bit_iff)
    also have "take_bit 8 (128 + 256 * (128 * rep k)) = 128"
      using mod_mult_self2 [of 128 256 "128 * rep k"] by (simp only: take_bit_eq_mod) simp
    also have "bit (128 :: int) m \<longleftrightarrow> m = 7" using bit_exp_iff [where 'a = int, of 7 m] by auto
    finally show ?thesis unfolding split d using True by auto
  next
    case False
    then obtain m' where m: "m = 8 + m'" using le_Suc_ex [of 8 m] by auto
    have "bit (128 + 256 * (128 * rep k)) (8 + m') \<longleftrightarrow> (\<exists>i<k. m' = 8 * i + 7)"
      unfolding Suc.IH [of m', symmetric] by (rule bit_high_byte) simp_all
    moreover have "(\<exists>i<Suc k. 8 + m' = 8 * i + 7) \<longleftrightarrow> (\<exists>i<k. m' = 8 * i + 7)" by (auto simp: less_Suc_eq_0_disj)
    ultimately show ?thesis unfolding d m by simp
  qed
qed simp

lemma byte_uint: "uint (vector8_byte v i) = uint v div 256 ^ i mod 256"
proof -
  have p: "(2 :: int) ^ (8 * i) = 256 ^ i" by (simp add: power_mult)
  have "uint (drop_bit (8 * i) v) = uint v div 256 ^ i"
  proof -
    have "uint (drop_bit (8 * i) v) = int (unat v div 2 ^ (8 * i))"
      by (simp only: uint_nat unat_drop_bit_eq) (simp add: drop_bit_eq_div)
    also have "\<dots> = uint v div 2 ^ (8 * i)" by (simp add: zdiv_int)
    finally show ?thesis by (simp only: p)
  qed
  then show ?thesis by (simp only: vector8_byte_def unsigned_ucast_eq take_bit_eq_mod) simp
qed

lemma nonzero_bit: "x \<noteq> 0 \<longleftrightarrow> (\<exists>m. bit (x :: 'a::len word) m)"
proof
  assume "x \<noteq> 0"
  then show "\<exists>m. bit x m" using bit_word_eqI [of x 0] by auto
qed auto

lemma trick_bits:
  "(v - w) AND NOT v AND vector8_broadcast 0x80 \<noteq> 0 \<longleftrightarrow>
    (\<exists>i<8. bit (uint v - uint w) (8 * i + 7) \<and> \<not> bit (uint v) (8 * i + 7))"
proof -
  have h: "bit (vector8_broadcast 0x80) m \<longleftrightarrow> (\<exists>i<8. m = 8 * i + 7)" for m
  proof -
    have "bit (vector8_broadcast 0x80) m \<longleftrightarrow> bit (uint (vector8_broadcast 0x80)) m"
      by (auto simp: bit_uint_iff dest: bit_imp_le_length)
    also have "uint (vector8_broadcast 0x80) = 128 * rep 8" by (simp only: broadcast_uint) simp
    finally show ?thesis by (simp only: rep_high)
  qed
  have d: "bit (v - w) m \<longleftrightarrow> bit (uint v - uint w) m" if "m < 64" for m
  proof -
    have "bit (v - w) m \<longleftrightarrow> bit (uint (v - w)) m" by (auto simp: bit_uint_iff dest: bit_imp_le_length)
    also have "uint (v - w) = take_bit 64 (uint v - uint w)" by (simp add: uint_word_ariths take_bit_eq_mod)
    finally show ?thesis using that by (simp add: bit_take_bit_iff)
  qed
  have n: "bit (NOT v) m \<longleftrightarrow> \<not> bit (uint v) m" if "m < 64" for m
    using that by (simp add: bit_not_iff bit_uint_iff)
  have "(v - w) AND NOT v AND vector8_broadcast 0x80 \<noteq> 0 \<longleftrightarrow>
      (\<exists>m. bit ((v - w) AND NOT v AND vector8_broadcast 0x80) m)"
    by (rule nonzero_bit)
  also have "\<dots> \<longleftrightarrow> (\<exists>i<8. bit (v - w) (8 * i + 7) \<and> bit (NOT v) (8 * i + 7))"
    by (simp only: bit_and_iff h) blast
  also have "\<dots> \<longleftrightarrow> (\<exists>i<8. bit (uint v - uint w) (8 * i + 7) \<and> \<not> bit (uint v) (8 * i + 7))"
    using d n by auto
  finally show ?thesis .
qed

lemma ex_from_step: "(\<exists>j<n. i \<le> j \<and> P j) \<longleftrightarrow> i < n \<and> P i \<or> (\<exists>j<n. i + 1 \<le> j \<and> P j)"
  for i :: nat
proof
  assume "\<exists>j<n. i \<le> j \<and> P j"
  then obtain j where "j < n" "i \<le> j" "P j" by blast
  then show "i < n \<and> P i \<or> (\<exists>j<n. i + 1 \<le> j \<and> P j)" by (cases "j = i") auto
qed auto

lemma byte_le_loop: "byte_le_loop v c i \<longleftrightarrow> (\<exists>j<8. i \<le> j \<and> vector8_byte v j \<le> c)"
proof (induction v c i rule: byte_le_loop.induct)
  case (1 v c i)
  have s: "(\<exists>j<8. i \<le> j \<and> vector8_byte v j \<le> c) \<longleftrightarrow>
      i < 8 \<and> vector8_byte v i \<le> c \<or> (\<exists>j<8. i + 1 \<le> j \<and> vector8_byte v j \<le> c)" by (rule ex_from_step)
  show ?case
  proof (cases "i < 8 \<and> \<not> vector8_byte v i \<le> c")
    case True
    then show ?thesis unfolding s byte_le_loop.simps [of v c i] using 1 by simp
  next
    case False
    then show ?thesis unfolding s byte_le_loop.simps [of v c i] by auto
  qed
qed

lemma vector8_has_le: "vector8_has_le v c \<longleftrightarrow> (\<exists>i<8. vector8_byte v i \<le> c)"
proof (cases "0 \<le>s v \<and> c < 0x80")
  case True
  then have c: "uint c < 128" by (simp add: word_less_def)
  then have u: "uint (c + 1) = uint c + 1" by (simp add: uint_word_ariths)
  have "vector8_has_le v c \<longleftrightarrow> (\<exists>i<8. uint v div 256 ^ i mod 256 < uint (c + 1))"
    unfolding vector8_has_le_def if_P [OF True] trick_bits broadcast_uint using c
    by (intro less_trick) (simp_all add: u)
  also have "\<dots> \<longleftrightarrow> (\<exists>i<8. vector8_byte v i \<le> c)" by (simp add: u byte_uint word_le_def)
  finally show ?thesis .
next
  case False
  then show ?thesis by (simp only: vector8_has_le_def if_not_P [OF False] byte_le_loop) auto
qed

lemma xor_zero: "a XOR b = 0 \<longleftrightarrow> a = (b :: 'a::len word)"
proof
  assume "a XOR b = 0"
  then have "bit a n = bit b n" for n by (metis bit_0_eq bit_xor_iff bot_apply bot_bool_def)
  then show "a = b" by (simp add: bit_eq_iff)
qed simp

lemma byte_xor: "vector8_byte (v XOR w) i = vector8_byte v i XOR vector8_byte w i"
  by (rule bit_word_eqI) (simp add: vector8_byte_def bit_ucast_iff bit_drop_bit_eq bit_xor_iff)

lemma rep_digit: "i < k \<Longrightarrow> 0 \<le> c \<Longrightarrow> c < 256 \<Longrightarrow> (c * rep k) div 256 ^ i mod 256 = c"
proof (induction k arbitrary: i)
  case (Suc k)
  have d: "c * rep (Suc k) = c + 256 * (c * rep k)" by (simp add: algebra_simps)
  show ?case
  proof (cases i)
    case 0
    then show ?thesis using Suc.prems unfolding d by simp
  next
    case (Suc j)
    have "(c * rep (Suc k)) div 256 ^ i = (c * rep k) div 256 ^ j"
    proof -
      have "(c * rep (Suc k)) div 256 ^ i = (c + 256 * (c * rep k)) div 256 div 256 ^ j"
        unfolding d Suc power_Suc by (rule zdiv_zmult2_eq) simp
      also have "(c + 256 * (c * rep k)) div 256 = c * rep k" using Suc.prems by (subst div_mult_self2) simp_all
      finally show ?thesis .
    qed
    then show ?thesis using Suc Suc.prems Suc.IH [of j] by simp
  qed
qed simp

lemma byte_broadcast: "i < 8 \<Longrightarrow> vector8_byte (vector8_broadcast c) i = c"
  by (simp add: word_uint_eq_iff byte_uint broadcast_uint rep_digit uint_lt2p [where 'a = 8, simplified])

lemma vector8_has: "vector8_has v c \<longleftrightarrow> (\<exists>i<8. vector8_byte v i = c)"
proof -
  have "vector8_byte (v XOR vector8_broadcast c) i \<le> 0 \<longleftrightarrow> vector8_byte v i = c" if "i < 8" for i
    using that by (simp add: byte_xor byte_broadcast xor_zero)
  then show ?thesis by (auto simp: vector8_has_def vector8_has_zero_def vector8_has_le)
qed

lemma load_byte: "length s = 8 \<Longrightarrow> i < 8 \<Longrightarrow> vector8_byte (vector8_load s) i = s ! i"
proof -
  assume s: "length s = 8" "i < 8"
  have digit: "i < length s \<Longrightarrow> le_nat s div 256 ^ i mod 256 = unat (s ! i)" for s i
  proof (induction s arbitrary: i)
    case (Cons b s)
    have b: "unat b < 256" using unat_bound [of b] by simp
    show ?case
    proof (cases i)
      case (Suc j)
      have "(unat b + 256 * le_nat s) div 256 ^ i = le_nat s div 256 ^ j"
        using b by (simp add: Suc div_mult2_eq)
      then show ?thesis using Suc Cons by simp
    qed (use b in simp)
  qed simp
  have "uint (vector8_load s) = int (le_nat s)"
    using le_nat_bound [of s] s by (simp add: vector8_load_def unsigned_of_nat take_bit_nat_eq_self)
  then have "uint (vector8_byte (vector8_load s) i) = int (le_nat s div 256 ^ i mod 256)"
    by (simp add: byte_uint zdiv_int zmod_int)
  then show ?thesis using digit [of i s] s by (simp add: word_uint_eq_iff)
qed

section \<open>The searches\<close>

lemma tail_loop: "tail_loop p base i n \<longleftrightarrow> (\<exists>j<n. i \<le> j \<and> p (base ! j))"
proof (induction p base i n rule: tail_loop.induct)
  case (1 p base i n)
  show ?case
  proof (cases "i < n \<and> \<not> p (base ! i)")
    case True
    then show ?thesis unfolding ex_from_step [of n i] tail_loop.simps [of p base i n] using 1 by simp
  next
    case False
    then show ?thesis unfolding ex_from_step [of n i] tail_loop.simps [of p base i n] by auto
  qed
qed

lemma chunk_elements:
  assumes "i + w \<le> length base"
  shows "(\<exists>b\<in>set (take w (drop i base)). P b) \<longleftrightarrow> (\<exists>j. i \<le> j \<and> j < i + w \<and> P (base ! j))"
proof
  assume "\<exists>b\<in>set (take w (drop i base)). P b"
  then obtain m where "m < w" "P (base ! (i + m))" using assms by (auto simp: in_set_conv_nth)
  then show "\<exists>j. i \<le> j \<and> j < i + w \<and> P (base ! j)" by (intro exI [of _ "i + m"]) simp
next
  assume "\<exists>j. i \<le> j \<and> j < i + w \<and> P (base ! j)"
  then obtain m where m: "m < w" "P (base ! (i + m))" using le_Suc_ex by (metis nat_add_left_cancel_less)
  then have "base ! (i + m) \<in> set (take w (drop i base))" using assms by (auto simp: in_set_conv_nth intro!: exI [of _ m])
  with m(2) show "\<exists>b\<in>set (take w (drop i base)). P b" by blast
qed

lemma chunk_loop:
  assumes "0 < w" and has: "\<And>chunk. length chunk = w \<Longrightarrow> has (load chunk) \<longleftrightarrow> (\<exists>b\<in>set chunk. P b)"
    and t: "t \<le> length base" "w dvd t"
  shows "w dvd i \<Longrightarrow> chunk_loop w load has base i t \<longleftrightarrow> (\<exists>j<t. i \<le> j \<and> P (base ! j))"
proof (induction "t - i" arbitrary: i rule: less_induct)
  case less
  show ?case
  proof (cases "i < t")
    case True
    obtain a b where ab: "i = w * a" "t = w * b" using less.prems t(2) by (auto elim!: dvdE)
    have "a < b" using True ab by simp
    then have "w * (a + 1) \<le> w * b" by (intro mult_left_mono) simp_all
    then have nx: "i + w \<le> t" by (simp add: ab)
    then have c: "has (load (take w (drop i base))) \<longleftrightarrow> (\<exists>j. i \<le> j \<and> j < i + w \<and> P (base ! j))"
      using t by (subst has) (simp_all add: chunk_elements)
    have r: "chunk_loop w load has base (i + w) t \<longleftrightarrow> (\<exists>j<t. i + w \<le> j \<and> P (base ! j))"
      using True \<open>0 < w\<close> less.prems by (intro less.hyps) auto
    have "(\<exists>j<t. i \<le> j \<and> P (base ! j)) \<longleftrightarrow>
        (\<exists>j. i \<le> j \<and> j < i + w \<and> P (base ! j)) \<or> (\<exists>j<t. i + w \<le> j \<and> P (base ! j))"
      using nx by (meson add_leD1 le_less_linear order_less_le_trans)
    then show ?thesis unfolding chunk_loop.simps [of w load has base i t] using True \<open>0 < w\<close> c r by auto
  next
    case False
    then show ?thesis unfolding chunk_loop.simps [of w load has base i t] by auto
  qed
qed

lemma tail_index:
  assumes "width = 2 ^ k" "k < 32"
  shows "tail_index width nelem = unat nelem - unat nelem mod width"
proof -
  let ?x = "ucast nelem :: u64"
  have m: "(word_of_nat width - 1 :: u64) = mask k" by (simp add: assms mask_eq_exp_minus_1)
  have "(?x AND NOT (mask k)) + take_bit k ?x = (?x AND NOT (mask k)) OR take_bit k ?x"
    by (rule disjunctive_add) (auto simp: bit_simps)
  also have "\<dots> = ?x" by (rule bit_word_eqI) (auto simp: bit_simps)
  finally have d: "?x AND NOT (mask k) = ?x - take_bit k ?x" by (simp add: eq_diff_eq)
  have u: "unat ?x = unat nelem" using unat_bound [of nelem] by (simp add: unsigned_ucast_eq take_bit_eq_mod)
  have t: "unat (take_bit k ?x) = unat nelem mod width"
    by (simp only: unsigned_take_bit_eq u) (simp add: take_bit_eq_mod assms)
  then have "take_bit k ?x \<le> ?x" by (simp add: word_le_nat_alt u)
  then have "unat (?x - take_bit k ?x) = unat nelem - unat nelem mod width" by (simp add: unat_sub t u)
  then show ?thesis using unat_bound [of nelem]
    by (simp add: tail_index_def m d unsigned_ucast_eq take_bit_eq_mod)
qed

text \<open>What the searches rely on: the answers of a vector's operations on the bytes it was loaded with.\<close>

locale byte_vector =
  fixes width k :: nat and load :: "bytes \<Rightarrow> 'v" and has has_le :: "'v \<Rightarrow> u8 \<Rightarrow> bool"
  assumes width: "width = 2 ^ k" "k < 32"
    and has: "length chunk = width \<Longrightarrow> has (load chunk) key \<longleftrightarrow> key \<in> set chunk"
    and has_le: "length chunk = width \<Longrightarrow> has_le (load chunk) key \<longleftrightarrow> (\<exists>b\<in>set chunk. b \<le> key)"
begin

lemma search:
  assumes h: "\<And>chunk. length chunk = width \<Longrightarrow> h (load chunk) \<longleftrightarrow> (\<exists>b\<in>set chunk. P b)" and n: "unat nelem \<le> length base"
  shows "chunk_loop width load h base 0 (tail_index width nelem) \<or> tail_loop P base (tail_index width nelem) (unat nelem)
    \<longleftrightarrow> (\<exists>b\<in>set (take (unat nelem) base). P b)"
proof -
  let ?t = "tail_index width nelem"
  have t: "?t \<le> unat nelem" "width dvd ?t" by (simp_all add: tail_index [OF width] dvd_minus_mod)
  have "chunk_loop width load h base 0 ?t \<longleftrightarrow> (\<exists>j<?t. 0 \<le> j \<and> P (base ! j))"
    using h t n by (intro chunk_loop) (simp_all add: width)
  then have "chunk_loop width load h base 0 ?t \<or> tail_loop P base ?t (unat nelem) \<longleftrightarrow> (\<exists>j<unat nelem. P (base ! j))"
    unfolding tail_loop using t(1) by (meson le_less_linear order_less_le_trans zero_le)
  also have "\<dots> \<longleftrightarrow> (\<exists>b\<in>set (take (unat nelem) base). P b)" using chunk_elements [of 0 "unat nelem" base P] n by simp
  finally show ?thesis .
qed

lemma find:
  assumes "unat nelem \<le> length base"
  shows "pg_lfind8 width load has key base nelem \<longleftrightarrow> key \<in> set (take (unat nelem) base)"
  using search [of "\<lambda>v. has v key" "\<lambda>b. key = b", OF _ assms] by (auto simp: pg_lfind8_def has Let_def)

lemma find_le:
  assumes "unat nelem \<le> length base"
  shows "pg_lfind8_le width load has_le key base nelem \<longleftrightarrow> (\<exists>b\<in>set (take (unat nelem) base). b \<le> key)"
  using search [of "\<lambda>v. has_le v key" "\<lambda>b. b \<le> key", OF _ assms] by (auto simp: pg_lfind8_le_def has_le Let_def)

end

interpretation emulated: byte_vector 8 3 vector8_load vector8_has vector8_has_le
proof
  show "vector8_has (vector8_load chunk) key \<longleftrightarrow> key \<in> set chunk" if "length chunk = 8" for chunk key
    using that by (auto simp: vector8_has load_byte in_set_conv_nth)
  show "vector8_has_le (vector8_load chunk) key \<longleftrightarrow> (\<exists>b\<in>set chunk. b \<le> key)" if "length chunk = 8" for chunk key
    using that chunk_elements [of 0 8 chunk "\<lambda>b. b \<le> key"] by (auto simp: vector8_has_le load_byte)
qed simp_all

text \<open>C40: The search through eight bytes at a time in the absence of vector instructions (64-bit
  arithmetic on bytes side by side) finds a byte, or one that is not greater, exactly when it is among
  the first \<open>nelem\<close> bytes, whatever the bytes and the key; so does the search for a 32-bit number.  The
  arrays hold at least \<open>nelem\<close> elements.\<close>

theorem linear_search_exact:
  assumes "unat nelem \<le> length base" "unat nelem' \<le> length words"
  shows "(pg_lfind8 8 vector8_load vector8_has key base nelem \<longleftrightarrow> key \<in> set (take (unat nelem) base)) \<and>
    (pg_lfind8_le 8 vector8_load vector8_has_le key base nelem \<longleftrightarrow> (\<exists>b\<in>set (take (unat nelem) base). b \<le> key)) \<and>
    (pg_lfind32 key' words nelem' \<longleftrightarrow> key' \<in> set (take (unat nelem') words))"
proof (intro conjI)
  show "pg_lfind8 8 vector8_load vector8_has key base nelem \<longleftrightarrow> key \<in> set (take (unat nelem) base)"
    using assms(1) by (rule emulated.find)
  show "pg_lfind8_le 8 vector8_load vector8_has_le key base nelem \<longleftrightarrow> (\<exists>b\<in>set (take (unat nelem) base). b \<le> key)"
    using assms(1) by (rule emulated.find_le)
  show "pg_lfind32 key' words nelem' \<longleftrightarrow> key' \<in> set (take (unat nelem') words)"
    using chunk_elements [of 0 "unat nelem'" words "\<lambda>b. key' = b"] assms(2) by (simp add: pg_lfind32_def tail_loop)
qed

theorem linear_search_exact_witness:
  "pg_lfind8 8 vector8_load vector8_has 0x80 [1, 2, 3, 0x80, 5, 6, 7, 0xFF, 9, 10, 11] 11 \<and>
   pg_lfind8_le 8 vector8_load vector8_has_le 0x80 [1, 2, 3, 0x80, 5, 6, 7, 0xFF, 9, 10, 11] 11 \<and> \<not> pg_lfind32 7 [1, 2] 2"
  using linear_search_exact [where nelem = 11 and base = "[1, 2, 3, 0x80, 5, 6, 7, 0xFF, 9, 10, 11]" and key = "0x80"
      and nelem' = 2 and words = "[1, 2]" and key' = 7] by simp

end
