(* ===== verification/AsciiCheck.thy ===== *)
theory AsciiCheck
  imports ByteSearch
begin

text \<open>
  The check for 7-bit characters of \<open>utils/ascii.h\<close>, in the branch without vector instructions, and that
  it decides what it is described to decide.
\<close>

unbundle bit_operations_syntax

section \<open>Eight bytes at a time\<close>

function ascii_loop :: "bytes \<Rightarrow> Vector8 \<Rightarrow> Vector8 \<Rightarrow> Vector8 \<times> Vector8" where
  "ascii_loop s highbit_cum zero_cum =
     (if s \<noteq> []
      then
        let chunk = vector8_load s;
            zero_cum = zero_cum AND (chunk + vector8_broadcast 0x7F);
            highbit_cum = vector8_or highbit_cum chunk
        in ascii_loop (drop 8 s) highbit_cum zero_cum
      else (highbit_cum, zero_cum))"
  by pat_completeness auto
termination
  by (relation "measure (\<lambda>(s, h, z). length s)") auto

declare ascii_loop.simps [simp del]

definition is_valid_ascii :: "bytes \<Rightarrow> bool" where
  "is_valid_ascii s =
     (let (highbit_cum, zero_cum) = ascii_loop s (vector8_broadcast 0) (vector8_broadcast 0x80) in
      if vector8_is_highbit_set highbit_cum then False
      else if zero_cum \<noteq> vector8_broadcast 0x80 then False
      else True)"

section \<open>The two accumulators\<close>

lemma byte_of_int: "bit (V :: int) (8 * i + 7) \<longleftrightarrow> 128 \<le> V div 256 ^ i mod 256"
proof (induction i arbitrary: V)
  case 0
  have "V = V mod 256 + 256 * (V div 256)" by simp
  then show ?case using bit_low_byte [of "V mod 256" "V div 256"] by simp
next
  case (Suc i)
  have "bit V (8 * Suc i + 7) = bit (V div 256) (8 * i + 7)"
    using bit_high_byte [of "V mod 256" "V div 256" "8 * i + 7"] by (simp add: add.assoc)
  then show ?case using Suc.IH [of "V div 256"] by (simp add: zdiv_zmult2_eq)
qed

lemma add_trick:
  "(\<And>i. i < k \<Longrightarrow> V div 256 ^ i mod 256 < 128) \<Longrightarrow> i < k \<Longrightarrow>
    bit (V + 127 * rep k) (8 * i + 7) \<longleftrightarrow> V div 256 ^ i mod 256 \<noteq> 0"
proof (induction k arbitrary: V i)
  case (Suc k)
  define b where "b = V mod 256"
  define V' where "V' = V div 256"
  have V: "V = b + 256 * V'" and b: "0 \<le> b" "b < 128" using Suc.prems(1) [of 0] by (simp_all add: b_def V'_def)
  have d: "V + 127 * rep (Suc k) = (b + 127) + 256 * (V' + 127 * rep k)" by (simp add: V algebra_simps)
  have hi: "V div 256 ^ Suc j mod 256 = V' div 256 ^ j mod 256" for j
    by (simp add: V'_def zdiv_zmult2_eq [symmetric])
  note i = Suc.prems(2)
  have IH: "bit (V' + 127 * rep k) (8 * j + 7) \<longleftrightarrow> V' div 256 ^ j mod 256 \<noteq> 0" if "j < k" for j
    using that Suc.prems(1) [of "Suc _"] unfolding hi by (intro Suc.IH) simp_all
  show ?case
  proof (cases i)
    case 0
    have "bit (V + 127 * rep (Suc k)) 7 \<longleftrightarrow> 128 \<le> b + 127" unfolding d by (rule bit_low_byte) (use b in simp_all)
    then show ?thesis using b by (auto simp: 0 b_def [symmetric])
  next
    case (Suc j)
    then have less: "j < k" using i by simp
    have "bit (V + 127 * rep (Suc k)) (8 + (8 * j + 7)) = bit (V' + 127 * rep k) (8 * j + 7)"
      unfolding d by (rule bit_high_byte) (use b in simp_all)
    then show ?thesis using IH [of j] less unfolding Suc hi by (simp add: add.assoc)
  qed
qed simp

lemma vector_high: "i < 8 \<Longrightarrow> bit (v :: Vector8) (8 * i + 7) \<longleftrightarrow> 0x80 \<le> vector8_byte v i"
  using byte_of_int [of "uint v" i] by (simp add: bit_uint_iff byte_uint word_le_def)

lemma broadcast_high: "bit (vector8_broadcast 0x80) m \<longleftrightarrow> (\<exists>i<8. m = 8 * i + 7)"
proof -
  have "bit (vector8_broadcast 0x80) m \<longleftrightarrow> bit (uint (vector8_broadcast 0x80)) m"
    by (auto simp: bit_uint_iff dest: bit_imp_le_length)
  also have "uint (vector8_broadcast 0x80) = 128 * rep 8" by (simp only: broadcast_uint) simp
  finally show ?thesis by (simp only: rep_high)
qed

lemma highbit_set: "vector8_is_highbit_set v \<longleftrightarrow> (\<exists>i<8. bit v (8 * i + 7))"
  unfolding vector8_is_highbit_set_def nonzero_bit bit_and_iff broadcast_high by blast

lemma sum_high:
  assumes "\<And>i. i < 8 \<Longrightarrow> vector8_byte v i < 0x80" "i < 8"
  shows "bit (v + vector8_broadcast 0x7F) (8 * i + 7) \<longleftrightarrow> vector8_byte v i \<noteq> 0"
proof -
  have "bit (v + vector8_broadcast 0x7F) (8 * i + 7) \<longleftrightarrow> bit (uint (v + vector8_broadcast 0x7F)) (8 * i + 7)"
    by (auto simp: bit_uint_iff dest: bit_imp_le_length)
  also have "uint (v + vector8_broadcast 0x7F) = take_bit 64 (uint v + 127 * rep 8)"
    by (simp only: uint_word_ariths broadcast_uint take_bit_eq_mod) simp
  also have "bit \<dots> (8 * i + 7) \<longleftrightarrow> bit (uint v + 127 * rep 8) (8 * i + 7)" using assms(2) by (simp add: bit_take_bit_iff)
  also have "\<dots> \<longleftrightarrow> uint v div 256 ^ i mod 256 \<noteq> 0"
    using assms by (intro add_trick) (simp_all add: byte_uint [symmetric] word_less_def)
  finally show ?thesis by (simp add: byte_uint [symmetric] word_uint_eq_iff)
qed

text \<open>One turn of the loop, on a string that is not empty.\<close>

lemma ascii_turn:
  assumes "length s mod 8 = 0" "s \<noteq> []"
  shows "ascii_loop s h z =
      ascii_loop (drop 8 s) (vector8_or h (vector8_load s)) (z AND (vector8_load s + vector8_broadcast 0x7F))"
    and "length (drop 8 s) mod 8 = 0" "set s = set (take 8 s) \<union> set (drop 8 s)"
    and "(\<exists>i<8. P (vector8_byte (vector8_load s) i)) \<longleftrightarrow> (\<exists>b\<in>set (take 8 s). P b)"
proof -
  have n: "8 \<le> length s" using assms by (simp add: dvd_imp_le mod_eq_0_iff_dvd)
  show "ascii_loop s h z =
      ascii_loop (drop 8 s) (vector8_or h (vector8_load s)) (z AND (vector8_load s + vector8_broadcast 0x7F))"
    using assms(2) by (subst ascii_loop.simps) (simp add: Let_def)
  show "length (drop 8 s) mod 8 = 0" using assms(1) by (simp add: mod_eq_0_iff_dvd)
  show "set s = set (take 8 s) \<union> set (drop 8 s)" by (metis append_take_drop_id set_append)
  have "vector8_load s = vector8_load (take 8 s)" by (simp add: vector8_load_def)
  then have "vector8_byte (vector8_load s) i = s ! i" if "i < 8" for i using n that by (simp add: load_byte)
  then show "(\<exists>i<8. P (vector8_byte (vector8_load s) i)) \<longleftrightarrow> (\<exists>b\<in>set (take 8 s). P b)"
    using n chunk_elements [of 0 8 s P] by auto
qed

lemma ascii_loop_high:
  "length s mod 8 = 0 \<Longrightarrow>
    vector8_is_highbit_set (fst (ascii_loop s h z)) \<longleftrightarrow> vector8_is_highbit_set h \<or> (\<exists>b\<in>set s. 0x80 \<le> b)"
proof (induction "length s" arbitrary: s h z rule: less_induct)
  case less
  show ?case
  proof (cases "s = []")
    case False
    note turn = ascii_turn [OF less.prems False]
    have "vector8_is_highbit_set (vector8_or h (vector8_load s)) \<longleftrightarrow>
        vector8_is_highbit_set h \<or> (\<exists>i<8. 0x80 \<le> vector8_byte (vector8_load s) i)"
      by (auto simp: highbit_set vector8_or_def bit_or_iff vector_high)
    then show ?thesis using less.hyps [OF _ turn(2)] False unfolding turn(1,3) turn(4) by auto
  qed (simp add: ascii_loop.simps)
qed

text \<open>Where no byte has its high bit, the other accumulator keeps the bits that no zero byte clears.\<close>

lemma ascii_loop_zero:
  "length s mod 8 = 0 \<Longrightarrow> \<forall>b\<in>set s. b < 0x80 \<Longrightarrow>
    (\<forall>i<8. bit (snd (ascii_loop s h z)) (8 * i + 7)) \<longleftrightarrow> (\<forall>i<8. bit z (8 * i + 7)) \<and> 0 \<notin> set s"
proof (induction "length s" arbitrary: s h z rule: less_induct)
  case less
  show ?case
  proof (cases "s = []")
    case False
    note turn = ascii_turn [OF less.prems(1) False]
    have small: "vector8_byte (vector8_load s) i < 0x80" if "i < 8" for i
      using turn(4) [of "\<lambda>b. 0x80 \<le> b"] less.prems(2) that unfolding turn(3) by (meson UnI1 leD leI)
    have "(\<forall>i<8. bit (z AND (vector8_load s + vector8_broadcast 0x7F)) (8 * i + 7)) \<longleftrightarrow>
        (\<forall>i<8. bit z (8 * i + 7)) \<and> \<not> (\<exists>i<8. vector8_byte (vector8_load s) i = 0)"
      using sum_high [OF small] by (auto simp: bit_and_iff)
    moreover have "\<forall>b\<in>set (drop 8 s). b < 0x80" using less.prems(2) unfolding turn(3) by blast
    ultimately show ?thesis using less.hyps [OF _ turn(2)] False
      unfolding turn(1) turn(3) turn(4) [of "\<lambda>b. b = 0"] by simp
  qed (simp add: ascii_loop.simps)
qed

lemma ascii_loop_within: "bit (snd (ascii_loop s h z)) m \<Longrightarrow> bit z m"
proof (induction s h z rule: ascii_loop.induct)
  case (1 s h z)
  then show ?case unfolding ascii_loop.simps [of s h z] by (auto simp: Let_def bit_and_iff split: if_splits)
qed

text \<open>A string whose length is a multiple of the chunk size is accepted exactly if all of its bytes are
  7-bit characters other than NUL.\<close>

theorem is_valid_ascii_exact:
  assumes "length s mod 8 = 0"
  shows "is_valid_ascii s \<longleftrightarrow> (\<forall>b\<in>set s. 0 < b \<and> b < 0x80)"
proof -
  let ?r = "ascii_loop s (vector8_broadcast 0) (vector8_broadcast 0x80)"
  have "vector8_broadcast 0 = 0" by (simp add: vector8_broadcast_def)
  then have h: "vector8_is_highbit_set (fst ?r) \<longleftrightarrow> (\<exists>b\<in>set s. 0x80 \<le> b)"
    using ascii_loop_high [OF assms] by (simp add: highbit_set)
  have "snd ?r = vector8_broadcast 0x80 \<longleftrightarrow> 0 \<notin> set s" if "\<forall>b\<in>set s. b < 0x80"
  proof -
    have "snd ?r = vector8_broadcast 0x80 \<longleftrightarrow> (\<forall>i<8. bit (snd ?r) (8 * i + 7))"
    proof
      assume "\<forall>i<8. bit (snd ?r) (8 * i + 7)"
      then have "bit (snd ?r) m \<longleftrightarrow> bit (vector8_broadcast 0x80) m" for m
        using ascii_loop_within [of s "vector8_broadcast 0" "vector8_broadcast 0x80" m] broadcast_high [of m] by auto
      then show "snd ?r = vector8_broadcast 0x80" by (simp add: bit_eq_iff)
    qed (use broadcast_high in auto)
    also have "\<dots> \<longleftrightarrow> 0 \<notin> set s" using ascii_loop_zero [OF assms that] by (auto simp: broadcast_high)
    finally show ?thesis .
  qed
  moreover have "(\<forall>b\<in>set s. 0 < b \<and> b < 0x80) \<longleftrightarrow> 0 \<notin> set s \<and> \<not> (\<exists>b\<in>set s. 0x80 \<le> b)"
    by (auto simp: word_gt_0 not_le)
  moreover have "is_valid_ascii s \<longleftrightarrow> \<not> vector8_is_highbit_set (fst ?r) \<and> snd ?r = vector8_broadcast 0x80"
    by (simp add: is_valid_ascii_def split_beta)
  ultimately show ?thesis using h by (auto simp: not_le)
qed

end
