(* ===== verification/Atomics.thy ===== *)
theory Atomics
  imports Prelude
begin

text \<open>
  Atomic operations: the fallbacks of \<open>port/atomics/generic.h\<close>, most of them loops around a compare and
  exchange, and the builtins of \<open>port/atomics/generic-gcc.h\<close> that take their place.  Calls run at the same
  time: a schedule says whose turn it is, and each access to the memory is a step.  The memory is
  sequentially consistent, as the barriers of these operations ask for; the read in front of a loop, which
  the code allows not to be atomic, gives any value.  Shown: the calls are linearizable and lock-free, every
  function has the effect and the result its description gives, whichever variant is compiled, tickets are
  distinct, and a flag is a lock.
\<close>

unbundle bit_operations_syntax

section \<open>Compare and exchange\<close>

text \<open>The builtin of the compiler writes the value it found into \<open>expected\<close> when the comparison fails; the
  older one returns the value it found.  Both give whether they stored, \<open>expected\<close>, and the memory.\<close>

definition atomic_compare_exchange_n :: "'w \<Rightarrow> 'w \<Rightarrow> 'w \<Rightarrow> bool \<times> 'w \<times> 'w" where
  "atomic_compare_exchange_n memory expected newval =
     (if memory = expected then (True, expected, newval) else (False, memory, memory))"

definition sync_val_compare_and_swap :: "'w \<Rightarrow> 'w \<Rightarrow> 'w \<Rightarrow> 'w \<times> 'w" where
  "sync_val_compare_and_swap memory oldval newval = (memory, if memory = oldval then newval else memory)"

definition pg_atomic_compare_exchange_impl :: "'w \<Rightarrow> 'w \<Rightarrow> 'w \<Rightarrow> bool \<times> 'w \<times> 'w" where
  "pg_atomic_compare_exchange_impl memory expected newval =
     (let (current, memory') = sync_val_compare_and_swap memory expected newval;
          ret = (current = expected)
      in (ret, current, memory'))"

lemma compare_exchange_agree: "pg_atomic_compare_exchange_impl = atomic_compare_exchange_n"
  by (intro ext) (simp add: pg_atomic_compare_exchange_impl_def sync_val_compare_and_swap_def atomic_compare_exchange_n_def)

section \<open>The operations\<close>

text \<open>What a call does with the memory, as far as other processes can see it: a plain access, one compare and
  exchange, one builtin, or the loop that reads the memory and then repeats the compare and exchange with the
  value it finds.  \<open>'r\<close> is the type of the result, which a \<open>void\<close> function does not have.\<close>

datatype ('w, 'r) atomic_op =
  Plain_read "'w \<Rightarrow> 'r option"
  | Plain_write 'w
  | Exchange_once 'w 'w "bool \<Rightarrow> 'w \<Rightarrow> 'r option"
  | Builtin "'w \<Rightarrow> 'w" "'w \<Rightarrow> 'r option"
  | is_Exchange_loop: Exchange_loop "'w \<Rightarrow> 'w" "'w \<Rightarrow> 'r option"

primrec map_result :: "('r option \<Rightarrow> 'q option) \<Rightarrow> ('w, 'r) atomic_op \<Rightarrow> ('w, 'q) atomic_op" where
  "map_result f (Plain_read ret) = Plain_read (\<lambda>v. f (ret v))"
| "map_result f (Plain_write v) = Plain_write v"
| "map_result f (Exchange_once expected newval ret) = Exchange_once expected newval (\<lambda>ok old. f (ret ok old))"
| "map_result f (Builtin new ret) = Builtin new (\<lambda>old. f (ret old))"
| "map_result f (Exchange_loop new ret) = Exchange_loop new (\<lambda>old. f (ret old))"

abbreviation then_return :: "('r \<Rightarrow> 'q) \<Rightarrow> ('w, 'r) atomic_op \<Rightarrow> ('w, 'q) atomic_op" where
  "then_return f \<equiv> map_result (map_option f)"

abbreviation discard_result :: "('w, 'r) atomic_op \<Rightarrow> ('w, 'q) atomic_op" where
  "discard_result \<equiv> map_result (\<lambda>_. None)"

definition pg_atomic_read_u32_impl :: "(u32, u32) atomic_op" where
  "pg_atomic_read_u32_impl = Plain_read Some"

definition pg_atomic_write_u32_impl :: "u32 \<Rightarrow> (u32, u32) atomic_op" where
  "pg_atomic_write_u32_impl val = Plain_write val"

definition pg_atomic_exchange_u32_impl :: "u32 \<Rightarrow> (u32, u32) atomic_op" where
  "pg_atomic_exchange_u32_impl xchg = Exchange_loop (\<lambda>old. xchg) Some"

definition pg_atomic_fetch_add_u32_impl :: "i32 \<Rightarrow> (u32, u32) atomic_op" where
  "pg_atomic_fetch_add_u32_impl add = Exchange_loop (\<lambda>old. old + add) Some"

definition pg_atomic_fetch_sub_u32_impl :: "i32 \<Rightarrow> (u32, u32) atomic_op" where
  "pg_atomic_fetch_sub_u32_impl sub = pg_atomic_fetch_add_u32_impl (- sub)"

definition pg_atomic_fetch_and_u32_impl :: "u32 \<Rightarrow> (u32, u32) atomic_op" where
  "pg_atomic_fetch_and_u32_impl mask_val = Exchange_loop (\<lambda>old. old AND mask_val) Some"

definition pg_atomic_fetch_or_u32_impl :: "u32 \<Rightarrow> (u32, u32) atomic_op" where
  "pg_atomic_fetch_or_u32_impl or_val = Exchange_loop (\<lambda>old. old OR or_val) Some"

definition pg_atomic_add_fetch_u32_impl :: "i32 \<Rightarrow> (u32, u32) atomic_op" where
  "pg_atomic_add_fetch_u32_impl add = then_return (\<lambda>r. r + add) (pg_atomic_fetch_add_u32_impl add)"

definition pg_atomic_sub_fetch_u32_impl :: "i32 \<Rightarrow> (u32, u32) atomic_op" where
  "pg_atomic_sub_fetch_u32_impl sub = then_return (\<lambda>r. r - sub) (pg_atomic_fetch_sub_u32_impl sub)"

definition pg_atomic_read_u64_impl :: "(u64, u64) atomic_op" where
  "pg_atomic_read_u64_impl = Plain_read Some"

definition pg_atomic_write_u64_impl :: "u64 \<Rightarrow> (u64, u64) atomic_op" where
  "pg_atomic_write_u64_impl val = Plain_write val"

definition pg_atomic_read_u64_by_exchange :: "(u64, u64) atomic_op" where
  "pg_atomic_read_u64_by_exchange = Exchange_once 0 0 (\<lambda>ret old. Some old)"

definition pg_atomic_exchange_u64_impl :: "u64 \<Rightarrow> (u64, u64) atomic_op" where
  "pg_atomic_exchange_u64_impl xchg = Exchange_loop (\<lambda>old. xchg) Some"

definition pg_atomic_write_u64_by_exchange :: "u64 \<Rightarrow> (u64, u64) atomic_op" where
  "pg_atomic_write_u64_by_exchange val = discard_result (pg_atomic_exchange_u64_impl val)"

definition pg_atomic_fetch_add_u64_impl :: "i64 \<Rightarrow> (u64, u64) atomic_op" where
  "pg_atomic_fetch_add_u64_impl add = Exchange_loop (\<lambda>old. old + add) Some"

definition pg_atomic_fetch_sub_u64_impl :: "i64 \<Rightarrow> (u64, u64) atomic_op" where
  "pg_atomic_fetch_sub_u64_impl sub = pg_atomic_fetch_add_u64_impl (- sub)"

definition pg_atomic_fetch_and_u64_impl :: "u64 \<Rightarrow> (u64, u64) atomic_op" where
  "pg_atomic_fetch_and_u64_impl mask_val = Exchange_loop (\<lambda>old. old AND mask_val) Some"

definition pg_atomic_fetch_or_u64_impl :: "u64 \<Rightarrow> (u64, u64) atomic_op" where
  "pg_atomic_fetch_or_u64_impl or_val = Exchange_loop (\<lambda>old. old OR or_val) Some"

definition pg_atomic_add_fetch_u64_impl :: "i64 \<Rightarrow> (u64, u64) atomic_op" where
  "pg_atomic_add_fetch_u64_impl add = then_return (\<lambda>r. r + add) (pg_atomic_fetch_add_u64_impl add)"

definition pg_atomic_sub_fetch_u64_impl :: "i64 \<Rightarrow> (u64, u64) atomic_op" where
  "pg_atomic_sub_fetch_u64_impl sub = then_return (\<lambda>r. r - sub) (pg_atomic_fetch_sub_u64_impl sub)"

text \<open>The builtins that older compilers offer in the place of the loops.\<close>

definition sync_fetch_add_u32 :: "i32 \<Rightarrow> (u32, u32) atomic_op" where
  "sync_fetch_add_u32 add = Builtin (\<lambda>old. old + add) Some"

definition sync_fetch_sub_u32 :: "i32 \<Rightarrow> (u32, u32) atomic_op" where
  "sync_fetch_sub_u32 sub = Builtin (\<lambda>old. old - sub) Some"

definition sync_fetch_and_u32 :: "u32 \<Rightarrow> (u32, u32) atomic_op" where
  "sync_fetch_and_u32 mask_val = Builtin (\<lambda>old. old AND mask_val) Some"

definition sync_fetch_or_u32 :: "u32 \<Rightarrow> (u32, u32) atomic_op" where
  "sync_fetch_or_u32 or_val = Builtin (\<lambda>old. old OR or_val) Some"

definition sync_fetch_add_u64 :: "i64 \<Rightarrow> (u64, u64) atomic_op" where
  "sync_fetch_add_u64 add = Builtin (\<lambda>old. old + add) Some"

definition sync_fetch_sub_u64 :: "i64 \<Rightarrow> (u64, u64) atomic_op" where
  "sync_fetch_sub_u64 sub = Builtin (\<lambda>old. old - sub) Some"

definition sync_fetch_and_u64 :: "u64 \<Rightarrow> (u64, u64) atomic_op" where
  "sync_fetch_and_u64 mask_val = Builtin (\<lambda>old. old AND mask_val) Some"

definition sync_fetch_or_u64 :: "u64 \<Rightarrow> (u64, u64) atomic_op" where
  "sync_fetch_or_u64 or_val = Builtin (\<lambda>old. old OR or_val) Some"

text \<open>Flags: with an exchange, with a compare and exchange, and with the builtin; cleared by a plain write or,
  where a memory barrier takes a lock, by a compare and exchange.\<close>

definition test_set_flag_by_exchange :: "(u32, bool) atomic_op" where
  "test_set_flag_by_exchange = then_return (\<lambda>r. r = 0) (pg_atomic_exchange_u32_impl 1)"

definition test_set_flag_by_compare :: "(u32, bool) atomic_op" where
  "test_set_flag_by_compare = Exchange_once 0 1 (\<lambda>ret old. Some ret)"

definition sync_test_set_flag :: "(u32, bool) atomic_op" where
  "sync_test_set_flag = Builtin (\<lambda>old. 1) (\<lambda>old. Some (old = 0))"

definition pg_atomic_unlocked_test_flag_impl :: "(u32, bool) atomic_op" where
  "pg_atomic_unlocked_test_flag_impl = then_return (\<lambda>r. r = 0) pg_atomic_read_u32_impl"

definition pg_atomic_clear_flag_impl :: "(u32, bool) atomic_op" where
  "pg_atomic_clear_flag_impl = discard_result (pg_atomic_write_u32_impl 0)"

definition clear_flag_by_compare :: "(u32, bool) atomic_op" where
  "clear_flag_by_compare = discard_result (Exchange_once 1 0 (\<lambda>ret old. Some ret))"

section \<open>Calls that run at the same time\<close>

text \<open>A call has not started, repeats the loop with the value it has for \<open>old\<close>, or has returned.  The log
  lists the calls in the order in which they took effect, and \<open>failed_tries\<close> counts for each call how often its
  compare and exchange has failed.  Neither is part of the program.\<close>

datatype ('w, 'r) call_progress = Not_started | Looping 'w | Returned "'r option"

record ('w, 'r) atomics =
  cell :: 'w
  call_progress :: "nat \<Rightarrow> ('w, 'r) call_progress"
  effect_log :: "(nat \<times> 'r option) list"
  failed_tries :: "nat \<Rightarrow> nat"

definition take_effect :: "nat \<Rightarrow> 'w \<Rightarrow> 'r option \<Rightarrow> ('w, 'r) atomics \<Rightarrow> ('w, 'r) atomics" where
  "take_effect i v r s = s\<lparr>cell := v, call_progress := (call_progress s)(i := Returned r), effect_log := effect_log s @ [(i, r)]\<rparr>"

text \<open>One step of call \<open>i\<close>.  The read in front of the loop may not be atomic, so it gives any value,
  \<open>torn\<close>.\<close>

fun atomic_step :: "(nat \<Rightarrow> ('w, 'r) atomic_op) \<Rightarrow> nat \<Rightarrow> 'w \<Rightarrow> ('w, 'r) atomics \<Rightarrow> ('w, 'r) atomics option" where
  "atomic_step ops i torn s =
     (case (call_progress s i, ops i) of
        (Not_started, Plain_read ret) \<Rightarrow> Some (take_effect i (cell s) (ret (cell s)) s)
      | (Not_started, Plain_write v) \<Rightarrow> Some (take_effect i v None s)
      | (Not_started, Exchange_once expected newval ret) \<Rightarrow>
          (let (ok, old, v) = pg_atomic_compare_exchange_impl (cell s) expected newval in
           Some (take_effect i v (ret ok old) s))
      | (Not_started, Builtin new ret) \<Rightarrow> Some (take_effect i (new (cell s)) (ret (cell s)) s)
      | (Not_started, Exchange_loop new ret) \<Rightarrow> Some (s\<lparr>call_progress := (call_progress s)(i := Looping torn)\<rparr>)
      | (Looping old, Exchange_loop new ret) \<Rightarrow>
          (let (ok, old', v) = pg_atomic_compare_exchange_impl (cell s) old (new old) in
           Some (if ok then take_effect i v (ret old') s
                 else s\<lparr>cell := v, call_progress := (call_progress s)(i := Looping old'), failed_tries := (failed_tries s)(i := failed_tries s i + 1)\<rparr>))
      | _ \<Rightarrow> None)"

declare atomic_step.simps [simp del]

primrec atomic_run :: "(nat \<Rightarrow> ('w, 'r) atomic_op) \<Rightarrow> (nat \<times> 'w) list \<Rightarrow> ('w, 'r) atomics \<Rightarrow> ('w, 'r) atomics option" where
  "atomic_run ops [] s = Some s"
| "atomic_run ops (it # schedule) s =
     (case atomic_step ops (fst it) (snd it) s of None \<Rightarrow> None | Some s' \<Rightarrow> atomic_run ops schedule s')"

definition atomics_start :: "'w \<Rightarrow> ('w, 'r) atomics" where
  "atomics_start v = \<lparr>cell = v, call_progress = (\<lambda>i. Not_started), effect_log = [], failed_tries = (\<lambda>i. 0)\<rparr>"

section \<open>What a call does at once\<close>

fun op_effect :: "('w, 'r) atomic_op \<Rightarrow> 'w \<Rightarrow> 'w \<times> 'r option" where
  "op_effect (Plain_read ret) v = (v, ret v)"
| "op_effect (Plain_write x) v = (x, None)"
| "op_effect (Exchange_once expected newval ret) v = (if v = expected then newval else v, ret (v = expected) v)"
| "op_effect (Builtin new ret) v = (new v, ret v)"
| "op_effect (Exchange_loop new ret) v = (new v, ret v)"

text \<open>The calls one after the other.\<close>

primrec serial_run :: "(nat \<Rightarrow> ('w, 'r) atomic_op) \<Rightarrow> nat list \<Rightarrow> 'w \<Rightarrow> 'w \<times> (nat \<times> 'r option) list" where
  "serial_run ops [] v = (v, [])"
| "serial_run ops (i # order) v =
     (let (v1, r) = op_effect (ops i) v; (v2, rs) = serial_run ops order v1 in (v2, (i, r) # rs))"

lemma op_effect_map [simp]: "op_effect (map_result f p) v = (fst (op_effect p v), if \<exists>x. p = Plain_write x then None else f (snd (op_effect p v)))"
  by (cases p) simp_all

section \<open>The invariant\<close>

lemma compare_exchange: "pg_atomic_compare_exchange_impl v e n = (v = e, v, if v = e then n else v)"
  by (simp add: pg_atomic_compare_exchange_impl_def sync_val_compare_and_swap_def)

text \<open>A step is an effect at once, the start of a loop, or a turn of it after which \<open>old\<close> is up to date.\<close>

lemma step_cases [consumes 1, case_names effect start retry]:
  assumes "atomic_step ops i torn s = Some s'"
  obtains (effect) v r where "op_effect (ops i) (cell s) = (v, r)" "\<And>q. call_progress s i \<noteq> Returned q" "s' = take_effect i v r s"
      "is_Exchange_loop (ops i) \<Longrightarrow> call_progress s i \<noteq> Not_started"
  | (start) new ret where "ops i = Exchange_loop new ret" "call_progress s i = Not_started"
      "s' = s\<lparr>call_progress := (call_progress s)(i := Looping torn)\<rparr>"
  | (retry) new ret old where "ops i = Exchange_loop new ret" "call_progress s i = Looping old" "old \<noteq> cell s"
      "s' = s\<lparr>call_progress := (call_progress s)(i := Looping (cell s)), failed_tries := (failed_tries s)(i := failed_tries s i + 1)\<rparr>"
  using assms
  by (cases "call_progress s i"; cases "ops i"; auto simp: atomic_step.simps compare_exchange split: if_splits)

lemma serial_run_append:
  "serial_run ops (order @ [i]) v =
    (let (v1, rs) = serial_run ops order v; (v2, r) = op_effect (ops i) v1 in (v2, rs @ [(i, r)]))"
  by (induction order arbitrary: v) (simp_all add: split_beta)

definition atomics_inv :: "(nat \<Rightarrow> ('w, 'r) atomic_op) \<Rightarrow> 'w \<Rightarrow> ('w, 'r) atomics \<Rightarrow> bool" where
  "atomics_inv ops v0 s \<longleftrightarrow>
     serial_run ops (map fst (effect_log s)) v0 = (cell s, effect_log s) \<and>
     distinct (map fst (effect_log s)) \<and>
     (\<forall>i r. call_progress s i = Returned r \<longleftrightarrow> (i, r) \<in> set (effect_log s)) \<and>
     (\<forall>i old. call_progress s i = Looping old \<longrightarrow> (\<exists>new ret. ops i = Exchange_loop new ret)) \<and>
     (\<forall>i. failed_tries s i \<le> length (effect_log s) + 1) \<and>
     (\<forall>i old. call_progress s i = Looping old \<and> old \<noteq> cell s \<longrightarrow> failed_tries s i \<le> length (effect_log s)) \<and>
     (\<forall>i. call_progress s i = Not_started \<longrightarrow> failed_tries s i = 0)"

lemma returned_logged: "atomics_inv ops v0 s \<Longrightarrow> (i, r) \<in> set (effect_log s) \<longleftrightarrow> call_progress s i = Returned r"
  by (simp add: atomics_inv_def)

lemma atomics_inv_start: "atomics_inv ops v0 (atomics_start v0)"
  by (simp add: atomics_inv_def atomics_start_def)

lemma atomics_inv_step:
  assumes "atomics_inv ops v0 s" and "atomic_step ops i torn s = Some s'"
  shows "atomics_inv ops v0 s'"
  using assms(2)
proof (cases rule: step_cases)
  case (effect v r)
  have new: "i \<notin> fst ` set (effect_log s)" using assms(1) effect(2) by (force simp: atomics_inv_def)
  have inv: "serial_run ops (map fst (effect_log s)) v0 = (cell s, effect_log s)" "distinct (map fst (effect_log s))"
    "\<And>j q. call_progress s j = Returned q \<longleftrightarrow> (j, q) \<in> set (effect_log s)"
    "\<And>j old. call_progress s j = Looping old \<Longrightarrow> \<exists>new ret. ops j = Exchange_loop new ret"
    "\<And>j. failed_tries s j \<le> length (effect_log s) + 1" "\<And>j. call_progress s j = Not_started \<Longrightarrow> failed_tries s j = 0"
    using assms(1) by (simp_all add: atomics_inv_def)
  have bound: "failed_tries s j \<le> Suc (Suc (length (effect_log s)))" for j using inv(5) [of j] by simp
  show ?thesis
    unfolding atomics_inv_def effect(3) take_effect_def
  proof (intro conjI allI impI)
    show "(call_progress (s\<lparr>cell := v, call_progress := (call_progress s)(i := Returned r), effect_log := effect_log s @ [(i, r)]\<rparr>) j = Returned q)
        \<longleftrightarrow> (j, q) \<in> set (effect_log (s\<lparr>cell := v, call_progress := (call_progress s)(i := Returned r), effect_log := effect_log s @ [(i, r)]\<rparr>))" for j q
      using new inv(3) by (cases "j = i") (auto simp: image_iff)
  qed (use inv effect(1) new bound in \<open>auto simp: serial_run_append split: if_splits\<close>)
next
  case (start new ret)
  then have "failed_tries s i = 0" "(i, q) \<notin> set (effect_log s)" for q
    using assms(1) returned_logged [OF assms(1), of i q] by (simp_all add: atomics_inv_def)
  then show ?thesis using assms(1) start unfolding atomics_inv_def by simp
next
  case (retry new ret old)
  then have "failed_tries s i \<le> length (effect_log s)" "(i, q) \<notin> set (effect_log s)" for q
    using assms(1) returned_logged [OF assms(1), of i q] by (simp_all add: atomics_inv_def)
  then show ?thesis using assms(1) retry unfolding atomics_inv_def by simp
qed

lemma atomics_inv_run: "atomic_run ops schedule s = Some s' \<Longrightarrow> atomics_inv ops v0 s \<Longrightarrow> atomics_inv ops v0 s'"
  by (induction schedule arbitrary: s) (auto split: option.splits intro: atomics_inv_step)

lemma atomic_run_append:
  "atomic_run ops (a @ b) s = (case atomic_run ops a s of None \<Rightarrow> None | Some s1 \<Rightarrow> atomic_run ops b s1)"
  by (induction a arbitrary: s) (auto split: option.splits)

lemma effects_grow: "atomic_run ops schedule s = Some s' \<Longrightarrow> \<exists>more. effect_log s' = effect_log s @ more"
proof (induction schedule arbitrary: s)
  case (Cons it schedule)
  then obtain s1 where s1: "atomic_step ops (fst it) (snd it) s = Some s1" "atomic_run ops schedule s1 = Some s'"
    by (auto split: option.splits)
  from s1(1) have "\<exists>more. effect_log s1 = effect_log s @ more" by (cases rule: step_cases) (simp_all add: take_effect_def)
  then show ?case using Cons.IH [OF s1(2)] by auto
qed simp

section \<open>Every schedule is as good as a serial one\<close>

text \<open>C32: Whatever the schedule, and whatever the reads in front of the loops give, the calls that have returned
  have the results, and leave the memory, of the same calls one after the other; a call that had returned
  before another one took its first step comes before it.\<close>

theorem atomics_linearizable:
  assumes "atomic_run ops schedule (atomics_start v0) = Some s"
  shows "\<exists>order rs. serial_run ops order v0 = (cell s, rs) \<and> distinct order \<and>
    (\<forall>i r. call_progress s i = Returned r \<longleftrightarrow> (i, r) \<in> set rs) \<and>
    (\<forall>before after s1 r j. schedule = before @ after \<and> atomic_run ops before (atomics_start v0) = Some s1 \<and>
       call_progress s1 j = Returned r \<longrightarrow> j \<in> set (take (length (effect_log s1)) order) \<and>
       set (drop (length (effect_log s1)) order) \<inter> {k. \<exists>r. call_progress s1 k = Returned r} = {})"
proof -
  have inv: "atomics_inv ops v0 s" using atomics_inv_run [OF assms atomics_inv_start] .
  then have main: "serial_run ops (map fst (effect_log s)) v0 = (cell s, effect_log s)" "distinct (map fst (effect_log s))"
    "\<forall>i r. call_progress s i = Returned r \<longleftrightarrow> (i, r) \<in> set (effect_log s)"
    by (simp_all add: atomics_inv_def)
  have "j \<in> set (take (length (effect_log s1)) (map fst (effect_log s))) \<and>
      set (drop (length (effect_log s1)) (map fst (effect_log s))) \<inter> {k. \<exists>r. call_progress s1 k = Returned r} = {}"
    if s1: "schedule = before @ after" "atomic_run ops before (atomics_start v0) = Some s1" and r: "call_progress s1 j = Returned r"
    for before after s1 r j
  proof -
    have "atomic_run ops after s1 = Some s" using assms s1 by (simp add: atomic_run_append)
    then obtain more where m: "effect_log s = effect_log s1 @ more" using effects_grow by blast
    have "atomics_inv ops v0 s1" using atomics_inv_run [OF s1(2) atomics_inv_start] .
    then have e: "call_progress s1 k = Returned q \<longleftrightarrow> (k, q) \<in> set (effect_log s1)" for k q by (simp add: atomics_inv_def)
    then have "j \<in> fst ` set (effect_log s1)" using r by force
    moreover have "fst ` set more \<inter> {k. \<exists>r. call_progress s1 k = Returned r} = {}"
    proof -
      have "fst ` set more \<inter> fst ` set (effect_log s1) = {}" using main(2) by (auto simp: m)
      then show ?thesis unfolding e by force
    qed
    ultimately show ?thesis by (simp add: m)
  qed
  with main show ?thesis by blast
qed

section \<open>Lock freedom\<close>

text \<open>What has been done: loops that were started, exchanges that failed, and effects.\<close>

definition atomics_work :: "(nat \<Rightarrow> ('w, 'r) atomic_op) \<Rightarrow> nat \<Rightarrow> ('w, 'r) atomics \<Rightarrow> nat" where
  "atomics_work ops n s =
     (\<Sum>i<n. (if is_Exchange_loop (ops i) \<and> call_progress s i \<noteq> Not_started then 1 else 0) + failed_tries s i) + length (effect_log s)"

lemma sum_one_more:
  fixes f f' :: "nat \<Rightarrow> nat"
  assumes "i < n" "f' i = f i + 1" "\<And>j. j \<noteq> i \<Longrightarrow> f' j = f j"
  shows "(\<Sum>j<n. f' j) = (\<Sum>j<n. f j) + 1"
  using assms sum.remove [of "{..<n}" i f] sum.remove [of "{..<n}" i f'] by simp

lemma work_step:
  assumes "atomic_step ops i torn s = Some s'" "i < n"
  shows "atomics_work ops n s' = atomics_work ops n s + 1"
  using assms(1)
proof (cases rule: step_cases)
  case (effect v r)
  then show ?thesis by (auto simp: atomics_work_def take_effect_def intro!: sum.cong)
next
  case (start new ret)
  then show ?thesis unfolding atomics_work_def start(3)
    by (subst sum_one_more [of i n _ "\<lambda>j. (if is_Exchange_loop (ops j) \<and> call_progress s j \<noteq> Not_started then 1 else 0) + failed_tries s j"])
      (use assms(2) in auto)
next
  case (retry new ret old)
  then show ?thesis unfolding atomics_work_def retry(4)
    by (subst sum_one_more [of i n _ "\<lambda>j. (if is_Exchange_loop (ops j) \<and> call_progress s j \<noteq> Not_started then 1 else 0) + failed_tries s j"])
      (use assms(2) in auto)
qed

lemma work_run:
  "atomic_run ops schedule s = Some s' \<Longrightarrow> \<forall>it\<in>set schedule. fst it < n \<Longrightarrow>
    atomics_work ops n s' = atomics_work ops n s + length schedule"
proof (induction schedule arbitrary: s)
  case (Cons it schedule)
  then obtain s1 where "atomic_step ops (fst it) (snd it) s = Some s1" "atomic_run ops schedule s1 = Some s'"
    by (auto split: option.splits)
  then show ?case using Cons.IH [of s1] Cons.prems(2) work_step [of ops "fst it" "snd it" s s1 n] by simp
qed simp

lemma finish_looping:
  assumes "ops i = Exchange_loop new ret" "call_progress s i = Looping old"
  shows "\<exists>m\<le>2. \<exists>s' r. atomic_run ops (replicate m (i, torn)) s = Some s' \<and> call_progress s' i = Returned r"
proof (cases "old = cell s")
  case True
  then show ?thesis using assms
    by (intro exI [of _ 1]) (simp add: atomic_step.simps compare_exchange take_effect_def)
next
  case False
  then show ?thesis using assms
    by (intro exI [of _ 2]) (simp add: atomic_step.simps compare_exchange take_effect_def numeral_2_eq_2)
qed

lemma finish_alone:
  assumes "atomics_inv ops v0 s" "\<And>r. call_progress s i \<noteq> Returned r"
  shows "\<exists>m\<le>3. \<exists>s' r. atomic_run ops (replicate m (i, torn)) s = Some s' \<and> call_progress s' i = Returned r"
proof (cases "call_progress s i")
  case Not_started
  show ?thesis
  proof (cases "is_Exchange_loop (ops i)")
    case True
    then obtain new ret where p: "ops i = Exchange_loop new ret" by (cases "ops i") simp_all
    let ?s = "s\<lparr>call_progress := (call_progress s)(i := Looping torn)\<rparr>"
    obtain m s' r where m: "m \<le> 2" "atomic_run ops (replicate m (i, torn)) ?s = Some s'" "call_progress s' i = Returned r"
      using finish_looping [of ops i new ret ?s torn torn] p by auto
    have "atomic_run ops (replicate (Suc m) (i, torn)) s = Some s'"
      using m(2) Not_started p by (simp add: atomic_step.simps)
    then show ?thesis using m by (intro exI [of _ "Suc m"]) auto
  next
    case False
    then show ?thesis using Not_started
      by (intro exI [of _ 1]) (cases "ops i"; simp add: atomic_step.simps compare_exchange take_effect_def)
  qed
next
  case (Looping old)
  then obtain new ret where "ops i = Exchange_loop new ret" using assms(1) by (auto simp: atomics_inv_def)
  then obtain m s' r where m: "m \<le> 2" "atomic_run ops (replicate m (i, torn)) s = Some s'" "call_progress s' i = Returned r"
    using finish_looping Looping by metis
  then show ?thesis by (intro exI [of _ m]) auto
qed (use assms(2) in blast)

text \<open>C33: The loops never block: calls that run for more steps than this have let some call return, and a call
  that is not disturbed returns after at most three steps.\<close>

theorem atomics_lock_free:
  assumes "atomic_run ops schedule (atomics_start v0) = Some s" and "\<forall>it\<in>set schedule. fst it < n"
  shows "length schedule \<le> n * (length (effect_log s) + 2) + length (effect_log s) \<and>
    (\<forall>i torn. (\<forall>r. call_progress s i \<noteq> Returned r) \<longrightarrow>
      (\<exists>m\<le>3. \<exists>s' r. atomic_run ops (replicate m (i, torn)) s = Some s' \<and> call_progress s' i = Returned r))"
proof -
  have inv: "atomics_inv ops v0 s" using atomics_inv_run [OF assms(1) atomics_inv_start] .
  have "length schedule = atomics_work ops n s"
    using work_run [OF assms] by (simp add: atomics_work_def atomics_start_def)
  also have "\<dots> \<le> (\<Sum>i<n. length (effect_log s) + 2) + length (effect_log s)"
    unfolding atomics_work_def using inv by (intro add_right_mono sum_mono) (auto simp: atomics_inv_def le_SucI)
  finally have "length schedule \<le> n * (length (effect_log s) + 2) + length (effect_log s)" by simp
  then show ?thesis using finish_alone [OF inv] by blast
qed

text \<open>Two calls of which the first reads a torn value and fails once.\<close>

lemma race_steps:
  fixes i :: nat and s :: "(u32, u32) atomics"
  defines "ops \<equiv> \<lambda>i :: nat. pg_atomic_fetch_add_u32_impl 1"
  shows "call_progress s i = Not_started \<Longrightarrow> atomic_step ops i t s = Some (s\<lparr>call_progress := (call_progress s)(i := Looping t)\<rparr>)"
    "call_progress s i = Looping old \<Longrightarrow> atomic_step ops i t s =
      Some (if cell s = old then take_effect i (old + 1) (Some old) s
        else s\<lparr>call_progress := (call_progress s)(i := Looping (cell s)), failed_tries := (failed_tries s)(i := failed_tries s i + 1)\<rparr>)"
  by (simp_all add: ops_def pg_atomic_fetch_add_u32_impl_def atomic_step.simps compare_exchange)

lemma race_of_two:
  obtains s where
    "atomic_run (\<lambda>i. pg_atomic_fetch_add_u32_impl 1) [(0, 7), (1, 0), (1, 0), (0, 0), (0, 0)] (atomics_start 0) = Some s"
    "cell s = 2" "call_progress s 0 = Returned (Some 1)" "call_progress s 1 = Returned (Some 0)" "length (effect_log s) = 2"
proof -
  have "\<exists>s. atomic_run (\<lambda>i. pg_atomic_fetch_add_u32_impl 1) [(0, 7), (1, 0), (1, 0), (0, 0), (0, 0)] (atomics_start 0) = Some s \<and>
      cell s = 2 \<and> call_progress s 0 = Returned (Some 1) \<and> call_progress s 1 = Returned (Some 0) \<and> length (effect_log s) = 2"
    by (simp add: race_steps take_effect_def atomics_start_def)
  then show ?thesis using that by blast
qed

theorem atomics_linearizable_witness:
  "\<exists>order rs. serial_run (\<lambda>i. pg_atomic_fetch_add_u32_impl 1) order 0 = (2, rs) \<and> distinct order \<and>
    (0, Some 1) \<in> set rs \<and> (1, Some 0) \<in> set rs"
proof -
  obtain s where s: "atomic_run (\<lambda>i. pg_atomic_fetch_add_u32_impl 1) [(0, 7), (1, 0), (1, 0), (0, 0), (0, 0)] (atomics_start 0) = Some s"
    "cell s = 2" "call_progress s 0 = Returned (Some 1)" "call_progress s 1 = Returned (Some 0)" by (rule race_of_two)
  obtain order rs where o: "serial_run (\<lambda>i. pg_atomic_fetch_add_u32_impl 1) order 0 = (cell s, rs)" "distinct order"
    "\<forall>i r. call_progress s i = Returned r \<longleftrightarrow> (i, r) \<in> set rs" using atomics_linearizable [OF s(1)] by blast
  show ?thesis using o s(2-4) by (intro exI [of _ order] exI [of _ rs]) simp
qed

theorem atomics_lock_free_witness:
  "\<exists>s. atomic_run (\<lambda>i. pg_atomic_fetch_add_u32_impl 1) [(0, 7), (1, 0), (1, 0), (0, 0), (0, 0)] (atomics_start 0) = Some s \<and>
    5 \<le> 2 * (length (effect_log s) + 2) + length (effect_log s)"
proof -
  obtain s where "atomic_run (\<lambda>i. pg_atomic_fetch_add_u32_impl 1) [(0, 7), (1, 0), (1, 0), (0, 0), (0, 0)] (atomics_start 0) = Some s"
    by (rule race_of_two)
  with atomics_lock_free [OF this, of 2] show ?thesis by auto
qed

section \<open>What the functions promise\<close>

lemmas atomic_op_defs = pg_atomic_read_u32_impl_def pg_atomic_write_u32_impl_def pg_atomic_exchange_u32_impl_def
  pg_atomic_fetch_add_u32_impl_def pg_atomic_fetch_sub_u32_impl_def pg_atomic_fetch_and_u32_impl_def
  pg_atomic_fetch_or_u32_impl_def pg_atomic_add_fetch_u32_impl_def pg_atomic_sub_fetch_u32_impl_def
  pg_atomic_read_u64_impl_def pg_atomic_read_u64_by_exchange_def pg_atomic_write_u64_impl_def
  pg_atomic_exchange_u64_impl_def pg_atomic_write_u64_by_exchange_def
  pg_atomic_fetch_add_u64_impl_def pg_atomic_fetch_sub_u64_impl_def pg_atomic_fetch_and_u64_impl_def
  pg_atomic_fetch_or_u64_impl_def pg_atomic_add_fetch_u64_impl_def pg_atomic_sub_fetch_u64_impl_def
  sync_fetch_add_u32_def sync_fetch_sub_u32_def sync_fetch_and_u32_def sync_fetch_or_u32_def
  sync_fetch_add_u64_def sync_fetch_sub_u64_def sync_fetch_and_u64_def sync_fetch_or_u64_def
  test_set_flag_by_exchange_def test_set_flag_by_compare_def sync_test_set_flag_def
  pg_atomic_unlocked_test_flag_impl_def pg_atomic_clear_flag_impl_def clear_flag_by_compare_def

theorem atomic_effects_u32:
  "op_effect pg_atomic_read_u32_impl v = (v, Some v)" "op_effect (pg_atomic_write_u32_impl x) v = (x, None)"
  "op_effect (pg_atomic_exchange_u32_impl x) v = (x, Some v)"
  "op_effect (pg_atomic_fetch_add_u32_impl x) v = (v + x, Some v)" "op_effect (pg_atomic_fetch_sub_u32_impl x) v = (v - x, Some v)"
  "op_effect (pg_atomic_fetch_and_u32_impl x) v = (v AND x, Some v)" "op_effect (pg_atomic_fetch_or_u32_impl x) v = (v OR x, Some v)"
  "op_effect (pg_atomic_add_fetch_u32_impl x) v = (v + x, Some (v + x))"
  "op_effect (pg_atomic_sub_fetch_u32_impl x) v = (v - x, Some (v - x))"
  by (simp_all add: atomic_op_defs)

theorem atomic_effects_u64:
  "op_effect pg_atomic_read_u64_impl v = (v, Some v)" "op_effect (pg_atomic_write_u64_impl x) v = (x, None)"
  "op_effect (pg_atomic_exchange_u64_impl x) v = (x, Some v)"
  "op_effect (pg_atomic_fetch_add_u64_impl x) v = (v + x, Some v)" "op_effect (pg_atomic_fetch_sub_u64_impl x) v = (v - x, Some v)"
  "op_effect (pg_atomic_fetch_and_u64_impl x) v = (v AND x, Some v)" "op_effect (pg_atomic_fetch_or_u64_impl x) v = (v OR x, Some v)"
  "op_effect (pg_atomic_add_fetch_u64_impl x) v = (v + x, Some (v + x))"
  "op_effect (pg_atomic_sub_fetch_u64_impl x) v = (v - x, Some (v - x))"
  by (simp_all add: atomic_op_defs)

text \<open>The variants that the preprocessor can select have the same effects.\<close>

theorem atomic_variants_agree:
  "op_effect pg_atomic_read_u64_by_exchange = op_effect pg_atomic_read_u64_impl"
  "op_effect (pg_atomic_write_u64_by_exchange x) = op_effect (pg_atomic_write_u64_impl x)"
  "op_effect (sync_fetch_add_u32 y) = op_effect (pg_atomic_fetch_add_u32_impl y)"
  "op_effect (sync_fetch_sub_u32 y) = op_effect (pg_atomic_fetch_sub_u32_impl y)"
  "op_effect (sync_fetch_and_u32 y) = op_effect (pg_atomic_fetch_and_u32_impl y)"
  "op_effect (sync_fetch_or_u32 y) = op_effect (pg_atomic_fetch_or_u32_impl y)"
  "op_effect (sync_fetch_add_u64 x) = op_effect (pg_atomic_fetch_add_u64_impl x)"
  "op_effect (sync_fetch_sub_u64 x) = op_effect (pg_atomic_fetch_sub_u64_impl x)"
  "op_effect (sync_fetch_and_u64 x) = op_effect (pg_atomic_fetch_and_u64_impl x)"
  "op_effect (sync_fetch_or_u64 x) = op_effect (pg_atomic_fetch_or_u64_impl x)"
  "op_effect sync_test_set_flag = op_effect test_set_flag_by_exchange"
  by (auto simp: atomic_op_defs)

section \<open>Tickets\<close>

text \<open>Calls that count up by one get the numbers one after the other, so no two get the same before the
  counter comes round.\<close>

lemma serial_tickets:
  "(\<And>i. i \<in> set order \<Longrightarrow> op_effect (ops i) = (\<lambda>v. (v + 1, Some v))) \<Longrightarrow>
    serial_run ops order v = (v + word_of_nat (length order), zip order (map (\<lambda>k. Some (v + word_of_nat k)) [0..<length order]))"
proof (induction order arbitrary: v)
  case (Cons i order)
  have "map (\<lambda>k. Some (v + word_of_nat k)) [0..<Suc (length order)]
      = Some v # map (\<lambda>k. Some (v + 1 + word_of_nat k)) [0..<length order]"
    by (simp only: upt_conv_Cons [OF zero_less_Suc] map_Suc_upt [symmetric] list.map map_map o_def) (simp add: algebra_simps)
  then show ?case using Cons.IH [of "v + 1"] Cons.prems by (simp add: algebra_simps)
qed simp

theorem fetch_add_tickets:
  assumes "atomic_run (\<lambda>i. pg_atomic_fetch_add_u32_impl 1) schedule (atomics_start v0) = Some s"
    and "length (effect_log s) \<le> 2 ^ 32" and "call_progress s i = Returned r" "call_progress s j = Returned q" "i \<noteq> j"
  shows "r \<noteq> q"
proof -
  let ?ops = "\<lambda>i :: nat. pg_atomic_fetch_add_u32_impl 1"
  let ?order = "map fst (effect_log s)"
  have inv: "atomics_inv ?ops v0 s" using atomics_inv_run [OF assms(1) atomics_inv_start] .
  have "op_effect (?ops i) = (\<lambda>v. (v + 1, Some v))" by (simp add: fun_eq_iff atomic_effects_u32)
  then have e: "effect_log s = zip ?order (map (\<lambda>k. Some (v0 + word_of_nat k)) [0..<length ?order])"
    using inv serial_tickets [of ?order ?ops v0] by (simp add: atomics_inv_def)
  have "(i, r) \<in> set (effect_log s)" "(j, q) \<in> set (effect_log s)" using assms(3,4) returned_logged [OF inv] by simp_all
  then obtain a b where ab: "a < length (effect_log s)" "effect_log s ! a = (i, r)" "b < length (effect_log s)" "effect_log s ! b = (j, q)"
    by (auto simp: in_set_conv_nth)
  have n: "snd (effect_log s ! k) = Some (v0 + word_of_nat k)" if "k < length (effect_log s)" for k
    using that by (subst e) simp
  have "a \<noteq> b" using ab assms(5) by auto
  then have "word_of_nat a \<noteq> (word_of_nat b :: u32)"
    using ab(1,3) assms(2) by (simp add: word_unat_eq_iff unsigned_of_nat take_bit_nat_eq_self)
  then show "r \<noteq> q" using n [OF ab(1)] n [OF ab(3)] ab(2,4) by auto
qed

section \<open>Flags\<close>

definition test_set_ops :: "(u32, bool) atomic_op set" where
  "test_set_ops = {test_set_flag_by_exchange, test_set_flag_by_compare, sync_test_set_flag}"

definition clear_ops :: "(u32, bool) atomic_op set" where
  "clear_ops = {pg_atomic_clear_flag_impl, clear_flag_by_compare}"

lemma flag_effects:
  assumes "v = 0 \<or> v = 1"
  shows "p \<in> test_set_ops \<Longrightarrow> op_effect p v = (1, Some (v = 0))" "p \<in> clear_ops \<Longrightarrow> op_effect p v = (0, None)"
    "op_effect pg_atomic_unlocked_test_flag_impl v = (v, Some (v = 0))"
  using assms by (auto simp: test_set_ops_def clear_ops_def atomic_op_defs)

definition flag_ops :: "(u32, bool) atomic_op set" where
  "flag_ops = test_set_ops \<union> clear_ops \<union> {pg_atomic_unlocked_test_flag_impl}"

lemma flag_step: "p \<in> flag_ops \<Longrightarrow> v = 0 \<or> v = 1 \<Longrightarrow> fst (op_effect p v) = 0 \<or> fst (op_effect p v) = 1"
  by (auto simp: flag_ops_def flag_effects)

lemma flag_step_set: "p \<in> flag_ops \<Longrightarrow> p \<notin> clear_ops \<Longrightarrow> fst (op_effect p 1) = 1"
  by (auto simp: flag_ops_def flag_effects)

lemma serial_run_Cons: "fst (serial_run ops (i # order) v) = fst (serial_run ops order (fst (op_effect (ops i) v)))"
  by (simp add: split_beta)

lemma serial_run_append2:
  "serial_run ops (a @ b) v =
    (fst (serial_run ops b (fst (serial_run ops a v))), snd (serial_run ops a v) @ snd (serial_run ops b (fst (serial_run ops a v))))"
  by (induction a arbitrary: v) (simp_all add: split_beta)

lemma serial_run_length: "length (snd (serial_run ops order v)) = length order"
  by (induction order arbitrary: v) (simp_all add: split_beta)

text \<open>A flag is 0 or 1, and without a call that clears it a flag that is set stays set.\<close>

lemma serial_flag:
  "(\<And>k. ops k \<in> flag_ops) \<Longrightarrow> v = 0 \<or> v = 1 \<Longrightarrow> fst (serial_run ops order v) = 0 \<or> fst (serial_run ops order v) = 1"
proof (induction order arbitrary: v)
  case (Cons i order)
  then show ?case unfolding serial_run_Cons using flag_step [of "ops i" v] by blast
qed simp

lemma serial_set:
  "(\<And>k. ops k \<in> flag_ops) \<Longrightarrow> \<forall>k\<in>set order. ops k \<notin> clear_ops \<Longrightarrow> fst (serial_run ops order 1) = 1"
proof (induction order)
  case (Cons i order)
  have "fst (op_effect (ops i) 1) = 1" using flag_step_set [of "ops i"] Cons.prems by simp
  then show ?case unfolding serial_run_Cons using Cons by simp
qed simp

text \<open>C34: A flag is a lock.  Take a flag that is clear at first and that only the flag functions access
  (set by an exchange, by one compare and exchange or by the builtin, tested, cleared by a write or by
  a compare and exchange), by any number of calls at the same time under any schedule.  Of two
  \<open>test_set\<close> calls that report success, one took effect before the other, and between them a call that
  clears the flag took effect.\<close>

theorem flag_mutual_exclusion:
  assumes "atomic_run ops schedule (atomics_start 0) = Some s" and flags: "\<And>k. ops k \<in> flag_ops"
    and e: "effect_log s = before @ (i, Some True) # between @ (j, Some True) # after"
    and "ops i \<in> test_set_ops" "ops j \<in> test_set_ops"
  shows "\<exists>(k, r)\<in>set between. ops k \<in> clear_ops"
proof (rule ccontr)
  assume none: "\<not> ?thesis"
  let ?v1 = "fst (serial_run ops (map fst before) 0)"
  let ?v2 = "fst (op_effect (ops i) ?v1)"
  let ?v3 = "fst (serial_run ops (map fst between) ?v2)"
  have "atomics_inv ops 0 s" using atomics_inv_run [OF assms(1) atomics_inv_start] .
  then have "snd (serial_run ops (map fst (effect_log s)) 0) = effect_log s" by (simp add: atomics_inv_def)
  then have "snd (serial_run ops (map fst before) 0) @ (i, snd (op_effect (ops i) ?v1)) #
      snd (serial_run ops (map fst between) ?v2) @ (j, snd (op_effect (ops j) ?v3)) #
      snd (serial_run ops (map fst after) (fst (op_effect (ops j) ?v3))) = effect_log s"
    by (simp add: e serial_run_append2 split_beta)
  then have r: "snd (op_effect (ops i) ?v1) = Some True" "snd (op_effect (ops j) ?v3) = Some True"
    unfolding e by (simp_all add: append_eq_append_conv serial_run_length)
  have v1: "?v1 = 0 \<or> ?v1 = 1" using flags by (intro serial_flag) simp_all
  then have "?v2 = 1" using assms(4) by (simp add: flag_effects)
  moreover have "fst (serial_run ops (map fst between) 1) = 1"
    using flags none by (intro serial_set) (auto simp: split_beta)
  ultimately have "?v3 = 1" by simp
  then show False using r(2) assms(5) by (simp add: flag_effects)
qed

theorem flag_mutual_exclusion_witness:
  "let ops = (\<lambda>k. if k = 1 then pg_atomic_clear_flag_impl else if k = 2 then sync_test_set_flag else test_set_flag_by_compare) in
   \<exists>s. atomic_run ops [(0, 0), (2, 0), (1, 0), (3, 0)] (atomics_start 0) = Some s \<and>
     effect_log s = [(0, Some True), (2, Some False), (1, None), (3, Some True)] \<and>
     (\<exists>(k, r)\<in>set [(2, Some False), (1, None)]. ops k \<in> clear_ops)"
proof -
  let ?ops = "\<lambda>k :: nat. if k = 1 then pg_atomic_clear_flag_impl else if k = 2 then sync_test_set_flag else test_set_flag_by_compare"
  obtain s where s: "atomic_run ?ops [(0, 0), (2, 0), (1, 0), (3, 0)] (atomics_start 0) = Some s"
    "effect_log s = [] @ (0, Some True) # [(2, Some False), (1, None)] @ (3, Some True) # []"
    by (simp add: atomic_step.simps atomics_start_def take_effect_def atomic_op_defs pg_atomic_compare_exchange_impl_def
        atomic_compare_exchange_n_def sync_val_compare_and_swap_def)
  have "\<exists>(k, r)\<in>set [(2, Some False), (1, None)]. ?ops k \<in> clear_ops"
    by (rule flag_mutual_exclusion [OF s(1) _ s(2)]) (auto simp: flag_ops_def test_set_ops_def clear_ops_def)
  with s show ?thesis by (auto simp: Let_def)
qed

end
