(* ===== verification/SortTemplate.thy ===== *)
theory SortTemplate
  imports Prelude
begin

text \<open>
  The sort of the server, \<open>lib/sort_template.h\<close>: Bentley and McIlroy's quicksort with a check for
  sorted input, in place on an array.  The array is a list, a pointer into it is its index, the
  comparator is any function to the integers whose sign is the order.  \<open>ST_SORT\<close> is modelled for a
  typed element (\<open>ST_POINTER_STEP\<close> is 1), with its recursion on one part and its \<open>goto loop\<close> on
  the other, which here are both calls; \<open>st_frames\<close> counts the stack frames of the recursion.
\<close>

section \<open>The routines\<close>

definition st_swap :: "nat \<Rightarrow> nat \<Rightarrow> 'a list \<Rightarrow> 'a list" where
  "st_swap i j xs = xs[i := xs ! j, j := xs ! i]"

definition st_swapn :: "nat \<Rightarrow> nat \<Rightarrow> nat \<Rightarrow> 'a list \<Rightarrow> 'a list" where
  "st_swapn i j n xs = fold (\<lambda>k. st_swap (i + k) (j + k)) [0..<n] xs"

definition st_med3 :: "('a \<Rightarrow> 'a \<Rightarrow> int) \<Rightarrow> 'a list \<Rightarrow> nat \<Rightarrow> nat \<Rightarrow> nat \<Rightarrow> nat" where
  "st_med3 cmp xs a b c =
     (if cmp (xs ! a) (xs ! b) < 0
      then if cmp (xs ! b) (xs ! c) < 0 then b else if cmp (xs ! a) (xs ! c) < 0 then c else a
      else if cmp (xs ! b) (xs ! c) > 0 then b else if cmp (xs ! a) (xs ! c) < 0 then a else c)"

text \<open>The two loops of the insertion sort, for less than seven elements.\<close>

fun st_sift :: "('a \<Rightarrow> 'a \<Rightarrow> int) \<Rightarrow> nat \<Rightarrow> nat \<Rightarrow> 'a list \<Rightarrow> 'a list" where
  "st_sift cmp a pl xs =
     (if pl > a \<and> cmp (xs ! (pl - 1)) (xs ! pl) > 0
      then st_sift cmp a (pl - 1) (st_swap pl (pl - 1) xs) else xs)"

function st_insertion :: "('a \<Rightarrow> 'a \<Rightarrow> int) \<Rightarrow> nat \<Rightarrow> nat \<Rightarrow> nat \<Rightarrow> 'a list \<Rightarrow> 'a list" where
  "st_insertion cmp a pm stop xs =
     (if pm < stop then st_insertion cmp a (pm + 1) stop (st_sift cmp a pm xs) else xs)"
  by pat_completeness auto
termination
  by (relation "measure (\<lambda>(cmp, a, pm, stop, xs). stop - pm)") auto

function st_presorted :: "('a \<Rightarrow> 'a \<Rightarrow> int) \<Rightarrow> nat \<Rightarrow> nat \<Rightarrow> 'a list \<Rightarrow> bool" where
  "st_presorted cmp pm stop xs =
     (if pm < stop
      then if cmp (xs ! (pm - 1)) (xs ! pm) > 0 then False else st_presorted cmp (pm + 1) stop xs
      else True)"
  by pat_completeness auto
termination
  by (relation "measure (\<lambda>(cmp, pm, stop, xs). stop - pm)") auto

text \<open>The pivot: the middle element, the median of three, or of three medians of three.\<close>

definition st_pivot :: "('a \<Rightarrow> 'a \<Rightarrow> int) \<Rightarrow> nat \<Rightarrow> nat \<Rightarrow> 'a list \<Rightarrow> nat" where
  "st_pivot cmp a n xs =
     (let pm = a + n div 2 in
      if n > 7
      then let pl = a; pn = a + (n - 1) in
           if n > 40
           then let d = n div 8;
                    pl = st_med3 cmp xs pl (pl + d) (pl + 2 * d);
                    pm = st_med3 cmp xs (pm - d) pm (pm + d);
                    pn = st_med3 cmp xs (pn - 2 * d) (pn - d) pn
                in st_med3 cmp xs pl pm pn
           else st_med3 cmp xs pl pm pn
      else pm)"

text \<open>The two inner loops of the partition, and the loop around them.  The pivot is at \<open>a\<close>; \<open>pc > 0\<close>
  always holds when \<open>pb \<le> pc\<close>, since \<open>pb\<close> starts behind \<open>a\<close>, and makes the recursion end for every
  argument.\<close>

function st_scan_up :: "('a \<Rightarrow> 'a \<Rightarrow> int) \<Rightarrow> nat \<Rightarrow> nat \<Rightarrow> nat \<Rightarrow> nat \<Rightarrow> 'a list \<Rightarrow> nat \<times> nat \<times> 'a list" where
  "st_scan_up cmp a pa pb pc xs =
     (if pb \<le> pc \<and> cmp (xs ! pb) (xs ! a) \<le> 0
      then if cmp (xs ! pb) (xs ! a) = 0
           then st_scan_up cmp a (pa + 1) (pb + 1) pc (st_swap pa pb xs)
           else st_scan_up cmp a pa (pb + 1) pc xs
      else (pa, pb, xs))"
  by pat_completeness auto
termination
  by (relation "measure (\<lambda>(cmp, a, pa, pb, pc, xs). Suc pc - pb)") auto

function st_scan_down :: "('a \<Rightarrow> 'a \<Rightarrow> int) \<Rightarrow> nat \<Rightarrow> nat \<Rightarrow> nat \<Rightarrow> nat \<Rightarrow> 'a list \<Rightarrow> nat \<times> nat \<times> 'a list" where
  "st_scan_down cmp a pb pc pd xs =
     (if pb \<le> pc \<and> pc > 0 \<and> cmp (xs ! pc) (xs ! a) \<ge> 0
      then if cmp (xs ! pc) (xs ! a) = 0
           then st_scan_down cmp a pb (pc - 1) (pd - 1) (st_swap pc pd xs)
           else st_scan_down cmp a pb (pc - 1) pd xs
      else (pc, pd, xs))"
  by pat_completeness auto
termination
  by (relation "measure (\<lambda>(cmp, a, pb, pc, pd, xs). pc)") auto

declare st_sift.simps [simp del] st_insertion.simps [simp del] st_presorted.simps [simp del]
  st_scan_up.simps [simp del] st_scan_down.simps [simp del]

lemma st_scan_up_pb: "st_scan_up cmp a pa pb pc xs = (pa', pb', xs') \<Longrightarrow> pb \<le> pb'"
proof (induction cmp a pa pb pc xs rule: st_scan_up.induct)
  case (1 cmp a pa pb pc xs)
  show ?case using 1 by (auto simp: st_scan_up.simps [of cmp a pa pb pc xs] split: if_splits)
qed

lemma st_scan_down_pc: "st_scan_down cmp a pb pc pd xs = (pc', pd', xs') \<Longrightarrow> pc' \<le> pc"
proof (induction cmp a pb pc pd xs rule: st_scan_down.induct)
  case (1 cmp a pb pc pd xs)
  show ?case using 1 by (auto simp: st_scan_down.simps [of cmp a pb pc pd xs] split: if_splits)
qed

function st_partition ::
    "('a \<Rightarrow> 'a \<Rightarrow> int) \<Rightarrow> nat \<Rightarrow> nat \<Rightarrow> nat \<Rightarrow> nat \<Rightarrow> nat \<Rightarrow> 'a list \<Rightarrow> nat \<times> nat \<times> nat \<times> nat \<times> 'a list" where
  "st_partition cmp a pa pb pc pd xs =
     (case st_scan_up cmp a pa pb pc xs of (pa, pb, xs) \<Rightarrow>
      case st_scan_down cmp a pb pc pd xs of (pc, pd, xs) \<Rightarrow>
        if pb > pc then (pa, pb, pc, pd, xs)
        else st_partition cmp a pa (pb + 1) (pc - 1) pd (st_swap pb pc xs))"
  by pat_completeness auto
termination
  by (relation "measure (\<lambda>(cmp, a, pa, pb, pc, pd, xs). Suc pc - pb)")
    (auto dest!: st_scan_up_pb [OF sym] st_scan_down_pc [OF sym])

declare st_partition.simps [simp del]

text \<open>The body of \<open>loop\<close> up to the recursion: the sizes of the two parts that are left to sort.\<close>

definition st_split :: "('a \<Rightarrow> 'a \<Rightarrow> int) \<Rightarrow> nat \<Rightarrow> nat \<Rightarrow> 'a list \<Rightarrow> nat \<times> nat \<times> 'a list" where
  "st_split cmp a n xs =
     (case st_partition cmp a (a + 1) (a + 1) (a + (n - 1)) (a + (n - 1))
             (st_swap a (st_pivot cmp a n xs) xs) of
        (pa, pb, pc, pd, xs) \<Rightarrow>
          let pn = a + n;
              d1 = min (pa - a) (pb - pa);
              xs = st_swapn a (pb - d1) d1 xs;
              d1 = min (pd - pc) (pn - pd - 1);
              xs = st_swapn pb (pn - d1) d1 xs
          in (pb - pa, pd - pc, xs))"

text \<open>Whatever the comparator answers, the five pointers stay in order.\<close>

definition st_shape :: "nat \<Rightarrow> nat \<Rightarrow> nat \<Rightarrow> nat \<Rightarrow> nat \<Rightarrow> nat \<Rightarrow> bool" where
  "st_shape a pa pb pc pd stop \<longleftrightarrow> a < pa \<and> pa \<le> pb \<and> pb \<le> pc + 1 \<and> pc \<le> pd \<and> pd < stop"

lemma st_scan_up_shape:
  "st_scan_up cmp a pa pb pc xs = (pa', pb', xs') \<Longrightarrow> st_shape a pa pb pc pd stop \<Longrightarrow> st_shape a pa' pb' pc pd stop"
proof (induction cmp a pa pb pc xs rule: st_scan_up.induct)
  case (1 cmp a pa pb pc xs)
  then show ?case by (auto simp: st_shape_def st_scan_up.simps [of cmp a pa pb pc xs] split: if_splits)
qed

lemma st_scan_down_shape:
  "st_scan_down cmp a pb pc pd xs = (pc', pd', xs') \<Longrightarrow> st_shape a pa pb pc pd stop \<Longrightarrow> st_shape a pa pb pc' pd' stop"
proof (induction cmp a pb pc pd xs rule: st_scan_down.induct)
  case (1 cmp a pb pc pd xs)
  then show ?case
    by (auto simp: st_shape_def st_scan_down.simps [of cmp a pb pc pd xs] diff_le_mono less_imp_diff_less
        split: if_splits)
qed

text \<open>Where a scan stops, and what it has left in place.\<close>

lemma st_scan_up_stop:
  "st_scan_up cmp a pa pb pc xs = (pa', pb', xs') \<Longrightarrow> pb' \<le> pc \<Longrightarrow> cmp (xs' ! pb') (xs' ! a) > 0"
proof (induction cmp a pa pb pc xs rule: st_scan_up.induct)
  case (1 cmp a pa pb pc xs)
  then show ?case by (auto simp: st_scan_up.simps [of cmp a pa pb pc xs] split: if_splits)
qed

lemma st_scan_down_stop:
  "st_scan_down cmp a pb pc pd xs = (pc', pd', xs') \<Longrightarrow> a < pb \<Longrightarrow> pb \<le> pc' \<Longrightarrow> cmp (xs' ! pc') (xs' ! a) < 0"
proof (induction cmp a pb pc pd xs rule: st_scan_down.induct)
  case (1 cmp a pb pc pd xs)
  then show ?case by (auto simp: st_scan_down.simps [of cmp a pb pc pd xs] split: if_splits)
qed

lemma st_scan_down_below:
  "st_scan_down cmp a pb pc pd xs = (pc', pd', xs') \<Longrightarrow> pc \<le> pd \<Longrightarrow> i \<le> pc' \<Longrightarrow> xs' ! i = xs ! i"
proof (induction cmp a pb pc pd xs rule: st_scan_down.induct)
  case (1 cmp a pb pc pd xs)
  then show ?case
    by (auto simp: st_scan_down.simps [of cmp a pb pc pd xs] st_swap_def diff_le_mono
        dest!: st_scan_down_pc split: if_splits)
qed

lemma st_partition_shape:
  "st_partition cmp a pa pb pc pd xs = (pa', pb', pc', pd', xs') \<Longrightarrow> st_shape a pa pb pc pd stop \<Longrightarrow>
     st_shape a pa' pb' pc' pd' stop \<and> pb' = pc' + 1"
proof (induction cmp a pa pb pc pd xs rule: st_partition.induct)
  case (1 cmp a pa pb pc pd xs)
  obtain pa1 pb1 xs1 where up: "st_scan_up cmp a pa pb pc xs = (pa1, pb1, xs1)" by (metis prod_cases3)
  obtain pc1 pd1 xs2 where down: "st_scan_down cmp a pb1 pc pd xs1 = (pc1, pd1, xs2)" by (metis prod_cases3)
  have sh: "st_shape a pa1 pb1 pc1 pd1 stop"
    by (rule st_scan_down_shape [OF down st_scan_up_shape [OF up 1(3)]])
  show ?case
  proof (cases "pb1 > pc1")
    case True
    with 1(2) sh up down show ?thesis by (auto simp: st_partition.simps [of cmp a pa] st_shape_def)
  next
    case False
    have "pc \<le> pd" "a < pb1" using 1(3) sh by (simp_all add: st_shape_def)
    then have "pb1 \<noteq> pc1"
      using st_scan_up_stop [OF up] st_scan_down_stop [OF down] st_scan_down_below [OF down, of a]
        st_scan_down_below [OF down, of pc1] st_scan_down_pc [OF down] by fastforce
    with sh False have "st_shape a pa1 (pb1 + 1) (pc1 - 1) pd1 stop" by (auto simp: st_shape_def)
    with False show ?thesis
      using 1(1) [OF up [symmetric] refl down [symmetric] refl] 1(2) up down
      by (auto simp: st_partition.simps [of cmp a pa])
  qed
qed

lemma st_split_smaller:
  assumes "st_split cmp a n xs = (d1, d2, ys)" and "n > 0" shows "d1 + d2 < n"
proof -
  obtain pa pb pc pd zs where p: "st_partition cmp a (a + 1) (a + 1) (a + (n - 1)) (a + (n - 1))
      (st_swap a (st_pivot cmp a n xs) xs) = (pa, pb, pc, pd, zs)" by (metis prod_cases5)
  moreover have "st_shape a (a + 1) (a + 1) (a + (n - 1)) (a + (n - 1)) (a + n)"
    using assms(2) by (simp add: st_shape_def)
  ultimately have "st_shape a pa pb pc pd (a + n) \<and> pb = pc + 1" by (rule st_partition_shape)
  with p assms(1) show ?thesis by (auto simp: st_split_def st_shape_def Let_def)
qed

text \<open>\<open>ST_SORT\<close>: one part is sorted by a call, the other by going round \<open>loop\<close>.\<close>

function st_sort :: "('a \<Rightarrow> 'a \<Rightarrow> int) \<Rightarrow> nat \<Rightarrow> nat \<Rightarrow> 'a list \<Rightarrow> 'a list" where
  "st_sort cmp a n xs =
     (if n < 7 then st_insertion cmp a (a + 1) (a + n) xs
      else if st_presorted cmp (a + 1) (a + n) xs then xs
      else case st_split cmp a n xs of (d1, d2, xs) \<Rightarrow>
        if d1 \<le> d2
        then let xs = (if d1 > 1 then st_sort cmp a d1 xs else xs)
             in if d2 > 1 then st_sort cmp (a + n - d2) d2 xs else xs
        else let xs = (if d2 > 1 then st_sort cmp (a + n - d2) d2 xs else xs)
             in if d1 > 1 then st_sort cmp a d1 xs else xs)"
  by pat_completeness auto
termination
  by (relation "measure (\<lambda>(cmp, a, n, xs). n)") (auto dest!: st_split_smaller [OF sym])

text \<open>The stack frames that a call needs at most at one time, its own included.\<close>

function st_frames :: "('a \<Rightarrow> 'a \<Rightarrow> int) \<Rightarrow> nat \<Rightarrow> nat \<Rightarrow> 'a list \<Rightarrow> nat" where
  "st_frames cmp a n xs =
     (if n < 7 then 1
      else if st_presorted cmp (a + 1) (a + n) xs then 1
      else case st_split cmp a n xs of (d1, d2, xs) \<Rightarrow>
        if d1 \<le> d2
        then max (if d1 > 1 then 1 + st_frames cmp a d1 xs else 1)
               (if d2 > 1 then st_frames cmp (a + n - d2) d2 (if d1 > 1 then st_sort cmp a d1 xs else xs) else 1)
        else max (if d2 > 1 then 1 + st_frames cmp (a + n - d2) d2 xs else 1)
               (if d1 > 1 then st_frames cmp a d1 (if d2 > 1 then st_sort cmp (a + n - d2) d2 xs else xs) else 1))"
  by pat_completeness auto
termination
  by (relation "measure (\<lambda>(cmp, a, n, xs). n)") (auto dest!: st_split_smaller [OF sym])

declare st_sort.simps [simp del] st_frames.simps [simp del]

text \<open>The recursion cannot go deeper than the logarithm of the size: whatever the comparator
  answers, a sort of at least two elements never has more than \<open>log\<^sub>2 n\<close> calls of \<open>ST_SORT\<close> open.\<close>

theorem sort_stack_logarithmic: "2 \<le> n \<Longrightarrow> 2 ^ st_frames cmp a n xs \<le> n"
proof (induction n arbitrary: a xs rule: less_induct)
  case (less n)
  obtain d1 d2 ys where sp: "st_split cmp a n xs = (d1, d2, ys)" by (metis prod_cases3)
  have smaller: "d1 + d2 < n" using st_split_smaller [OF sp] less.prems by simp
  have part: "2 ^ (if d > 1 then st_frames cmp b d zs else 1) \<le> n" if "d < n" for d b zs
    using less.IH [OF that, of b zs] that less.prems by auto
  have call: "2 ^ (if d > 1 then 1 + st_frames cmp b d zs else 1) \<le> n" if "2 * d < n" for d b zs
    using less.IH [of d b zs] that less.prems by auto
  have max: "2 ^ max i j \<le> n" if "2 ^ i \<le> n" "2 ^ j \<le> n" for i j :: nat
    using that by (simp add: max_def)
  show ?case
  proof (cases "n < 7 \<or> st_presorted cmp (a + 1) (a + n) xs")
    case True
    with less.prems show ?thesis by (auto simp: st_frames.simps [of cmp a n xs])
  next
    case False
    show ?thesis
    proof (cases "d1 \<le> d2")
      case True
      with False smaller show ?thesis
        unfolding st_frames.simps [of cmp a n xs] sp by (simp only: if_False if_True prod.case de_Morgan_disj)
          (intro max call part; linarith)
    next
      case right: False
      with False smaller show ?thesis
        unfolding st_frames.simps [of cmp a n xs] sp by (simp only: if_False if_True prod.case de_Morgan_disj)
          (intro max call part; linarith)
    qed
  qed
qed

section \<open>What the comparator cannot break\<close>

text \<open>The elements of a range in another order, the rest of the array untouched.\<close>

definition rearranged :: "nat \<Rightarrow> nat \<Rightarrow> 'a list \<Rightarrow> 'a list \<Rightarrow> bool" where
  "rearranged lo hi xs ys \<longleftrightarrow>
     length ys = length xs \<and> mset ys = mset xs \<and> (\<forall>i. i < lo \<or> hi \<le> i \<longrightarrow> ys ! i = xs ! i)"

lemma rearranged_refl [simp]: "rearranged lo hi xs xs"
  by (simp add: rearranged_def)

lemma rearranged_trans: "rearranged lo hi xs ys \<Longrightarrow> rearranged lo hi ys zs \<Longrightarrow> rearranged lo hi xs zs"
  by (simp add: rearranged_def)

lemma rearranged_mono: "rearranged lo hi xs ys \<Longrightarrow> lo' \<le> lo \<Longrightarrow> hi \<le> hi' \<Longrightarrow> rearranged lo' hi' xs ys"
  by (auto simp: rearranged_def)

lemma rearranged_length: "rearranged lo hi xs ys \<Longrightarrow> length ys = length xs"
  by (simp add: rearranged_def)

lemma length_st_swap [simp]: "length (st_swap i j xs) = length xs"
  by (simp add: st_swap_def)

lemma nth_st_swap:
  "i < length xs \<Longrightarrow> j < length xs \<Longrightarrow> st_swap i j xs ! k = (if k = i then xs ! j else if k = j then xs ! i else xs ! k)"
  by (auto simp: st_swap_def nth_list_update)

lemma rearranged_swap:
  "lo \<le> i \<Longrightarrow> i < hi \<Longrightarrow> lo \<le> j \<Longrightarrow> j < hi \<Longrightarrow> hi \<le> length xs \<Longrightarrow> rearranged lo hi xs (st_swap i j xs)"
  by (auto simp: rearranged_def st_swap_def mset_swap)

lemma rearranged_set:
  assumes "rearranged lo hi xs ys" and "hi \<le> length xs"
  shows "(!) ys ` {lo..<hi} = (!) xs ` {lo..<hi}"
proof (cases "lo \<le> hi")
  case True
  have parts: "mset zs = mset (take lo zs) + (mset (map ((!) zs) [lo..<hi]) + mset (drop hi zs))"
    if "hi \<le> length zs" for zs :: "'a list"
  proof -
    have "map ((!) zs) [lo..<hi] = drop lo (take hi zs)"
      using that by (intro nth_equalityI) auto
    moreover have "take lo zs = take lo (take hi zs)" using True by (simp add: min_absorb1)
    ultimately have "zs = take lo zs @ map ((!) zs) [lo..<hi] @ drop hi zs"
      by (metis append.assoc append_take_drop_id)
    then show ?thesis by (metis mset_append)
  qed
  have "take lo ys = take lo xs" "drop hi ys = drop hi xs"
    using assms by (auto simp: rearranged_def intro!: nth_equalityI)
  then have "mset (map ((!) ys) [lo..<hi]) = mset (map ((!) xs) [lo..<hi])"
    using parts [of xs] parts [of ys] assms by (simp add: rearranged_def del: mset_map)
  then have "set (map ((!) ys) [lo..<hi]) = set (map ((!) xs) [lo..<hi])" by (metis set_mset_mset)
  then show ?thesis by simp
qed simp

lemma rearranged_all:
  assumes "rearranged lo hi xs ys" and "hi \<le> length xs" and "\<And>i. lo \<le> i \<Longrightarrow> i < hi \<Longrightarrow> P (xs ! i)"
    and "lo \<le> j" "j < hi"
  shows "P (ys ! j)"
proof -
  have "ys ! j \<in> (!) xs ` {lo..<hi}" using assms(4,5) by (simp flip: rearranged_set [OF assms(1,2)])
  then show ?thesis using assms(3) by auto
qed

lemma length_st_sift [simp]: "length (st_sift cmp a pl xs) = length xs"
  by (induction cmp a pl xs rule: st_sift.induct) (simp add: st_sift.simps)

lemma st_sift_rearranged:
  "a \<le> pl \<Longrightarrow> pl < hi \<Longrightarrow> hi \<le> length xs \<Longrightarrow> rearranged a hi xs (st_sift cmp a pl xs)"
proof (induction cmp a pl xs rule: st_sift.induct)
  case (1 cmp a pl xs)
  show ?case
  proof (cases "pl > a \<and> cmp (xs ! (pl - 1)) (xs ! pl) > 0")
    case True
    then have "a \<le> pl - 1" "pl - 1 < hi" using 1(3) by linarith+
    then show ?thesis
      using 1 True rearranged_trans [OF rearranged_swap [of a pl hi "pl - 1" xs]]
      by (simp add: st_sift.simps [of cmp a pl xs])
  qed (auto simp: st_sift.simps [of cmp a pl xs])
qed

lemma st_insertion_rearranged:
  "a < pm \<Longrightarrow> hi \<le> length xs \<Longrightarrow> rearranged a hi xs (st_insertion cmp a pm hi xs)"
proof (induction cmp a pm hi xs rule: st_insertion.induct)
  case (1 cmp a pm hi xs)
  then show ?case
    using st_sift_rearranged [of a pm hi xs cmp]
    by (auto simp: st_insertion.simps [of cmp a pm hi xs] intro: rearranged_trans)
qed

lemma st_med3_in: "i \<in> S \<Longrightarrow> j \<in> S \<Longrightarrow> k \<in> S \<Longrightarrow> st_med3 cmp xs i j k \<in> S"
  by (simp add: st_med3_def)

lemma st_pivot_range: "7 \<le> n \<Longrightarrow> st_pivot cmp a n xs \<in> {a..<a + n}"
  unfolding st_pivot_def Let_def
  by (simp only: split: if_split) (intro conjI impI st_med3_in; simp; linarith)

text \<open>The invariant of the partition around the pivot \<open>v\<close>, which is at \<open>a\<close>.\<close>

definition st_inv :: "('a \<Rightarrow> 'a \<Rightarrow> int) \<Rightarrow> 'a \<Rightarrow> nat \<Rightarrow> nat \<Rightarrow> 'a list \<Rightarrow>
    nat \<Rightarrow> nat \<Rightarrow> nat \<Rightarrow> nat \<Rightarrow> 'a list \<Rightarrow> bool" where
  "st_inv cmp v a stop xs0 pa pb pc pd xs \<longleftrightarrow>
     st_shape a pa pb pc pd stop \<and> stop \<le> length xs \<and> rearranged a stop xs0 xs \<and> xs ! a = v \<and>
     (\<forall>i. a < i \<and> i < pa \<longrightarrow> cmp (xs ! i) v = 0) \<and> (\<forall>i. pa \<le> i \<and> i < pb \<longrightarrow> cmp (xs ! i) v < 0) \<and>
     (\<forall>i. pc < i \<and> i \<le> pd \<longrightarrow> cmp (xs ! i) v > 0) \<and> (\<forall>i. pd < i \<and> i < stop \<longrightarrow> cmp (xs ! i) v = 0)"

lemma st_inv_swap_up:
  assumes "st_inv cmp v a stop xs0 pa pb pc pd xs" and "pb \<le> pc" "cmp (xs ! pb) (xs ! a) = 0"
  shows "st_inv cmp v a stop xs0 (pa + 1) (pb + 1) pc pd (st_swap pa pb xs)"
  using assms rearranged_trans [OF _ rearranged_swap, of a stop xs0 xs pa pb]
  by (auto simp: st_inv_def st_shape_def nth_st_swap)

lemma st_inv_up:
  assumes "st_inv cmp v a stop xs0 pa pb pc pd xs" and "pb \<le> pc" "cmp (xs ! pb) (xs ! a) < 0"
  shows "st_inv cmp v a stop xs0 pa (pb + 1) pc pd xs"
  using assms by (auto simp: st_inv_def st_shape_def less_Suc_eq)

lemma st_inv_swap_down:
  assumes "st_inv cmp v a stop xs0 pa pb pc pd xs" and "pb \<le> pc" "cmp (xs ! pc) (xs ! a) = 0"
  shows "st_inv cmp v a stop xs0 pa pb (pc - 1) (pd - 1) (st_swap pc pd xs)"
proof -
  have "i = pc \<or> pc < i" if "pc - 1 < i" for i using that by linarith
  moreover have "i = pd \<or> pd < i" if "pd - 1 < i" for i using that by linarith
  ultimately show ?thesis
    using assms rearranged_trans [OF _ rearranged_swap, of a stop xs0 xs pc pd]
    by (fastforce simp: st_inv_def st_shape_def nth_st_swap)
qed

lemma st_inv_down:
  assumes "st_inv cmp v a stop xs0 pa pb pc pd xs" and "pb \<le> pc" "cmp (xs ! pc) (xs ! a) > 0"
  shows "st_inv cmp v a stop xs0 pa pb (pc - 1) pd xs"
proof -
  have "i = pc \<or> pc < i" if "pc - 1 < i" for i using that by linarith
  with assms show ?thesis by (auto simp: st_inv_def st_shape_def)
qed

lemma st_inv_cross:
  assumes "st_inv cmp v a stop xs0 pa pb pc pd xs" and "pb < pc"
    and "cmp (xs ! pb) (xs ! a) > 0" "cmp (xs ! pc) (xs ! a) < 0"
  shows "st_inv cmp v a stop xs0 pa (pb + 1) (pc - 1) pd (st_swap pb pc xs)"
  using assms rearranged_trans [OF _ rearranged_swap, of a stop xs0 xs pb pc]
  by (auto simp: st_inv_def st_shape_def nth_st_swap less_Suc_eq)

lemma st_scan_up_inv:
  "st_scan_up cmp a pa pb pc xs = (pa', pb', xs') \<Longrightarrow> st_inv cmp v a stop xs0 pa pb pc pd xs \<Longrightarrow>
     st_inv cmp v a stop xs0 pa' pb' pc pd xs'"
proof (induction cmp a pa pb pc xs rule: st_scan_up.induct)
  case (1 cmp a pa pb pc xs)
  then show ?case
    using st_inv_swap_up [OF 1(4)] st_inv_up [OF 1(4)]
    by (auto simp: st_scan_up.simps [of cmp a pa pb pc xs] split: if_splits)
qed

lemma st_scan_down_inv:
  "st_scan_down cmp a pb pc pd xs = (pc', pd', xs') \<Longrightarrow> st_inv cmp v a stop xs0 pa pb pc pd xs \<Longrightarrow>
     st_inv cmp v a stop xs0 pa pb pc' pd' xs'"
proof (induction cmp a pb pc pd xs rule: st_scan_down.induct)
  case (1 cmp a pb pc pd xs)
  then show ?case
    using st_inv_swap_down [OF 1(4)] st_inv_down [OF 1(4)]
    by (auto simp: st_scan_down.simps [of cmp a pb pc pd xs] split: if_splits)
qed

lemma st_partition_inv:
  "st_partition cmp a pa pb pc pd xs = (pa', pb', pc', pd', xs') \<Longrightarrow>
     st_inv cmp v a stop xs0 pa pb pc pd xs \<Longrightarrow> st_inv cmp v a stop xs0 pa' pb' pc' pd' xs'"
proof (induction cmp a pa pb pc pd xs rule: st_partition.induct)
  case (1 cmp a pa pb pc pd xs)
  obtain pa1 pb1 xs1 where up: "st_scan_up cmp a pa pb pc xs = (pa1, pb1, xs1)" by (metis prod_cases3)
  obtain pc1 pd1 xs2 where down: "st_scan_down cmp a pb1 pc pd xs1 = (pc1, pd1, xs2)" by (metis prod_cases3)
  have inv: "st_inv cmp v a stop xs0 pa1 pb1 pc1 pd1 xs2"
    by (rule st_scan_down_inv [OF down st_scan_up_inv [OF up 1(3)]])
  show ?case
  proof (cases "pb1 > pc1")
    case True
    with 1(2) inv up down show ?thesis by (auto simp: st_partition.simps [of cmp a pa pb pc pd xs])
  next
    case False
    have "pc \<le> pd" "a < pb1" using 1(3) inv by (simp_all add: st_inv_def st_shape_def)
    then have stop: "cmp (xs2 ! pb1) (xs2 ! a) > 0" "cmp (xs2 ! pc1) (xs2 ! a) < 0"
      using False st_scan_up_stop [OF up] st_scan_down_stop [OF down] st_scan_down_below [OF down]
        st_scan_down_pc [OF down] by auto
    then have "pb1 < pc1" using False by (cases "pb1 = pc1") auto
    then have "st_inv cmp v a stop xs0 pa1 (pb1 + 1) (pc1 - 1) pd1 (st_swap pb1 pc1 xs2)"
      by (rule st_inv_cross [OF inv _ stop])
    with False show ?thesis
      using 1(1) [OF up [symmetric] refl down [symmetric] refl] 1(2) up down
      by (auto simp: st_partition.simps [of cmp a pa pb pc pd xs])
  qed
qed

text \<open>Two blocks of the same length change places.\<close>

lemma st_swapn_Suc: "st_swapn i j (Suc n) xs = st_swap (i + n) (j + n) (st_swapn i j n xs)"
  by (simp add: st_swapn_def)

lemma length_st_swapn [simp]: "length (st_swapn i j n xs) = length xs"
  by (induction n) (simp_all add: st_swapn_Suc, simp add: st_swapn_def)

lemma nth_st_swapn:
  "i + n \<le> j \<Longrightarrow> j + n \<le> length xs \<Longrightarrow>
     st_swapn i j n xs ! k =
       (if i \<le> k \<and> k < i + n then xs ! (j + (k - i)) else if j \<le> k \<and> k < j + n then xs ! (i + (k - j)) else xs ! k)"
proof (induction n arbitrary: k)
  case 0
  then show ?case by (auto simp: st_swapn_def)
next
  case (Suc n)
  then show ?case by (auto simp: st_swapn_Suc nth_st_swap)
qed

lemma st_swapn_rearranged:
  "lo \<le> i \<Longrightarrow> lo \<le> j \<Longrightarrow> i + n \<le> hi \<Longrightarrow> j + n \<le> hi \<Longrightarrow> hi \<le> length xs \<Longrightarrow> rearranged lo hi xs (st_swapn i j n xs)"
proof (induction n)
  case 0
  then show ?case by (simp add: st_swapn_def)
next
  case (Suc n)
  then show ?case
    using rearranged_swap [of lo "i + n" hi "j + n" "st_swapn i j n xs"]
    by (auto simp: st_swapn_Suc intro: rearranged_trans)
qed

text \<open>With the smaller of two neighbouring blocks swapped over, the blocks have changed sides.\<close>

lemma st_swapn_blocks:
  fixes l m r :: nat
  defines "d \<equiv> min (m - l) (r - m)"
  assumes "l \<le> m" "m \<le> r" "r \<le> length xs"
    and P: "\<And>i. l \<le> i \<Longrightarrow> i < m \<Longrightarrow> P (xs ! i)" and Q: "\<And>i. m \<le> i \<Longrightarrow> i < r \<Longrightarrow> Q (xs ! i)"
  shows "l \<le> i \<Longrightarrow> i < l + (r - m) \<Longrightarrow> Q (st_swapn l (r - d) d xs ! i)"
    and "l + (r - m) \<le> i \<Longrightarrow> i < r \<Longrightarrow> P (st_swapn l (r - d) d xs ! i)"
proof -
  have d: "l + d \<le> r - d" "r - d + d \<le> length xs" "d \<le> r" "m \<le> r - d \<or> r - d \<le> m" "d = m - l \<or> d = r - m"
    "l + d \<le> m" "m \<le> r - d" using assms(2-4) by (auto simp: d_def)
  show "Q (st_swapn l (r - d) d xs ! i)" if "l \<le> i" "i < l + (r - m)"
    using d that by (auto simp: nth_st_swapn [OF d(1,2)] intro!: Q)
  show "P (st_swapn l (r - d) d xs ! i)" if "l + (r - m) \<le> i" "i < r"
    using d that assms(2,3) by (auto simp: nth_st_swapn [OF d(1,2)] intro!: P)
qed

text \<open>The three parts after the body of the loop.\<close>

definition three_parts :: "('a \<Rightarrow> 'a \<Rightarrow> int) \<Rightarrow> 'a \<Rightarrow> nat \<Rightarrow> nat \<Rightarrow> nat \<Rightarrow> nat \<Rightarrow> 'a list \<Rightarrow> bool" where
  "three_parts cmp v lo hi d1 d2 xs \<longleftrightarrow>
     (\<forall>i. lo \<le> i \<and> i < lo + d1 \<longrightarrow> cmp (xs ! i) v < 0) \<and>
     (\<forall>i. lo + d1 \<le> i \<and> i < hi - d2 \<longrightarrow> cmp (xs ! i) v = 0) \<and>
     (\<forall>i. hi - d2 \<le> i \<and> i < hi \<longrightarrow> cmp (xs ! i) v > 0)"

lemma st_exchange_parts:
  fixes a pa pc pd pn :: nat
  defines "pb \<equiv> pc + 1" and "e1 \<equiv> min (pa - a) (pc + 1 - pa)" and "e2 \<equiv> min (pd - pc) (pn - pd - 1)"
  assumes inv: "st_inv cmp v a pn xs0 pa pb pc pd xs"
  defines "us \<equiv> st_swapn a (pb - e1) e1 xs"
  defines "ys \<equiv> st_swapn pb (pn - e2) e2 us"
  shows "rearranged a pn xs0 ys" and "cmp v v = 0 \<Longrightarrow> three_parts cmp v a pn (pb - pa) (pd - pc) ys"
proof -
  have sh: "a < pa" "pa \<le> pb" "pb \<le> pd + 1" "pd + 1 \<le> pn" "pn \<le> length xs"
    using inv by (auto simp: st_inv_def st_shape_def pb_def)
  have e: "a + e1 \<le> pb - e1" "pb - e1 + e1 = pb" "pb + e2 \<le> pn - e2" "pn - e2 + e2 = pn"
    using sh by (auto simp: e1_def e2_def pb_def)
  have "rearranged a pn xs us" unfolding us_def by (rule st_swapn_rearranged) (use sh e in auto)
  moreover have "rearranged a pn us ys" unfolding ys_def by (rule st_swapn_rearranged) (use sh e in \<open>auto simp: us_def\<close>)
  ultimately show "rearranged a pn xs0 ys" using inv by (simp add: st_inv_def) (metis rearranged_trans)
  assume refl: "cmp v v = 0"
  have left: "cmp (us ! i) v < 0" if "a \<le> i" "i < a + (pb - pa)" for i
    unfolding us_def e1_def pb_def
    by (rule st_swapn_blocks(1) [where Q = "\<lambda>x. cmp x v < 0" and P = "\<lambda>_. True"])
      (use inv sh that in \<open>auto simp: st_inv_def pb_def\<close>)
  have mid: "cmp (us ! i) v = 0" if "a + (pb - pa) \<le> i" "i < pb" for i
    unfolding us_def e1_def pb_def
    by (rule st_swapn_blocks(2) [where P = "\<lambda>x. cmp x v = 0" and Q = "\<lambda>_. True"])
      (use inv sh that refl in \<open>auto simp: st_inv_def pb_def le_less\<close>)
  have us: "us ! i = xs ! i" if "pb \<le> i" for i
    using that e sh unfolding us_def by (subst nth_st_swapn) auto
  have ys: "ys ! i = us ! i" if "i < pb" for i
    using that e sh unfolding ys_def by (subst nth_st_swapn) (auto simp: us_def)
  have e2: "e2 = min (pd + 1 - pb) (pn - (pd + 1))" by (simp add: e2_def pb_def)
  have mid2: "cmp (ys ! i) v = 0" if "pb \<le> i" "i < pb + (pn - (pd + 1))" for i
    unfolding ys_def e2
    by (rule st_swapn_blocks(1) [where Q = "\<lambda>x. cmp x v = 0" and P = "\<lambda>_. True"])
      (use inv sh that us in \<open>auto simp: st_inv_def us_def\<close>)
  have right: "cmp (ys ! i) v > 0" if "pb + (pn - (pd + 1)) \<le> i" "i < pn" for i
    unfolding ys_def e2
    by (rule st_swapn_blocks(2) [where P = "\<lambda>x. cmp x v > 0" and Q = "\<lambda>_. True"])
      (use inv sh that us in \<open>auto simp: st_inv_def us_def pb_def\<close>)
  have ends: "pn - (pd - pc) = pb + (pn - (pd + 1))" "a + (pb - pa) \<le> pb" using sh by (auto simp: pb_def)
  have "cmp (ys ! i) v = 0" if "a + (pb - pa) \<le> i" "i < pb + (pn - (pd + 1))" for i
    using mid [of i] mid2 [of i] ys [of i] that by (cases "i < pb") auto
  then show "three_parts cmp v a pn (pb - pa) (pd - pc) ys"
    using left right ys ends unfolding three_parts_def by auto
qed

lemma st_split_parts:
  assumes sp: "st_split cmp a n xs = (d1, d2, ys)" and n: "7 \<le> n" "a + n \<le> length xs"
  shows "rearranged a (a + n) xs ys" and "\<exists>v. cmp v v = 0 \<longrightarrow> three_parts cmp v a (a + n) d1 d2 ys"
proof -
  let ?xs = "st_swap a (st_pivot cmp a n xs) xs" and ?pn = "a + n"
  have pv: "a \<le> st_pivot cmp a n xs" "st_pivot cmp a n xs < a + n" using st_pivot_range [OF n(1), of cmp a xs] by auto
  obtain pa pb pc pd zs where p: "st_partition cmp a (a + 1) (a + 1) (a + (n - 1)) (a + (n - 1)) ?xs = (pa, pb, pc, pd, zs)"
    by (metis prod_cases5)
  have sh: "st_shape a (a + 1) (a + 1) (a + (n - 1)) (a + (n - 1)) ?pn" using n(1) by (simp add: st_shape_def)
  moreover have "rearranged a ?pn xs ?xs" using rearranged_swap [of a a ?pn "st_pivot cmp a n xs" xs] pv n by simp
  ultimately have "st_inv cmp (?xs ! a) a ?pn xs (a + 1) (a + 1) (a + (n - 1)) (a + (n - 1)) ?xs"
    using n by (auto simp: st_inv_def)
  then have inv: "st_inv cmp (?xs ! a) a ?pn xs pa pb pc pd zs" by (rule st_partition_inv [OF p])
  have pb: "pb = pc + 1" using st_partition_shape [OF p sh] by simp
  note ex = st_exchange_parts [OF inv [unfolded pb]]
  have r: "d1 = pc + 1 - pa" "d2 = pd - pc"
    "ys = st_swapn (pc + 1) (?pn - min (pd - pc) (?pn - pd - 1)) (min (pd - pc) (?pn - pd - 1))
      (st_swapn a (pc + 1 - min (pa - a) (pc + 1 - pa)) (min (pa - a) (pc + 1 - pa)) zs)"
    using sp p pb by (auto simp: st_split_def Let_def)
  show "rearranged a (a + n) xs ys" unfolding r by (rule ex(1))
  show "\<exists>v. cmp v v = 0 \<longrightarrow> three_parts cmp v a (a + n) d1 d2 ys" unfolding r using ex(2) by blast
qed

lemma st_sort_rearranged:
  "a + n \<le> length xs \<Longrightarrow> rearranged a (a + n) xs (st_sort cmp a n xs)"
proof (induction n arbitrary: a xs rule: less_induct)
  case (less n)
  obtain d1 d2 ys where sp: "st_split cmp a n xs = (d1, d2, ys)" by (metis prod_cases3)
  show ?case
  proof (cases "n < 7 \<or> st_presorted cmp (a + 1) (a + n) xs")
    case True
    with less.prems show ?thesis by (auto simp: st_sort.simps [of cmp a n xs] st_insertion_rearranged)
  next
    case False
    then have ys: "rearranged a (a + n) xs ys" "d1 + d2 < n"
      using st_split_parts(1) [OF sp] st_split_smaller [OF sp] less.prems by auto
    have left: "rearranged a (a + n) zs (if d1 > 1 then st_sort cmp a d1 zs else zs)"
      if "length zs = length xs" for zs
      using less.IH [of d1 a zs] ys(2) less.prems that by (auto intro: rearranged_mono)
    have right: "rearranged a (a + n) zs (if d2 > 1 then st_sort cmp (a + n - d2) d2 zs else zs)"
      if "length zs = length xs" for zs
      using less.IH [of d2 "a + n - d2" zs] ys(2) less.prems that by (auto intro: rearranged_mono)
    show ?thesis
    proof (cases "d1 \<le> d2")
      case True
      with False show ?thesis
        unfolding st_sort.simps [of cmp a n xs] sp Let_def
        using ys(1) left [of ys] right by (simp only: if_True if_False prod.case de_Morgan_disj)
          (meson rearranged_length rearranged_trans)
    next
      case right_first: False
      with False show ?thesis
        unfolding st_sort.simps [of cmp a n xs] sp Let_def
        using ys(1) right [of ys] left by (simp only: if_True if_False prod.case de_Morgan_disj)
          (meson rearranged_length rearranged_trans)
    qed
  qed
qed

section \<open>What a comparator that is an order gives\<close>

text \<open>What \<open>ST_SORT\<close> relies on: the sign of the comparator is that of a total preorder.  The exchange
  sorts of the extension ask for the same.\<close>

locale comparator =
  fixes cmp :: "'a \<Rightarrow> 'a \<Rightarrow> int"
  assumes cmp_swap: "cmp x y < 0 \<longleftrightarrow> 0 < cmp y x"
    and cmp_trans: "cmp x y \<le> 0 \<Longrightarrow> cmp y z \<le> 0 \<Longrightarrow> cmp x z \<le> 0"

sublocale comparator \<subseteq> exchange_order "\<lambda>x y. cmp x y > 0"
  by unfold_locales (use cmp_swap cmp_trans in \<open>force simp: not_less\<close>)+

definition range_sorted :: "('a \<Rightarrow> 'a \<Rightarrow> int) \<Rightarrow> nat \<Rightarrow> nat \<Rightarrow> 'a list \<Rightarrow> bool" where
  "range_sorted cmp lo hi xs \<longleftrightarrow> (\<forall>i j. lo \<le> i \<and> i < j \<and> j < hi \<longrightarrow> cmp (xs ! i) (xs ! j) \<le> 0)"

context comparator
begin

lemma cmp_refl: "cmp x x = 0"
  using cmp_swap [of x x] by linarith

lemma cmp_le_swap: "cmp x y \<ge> 0 \<longleftrightarrow> cmp y x \<le> 0"
  using cmp_swap [of x y] by linarith

lemma st_sift_sorted:
  assumes "a \<le> pl" "pl \<le> m" "m < length xs"
    and "\<And>i j. a \<le> i \<Longrightarrow> i < j \<Longrightarrow> j \<le> m \<Longrightarrow> i \<noteq> pl \<Longrightarrow> j \<noteq> pl \<Longrightarrow> cmp (xs ! i) (xs ! j) \<le> 0"
    and "\<And>j. pl < j \<Longrightarrow> j \<le> m \<Longrightarrow> cmp (xs ! pl) (xs ! j) \<le> 0"
  shows "range_sorted cmp a (m + 1) (st_sift cmp a pl xs)"
  using assms
proof (induction pl arbitrary: xs)
  case 0
  then have "a = 0" and "cmp (xs ! i) (xs ! j) \<le> 0" if "i < j" "j \<le> m" for i j
    using that by (cases "i = 0", auto)+
  then show ?case by (auto simp: st_sift.simps [of cmp 0 0 xs] range_sorted_def)
next
  case (Suc p)
  note ord = Suc.prems(4,5)
  show ?case
  proof (cases "a < Suc p \<and> cmp (xs ! p) (xs ! Suc p) > 0")
    case True
    let ?ys = "st_swap (Suc p) p xs"
    have nth: "?ys ! k = (if k = Suc p then xs ! p else if k = p then xs ! Suc p else xs ! k)" for k
      using Suc.prems by (intro nth_st_swap) auto
    have "range_sorted cmp a (m + 1) (st_sift cmp a p ?ys)"
    proof (rule Suc.IH)
      show "cmp (?ys ! i) (?ys ! j) \<le> 0" if "a \<le> i" "i < j" "j \<le> m" "i \<noteq> p" "j \<noteq> p" for i j
        using that ord(1) [of i j] ord(1) [of i p] ord(1) [of p j] True by (auto simp: nth)
      show "cmp (?ys ! p) (?ys ! j) \<le> 0" if "p < j" "j \<le> m" for j
        using that ord(2) [of j] True cmp_swap [of "xs ! Suc p" "xs ! p"] by (auto simp: nth)
    qed (use Suc.prems True in auto)
    with True show ?thesis by (simp add: st_sift.simps [of cmp a "Suc p" xs])
  next
    case False
    have low: "cmp (xs ! i) (xs ! Suc p) \<le> 0" if "a \<le> i" "i < Suc p" for i
      using False that ord(1) [of i p] cmp_trans [of "xs ! i" "xs ! p" "xs ! Suc p"] Suc.prems(2)
      by (cases "i = p") auto
    have "cmp (xs ! i) (xs ! j) \<le> 0" if "a \<le> i" "i < j" "j \<le> m" for i j
      using that ord(1) [of i j] ord(2) [of j] low [of i] by (cases "i = Suc p"; cases "j = Suc p") simp_all
    with False show ?thesis by (auto simp: st_sift.simps [of cmp a "Suc p" xs] range_sorted_def)
  qed
qed

lemma st_insertion_sorted:
  "a < pm \<Longrightarrow> hi \<le> length xs \<Longrightarrow> range_sorted cmp a pm xs \<Longrightarrow> pm \<le> hi \<or> hi \<le> a + 1 \<Longrightarrow>
     range_sorted cmp a hi (st_insertion cmp a pm hi xs)"
proof (induction "hi - pm" arbitrary: pm xs)
  case 0
  then have "\<not> pm < hi" by simp
  with 0 show ?case by (auto simp: st_insertion.simps [of cmp a pm hi xs] range_sorted_def)
next
  case (Suc k)
  have "range_sorted cmp a (pm + 1) (st_sift cmp a pm xs)"
    using Suc.prems Suc.hyps(2) by (intro st_sift_sorted) (auto simp: range_sorted_def)
  moreover have "pm < hi" using Suc.hyps(2) by linarith
  ultimately show ?case
    using Suc.hyps(1) [of "pm + 1" "st_sift cmp a pm xs"] Suc.hyps(2) Suc.prems
    by (simp add: st_insertion.simps [of cmp a pm hi xs])
qed

lemma st_presorted_sorted:
  "a < pm \<Longrightarrow> range_sorted cmp a pm xs \<Longrightarrow> st_presorted cmp pm hi xs \<Longrightarrow> range_sorted cmp a hi xs"
proof (induction "hi - pm" arbitrary: pm)
  case 0
  then show ?case by (auto simp: range_sorted_def)
next
  case (Suc k)
  have step: "cmp (xs ! (pm - 1)) (xs ! pm) \<le> 0" "st_presorted cmp (pm + 1) hi xs"
    using Suc.prems(3) Suc.hyps(2) by (auto simp: st_presorted.simps [of cmp pm hi xs] split: if_splits)
  have "cmp (xs ! i) (xs ! pm) \<le> 0" if "a \<le> i" "i < pm" for i
    using that Suc.prems(1,2) step(1) cmp_trans [of "xs ! i" "xs ! (pm - 1)" "xs ! pm"]
    by (cases "i = pm - 1") (auto simp: range_sorted_def)
  then have "range_sorted cmp a (pm + 1) xs"
    using Suc.prems(2) by (auto simp: range_sorted_def less_Suc_eq)
  then show ?case using Suc.hyps(1) [of "pm + 1"] Suc.hyps(2) Suc.prems(1) step(2) by auto
qed

lemma parts_sorted:
  assumes parts: "three_parts cmp v lo hi d1 d2 xs"
    and left: "range_sorted cmp lo (lo + d1) xs" and right: "range_sorted cmp (hi - d2) hi xs"
  shows "range_sorted cmp lo hi xs"
proof -
  have "cmp (xs ! i) (xs ! j) \<le> 0" if "lo \<le> i" "i < j" "j < hi" for i j
  proof (cases "j < lo + d1 \<or> hi - d2 \<le> i")
    case True
    with that left right show ?thesis by (auto simp: range_sorted_def)
  next
    case False
    then have "cmp (xs ! i) v \<le> 0" "cmp (xs ! j) v \<ge> 0"
      using parts that unfolding three_parts_def by (metis not_le order.order_iff_strict order.trans)+
    then show ?thesis using cmp_trans cmp_le_swap by blast
  qed
  then show ?thesis by (simp add: range_sorted_def)
qed

end

lemma three_parts_rearranged:
  assumes "three_parts cmp v lo hi d1 d2 xs" and "lo + d1 \<le> hi - d2" "hi \<le> length xs"
    and "rearranged lo (lo + d1) xs ys \<or> rearranged (hi - d2) hi xs ys"
  shows "three_parts cmp v lo hi d1 d2 ys"
  using assms(4)
proof
  assume r: "rearranged lo (lo + d1) xs ys"
  have "cmp (ys ! i) v < 0" if "lo \<le> i" "i < lo + d1" for i
    by (rule rearranged_all [OF r, of "\<lambda>x. cmp x v < 0"])
      (use assms(1-3) that in \<open>auto simp: three_parts_def\<close>)
  then show ?thesis using assms(1,2) r by (auto simp: three_parts_def rearranged_def)
next
  assume r: "rearranged (hi - d2) hi xs ys"
  have "cmp (ys ! i) v > 0" if "hi - d2 \<le> i" "i < hi" for i
    by (rule rearranged_all [OF r, of "\<lambda>x. cmp x v > 0"])
      (use assms(1-3) that in \<open>auto simp: three_parts_def\<close>)
  then show ?thesis using assms(1,2) r by (auto simp: three_parts_def rearranged_def)
qed

lemma range_sorted_elsewhere:
  "range_sorted cmp lo hi xs \<Longrightarrow> rearranged lo' hi' xs ys \<Longrightarrow> hi \<le> lo' \<or> hi' \<le> lo \<Longrightarrow> range_sorted cmp lo hi ys"
  by (auto simp: range_sorted_def rearranged_def)

context comparator
begin

lemma left_then_right:
  assumes "three_parts cmp v lo hi d1 d2 xs" and gap: "lo + d1 \<le> hi - d2" and len: "hi \<le> length xs"
    and L: "rearranged lo (lo + d1) xs ys" "range_sorted cmp lo (lo + d1) ys"
    and R: "rearranged (hi - d2) hi ys zs" "range_sorted cmp (hi - d2) hi zs"
  shows "range_sorted cmp lo hi zs"
proof (rule parts_sorted [OF _ _ R(2)])
  show "three_parts cmp v lo hi d1 d2 zs"
    using three_parts_rearranged [OF _ gap] assms by (metis rearranged_length)
  show "range_sorted cmp lo (lo + d1) zs" using range_sorted_elsewhere [OF L(2) R(1)] gap by blast
qed

lemma right_then_left:
  assumes "three_parts cmp v lo hi d1 d2 xs" and gap: "lo + d1 \<le> hi - d2" and len: "hi \<le> length xs"
    and R: "rearranged (hi - d2) hi xs ys" "range_sorted cmp (hi - d2) hi ys"
    and L: "rearranged lo (lo + d1) ys zs" "range_sorted cmp lo (lo + d1) zs"
  shows "range_sorted cmp lo hi zs"
proof (rule parts_sorted [OF _ L(2)])
  show "three_parts cmp v lo hi d1 d2 zs"
    using three_parts_rearranged [OF _ gap] assms by (metis rearranged_length)
  show "range_sorted cmp (hi - d2) hi zs" using range_sorted_elsewhere [OF R(2) L(1)] gap by blast
qed

lemma st_sort_sorted: "a + n \<le> length xs \<Longrightarrow> range_sorted cmp a (a + n) (st_sort cmp a n xs)"
proof (induction n arbitrary: a xs rule: less_induct)
  case (less n)
  obtain d1 d2 ys where sp: "st_split cmp a n xs = (d1, d2, ys)" by (metis prod_cases3)
  consider (few) "n < 7" | (presorted) "\<not> n < 7" "st_presorted cmp (a + 1) (a + n) xs"
    | (parts) "\<not> n < 7" "\<not> st_presorted cmp (a + 1) (a + n) xs" by blast
  then show ?case
  proof cases
    case few
    then show ?thesis using less.prems st_insertion_sorted [of a "a + 1" "a + n" xs]
      by (cases "n = 0") (auto simp: st_sort.simps [of cmp a n xs] range_sorted_def)
  next
    case presorted
    then show ?thesis using st_presorted_sorted [of a "a + 1" xs "a + n"]
      by (simp add: st_sort.simps [of cmp a n xs] range_sorted_def)
  next
    case parts
    obtain v where tp: "three_parts cmp v a (a + n) d1 d2 ys"
      using st_split_parts(2) [OF sp _ less.prems] parts(1) cmp_refl by auto
    have ys: "length ys = length xs" "d1 + d2 < n"
      using st_split_parts(1) [OF sp _ less.prems] st_split_smaller [OF sp] parts(1) by (auto simp: rearranged_length)
    have part: "rearranged b (b + d) zs (if d > 1 then st_sort cmp b d zs else zs)"
        "range_sorted cmp b (b + d) (if d > 1 then st_sort cmp b d zs else zs)"
      if "d < n" "b + d \<le> length zs" for b d and zs :: "'a list"
      using that less.IH [of d b zs] st_sort_rearranged [of b d zs cmp] by (auto simp: range_sorted_def)
    have b: "a + d1 \<le> a + n - d2" "d1 < n" "d2 < n" "a + n \<le> length ys" "a + d1 \<le> length ys"
      "a + n - d2 + d2 = a + n" using ys less.prems by auto
    note L = part [OF b(2)] and R = part [OF b(3), of "a + n - d2", unfolded b(6)]
    have "range_sorted cmp a (a + n)
        (let zs = (if d1 > 1 then st_sort cmp a d1 ys else ys)
         in if d2 > 1 then st_sort cmp (a + n - d2) d2 zs else zs)"
      unfolding Let_def by (rule left_then_right [OF tp b(1,4) L [OF b(5)] R])
        (use b(4) rearranged_length [OF L(1) [OF b(5)]] in simp)+
    moreover have "range_sorted cmp a (a + n)
        (let zs = (if d2 > 1 then st_sort cmp (a + n - d2) d2 ys else ys)
         in if d1 > 1 then st_sort cmp a d1 zs else zs)"
      unfolding Let_def by (rule right_then_left [OF tp b(1,4) R [OF b(4)] L])
        (use b(5) rearranged_length [OF R(1) [OF b(4)]] in simp)+
    ultimately show ?thesis
      using parts by (simp only: st_sort.simps [of cmp a n xs] sp if_False if_True prod.case split: if_split) simp
  qed
qed

end

text \<open>C35: The sort template sorts.  With a comparator whose sign is a total preorder, \<open>ST_SORT\<close> brings
  the \<open>n\<close> elements from \<open>a\<close> on into order.  Whatever the comparator answers, it ends, leaves the rest
  of the array as it is, loses no element and makes none up, and never has more than \<open>log\<^sub>2 n\<close> calls
  open.\<close>

theorem sort_template_sorts:
  assumes n: "a + n \<le> length xs"
  shows "(2 \<le> n \<longrightarrow> 2 ^ st_frames cmp a n xs \<le> n) \<and>
    mset (take n (drop a (st_sort cmp a n xs))) = mset (take n (drop a xs)) \<and>
    take a (st_sort cmp a n xs) = take a xs \<and> drop (a + n) (st_sort cmp a n xs) = drop (a + n) xs \<and>
    ((\<forall>x y. cmp x y < 0 \<longleftrightarrow> 0 < cmp y x) \<and> (\<forall>x y z. cmp x y \<le> 0 \<and> cmp y z \<le> 0 \<longrightarrow> cmp x z \<le> 0) \<longrightarrow>
     sorted_wrt (\<lambda>x y. cmp x y \<le> 0) (take n (drop a (st_sort cmp a n xs))))"
proof -
  let ?ys = "st_sort cmp a n xs"
  have r: "rearranged a (a + n) xs ?ys" by (rule st_sort_rearranged [OF n])
  have ends: "take a ?ys = take a xs" "drop (a + n) ?ys = drop (a + n) xs"
    using r n by (auto simp: rearranged_def intro!: nth_equalityI)
  have cut: "mset zs = mset (take a zs) + (mset (take n (drop a zs)) + mset (drop (a + n) zs))" for zs :: "'a list"
  proof -
    have "zs = take a zs @ take n (drop a zs) @ drop n (drop a zs)" by (metis append_take_drop_id)
    then show ?thesis by (metis add.commute drop_drop mset_append)
  qed
  have "mset (take n (drop a ?ys)) = mset (take n (drop a xs))"
    using cut [of xs] cut [of ?ys] ends r by (simp add: rearranged_def)
  moreover have "sorted_wrt (\<lambda>x y. cmp x y \<le> 0) (take n (drop a ?ys))"
    if "\<forall>x y. cmp x y < 0 \<longleftrightarrow> 0 < cmp y x" "\<forall>x y z. cmp x y \<le> 0 \<and> cmp y z \<le> 0 \<longrightarrow> cmp x z \<le> 0"
  proof -
    have "comparator cmp" using that by unfold_locales blast+
    then have "range_sorted cmp a (a + n) ?ys" by (rule comparator.st_sort_sorted [OF _ n])
    then show ?thesis using r n by (auto simp: sorted_wrt_iff_nth_less range_sorted_def rearranged_length)
  qed
  ultimately show ?thesis using ends sort_stack_logarithmic by blast
qed

theorem sort_template_sorts_witness:
  "sorted_wrt (\<lambda>x y. x - y \<le> 0) (take 8 (drop 1 (st_sort (\<lambda>x y. x - y) 1 8 [9, 5, 3, 8, 1, 7, 2, 6, 4, 0 :: int])))"
  using sort_template_sorts [of 1 8 "[9, 5, 3, 8, 1, 7, 2, 6, 4, 0 :: int]" "\<lambda>x y. x - y"] by simp

section \<open>Sorting names\<close>

text \<open>\<open>strcmp\<close> is such a comparator, and equal only on equal strings: the exchange sort of the
  extension's listings computes what the server's sort computes.\<close>

interpretation by_name: comparator strcmp
proof
  show "strcmp s t < 0 \<longleftrightarrow> 0 < strcmp t s" for s t using strcmp_swap [of s t] by simp
qed (rule strcmp_trans)

theorem exchange_sort_is_server_sort:
  "exchange_sort names_ascending ns = st_sort strcmp 0 (length ns) ns"
proof (rule asc.exchange_sort_eq)
  have r: "rearranged 0 (length ns) ns (st_sort strcmp 0 (length ns) ns)"
    using st_sort_rearranged [of 0 "length ns" ns strcmp] by simp
  then show "mset ns = mset (st_sort strcmp 0 (length ns) ns)" by (simp add: rearranged_def)
  show "sorted_wrt (\<lambda>x y. \<not> names_ascending x y) (st_sort strcmp 0 (length ns) ns)"
    using by_name.st_sort_sorted [of 0 "length ns" ns] r
    by (auto simp: names_ascending_def sorted_wrt_iff_nth_less range_sorted_def rearranged_def not_less)
qed (rule names_ascending_total)

end
