(* ===== verification/Qunique.thy ===== *)
theory Qunique
  imports SortTemplate
begin

text \<open>
  Removing duplicates from a sorted array in place, \<open>lib/qunique.h\<close>, and what it gives together with the
  quicksort of the server.  \<open>qunique_arg\<close> has the same body; its argument is part of the comparator here.
\<close>

section \<open>Removing duplicates in place\<close>

function qunique_loop :: "('a \<Rightarrow> 'a \<Rightarrow> int) \<Rightarrow> nat \<Rightarrow> nat \<Rightarrow> nat \<Rightarrow> 'a list \<Rightarrow> nat \<times> 'a list" where
  "qunique_loop compare i j elements array =
     (if i < elements
      then
        if compare (array ! i) (array ! j) \<noteq> 0
        then
          let j = j + 1 in
          if j \<noteq> i then qunique_loop compare (i + 1) j elements (array[j := array ! i])
          else qunique_loop compare (i + 1) j elements array
        else qunique_loop compare (i + 1) j elements array
      else (j + 1, array))"
  by pat_completeness auto
termination
  by (relation "measure (\<lambda>(compare, i, j, elements, array). elements - i)") auto

declare qunique_loop.simps [simp del]

definition qunique :: "('a \<Rightarrow> 'a \<Rightarrow> int) \<Rightarrow> nat \<Rightarrow> 'a list \<Rightarrow> nat \<times> 'a list" where
  "qunique compare elements array =
     (if elements \<le> 1 then (elements, array) else qunique_loop compare 1 0 elements array)"

section \<open>The first of each run\<close>

text \<open>What is kept: an element that differs from the last one kept.\<close>

fun firsts :: "('a \<Rightarrow> 'a \<Rightarrow> int) \<Rightarrow> 'a \<Rightarrow> 'a list \<Rightarrow> 'a list" where
  "firsts compare l [] = []"
| "firsts compare l (x # xs) = (if compare x l \<noteq> 0 then x # firsts compare x xs else firsts compare l xs)"

text \<open>Behind the first \<open>j\<close> places the array is as it was when the loop reads it, so nothing that is still to
  be read is overwritten.\<close>

lemma qunique_loop:
  assumes "j < i" "i \<le> n" "n \<le> length xs"
  shows "\<exists>m ys. qunique_loop cmp i j n xs = (m, ys) \<and> m \<le> n \<and> length ys = length xs \<and> drop n ys = drop n xs \<and>
    take m ys = take (j + 1) xs @ firsts cmp (xs ! j) (drop i (take n xs))"
  using assms
proof (induction "n - i" arbitrary: i j xs)
  case 0
  then show ?case by (subst qunique_loop.simps) simp
next
  case (Suc d)
  have i: "i < n" "d = n - (i + 1)" using Suc.hyps(2) by simp_all
  have rest: "drop i (take n xs) = xs ! i # drop (i + 1) (take n xs)"
    using i(1) Suc.prems(3) by (simp add: Cons_nth_drop_Suc [symmetric])
  show ?case
  proof (cases "cmp (xs ! i) (xs ! j) \<noteq> 0")
    case True
    define zs where "zs = (if j + 1 \<noteq> i then xs[j + 1 := xs ! i] else xs)"
    have z: "zs = xs[j + 1 := xs ! i]" using i(1) Suc.prems by (auto simp: zs_def)
    have l: "length zs = length xs" by (simp add: z)
    have t: "take (Suc (j + 1)) zs = take (j + 1) xs @ [xs ! i]"
      unfolding z using i(1) Suc.prems by (subst take_Suc_conv_app_nth) auto
    have rest': "drop (i + 1) (take n zs) = drop (i + 1) (take n xs)" "zs ! (j + 1) = xs ! i" "drop n zs = drop n xs"
      unfolding z using i(1) Suc.prems by (auto simp: take_update_swap)
    have "\<exists>m ys. qunique_loop cmp (i + 1) (j + 1) n zs = (m, ys) \<and> m \<le> n \<and> length ys = length zs \<and> drop n ys = drop n zs \<and>
        take m ys = take (j + 1 + 1) zs @ firsts cmp (zs ! (j + 1)) (drop (i + 1) (take n zs))"
      by (rule Suc.hyps(1) [OF i(2)]) (use i(1) Suc.prems l in simp_all)
    moreover have "qunique_loop cmp i j n xs = qunique_loop cmp (i + 1) (j + 1) n zs"
      unfolding zs_def using True i(1) by (subst qunique_loop.simps) (simp add: Let_def)
    ultimately show ?thesis using True rest rest' t l by auto
  next
    case False
    then show ?thesis using Suc.hyps(1) [OF i(2), of j xs] i(1) Suc.prems rest
      by (subst qunique_loop.simps) auto
  qed
qed

lemma qunique_firsts:
  assumes "n \<le> length xs" "0 < n"
  shows "\<exists>m ys. qunique cmp n xs = (m, ys) \<and> m \<le> n \<and> length ys = length xs \<and> drop n ys = drop n xs \<and>
    take m ys = xs ! 0 # firsts cmp (xs ! 0) (drop 1 (take n xs))"
proof (cases "n = 1")
  case True
  then show ?thesis using assms by (cases xs) (auto simp: qunique_def)
next
  case False
  have "take 1 xs = [xs ! 0]" using assms by (cases xs) simp_all
  with False show ?thesis using qunique_loop [of 0 1 n xs cmp] assms by (auto simp: qunique_def)
qed

lemma firsts_subset: "set (firsts cmp l xs) \<subseteq> set xs"
  by (induction cmp l xs rule: firsts.induct) auto

context comparator
begin

lemma firsts_strict:
  "sorted_wrt (\<lambda>x y. cmp x y \<le> 0) (l # xs) \<Longrightarrow> sorted_wrt (\<lambda>x y. cmp x y < 0) (l # firsts cmp l xs)"
proof (induction xs arbitrary: l)
  case (Cons x xs)
  show ?case
  proof (cases "cmp x l \<noteq> 0")
    case True
    then have lx: "cmp l x < 0" using Cons.prems cmp_swap [of l x] cmp_swap [of x l] by force
    have ih: "sorted_wrt (\<lambda>x y. cmp x y < 0) (x # firsts cmp x xs)" using Cons.IH [of x] Cons.prems by simp
    have "cmp l y < 0" if "y \<in> set (firsts cmp x xs)" for y
    proof -
      have "cmp x y < 0" using ih that by simp
      then have "cmp y x > 0" using cmp_swap by blast
      then show ?thesis using lx cmp_swap [of y l] cmp_swap [of l y] cmp_trans [of y l x] by force
    qed
    with ih lx True show ?thesis by simp
  next
    case False
    then show ?thesis using Cons by simp
  qed
qed simp

lemma firsts_cover: "x \<in> set xs \<Longrightarrow> \<exists>y\<in>set (l # firsts cmp l xs). cmp x y = 0"
proof (induction xs arbitrary: l)
  case (Cons z xs)
  show ?case
  proof (cases "x = z")
    case True
    then show ?thesis using cmp_refl by (cases "cmp z l = 0") auto
  next
    case False
    then have "x \<in> set xs" using Cons.prems by simp
    then show ?thesis using Cons.IH [of l] Cons.IH [of z] by (cases "cmp z l = 0") auto
  qed
qed simp

end

text \<open>Sorting and then removing duplicates leaves each value once, in ascending order, at the start of an
  array that keeps its length.\<close>

theorem sort_then_qunique:
  assumes "\<forall>x y. cmp x y < 0 \<longleftrightarrow> 0 < cmp y x" "\<forall>x y z. cmp x y \<le> 0 \<and> cmp y z \<le> 0 \<longrightarrow> cmp x z \<le> 0"
    and same: "\<forall>x y. cmp x y = 0 \<longrightarrow> x = y"
  shows "let (m, ys) = qunique cmp (length xs) (st_sort cmp 0 (length xs) xs) in
    sorted_wrt (\<lambda>x y. cmp x y < 0) (take m ys) \<and> set (take m ys) = set xs \<and> m = card (set xs) \<and> length ys = length xs"
proof (cases "xs = []")
  case True
  then have "st_sort cmp 0 (length xs) xs = []"
    using st_sort_rearranged [of 0 "length xs" xs cmp] by (simp add: rearranged_def)
  then show ?thesis using True by (simp add: qunique_def)
next
  case False
  have c: "comparator cmp" using assms(1,2) by unfold_locales blast+
  let ?s = "st_sort cmp 0 (length xs) xs"
  have r: "rearranged 0 (length xs) xs ?s" using st_sort_rearranged [of 0 "length xs" xs cmp] by simp
  then have len: "length ?s = length xs" and ms: "mset ?s = mset xs" by (simp_all add: rearranged_def)
  have sorted: "sorted_wrt (\<lambda>x y. cmp x y \<le> 0) ?s"
    using comparator.st_sort_sorted [OF c, of 0 "length xs" xs] len
    by (simp add: sorted_wrt_iff_nth_less range_sorted_def)
  have s: "?s = ?s ! 0 # drop 1 ?s" using False len by (cases ?s) simp_all
  obtain m ys where q: "qunique cmp (length xs) ?s = (m, ys)" "m \<le> length xs" "length ys = length xs"
    "take m ys = ?s ! 0 # firsts cmp (?s ! 0) (drop 1 ?s)"
    using qunique_firsts [of "length xs" ?s cmp] False len by auto
  have strict: "sorted_wrt (\<lambda>x y. cmp x y < 0) (take m ys)"
    unfolding q(4) by (rule comparator.firsts_strict [OF c]) (use sorted s in simp)
  have "set (take m ys) = set ?s"
  proof
    show "set (take m ys) \<subseteq> set ?s" unfolding q(4) using firsts_subset [of cmp "?s ! 0" "drop 1 ?s"] s by (metis insert_mono list.simps(15))
    show "set ?s \<subseteq> set (take m ys)"
    proof
      fix x assume "x \<in> set ?s"
      then consider "x = ?s ! 0" | "x \<in> set (drop 1 ?s)" using s by (metis set_ConsD)
      then show "x \<in> set (take m ys)"
      proof cases
        case 2
        then show ?thesis unfolding q(4) using comparator.firsts_cover [OF c 2] same by metis
      qed (simp add: q(4))
    qed
  qed
  also have "set ?s = set xs" using ms by (metis set_mset_mset)
  finally have set: "set (take m ys) = set xs" .
  have "distinct (take m ys)"
    using strict comparator.cmp_refl [OF c] by (auto simp: sorted_wrt_iff_nth_less distinct_conv_nth) (metis less_irrefl linorder_neqE_nat)
  then have "m = card (set xs)" using set q(2,3) by (metis distinct_card length_take min.absorb2)
  then show ?thesis using q(1,3) strict set by simp
qed

end
