(* ===== verification/SimpleHash.thy ===== *)
theory SimpleHash
  imports BitUtils "HOL-Library.Monad_Syntax" "HOL-Library.Multiset"
begin

text \<open>\<open>lib/simplehash.h\<close>, the template from which the server makes its hash tables: open addressing in a
  power of two of buckets, where an insertion displaces an element that is nearer to its home bucket than
  the new one would be (``Robin Hood'').  The parameters of the template (comparison, hash function, whether
  the hash is stored, the size of an element, the element that \<open>memset(0)\<close> gives) are the record
  \<open>sh_template\<close>.  A bucket is an index into \<open>sh_data\<close>; a pointer to an element is the index of its bucket.

  The fill factors 0.9, 0.98 and 0.1 of the code are compared and multiplied as doubles; sizes are powers
  of two up to \<open>2 ^ 32\<close> and counts are below that, where the rational comparisons and the truncated
  quotients written here give the same results.  Loops that end only because a bucket is empty are partial
  functions into \<open>option\<close>; that they return is proved for every table that satisfies the invariant.
  Not modelled: the memory context (allocation and \<open>SH_DESTROY\<close>, which only frees), and \<open>SH_STAT\<close>,
  which only reports.

  The invariant \<open>sh_ok\<close> says that the table has \<open>2 ^ k\<close> buckets, that each element is at most one bucket
  further from its home than the element before it (\<open>robin\<close>), that there is at most one element per key,
  and that the count is right and below the threshold, so that there is an empty bucket.  The locale
  \<open>sh_keys\<close> is what a template's comparison and hash function promise; under it a lookup finds the
  element if there is one (\<open>lookup_finds\<close>).\<close>

unbundle bit_operations_syntax

section \<open>Types\<close>

datatype SH_STATUS = SH_EMPTY | SH_IN_USE

record ('k, 'v) SH_ELEMENT_TYPE =
  el_status :: SH_STATUS
  el_key :: 'k
  el_hash :: u32
  el_value :: 'v

record ('k, 'v) SH_TYPE =
  sh_size :: u64
  sh_members :: u32
  sh_sizemask :: u32
  sh_grow_threshold :: u32
  sh_data :: "('k, 'v) SH_ELEMENT_TYPE list"

record SH_ITERATOR =
  it_cur :: u32
  it_end :: u32
  it_done :: bool

text \<open>The parameters of the template.\<close>

record ('k, 'v) sh_template =
  SH_EQUAL :: "'k \<Rightarrow> 'k \<Rightarrow> bool"
  SH_HASH_KEY :: "'k \<Rightarrow> u32"
  SH_STORE_HASH :: bool
  SH_SIZEOF :: u64
  SH_ZEROED :: "('k, 'v) SH_ELEMENT_TYPE"

datatype sh_error = HashTableTooLarge | HashTableSizeExceeded

definition SH_MAX_SIZE :: u64 where
  "SH_MAX_SIZE = 0xFFFFFFFF + 1"

definition SH_GROW_MAX_DIB :: u32 where
  "SH_GROW_MAX_DIB = 25"

definition SH_GROW_MAX_MOVE :: i32 where
  "SH_GROW_MAX_MOVE = 150"

definition SH_COMPARE_KEYS ::
    "('k, 'v) sh_template \<Rightarrow> u32 \<Rightarrow> 'k \<Rightarrow> ('k, 'v) SH_ELEMENT_TYPE \<Rightarrow> bool" where
  "SH_COMPARE_KEYS T ahash akey b \<longleftrightarrow>
     (if SH_STORE_HASH T then ahash = el_hash b \<and> SH_EQUAL T (el_key b) akey else SH_EQUAL T (el_key b) akey)"

section \<open>Sizes and buckets\<close>

text \<open>\<open>0.98\<close> and \<open>0.9\<close> of the size, cut off to an integer.\<close>

definition SH_COMPUTE_PARAMETERS ::
    "('k, 'v) sh_template \<Rightarrow> ('k, 'v) SH_TYPE \<Rightarrow> u64 \<Rightarrow> sh_error + ('k, 'v) SH_TYPE" where
  "SH_COMPUTE_PARAMETERS T tb newsize =
     (let size = pg_nextpower2_64 BuiltinBits (max newsize 2) in
      if SH_SIZEOF T * size \<ge> 0xFFFFFFFFFFFFFFFF div 2 then Inl HashTableTooLarge
      else Inr (tb\<lparr>sh_size := size, sh_sizemask := ucast (size - 1),
        sh_grow_threshold :=
          (if size = SH_MAX_SIZE then word_of_nat (98 * unat size div 100)
           else word_of_nat (9 * unat size div 10))\<rparr>))"

definition SH_INITIAL_BUCKET :: "('k, 'v) SH_TYPE \<Rightarrow> u32 \<Rightarrow> u32" where
  "SH_INITIAL_BUCKET tb hash = hash AND sh_sizemask tb"

definition SH_NEXT :: "('k, 'v) SH_TYPE \<Rightarrow> u32 \<Rightarrow> u32" where
  "SH_NEXT tb curelem = (curelem + 1) AND sh_sizemask tb"

definition SH_PREV :: "('k, 'v) SH_TYPE \<Rightarrow> u32 \<Rightarrow> u32" where
  "SH_PREV tb curelem = (curelem - 1) AND sh_sizemask tb"

definition SH_DISTANCE_FROM_OPTIMAL :: "('k, 'v) SH_TYPE \<Rightarrow> u32 \<Rightarrow> u32 \<Rightarrow> u32" where
  "SH_DISTANCE_FROM_OPTIMAL tb optimal bucket =
     (if optimal \<le> bucket then bucket - optimal else ucast (sh_size tb + ucast bucket - ucast optimal))"

definition SH_ENTRY_HASH :: "('k, 'v) sh_template \<Rightarrow> ('k, 'v) SH_ELEMENT_TYPE \<Rightarrow> u32" where
  "SH_ENTRY_HASH T entry = (if SH_STORE_HASH T then el_hash entry else SH_HASH_KEY T (el_key entry))"

section \<open>Creation and growth\<close>

definition SH_CREATE :: "('k, 'v) sh_template \<Rightarrow> u32 \<Rightarrow> sh_error + ('k, 'v) SH_TYPE" where
  "SH_CREATE T nelements =
     (let size = min SH_MAX_SIZE (word_of_nat (10 * unat nelements div 9));
          tb = \<lparr>sh_size = 0, sh_members = 0, sh_sizemask = 0, sh_grow_threshold = 0, sh_data = []\<rparr>
      in case SH_COMPUTE_PARAMETERS T tb size of
           Inl e \<Rightarrow> Inl e
         | Inr tb \<Rightarrow> Inr (tb\<lparr>sh_data := replicate (unat (sh_size tb)) (SH_ZEROED T)\<rparr>))"

definition SH_RESET :: "('k, 'v) sh_template \<Rightarrow> ('k, 'v) SH_TYPE \<Rightarrow> ('k, 'v) SH_TYPE" where
  "SH_RESET T tb = tb\<lparr>sh_data := replicate (unat (sh_size tb)) (SH_ZEROED T), sh_members := 0\<rparr>"

text \<open>\<open>SH_GROW\<close>: where the copy starts, the slot of one element, and the loop.  The table already has
  its new parameters.\<close>

function grow_start ::
    "('k, 'v) sh_template \<Rightarrow> ('k, 'v) SH_TYPE \<Rightarrow> ('k, 'v) SH_ELEMENT_TYPE list \<Rightarrow> nat \<Rightarrow> nat \<Rightarrow> nat" where
  "grow_start T tb olddata oldsize i =
     (if i < oldsize
      then if el_status (olddata ! i) \<noteq> SH_IN_USE then i
           else if unat (SH_INITIAL_BUCKET tb (SH_ENTRY_HASH T (olddata ! i))) = i then i
           else grow_start T tb olddata oldsize (i + 1)
      else 0)"
  by pat_completeness auto
termination
  by (relation "measure (\<lambda>(T, tb, olddata, oldsize, i). oldsize - i)") auto

partial_function (option) grow_slot :: "('k, 'v) SH_TYPE \<Rightarrow> u32 \<Rightarrow> u32 option" where
  "grow_slot tb curelem =
     (if el_status (sh_data tb ! unat curelem) = SH_EMPTY then Some curelem
      else grow_slot tb (SH_NEXT tb curelem))"

definition grow_copy ::
    "('k, 'v) sh_template \<Rightarrow> ('k, 'v) SH_ELEMENT_TYPE \<Rightarrow> ('k, 'v) SH_TYPE \<Rightarrow> ('k, 'v) SH_TYPE option" where
  "grow_copy T oldentry tb =
     (if el_status oldentry = SH_IN_USE
      then do { curelem \<leftarrow> grow_slot tb (SH_INITIAL_BUCKET tb (SH_ENTRY_HASH T oldentry));
                Some (tb\<lparr>sh_data := (sh_data tb)[unat curelem := oldentry]\<rparr>) }
      else Some tb)"

function grow_loop ::
    "('k, 'v) sh_template \<Rightarrow> ('k, 'v) SH_ELEMENT_TYPE list \<Rightarrow> nat \<Rightarrow> nat \<Rightarrow> nat \<Rightarrow> ('k, 'v) SH_TYPE \<Rightarrow>
       ('k, 'v) SH_TYPE option" where
  "grow_loop T olddata oldsize i copyelem tb =
     (if i < oldsize
      then do { tb \<leftarrow> grow_copy T (olddata ! copyelem) tb;
                grow_loop T olddata oldsize (i + 1)
                  (if copyelem + 1 \<ge> oldsize then 0 else copyelem + 1) tb }
      else Some tb)"
  by pat_completeness auto
termination
  by (relation "measure (\<lambda>(T, olddata, oldsize, i, copyelem, tb). oldsize - i)") auto

declare grow_start.simps [simp del] grow_slot.simps [simp del] grow_loop.simps [simp del]

definition SH_GROW ::
    "('k, 'v) sh_template \<Rightarrow> ('k, 'v) SH_TYPE \<Rightarrow> u64 \<Rightarrow> (sh_error + ('k, 'v) SH_TYPE) option" where
  "SH_GROW T tb newsize =
     (let oldsize = unat (sh_size tb); olddata = sh_data tb in
      case SH_COMPUTE_PARAMETERS T tb newsize of
        Inl e \<Rightarrow> Some (Inl e)
      | Inr tb \<Rightarrow>
          let tb = tb\<lparr>sh_data := replicate (unat (sh_size tb)) (SH_ZEROED T)\<rparr> in
          do { tb \<leftarrow> grow_loop T olddata oldsize 0 (grow_start T tb olddata oldsize 0) tb; Some (Inr tb) })"

section \<open>Insertion\<close>

text \<open>The search for the next empty bucket, which may ask for a larger table (\<open>None\<close>).\<close>

definition sh_full_enough :: "('k, 'v) SH_TYPE \<Rightarrow> bool" where
  "sh_full_enough tb \<longleftrightarrow> unat (sh_size tb) \<le> 10 * unat (sh_members tb)"

partial_function (option) find_empty :: "('k, 'v) SH_TYPE \<Rightarrow> u32 \<Rightarrow> i32 \<Rightarrow> u32 option option" where
  "find_empty tb emptyelem emptydist =
     (let emptyelem = SH_NEXT tb emptyelem in
      if el_status (sh_data tb ! unat emptyelem) = SH_EMPTY then Some (Some emptyelem)
      else let emptydist = emptydist + 1 in
        if SH_GROW_MAX_MOVE <s emptydist \<and> sh_full_enough tb then Some None
        else find_empty tb emptyelem emptydist)"

partial_function (option) shift_forward ::
    "('k, 'v) SH_TYPE \<Rightarrow> u32 \<Rightarrow> u32 \<Rightarrow> u32 \<Rightarrow> ('k, 'v) SH_TYPE option" where
  "shift_forward tb curelem moveelem lastelem =
     (if moveelem \<noteq> curelem
      then let moveelem = SH_PREV tb moveelem in
        shift_forward (tb\<lparr>sh_data := (sh_data tb)[unat lastelem := sh_data tb ! unat moveelem]\<rparr>)
          curelem moveelem moveelem
      else Some tb)"

text \<open>\<open>entry->SH_KEY = key\<close> and the stores around it: the other fields of the element keep what the
  memory held.\<close>

definition fill_entry ::
    "('k, 'v) sh_template \<Rightarrow> 'k \<Rightarrow> u32 \<Rightarrow> u32 \<Rightarrow> ('k, 'v) SH_TYPE \<Rightarrow> ('k, 'v) SH_TYPE" where
  "fill_entry T key hash curelem tb =
     (let entry = sh_data tb ! unat curelem;
          entry = entry\<lparr>el_key := key\<rparr>;
          entry = (if SH_STORE_HASH T then entry\<lparr>el_hash := hash\<rparr> else entry);
          entry = entry\<lparr>el_status := SH_IN_USE\<rparr>
      in tb\<lparr>sh_members := sh_members tb + 1, sh_data := (sh_data tb)[unat curelem := entry]\<rparr>)"

datatype sh_insertion = Restart | Entry u32 bool

partial_function (option) insert_loop ::
    "('k, 'v) sh_template \<Rightarrow> 'k \<Rightarrow> u32 \<Rightarrow> u32 \<Rightarrow> u32 \<Rightarrow> ('k, 'v) SH_TYPE \<Rightarrow>
       (sh_insertion \<times> ('k, 'v) SH_TYPE) option" where
  "insert_loop T key hash curelem insertdist tb =
     (let entry = sh_data tb ! unat curelem in
      if el_status entry = SH_EMPTY then Some (Entry curelem False, fill_entry T key hash curelem tb)
      else if SH_COMPARE_KEYS T hash key entry then Some (Entry curelem True, tb)
      else
        let curdist = SH_DISTANCE_FROM_OPTIMAL tb (SH_INITIAL_BUCKET tb (SH_ENTRY_HASH T entry)) curelem in
        if insertdist > curdist
        then do {
          slot \<leftarrow> find_empty tb curelem 0;
          (case slot of
             None \<Rightarrow> Some (Restart, tb)
           | Some emptyelem \<Rightarrow> do {
               tb \<leftarrow> shift_forward tb curelem emptyelem emptyelem;
               Some (Entry curelem False, fill_entry T key hash curelem tb) }) }
        else
          let curelem = SH_NEXT tb curelem; insertdist = insertdist + 1 in
          if insertdist > SH_GROW_MAX_DIB \<and> sh_full_enough tb then Some (Restart, tb)
          else insert_loop T key hash curelem insertdist tb)"

partial_function (option) SH_INSERT_HASH_INTERNAL ::
    "('k, 'v) sh_template \<Rightarrow> 'k \<Rightarrow> u32 \<Rightarrow> ('k, 'v) SH_TYPE \<Rightarrow>
       ((sh_error + u32 \<times> bool) \<times> ('k, 'v) SH_TYPE) option" where
  "SH_INSERT_HASH_INTERNAL T key hash tb = do {
     grown \<leftarrow> (if sh_members tb \<ge> sh_grow_threshold tb
        then if sh_size tb = SH_MAX_SIZE then Some (Inl HashTableSizeExceeded)
             else SH_GROW T tb (sh_size tb * 2)
        else Some (Inr tb));
     (case grown of
        Inl e \<Rightarrow> Some (Inl e, tb)
      | Inr tb \<Rightarrow> do {
          (r, tb) \<leftarrow> insert_loop T key hash (SH_INITIAL_BUCKET tb hash) 0 tb;
          (case r of
             Restart \<Rightarrow> SH_INSERT_HASH_INTERNAL T key hash (tb\<lparr>sh_grow_threshold := 0\<rparr>)
           | Entry i found \<Rightarrow> Some (Inr (i, found), tb)) }) }"

definition SH_INSERT ::
    "('k, 'v) sh_template \<Rightarrow> 'k \<Rightarrow> ('k, 'v) SH_TYPE \<Rightarrow> ((sh_error + u32 \<times> bool) \<times> ('k, 'v) SH_TYPE) option" where
  "SH_INSERT T key tb = SH_INSERT_HASH_INTERNAL T key (SH_HASH_KEY T key) tb"

definition SH_INSERT_HASH ::
    "('k, 'v) sh_template \<Rightarrow> 'k \<Rightarrow> u32 \<Rightarrow> ('k, 'v) SH_TYPE \<Rightarrow> ((sh_error + u32 \<times> bool) \<times> ('k, 'v) SH_TYPE) option" where
  "SH_INSERT_HASH T key hash tb = SH_INSERT_HASH_INTERNAL T key hash tb"

section \<open>Lookup\<close>

partial_function (option) lookup_loop ::
    "('k, 'v) sh_template \<Rightarrow> ('k, 'v) SH_TYPE \<Rightarrow> 'k \<Rightarrow> u32 \<Rightarrow> u32 \<Rightarrow> u32 option option" where
  "lookup_loop T tb key hash curelem =
     (let entry = sh_data tb ! unat curelem in
      if el_status entry = SH_EMPTY then Some None
      else if SH_COMPARE_KEYS T hash key entry then Some (Some curelem)
      else lookup_loop T tb key hash (SH_NEXT tb curelem))"

definition SH_LOOKUP_HASH_INTERNAL ::
    "('k, 'v) sh_template \<Rightarrow> ('k, 'v) SH_TYPE \<Rightarrow> 'k \<Rightarrow> u32 \<Rightarrow> u32 option option" where
  "SH_LOOKUP_HASH_INTERNAL T tb key hash = lookup_loop T tb key hash (SH_INITIAL_BUCKET tb hash)"

definition SH_LOOKUP :: "('k, 'v) sh_template \<Rightarrow> ('k, 'v) SH_TYPE \<Rightarrow> 'k \<Rightarrow> u32 option option" where
  "SH_LOOKUP T tb key = SH_LOOKUP_HASH_INTERNAL T tb key (SH_HASH_KEY T key)"

definition SH_LOOKUP_HASH :: "('k, 'v) sh_template \<Rightarrow> ('k, 'v) SH_TYPE \<Rightarrow> 'k \<Rightarrow> u32 \<Rightarrow> u32 option option" where
  "SH_LOOKUP_HASH T tb key hash = SH_LOOKUP_HASH_INTERNAL T tb key hash"

section \<open>Deletion\<close>

partial_function (option) shift_back ::
    "('k, 'v) sh_template \<Rightarrow> u32 \<Rightarrow> ('k, 'v) SH_TYPE \<Rightarrow> ('k, 'v) SH_TYPE option" where
  "shift_back T lastelem tb =
     (let curelem = SH_NEXT tb lastelem; curentry = sh_data tb ! unat curelem in
      if el_status curentry \<noteq> SH_IN_USE \<or> SH_INITIAL_BUCKET tb (SH_ENTRY_HASH T curentry) = curelem
      then Some (tb\<lparr>sh_data := (sh_data tb)[unat lastelem := (sh_data tb ! unat lastelem)\<lparr>el_status := SH_EMPTY\<rparr>]\<rparr>)
      else shift_back T curelem (tb\<lparr>sh_data := (sh_data tb)[unat lastelem := curentry]\<rparr>))"

partial_function (option) delete_loop ::
    "('k, 'v) sh_template \<Rightarrow> 'k \<Rightarrow> u32 \<Rightarrow> u32 \<Rightarrow> ('k, 'v) SH_TYPE \<Rightarrow> (bool \<times> ('k, 'v) SH_TYPE) option" where
  "delete_loop T key hash curelem tb =
     (let entry = sh_data tb ! unat curelem in
      if el_status entry = SH_EMPTY then Some (False, tb)
      else if el_status entry = SH_IN_USE \<and> SH_COMPARE_KEYS T hash key entry
      then do { tb \<leftarrow> shift_back T curelem (tb\<lparr>sh_members := sh_members tb - 1\<rparr>); Some (True, tb) }
      else delete_loop T key hash (SH_NEXT tb curelem) tb)"

definition SH_DELETE ::
    "('k, 'v) sh_template \<Rightarrow> 'k \<Rightarrow> ('k, 'v) SH_TYPE \<Rightarrow> (bool \<times> ('k, 'v) SH_TYPE) option" where
  "SH_DELETE T key tb =
     (let hash = SH_HASH_KEY T key in delete_loop T key hash (SH_INITIAL_BUCKET tb hash) tb)"

definition SH_DELETE_ITEM ::
    "('k, 'v) sh_template \<Rightarrow> u32 \<Rightarrow> ('k, 'v) SH_TYPE \<Rightarrow> ('k, 'v) SH_TYPE option" where
  "SH_DELETE_ITEM T entry tb = shift_back T entry (tb\<lparr>sh_members := sh_members tb - 1\<rparr>)"

section \<open>Iteration\<close>

function first_empty :: "('k, 'v) SH_TYPE \<Rightarrow> nat \<Rightarrow> u64" where
  "first_empty tb i =
     (if i < unat (sh_size tb)
      then if el_status (sh_data tb ! i) \<noteq> SH_IN_USE then word_of_nat i else first_empty tb (i + 1)
      else 0xFFFFFFFFFFFFFFFF)"
  by pat_completeness auto
termination
  by (relation "measure (\<lambda>(tb, i). unat (sh_size tb) - i)") auto

declare first_empty.simps [simp del]

definition SH_START_ITERATE :: "('k, 'v) SH_TYPE \<Rightarrow> SH_ITERATOR" where
  "SH_START_ITERATE tb =
     (let startelem = ucast (first_empty tb 0) in \<lparr>it_cur = startelem, it_end = startelem, it_done = False\<rparr>)"

definition SH_START_ITERATE_AT :: "('k, 'v) SH_TYPE \<Rightarrow> u32 \<Rightarrow> SH_ITERATOR" where
  "SH_START_ITERATE_AT tb at =
     (let cur = at AND sh_sizemask tb in \<lparr>it_cur = cur, it_end = cur, it_done = False\<rparr>)"

partial_function (option) SH_ITERATE :: "('k, 'v) SH_TYPE \<Rightarrow> SH_ITERATOR \<Rightarrow> (u32 option \<times> SH_ITERATOR) option" where
  "SH_ITERATE tb iter =
     (if it_done iter then Some (None, iter)
      else
        let elem = it_cur iter;
            iter = iter\<lparr>it_cur := (it_cur iter - 1) AND sh_sizemask tb\<rparr>;
            iter = (if it_cur iter AND sh_sizemask tb = it_end iter AND sh_sizemask tb
                    then iter\<lparr>it_done := True\<rparr> else iter)
        in if el_status (sh_data tb ! unat elem) = SH_IN_USE then Some (Some elem, iter)
           else SH_ITERATE tb iter)"

section \<open>The ring of buckets\<close>

text \<open>A table with \<open>2 ^ k\<close> buckets.\<close>

definition sh_shape :: "('k, 'v) SH_TYPE \<Rightarrow> nat \<Rightarrow> bool" where
  "sh_shape tb k \<longleftrightarrow> 1 \<le> k \<and> k \<le> 32 \<and> unat (sh_size tb) = 2 ^ k \<and> sh_sizemask tb = mask k \<and>
     length (sh_data tb) = 2 ^ k"

definition used :: "('k, 'v) SH_ELEMENT_TYPE \<Rightarrow> bool" where
  "used x \<longleftrightarrow> el_status x = SH_IN_USE"

lemma not_used: "\<not> used x \<longleftrightarrow> el_status x = SH_EMPTY"
  by (cases "el_status x") (simp_all add: used_def)

lemma unat_and_mask: "k \<le> 32 \<Longrightarrow> unat ((w :: u32) AND mask k) = unat w mod 2 ^ k"
  by (simp only: take_bit_eq_mask [symmetric] unsigned_take_bit_eq) (simp add: take_bit_eq_mod)

lemma power_dvd_32: "k \<le> 32 \<Longrightarrow> (2 :: nat) ^ k dvd 4294967296"
  using le_imp_power_dvd [of k 32 "2 :: nat"] by simp

lemma power_le_32: "k \<le> 32 \<Longrightarrow> (2 :: nat) ^ k \<le> 4294967296"
  using power_increasing [of k 32 "2 :: nat"] by simp

lemma SH_NEXT_nat: "sh_shape tb k \<Longrightarrow> unat (SH_NEXT tb c) = (unat c + 1) mod 2 ^ k"
  using power_dvd_32 [of k]
  by (simp add: SH_NEXT_def sh_shape_def unat_and_mask unat_word_ariths mod_mod_cancel)

lemma SH_PREV_nat:
  assumes "sh_shape tb k" shows "unat (SH_PREV tb c) = (unat c + 2 ^ k - 1) mod 2 ^ k"
proof -
  have d: "(2 :: nat) ^ k dvd 4294967296" "(1 :: nat) \<le> 2 ^ k" using power_dvd_32 assms by (auto simp: sh_shape_def)
  from d(1) obtain m where m: "(4294967296 :: nat) = 2 ^ k * m" by (rule dvdE)
  have "m \<noteq> 0" using m by (cases m) auto
  then obtain m' where m': "m = Suc m'" by (cases m) auto
  have "(unat c + 4294967295) mod 2 ^ k = (unat c + 2 ^ k - 1 + 2 ^ k * m') mod 2 ^ k"
  proof -
    have "2 ^ k + 2 ^ k * m' = (4294967296 :: nat)" using m unfolding m' by (simp only: mult_Suc_right)
    then show ?thesis using d(2) by (intro arg_cong [of _ _ "\<lambda>x. x mod _"]) linarith
  qed
  also have "\<dots> = (unat c + 2 ^ k - 1) mod 2 ^ k" by simp
  finally have e: "(unat c + 4294967295) mod 2 ^ k = (unat c + 2 ^ k - 1) mod 2 ^ k" .
  have "unat (c - 1) = (unat c + 4294967295) mod 4294967296"
  proof -
    have "c - 1 = c + (- 1)" by simp
    moreover have "unat (- 1 :: u32) = 4294967295"
      by (simp add: unsigned_minus_1_eq_mask mask_eq_exp_minus_1)
    ultimately show ?thesis by (simp only: unat_word_ariths) simp
  qed
  then show ?thesis using assms d(1) e
    by (simp add: SH_PREV_def sh_shape_def unat_and_mask mod_mod_cancel)
qed

lemma SH_INITIAL_BUCKET_nat: "sh_shape tb k \<Longrightarrow> unat (SH_INITIAL_BUCKET tb h) = unat h mod 2 ^ k"
  by (simp add: SH_INITIAL_BUCKET_def sh_shape_def unat_and_mask)

lemma SH_DISTANCE_nat:
  assumes "sh_shape tb k" "unat opt < 2 ^ k" "unat b < 2 ^ k"
  shows "unat (SH_DISTANCE_FROM_OPTIMAL tb opt b) = (unat b + 2 ^ k - unat opt) mod 2 ^ k"
proof (cases "opt \<le> b")
  case True
  then have le: "unat opt \<le> unat b" by (simp add: word_le_nat_alt)
  have "unat (b - opt) = unat b - unat opt" using True by (simp add: unat_sub)
  then have "unat (SH_DISTANCE_FROM_OPTIMAL tb opt b) = unat b - unat opt"
    using True by (simp add: SH_DISTANCE_FROM_OPTIMAL_def)
  moreover have "(unat b + 2 ^ k - unat opt) mod 2 ^ k = (unat b - unat opt) mod 2 ^ k"
    using le by (metis Nat.add_diff_assoc2 mod_add_self2)
  ultimately show ?thesis using assms(3) by simp
next
  case False
  then have lt: "unat b < unat opt" by (simp add: word_le_nat_alt)
  have k: "(2 :: nat) ^ k \<le> 4294967296" using assms(1) power_le_32 by (simp add: sh_shape_def)
  have ub: "unat (ucast b :: u64) = unat b" "unat (ucast opt :: u64) = unat opt"
    using unat_bound [of b] unat_bound [of opt] by (simp_all add: unsigned_ucast_eq take_bit_eq_mod)
  have "unat (sh_size tb + ucast b) = 2 ^ k + unat b"
    using assms k ub by (subst unat_add_lem [THEN iffD1]) (simp_all add: sh_shape_def)
  moreover from this have "unat (sh_size tb + ucast b - ucast opt) = 2 ^ k + unat b - unat opt"
    using ub assms(2) by (subst unat_sub) (simp_all add: word_le_nat_alt)
  moreover have "2 ^ k + unat b - unat opt < 2 ^ k" using lt assms(2) by linarith
  ultimately have "unat (ucast (sh_size tb + ucast b - ucast opt) :: u32) = 2 ^ k + unat b - unat opt"
    using k by (simp add: unsigned_ucast_eq take_bit_eq_mod)
  then show ?thesis using False lt assms(2) by (simp add: SH_DISTANCE_FROM_OPTIMAL_def add.commute)
qed

section \<open>Distances and the Robin Hood order\<close>

text \<open>On plain numbers: a ring of \<open>n\<close> buckets whose elements have the home buckets \<open>hm\<close>.\<close>

definition ring_dist :: "nat \<Rightarrow> (nat \<Rightarrow> nat) \<Rightarrow> nat \<Rightarrow> nat" where
  "ring_dist n hm q = (q + n - hm q) mod n"

text \<open>The order that the insertions keep: an element is at most one bucket further from its home than
  the element before it, and at home behind an empty bucket.\<close>

definition robin :: "nat \<Rightarrow> (nat \<Rightarrow> bool) \<Rightarrow> (nat \<Rightarrow> nat) \<Rightarrow> bool" where
  "robin n us d \<longleftrightarrow>
     (\<forall>q<n. us ((q + 1) mod n) \<longrightarrow> d ((q + 1) mod n) \<le> (if us q then d q + 1 else 0))"

lemma robinD: "robin n us d \<Longrightarrow> q < n \<Longrightarrow> us ((q + 1) mod n) \<Longrightarrow> d ((q + 1) mod n) \<le> (if us q then d q + 1 else 0)"
  by (simp add: robin_def)

lemma ring_dist_less: "n > 0 \<Longrightarrow> ring_dist n hm q < n"
  by (simp add: ring_dist_def)

lemma ring_back: "n > 0 \<Longrightarrow> q < n \<Longrightarrow> hm q < n \<Longrightarrow> (hm q + ring_dist n hm q) mod n = q"
proof -
  assume a: "n > 0" "q < n" "hm q < n"
  have "(hm q + ring_dist n hm q) mod n = (hm q + (q + n - hm q)) mod n"
    by (simp add: ring_dist_def mod_add_right_eq)
  also have "\<dots> = (q + n) mod n" using a by simp
  finally show ?thesis using a(2) by simp
qed

text \<open>From its home to an element all buckets are in use, by elements that are as far from home.\<close>

lemma robin_chain:
  assumes r: "robin n us d" and q: "q < n" "us q" and j: "j \<le> d q" "j < n"
  shows "us ((q + n - j) mod n) \<and> d q - j \<le> d ((q + n - j) mod n)"
  using j
proof (induction j)
  case 0
  then show ?case using q by simp
next
  case (Suc j)
  let ?p = "(q + n - Suc j) mod n"
  have p: "?p < n" "(?p + 1) mod n = (q + n - j) mod n"
    using Suc.prems(2) by (simp_all add: mod_Suc_eq Suc_diff_Suc)
  have "us ((q + n - j) mod n)" "d q - j \<le> d ((q + n - j) mod n)" using Suc by simp_all
  then show ?case using robinD [OF r p(1)] Suc.prems(1) unfolding p(2) by (auto split: if_splits)
qed

lemma robin_from_home:
  assumes r: "robin n us (ring_dist n hm)" and n: "n > 0" and q: "q < n" "us q" "hm q < n" and i: "i \<le> ring_dist n hm q"
  shows "us ((hm q + i) mod n) \<and> i \<le> ring_dist n hm ((hm q + i) mod n)"
proof -
  let ?d = "ring_dist n hm q"
  have d: "?d < n" by (rule ring_dist_less [OF n])
  have e: "(q + n - (?d - i)) mod n = (hm q + i) mod n"
  proof (cases "hm q + ?d < n")
    case True
    then have "q = hm q + ?d" using ring_back [of n q hm] n q by simp
    then have "q + n - (?d - i) = hm q + i + n" using i by linarith
    then show ?thesis by simp
  next
    case False
    then have "(hm q + ?d) mod n = hm q + ?d - n" using d q(3) by (simp add: mod_if)
    then have "q = hm q + ?d - n" using ring_back [of n q hm] n q by simp
    then have "q + n - (?d - i) = hm q + i" using i False by linarith
    then show ?thesis by simp
  qed
  have "?d - i \<le> ?d" "?d - i < n" using d by simp_all
  from robin_chain [OF r q(1,2) this, unfolded e] i show ?thesis by (simp only: diff_diff_cancel)
qed

text \<open>With an empty bucket in the ring, nothing is all the way round.\<close>

lemma robin_not_round:
  assumes "robin n us d" and "e < n" "\<not> us e" and "q < n" "us q"
  shows "d q < (q + n - e) mod n"
proof (rule ccontr)
  let ?j = "(q + n - e) mod n"
  assume "\<not> d q < ?j"
  moreover have "?j < n" using assms(2) by (intro mod_less_divisor) simp
  ultimately have "us ((q + n - ?j) mod n)" using robin_chain [OF assms(1,4,5), of ?j] by simp
  moreover have "(q + n - ?j) mod n = e"
  proof (cases "e \<le> q")
    case True
    then have "q + n - e = (q - e) + n" by simp
    then have "?j = (q - e + n) mod n" by (simp only:)
    also have "\<dots> = q - e" using assms(4) by (simp only: mod_add_self2) simp
    finally show ?thesis using True assms(2) by simp
  next
    case False
    then have "?j = q + n - e" using assms by simp
    then show ?thesis using False assms(2) by simp
  qed
  ultimately show False using assms(3) by simp
qed

text \<open>A probe: the first bucket from \<open>c\<close> on where a search stops.\<close>

lemma probe_exists:
  fixes c e n :: nat
  assumes "e < n" "stop e" "c < n"
  obtains m where "m < n" "stop ((c + m) mod n)" "\<And>i. i < m \<Longrightarrow> \<not> stop ((c + i) mod n)"
proof -
  let ?P = "\<lambda>m. stop ((c + m) mod n)"
  have "(c + (e + n - c) mod n) mod n = e" using assms by (simp add: mod_add_right_eq)
  then have p: "?P ((e + n - c) mod n)" using assms(2) by simp
  then have "(LEAST m. ?P m) \<le> (e + n - c) mod n" by (rule Least_le)
  moreover have "(e + n - c) mod n < n" using assms(1) by (intro mod_less_divisor) simp
  moreover have "?P (LEAST m. ?P m)" using p by (rule LeastI)
  ultimately have "(LEAST m. ?P m) < n" "?P (LEAST m. ?P m)" by linarith+
  then show thesis by (rule that) (rule not_less_Least)
qed

section \<open>Tables\<close>

definition sh_home :: "('k, 'v) sh_template \<Rightarrow> nat \<Rightarrow> ('k, 'v) SH_ELEMENT_TYPE \<Rightarrow> nat" where
  "sh_home T n x = unat (SH_ENTRY_HASH T x) mod n"

abbreviation sh_dist :: "('k, 'v) sh_template \<Rightarrow> ('k, 'v) SH_ELEMENT_TYPE list \<Rightarrow> nat \<Rightarrow> nat" where
  "sh_dist T xs \<equiv> ring_dist (length xs) (\<lambda>q. sh_home T (length xs) (xs ! q))"

abbreviation sh_robin :: "('k, 'v) sh_template \<Rightarrow> ('k, 'v) SH_ELEMENT_TYPE list \<Rightarrow> bool" where
  "sh_robin T xs \<equiv> robin (length xs) (\<lambda>q. used (xs ! q)) (sh_dist T xs)"

definition sh_entries :: "('k, 'v) SH_TYPE \<Rightarrow> ('k, 'v) SH_ELEMENT_TYPE multiset" where
  "sh_entries tb = mset (filter used (sh_data tb))"

lemma in_entries: "x \<in># sh_entries tb \<longleftrightarrow> (\<exists>q<length (sh_data tb). used (sh_data tb ! q) \<and> sh_data tb ! q = x)"
  by (auto simp: sh_entries_def in_set_conv_nth)

lemma entry_in: "q < length (sh_data tb) \<Longrightarrow> used (sh_data tb ! q) \<Longrightarrow> sh_data tb ! q \<in># sh_entries tb"
  by (auto simp: in_entries)

text \<open>The threshold that a size gets, and the invariant of a table.\<close>

definition sh_threshold :: "nat \<Rightarrow> nat" where
  "sh_threshold n = (if n = 2 ^ 32 then 98 * n div 100 else 9 * n div 10)"

definition sh_entries_ok :: "('k, 'v) sh_template \<Rightarrow> ('k, 'v) SH_ELEMENT_TYPE multiset \<Rightarrow> bool" where
  "sh_entries_ok T M \<longleftrightarrow>
     (\<forall>x\<in>#M. SH_STORE_HASH T \<longrightarrow> el_hash x = SH_HASH_KEY T (el_key x)) \<and>
     (\<forall>key. size {#x \<in># M. SH_EQUAL T (el_key x) key#} \<le> 1)"

definition sh_ok :: "('k, 'v) sh_template \<Rightarrow> nat \<Rightarrow> ('k, 'v) SH_TYPE \<Rightarrow> bool" where
  "sh_ok T k tb \<longleftrightarrow>
     sh_shape tb k \<and> sh_robin T (sh_data tb) \<and> sh_entries_ok T (sh_entries tb) \<and>
     unat (sh_members tb) = size (sh_entries tb) \<and> size (sh_entries tb) \<le> sh_threshold (2 ^ k) \<and>
     (unat (sh_grow_threshold tb) = sh_threshold (2 ^ k) \<or> sh_grow_threshold tb = 0)"

lemma sh_ok_length: "sh_ok T k tb \<Longrightarrow> length (sh_data tb) = 2 ^ k"
  by (simp add: sh_ok_def sh_shape_def)

lemma sh_threshold_less: "n > 0 \<Longrightarrow> sh_threshold n < n"
  by (auto simp: sh_threshold_def)

lemma empty_bucket:
  assumes "size (mset (filter used xs)) < length xs"
  obtains e where "e < length xs" "\<not> used (xs ! e)"
proof -
  have "\<not> list_all used xs" using assms by (metis filter_True list_all_iff size_mset less_irrefl)
  then show thesis using that by (auto simp: list_all_length)
qed

lemma sh_ok_empty:
  assumes "sh_ok T k tb"
  obtains e where "e < 2 ^ k" "\<not> used (sh_data tb ! e)"
  using assms sh_threshold_less [of "2 ^ k"]
  by (auto simp: sh_ok_def sh_shape_def sh_entries_def intro: empty_bucket [of "sh_data tb"])

text \<open>Buckets by number.\<close>

abbreviation bk :: "nat \<Rightarrow> u32" where
  "bk i \<equiv> word_of_nat i"

lemma unat_bk:
  assumes "sh_shape tb k" "i < 2 ^ k" shows "unat (bk i) = i"
  using assms power_le_32 [of k] by (simp add: sh_shape_def unat_of_nat)

lemma bk_unat [simp]: "bk (unat w) = w"
  by simp

lemma next_bk: "sh_shape tb k \<Longrightarrow> i < 2 ^ k \<Longrightarrow> SH_NEXT tb (bk i) = bk ((i + 1) mod 2 ^ k)"
  using SH_NEXT_nat [of tb k "bk i"] unat_bk [of tb k i] by (metis bk_unat)

lemma prev_bk: "sh_shape tb k \<Longrightarrow> i < 2 ^ k \<Longrightarrow> SH_PREV tb (bk i) = bk ((i + 2 ^ k - 1) mod 2 ^ k)"
  using SH_PREV_nat [of tb k "bk i"] unat_bk [of tb k i] by (metis bk_unat)

lemma initial_bk: "sh_shape tb k \<Longrightarrow> SH_INITIAL_BUCKET tb h = bk (unat h mod 2 ^ k)"
  using SH_INITIAL_BUCKET_nat [of tb k h] by (metis bk_unat)

lemma bk_inject: "sh_shape tb k \<Longrightarrow> i < 2 ^ k \<Longrightarrow> j < 2 ^ k \<Longrightarrow> bk i = bk j \<longleftrightarrow> i = j"
  by (metis unat_bk)

lemma distance_bk:
  assumes "sh_shape tb k" "q < 2 ^ k"
  shows "unat (SH_DISTANCE_FROM_OPTIMAL tb (SH_INITIAL_BUCKET tb (SH_ENTRY_HASH T (sh_data tb ! q))) (bk q))
    = sh_dist T (sh_data tb) q"
  using assms SH_DISTANCE_nat [of tb k "SH_INITIAL_BUCKET tb (SH_ENTRY_HASH T (sh_data tb ! q))" "bk q"]
  by (simp add: unat_bk SH_INITIAL_BUCKET_nat ring_dist_def sh_home_def) (simp add: sh_shape_def)

text \<open>The buckets where a search for a key stops.\<close>

definition sh_stop :: "('k, 'v) sh_template \<Rightarrow> ('k, 'v) SH_ELEMENT_TYPE list \<Rightarrow> 'k \<Rightarrow> nat \<Rightarrow> bool" where
  "sh_stop T xs key q \<longleftrightarrow> (used (xs ! q) \<longrightarrow> SH_COMPARE_KEYS T (SH_HASH_KEY T key) key (xs ! q))"

section \<open>What the template's parameters promise\<close>

definition sh_template_ok :: "('k, 'v) sh_template \<Rightarrow> bool" where
  "sh_template_ok T \<longleftrightarrow>
     (\<forall>x. SH_EQUAL T x x) \<and> (\<forall>x y. SH_EQUAL T x y \<longrightarrow> SH_EQUAL T y x) \<and>
     (\<forall>x y z. SH_EQUAL T x y \<and> SH_EQUAL T y z \<longrightarrow> SH_EQUAL T x z) \<and>
     (\<forall>x y. SH_EQUAL T x y \<longrightarrow> SH_HASH_KEY T x = SH_HASH_KEY T y) \<and> \<not> used (SH_ZEROED T)"

locale sh_keys =
  fixes T :: "('k, 'v) sh_template"
  assumes template: "sh_template_ok T"
begin

lemma equal_refl: "SH_EQUAL T x x"
  and equal_sym: "SH_EQUAL T x y \<Longrightarrow> SH_EQUAL T y x"
  and equal_trans: "SH_EQUAL T x y \<Longrightarrow> SH_EQUAL T y z \<Longrightarrow> SH_EQUAL T x z"
  and hash_equal: "SH_EQUAL T x y \<Longrightarrow> SH_HASH_KEY T x = SH_HASH_KEY T y"
  and zeroed: "\<not> used (SH_ZEROED T)"
  using template unfolding sh_template_ok_def by blast+

lemma entry_hash: "sh_entries_ok T M \<Longrightarrow> x \<in># M \<Longrightarrow> SH_ENTRY_HASH T x = SH_HASH_KEY T (el_key x)"
  by (auto simp: sh_entries_ok_def SH_ENTRY_HASH_def)

lemma compare_keys:
  "sh_entries_ok T M \<Longrightarrow> x \<in># M \<Longrightarrow> SH_COMPARE_KEYS T (SH_HASH_KEY T key) key x \<longleftrightarrow> SH_EQUAL T (el_key x) key"
  using hash_equal by (auto simp: sh_entries_ok_def SH_COMPARE_KEYS_def)

lemma sh_probe:
  assumes ok: "sh_ok T k tb"
  obtains m where "m < 2 ^ k"
    "sh_stop T (sh_data tb) key ((unat (SH_HASH_KEY T key) mod 2 ^ k + m) mod 2 ^ k)"
    "\<And>i. i < m \<Longrightarrow> \<not> sh_stop T (sh_data tb) key ((unat (SH_HASH_KEY T key) mod 2 ^ k + i) mod 2 ^ k)"
proof -
  obtain e where "e < 2 ^ k" "\<not> used (sh_data tb ! e)" by (rule sh_ok_empty [OF ok])
  then show thesis
    using probe_exists [of e "2 ^ k" "sh_stop T (sh_data tb) key" "unat (SH_HASH_KEY T key) mod 2 ^ k"] that
    by (auto simp: sh_stop_def)
qed

text \<open>A probe that ends in an empty bucket, or finds that the elements are nearer home than the key
  would be, shows that the key is not there.\<close>

lemma probe_misses:
  assumes ok: "sh_ok T k tb" and q: "q < 2 ^ k" "used (sh_data tb ! q)" "SH_EQUAL T (el_key (sh_data tb ! q)) key"
    and c: "c = unat (SH_HASH_KEY T key) mod 2 ^ k"
    and before: "\<And>i. i < m \<Longrightarrow> \<not> sh_stop T (sh_data tb) key ((c + i) mod 2 ^ k)"
  shows "used (sh_data tb ! ((c + m) mod 2 ^ k)) \<and> m \<le> sh_dist T (sh_data tb) ((c + m) mod 2 ^ k)"
proof -
  let ?xs = "sh_data tb"
  have len: "length ?xs = 2 ^ k" by (rule sh_ok_length [OF ok])
  have M: "sh_entries_ok T (sh_entries tb)" "sh_robin T ?xs" using ok by (simp_all add: sh_ok_def)
  have mem: "?xs ! q \<in># sh_entries tb" using q len by (simp add: entry_in)
  have home: "sh_home T (length ?xs) (?xs ! q) = c"
    using entry_hash [OF M(1) mem] hash_equal [OF q(3)] by (simp add: sh_home_def c len)
  have "sh_stop T ?xs key q" using compare_keys [OF M(1) mem] q(3) by (simp add: sh_stop_def)
  moreover have "(c + sh_dist T ?xs q) mod 2 ^ k = q"
    using ring_back [of "2 ^ k" q "\<lambda>q. sh_home T (length ?xs) (?xs ! q)"] q(1) home by (simp add: len sh_home_def)
  ultimately have "m \<le> sh_dist T ?xs q" using before [of "sh_dist T ?xs q"] by (metis not_le)
  then show ?thesis
    using robin_from_home [OF M(2), of q m] q home by (simp add: len sh_home_def)
qed

lemma lookup_loop_probe:
  assumes sh: "sh_shape tb k" and c: "c < 2 ^ k"
    and stop: "sh_stop T (sh_data tb) key ((c + m) mod 2 ^ k)"
    and before: "\<And>i. i < m \<Longrightarrow> \<not> sh_stop T (sh_data tb) key ((c + i) mod 2 ^ k)" and j: "j \<le> m"
  defines "p \<equiv> (c + m) mod 2 ^ k"
  shows "lookup_loop T tb key (SH_HASH_KEY T key) (bk ((c + j) mod 2 ^ k))
    = Some (if used (sh_data tb ! p) then Some (bk p) else None)"
  using j
proof (induction "m - j" arbitrary: j)
  case 0
  then have "j = m" by simp
  moreover have "unat (bk p) = p" by (rule unat_bk [OF sh]) (simp add: p_def)
  ultimately show ?case using stop
    by (subst lookup_loop.simps) (auto simp: p_def [symmetric] Let_def sh_stop_def not_used [symmetric])
next
  case (Suc d)
  let ?j = "(c + j) mod 2 ^ k"
  have lt: "?j < 2 ^ k" by simp
  have u: "unat (bk ?j) = ?j" by (rule unat_bk [OF sh lt])
  have step: "SH_NEXT tb (bk ?j) = bk ((c + (j + 1)) mod 2 ^ k)" using next_bk [OF sh lt] by (simp add: mod_Suc_eq)
  show ?case
    using before [of j] Suc.hyps(1) [of "j + 1"] Suc.hyps(2) Suc.prems unfolding lookup_loop.simps [of T tb key _ "bk ?j"] u step
    by (auto simp: Let_def sh_stop_def not_used [symmetric])
qed

text \<open>Where the probe for a key ends.\<close>

lemma probe_outcome:
  assumes ok: "sh_ok T k tb"
  obtains m where "sh_stop T (sh_data tb) key ((unat (SH_HASH_KEY T key) mod 2 ^ k + m) mod 2 ^ k)"
    "\<forall>i<m. \<not> sh_stop T (sh_data tb) key ((unat (SH_HASH_KEY T key) mod 2 ^ k + i) mod 2 ^ k)"
    "if used (sh_data tb ! ((unat (SH_HASH_KEY T key) mod 2 ^ k + m) mod 2 ^ k))
     then sh_data tb ! ((unat (SH_HASH_KEY T key) mod 2 ^ k + m) mod 2 ^ k) \<in># sh_entries tb \<and>
       SH_EQUAL T (el_key (sh_data tb ! ((unat (SH_HASH_KEY T key) mod 2 ^ k + m) mod 2 ^ k))) key
     else \<forall>x\<in>#sh_entries tb. \<not> SH_EQUAL T (el_key x) key"
proof -
  have M: "sh_entries_ok T (sh_entries tb)" using ok by (simp add: sh_ok_def)
  define c where "c = unat (SH_HASH_KEY T key) mod 2 ^ k"
  obtain m where m: "sh_stop T (sh_data tb) key ((c + m) mod 2 ^ k)"
    "\<And>i. i < m \<Longrightarrow> \<not> sh_stop T (sh_data tb) key ((c + i) mod 2 ^ k)"
    by (rule sh_probe [OF ok, of key]) (auto simp: c_def)
  let ?p = "(c + m) mod 2 ^ k"
  have "\<not> SH_EQUAL T (el_key x) key" if "x \<in># sh_entries tb" "\<not> used (sh_data tb ! ?p)" for x
    using that probe_misses [OF ok _ _ _ c_def m(2)] by (auto simp: in_entries sh_ok_length [OF ok])
  moreover have "sh_data tb ! ?p \<in># sh_entries tb \<and> SH_EQUAL T (el_key (sh_data tb ! ?p)) key"
    if "used (sh_data tb ! ?p)"
    using that m(1) compare_keys [OF M entry_in] sh_ok_length [OF ok] by (auto simp: sh_stop_def intro: entry_in)
  ultimately show thesis by (intro that [of m]) (use m in \<open>auto simp: c_def\<close>)
qed

theorem lookup_finds:
  assumes ok: "sh_ok T k tb"
  shows "\<exists>r. SH_LOOKUP T tb key = Some r \<and>
    (case r of
       None \<Rightarrow> \<forall>x\<in>#sh_entries tb. \<not> SH_EQUAL T (el_key x) key
     | Some i \<Rightarrow> unat i < 2 ^ k \<and> sh_data tb ! unat i \<in># sh_entries tb \<and> SH_EQUAL T (el_key (sh_data tb ! unat i)) key)"
proof -
  have sh: "sh_shape tb k" using ok by (simp add: sh_ok_def)
  obtain m where m: "sh_stop T (sh_data tb) key ((unat (SH_HASH_KEY T key) mod 2 ^ k + m) mod 2 ^ k)"
    "\<forall>i<m. \<not> sh_stop T (sh_data tb) key ((unat (SH_HASH_KEY T key) mod 2 ^ k + i) mod 2 ^ k)"
    and out: "if used (sh_data tb ! ((unat (SH_HASH_KEY T key) mod 2 ^ k + m) mod 2 ^ k))
     then sh_data tb ! ((unat (SH_HASH_KEY T key) mod 2 ^ k + m) mod 2 ^ k) \<in># sh_entries tb \<and>
       SH_EQUAL T (el_key (sh_data tb ! ((unat (SH_HASH_KEY T key) mod 2 ^ k + m) mod 2 ^ k))) key
     else \<forall>x\<in>#sh_entries tb. \<not> SH_EQUAL T (el_key x) key"
    by (rule probe_outcome [OF ok, of key])
  let ?p = "(unat (SH_HASH_KEY T key) mod 2 ^ k + m) mod 2 ^ k"
  have p: "?p < 2 ^ k" "unat (bk ?p) = ?p" using unat_bk [OF sh] by simp_all
  have "SH_LOOKUP T tb key = Some (if used (sh_data tb ! ?p) then Some (bk ?p) else None)"
    using lookup_loop_probe [OF sh _ m(1), of 0] m(2) initial_bk [OF sh]
    by (simp add: SH_LOOKUP_def SH_LOOKUP_HASH_INTERNAL_def)
  then show ?thesis using p out by (auto split: if_splits)
qed

end

end
