(* ===== verification/SimpleHashInsert.thy ===== *)
theory SimpleHashInsert
  imports SimpleHash
begin

text \<open>What moving a run of elements up by one bucket does to the entries and to the order (\<open>insert_entries\<close>,
  \<open>insert_robin\<close>), and the insertion's loop of \<open>lib/simplehash.h\<close> in a table that has room: it finds the
  key, places it, or asks for a larger table (\<open>insert_loop_done\<close>).\<close>

unbundle bit_operations_syntax

section \<open>Moving elements up by one bucket\<close>

text \<open>The order is one of the ring: it does not depend on the bucket that counts as the first.\<close>

lemma robin_rotate:
  assumes "c < n"
  shows "robin n us d \<longleftrightarrow> robin n (\<lambda>r. us ((c + r) mod n)) (\<lambda>r. d ((c + r) mod n))"
proof
  assume r: "robin n us d"
  show "robin n (\<lambda>r. us ((c + r) mod n)) (\<lambda>r. d ((c + r) mod n))"
    unfolding robin_def
  proof (intro allI impI)
    fix q assume "q < n" and u: "us ((c + (q + 1) mod n) mod n)"
    have e: "(c + (q + 1) mod n) mod n = ((c + q) mod n + 1) mod n" by (simp add: mod_simps)
    have "(c + q) mod n < n" using assms by (intro mod_less_divisor) simp
    from robinD [OF r this] u
    show "d ((c + (q + 1) mod n) mod n) \<le> (if us ((c + q) mod n) then d ((c + q) mod n) + 1 else 0)"
      unfolding e by simp
  qed
next
  assume r: "robin n (\<lambda>r. us ((c + r) mod n)) (\<lambda>r. d ((c + r) mod n))"
  show "robin n us d"
    unfolding robin_def
  proof (intro allI impI)
    fix q assume q: "q < n" and u: "us ((q + 1) mod n)"
    define r' where "r' = (q + n - c) mod n"
    have r': "r' < n" "(c + r') mod n = q" using q assms by (simp_all add: r'_def mod_add_right_eq)
    have e: "(c + (r' + 1) mod n) mod n = (q + 1) mod n"
      using r'(2) by (metis (no_types, lifting) add.assoc mod_add_left_eq mod_add_right_eq)
    from robinD [OF r r'(1)] u show "d ((q + 1) mod n) \<le> (if us q then d q + 1 else 0)"
      unfolding e r'(2) by simp
  qed
qed

lemma robin_insert_0:
  assumes r: "robin n U D" and m: "m < n" "\<not> U m" "\<And>i. i < m \<Longrightarrow> U i"
    and j: "j \<le> (if U (n - 1) then D (n - 1) + 1 else 0)" "0 < m \<Longrightarrow> D 0 < j"
    and U': "\<And>i. i < n \<Longrightarrow> U' i \<longleftrightarrow> U i \<or> i = m"
    and D': "D' 0 = j" "\<And>i. 1 \<le> i \<Longrightarrow> i \<le> m \<Longrightarrow> D' i = D (i - 1) + 1" "\<And>i. m < i \<Longrightarrow> i < n \<Longrightarrow> D' i = D i"
  shows "robin n U' D'"
  unfolding robin_def
proof (intro allI impI)
  fix q assume q: "q < n" and u: "U' ((q + 1) mod n)"
  show "D' ((q + 1) mod n) \<le> (if U' q then D' q + 1 else 0)"
  proof (cases "q + 1 = n")
    case True
    then have "q = n - 1" by simp
    then show ?thesis using True j(1) D' U'[of q] m by (cases "m = q") (auto split: if_splits)
  next
    case False
    then have s: "(q + 1) mod n = q + 1" "q + 1 < n" using q by simp_all
    have old: "U (q + 1) \<Longrightarrow> D (q + 1) \<le> (if U q then D q + 1 else 0)" using robinD [OF r q] s by simp
    have prev: "1 \<le> q \<Longrightarrow> U q \<Longrightarrow> D q \<le> (if U (q - 1) then D (q - 1) + 1 else 0)"
      using robinD [OF r, of "q - 1"] q by simp
    consider "q + 1 \<le> m" "q = 0" | "q + 1 \<le> m" "1 \<le> q" | "q = m" | "m < q" by linarith
    then show ?thesis
    proof cases
      case 1
      then show ?thesis using s D'(1) D'(2) [of 1] j(2) U' [of 0] m by auto
    next
      case 2
      then show ?thesis using s D'(2) [of q] D'(2) [of "q + 1"] prev m(3) [of q] m(3) [of "q - 1"] U' [of q] q by auto
    next
      case 3
      then show ?thesis using s u old m(2) D'(3) [of "q + 1"] U' [of q] U' [of "q + 1"] by auto
    next
      case 4
      then show ?thesis using s u old D'(3) [of q] D'(3) [of "q + 1"] U' [of q] U' [of "q + 1"] by auto
    qed
  qed
qed

lemma ring_dist_next:
  assumes "q < n" "ring_dist n hm q + 1 < n" "hm' ((q + 1) mod n) = hm q" "hm q < n"
  shows "ring_dist n hm' ((q + 1) mod n) = ring_dist n hm q + 1"
proof -
  have "ring_dist n hm' ((q + 1) mod n) = ((q + 1) mod n + (n - hm q)) mod n"
    using assms(3,4) by (simp add: ring_dist_def)
  also have "\<dots> = ((q + (n - hm q)) mod n + 1) mod n" by (simp add: mod_simps)
  also have "\<dots> = ring_dist n hm q + 1" using assms(2,4) by (simp add: ring_dist_def)
  finally show ?thesis .
qed

lemma ring_shift: "(c :: nat) < n \<Longrightarrow> r < n \<Longrightarrow> r' < n \<Longrightarrow> (c + r) mod n = (c + r') mod n \<longleftrightarrow> r = r'"
  by (auto simp: mod_if split: if_splits)

lemma ring_pred: "n > 0 \<Longrightarrow> ((c + Suc m) mod n + n - 1) mod n = (c + m) mod (n :: nat)"
proof -
  assume n: "n > 0"
  then have "((c + Suc m) mod n + n - 1) mod n = ((c + Suc m) mod n + (n - 1)) mod n" by (simp add: Nat.add_diff_assoc)
  also have "\<dots> = (c + Suc m + (n - 1)) mod n" by (rule mod_add_left_eq)
  also have "c + Suc m + (n - 1) = c + m + n" using n by simp
  finally show ?thesis by simp
qed

lemma shift_forward_moves:
  "sh_shape tb k \<Longrightarrow> c < 2 ^ k \<Longrightarrow> m < 2 ^ k \<Longrightarrow>
   \<exists>ys. shift_forward tb (bk c) (bk ((c + m) mod 2 ^ k)) (bk ((c + m) mod 2 ^ k)) = Some (tb\<lparr>sh_data := ys\<rparr>) \<and>
     length ys = 2 ^ k \<and>
     (\<forall>r<2 ^ k. ys ! ((c + r) mod 2 ^ k) =
        (if 1 \<le> r \<and> r \<le> m then sh_data tb ! ((c + r - 1) mod 2 ^ k) else sh_data tb ! ((c + r) mod 2 ^ k)))"
proof (induction m arbitrary: tb)
  case 0
  then have "shift_forward tb (bk c) (bk ((c + 0) mod 2 ^ k)) (bk ((c + 0) mod 2 ^ k)) = Some (tb\<lparr>sh_data := sh_data tb\<rparr>)"
    by (subst shift_forward.simps) simp
  with 0 show ?case by (intro exI [of _ "sh_data tb"]) (auto simp: sh_shape_def)
next
  case (Suc m)
  let ?n = "2 ^ k" and ?e = "(c + Suc m) mod 2 ^ k" and ?p = "(c + m) mod 2 ^ k"
  have sh: "sh_shape tb k" and c: "c < ?n" by (rule Suc.prems(1,2))+
  have e: "?e < ?n" "?e \<noteq> c"
    using ring_shift [of c ?n "Suc m" 0] Suc.prems by simp_all
  have "(?e + ?n - 1) mod ?n = ?p" by (rule ring_pred) simp
  then have prev: "SH_PREV tb (bk ?e) = bk ?p" using prev_bk [OF sh e(1)] by simp
  have u: "unat (bk ?e) = ?e" "unat (bk ?p) = ?p" by (rule unat_bk [OF sh], simp)+
  let ?tb = "tb\<lparr>sh_data := (sh_data tb)[?e := sh_data tb ! ?p]\<rparr>"
  have sh': "sh_shape ?tb k" using sh by (simp add: sh_shape_def)
  from Suc.IH [OF sh' c] Suc.prems(3) obtain ys where ys:
    "shift_forward ?tb (bk c) (bk ?p) (bk ?p) = Some (?tb\<lparr>sh_data := ys\<rparr>)" "length ys = ?n"
    "\<And>r. r < ?n \<Longrightarrow> ys ! ((c + r) mod ?n) = (if 1 \<le> r \<and> r \<le> m then sh_data ?tb ! ((c + r - 1) mod ?n) else sh_data ?tb ! ((c + r) mod ?n))"
    by auto
  have "shift_forward tb (bk c) (bk ?e) (bk ?e) = Some (tb\<lparr>sh_data := ys\<rparr>)"
    using ys(1) bk_inject [OF sh e(1) c] e(2) unfolding shift_forward.simps [of tb "bk c" "bk ?e"] u prev Let_def
    by simp
  moreover have "ys ! ((c + r) mod ?n) =
      (if 1 \<le> r \<and> r \<le> Suc m then sh_data tb ! ((c + r - 1) mod ?n) else sh_data tb ! ((c + r) mod ?n))" if r: "r < ?n" for r
  proof -
    have len: "length (sh_data tb) = ?n" using sh by (simp add: sh_shape_def)
    consider "1 \<le> r" "r \<le> m" | "r = Suc m" | "r = 0 \<or> Suc m < r" by linarith
    then show ?thesis
    proof cases
      case 1
      then have "(c + r - 1) mod ?n \<noteq> ?e" using ring_shift [of c ?n "r - 1" "Suc m"] r Suc.prems c by simp
      with 1 ys(3) [OF r] show ?thesis by simp
    next
      case 2
      with ys(3) [OF r] e(1) len show ?thesis by simp
    next
      case 3
      then have "(c + r) mod ?n \<noteq> ?e" using ring_shift [of c ?n r "Suc m"] r Suc.prems c by auto
      with 3 ys(3) [OF r] show ?thesis by auto
    qed
  qed
  ultimately show ?case using ys(2) by blast
qed

lemma mset_rotate: "mset (rotate c xs) = mset xs"
proof (induction c)
  case (Suc c)
  then show ?case by (cases "rotate c xs") (simp_all add: rotate_Suc)
qed simp

lemma mset_filter_rotate: "mset (filter P (rotate c xs)) = mset (filter P xs)"
  by (simp add: mset_rotate)

lemma insert_entries:
  assumes len: "length xs = n" "length zs = n" and c: "c < n" and m: "m < n" "\<not> used (xs ! ((c + m) mod n))"
    and zs: "\<And>r. r < n \<Longrightarrow> zs ! ((c + r) mod n) =
      (if r = 0 then x else if r \<le> m then xs ! ((c + r - 1) mod n) else xs ! ((c + r) mod n))"
    and x: "used x"
  shows "mset (filter used zs) = add_mset x (mset (filter used xs))"
proof -
  let ?rs = "rotate c xs"
  have rs: "?rs ! i = xs ! ((c + i) mod n)" if "i < n" for i using that len by (simp add: nth_rotate)
  have "rotate c zs = x # take m ?rs @ drop (Suc m) ?rs"
  proof (rule nth_equalityI)
    fix i assume "i < length (rotate c zs)"
    then have i: "i < n" using len by simp
    have "rotate c zs ! i = zs ! ((c + i) mod n)" using i len by (simp add: nth_rotate)
    with zs [OF i] show "rotate c zs ! i = (x # take m ?rs @ drop (Suc m) ?rs) ! i"
      using i m(1) len by (auto simp: nth_Cons' nth_append rs)
  qed (use m(1) len in auto)
  then have "mset (filter used zs) = add_mset x (mset (filter used (take m ?rs @ drop (Suc m) ?rs)))"
    using x by (metis filter.simps(2) mset.simps(2) mset_filter_rotate)
  moreover have "?rs = take m ?rs @ ?rs ! m # drop (Suc m) ?rs" using m(1) len by (simp add: id_take_nth_drop)
  then have "filter used ?rs = filter used (take m ?rs @ drop (Suc m) ?rs)"
    using m rs [OF m(1)] by (metis filter.simps(2) filter_append)
  ultimately show ?thesis by (metis mset_filter_rotate)
qed

lemma insert_robin:
  assumes len: "length xs = n" "length zs = n" and c: "c < n" and m: "m < n" "\<not> used (xs ! ((c + m) mod n))"
      "\<And>i. i < m \<Longrightarrow> used (xs ! ((c + i) mod n))"
    and zs: "\<And>r. r < n \<Longrightarrow> zs ! ((c + r) mod n) =
      (if r = 0 then x else if r \<le> m then xs ! ((c + r - 1) mod n) else xs ! ((c + r) mod n))"
    and x: "used x" "(sh_home T n x + j) mod n = c" "j < n"
    and j: "j \<le> (if used (xs ! ((c + (n - 1)) mod n)) then sh_dist T xs ((c + (n - 1)) mod n) + 1 else 0)"
      "0 < m \<Longrightarrow> sh_dist T xs c < j"
    and r: "sh_robin T xs"
  shows "sh_robin T zs"
proof -
  have n: "n > 0" using c by simp
  let ?d = "sh_dist T xs" and ?d' = "sh_dist T zs"
  have home: "sh_home T n y < n" for y using n by (simp add: sh_home_def)
  have r0: "robin n (\<lambda>i. used (xs ! ((c + i) mod n))) (\<lambda>i. ?d ((c + i) mod n))"
    using r robin_rotate [OF c, of "\<lambda>q. used (xs ! q)" ?d] by (simp add: len)
  have "robin n (\<lambda>i. used (zs ! ((c + i) mod n))) (\<lambda>i. ?d' ((c + i) mod n))"
  proof (rule robin_insert_0 [OF r0 m])
    show "used (zs ! ((c + i) mod n)) \<longleftrightarrow> used (xs ! ((c + i) mod n)) \<or> i = m" if "i < n" for i
      using zs [OF that] that x(1) m(2) m(3) [of i] m(3) [of "i - 1"] m(3) [of 0] by (cases "i = 0"; cases "i \<le> m"; cases "m = 0") auto
    show "?d' ((c + 0) mod n) = j"
    proof -
      have "ring_dist n (\<lambda>q. sh_home T n (zs ! q)) c = (c + (n - sh_home T n x)) mod n"
        using zs [of 0] c home [of x] by (simp add: ring_dist_def)
      also have "\<dots> = (sh_home T n x + j + (n - sh_home T n x)) mod n" unfolding x(2) [symmetric] by (rule mod_add_left_eq)
      also have "\<dots> = (j + n) mod n" using home [of x] by (intro arg_cong [of _ _ "\<lambda>y. y mod n"]) simp
      also have "\<dots> = j" using x(3) by simp
      finally show ?thesis using c by (simp add: len)
    qed
    show "?d' ((c + i) mod n) = ?d ((c + (i - 1)) mod n) + 1" if i: "1 \<le> i" "i \<le> m" for i
    proof -
      let ?q = "(c + (i - 1)) mod n"
      have q: "?q < n" "(?q + 1) mod n = (c + i) mod n" "used (xs ! ?q)" using n i m(3) [of "i - 1"] by (simp_all add: mod_Suc_eq)
      have round: "?d ?q < (?q + n - (c + m) mod n) mod n"
        by (rule robin_not_round [of n "\<lambda>q. used (xs ! q)"]) (use r len m(2) n q in auto)
      have "(?q + n - (c + m) mod n) mod n < n" using n by simp
      with round have "?d ?q + 1 < n" by linarith
      moreover have "zs ! ((c + i) mod n) = xs ! ?q" using zs [of i] i m(1) by simp
      ultimately show ?thesis using ring_dist_next [of ?q n "\<lambda>q. sh_home T n (xs ! q)" "\<lambda>q. sh_home T n (zs ! q)"] q home
        by (simp add: len)
    qed
    show "?d' ((c + i) mod n) = ?d ((c + i) mod n)" if "m < i" "i < n" for i
      using zs [OF that(2)] that by (simp add: len ring_dist_def)
  qed (use j c n in simp_all)
  then show ?thesis using robin_rotate [OF c, of "\<lambda>q. used (zs ! q)" ?d'] by (simp add: len)
qed

section \<open>Insertion\<close>

text \<open>What an insertion of a new key has done.\<close>

definition sh_inserted ::
    "('k, 'v) sh_template \<Rightarrow> nat \<Rightarrow> 'k \<Rightarrow> ('k, 'v) SH_TYPE \<Rightarrow> ('k, 'v) SH_TYPE \<Rightarrow> nat \<Rightarrow> bool" where
  "sh_inserted T k key tb tb' p \<longleftrightarrow>
     sh_shape tb' k \<and> sh_robin T (sh_data tb') \<and> sh_grow_threshold tb' = sh_grow_threshold tb \<and>
     sh_members tb' = sh_members tb + 1 \<and> p < 2 ^ k \<and>
     el_key (sh_data tb' ! p) = key \<and> (SH_STORE_HASH T \<longrightarrow> el_hash (sh_data tb' ! p) = SH_HASH_KEY T key) \<and>
     sh_entries tb' = add_mset (sh_data tb' ! p) (sh_entries tb)"

lemma find_empty_finds:
  assumes sh: "sh_shape tb k" and m: "0 < m" "\<not> used (sh_data tb ! ((c + m) mod 2 ^ k))"
    and before: "\<And>i. 0 < i \<Longrightarrow> i < m \<Longrightarrow> used (sh_data tb ! ((c + i) mod 2 ^ k))"
  shows "j < m \<Longrightarrow> find_empty tb (bk ((c + j) mod 2 ^ k)) dist = Some (Some (bk ((c + m) mod 2 ^ k))) \<or>
     find_empty tb (bk ((c + j) mod 2 ^ k)) dist = Some None \<and> sh_full_enough tb"
proof (induction "m - j" arbitrary: j dist)
  case (Suc d)
  let ?n = "2 ^ k" and ?j = "(c + j) mod 2 ^ k"
  have step: "SH_NEXT tb (bk ?j) = bk ((c + (j + 1)) mod ?n)" using next_bk [OF sh, of ?j] by (simp add: mod_Suc_eq)
  have u: "unat (bk ((c + (j + 1)) mod ?n)) = (c + (j + 1)) mod ?n" by (rule unat_bk [OF sh]) simp
  show ?case
  proof (cases "j + 1 = m")
    case True
    then show ?thesis using m(2) unfolding find_empty.simps [of tb "bk ?j"] step Let_def u
      by (simp add: not_used [symmetric])
  next
    case False
    then have "used (sh_data tb ! ((c + (j + 1)) mod ?n))" using before [of "j + 1"] Suc.prems by simp
    then show ?thesis using Suc.hyps(1) [of "j + 1" "dist + 1"] Suc.hyps(2) Suc.prems False
      unfolding find_empty.simps [of tb "bk ?j"] step Let_def u by (auto simp: not_used [symmetric])
  qed
qed simp

context sh_keys
begin

lemma placed:
  fixes tb :: "('k, 'v) SH_TYPE" and ys :: "('k, 'v) SH_ELEMENT_TYPE list"
  assumes sh: "sh_shape tb k" and r: "sh_robin T (sh_data tb)" and c: "c < 2 ^ k"
    and m: "m < 2 ^ k" "\<not> used (sh_data tb ! ((c + m) mod 2 ^ k))"
      "\<And>i. i < m \<Longrightarrow> used (sh_data tb ! ((c + i) mod 2 ^ k))"
    and home: "(unat (SH_HASH_KEY T key) mod 2 ^ k + j) mod 2 ^ k = c" "j < 2 ^ k"
    and j: "j \<le> (if used (sh_data tb ! ((c + (2 ^ k - 1)) mod 2 ^ k)) then sh_dist T (sh_data tb) ((c + (2 ^ k - 1)) mod 2 ^ k) + 1 else 0)"
      "0 < m \<Longrightarrow> sh_dist T (sh_data tb) c < j"
    and ys: "length ys = 2 ^ k" "\<And>r. r < 2 ^ k \<Longrightarrow> ys ! ((c + r) mod 2 ^ k) =
        (if 1 \<le> r \<and> r \<le> m then sh_data tb ! ((c + r - 1) mod 2 ^ k) else sh_data tb ! ((c + r) mod 2 ^ k))"
  shows "sh_inserted T k key tb (fill_entry T key (SH_HASH_KEY T key) (bk c) (tb\<lparr>sh_data := ys\<rparr>)) c"
proof -
  let ?tb = "fill_entry T key (SH_HASH_KEY T key) (bk c) (tb\<lparr>sh_data := ys\<rparr>)"
  let ?zs = "sh_data ?tb" and ?x = "sh_data ?tb ! c" and ?xs = "sh_data tb"
  have u: "unat (bk c) = c" by (rule unat_bk [OF sh c])
  have x: "used ?x" "el_key ?x = key" "SH_STORE_HASH T \<Longrightarrow> el_hash ?x = SH_HASH_KEY T key"
    using c ys(1) by (simp_all add: fill_entry_def Let_def u used_def)
  then have hash: "sh_home T (2 ^ k) ?x = unat (SH_HASH_KEY T key) mod 2 ^ k"
    by (simp add: sh_home_def SH_ENTRY_HASH_def)
  have len: "length ?xs = 2 ^ k" "length ?zs = 2 ^ k" using sh ys(1) by (simp_all add: sh_shape_def fill_entry_def Let_def u)
  have zs: "?zs ! ((c + r) mod 2 ^ k) = (if r = 0 then ?x else if r \<le> m then ?xs ! ((c + r - 1) mod 2 ^ k) else ?xs ! ((c + r) mod 2 ^ k))"
    if "r < 2 ^ k" for r
  proof (cases "r = 0")
    case False
    then have "(c + r) mod 2 ^ k \<noteq> c" using ring_shift [of c "2 ^ k" r 0] c that by simp
    then have "?zs ! ((c + r) mod 2 ^ k) = ys ! ((c + r) mod 2 ^ k)" by (simp add: fill_entry_def Let_def u)
    with False ys(2) [OF that] show ?thesis by simp
  qed (use c in simp)
  have "sh_robin T ?zs"
    by (rule insert_robin [OF len c m zs x(1) _ home(2) j r]) (use home(1) hash in simp_all)
  moreover have "sh_entries ?tb = add_mset ?x (sh_entries tb)"
    unfolding sh_entries_def by (rule insert_entries [OF len c m(1,2) zs x(1)])
  ultimately show ?thesis
    using x c len(2) sh by (simp add: sh_inserted_def sh_shape_def) (simp add: fill_entry_def Let_def)
qed

text \<open>A probe that gets this far shows that the key is not in the table.\<close>

lemma absent_beyond:
  fixes key :: 'k
  assumes ok: "sh_ok T k tb"
  defines "c0 \<equiv> unat (SH_HASH_KEY T key) mod 2 ^ k"
  assumes before: "\<And>i. i < j \<Longrightarrow> \<not> sh_stop T (sh_data tb) key ((c0 + i) mod 2 ^ k)"
    and far: "\<not> used (sh_data tb ! ((c0 + j) mod 2 ^ k)) \<or> sh_dist T (sh_data tb) ((c0 + j) mod 2 ^ k) < j"
  shows "\<forall>x\<in>#sh_entries tb. \<not> SH_EQUAL T (el_key x) key"
proof (intro ballI notI)
  fix x assume x: "x \<in># sh_entries tb" and eq: "SH_EQUAL T (el_key x) key"
  obtain q where q: "q < 2 ^ k" "used (sh_data tb ! q)" "sh_data tb ! q = x"
    using x by (auto simp: in_entries sh_ok_length [OF ok])
  have "used (sh_data tb ! ((c0 + j) mod 2 ^ k)) \<and> j \<le> sh_dist T (sh_data tb) ((c0 + j) mod 2 ^ k)"
    by (rule probe_misses [OF ok q(1,2) _ _ before]) (use eq q(3) in \<open>simp_all add: c0_def\<close>)
  with far show False by simp
qed

text \<open>The new element takes the bucket of one that is nearer to its home.\<close>

lemma insert_displaces:
  assumes ok: "sh_ok T k tb" and c: "c < 2 ^ k" and jn: "j < 2 ^ k"
    and home: "(unat (SH_HASH_KEY T key) mod 2 ^ k + j) mod 2 ^ k = c"
    and room: "j \<le> (if used (sh_data tb ! ((c + (2 ^ k - 1)) mod 2 ^ k)) then sh_dist T (sh_data tb) ((c + (2 ^ k - 1)) mod 2 ^ k) + 1 else 0)"
    and rich: "used (sh_data tb ! c)" "\<not> SH_COMPARE_KEYS T (SH_HASH_KEY T key) key (sh_data tb ! c)" "sh_dist T (sh_data tb) c < j"
  shows "insert_loop T key (SH_HASH_KEY T key) (bk c) (bk j) tb = Some (Restart, tb) \<and> sh_full_enough tb \<or>
    (\<exists>tb'. insert_loop T key (SH_HASH_KEY T key) (bk c) (bk j) tb = Some (Entry (bk c) False, tb') \<and> sh_inserted T k key tb tb' c)"
proof -
  let ?n = "2 ^ k" and ?xs = "sh_data tb"
  have sh: "sh_shape tb k" and rb: "sh_robin T ?xs" using ok by (simp_all add: sh_ok_def)
  have u: "unat (bk c) = c" "unat (bk j) = j" using unat_bk [OF sh] c jn by simp_all
  obtain e where "e < ?n" "\<not> used (?xs ! e)" by (rule sh_ok_empty [OF ok])
  then obtain m where m: "m < ?n" "\<not> used (?xs ! ((c + m) mod ?n))" "\<And>i. i < m \<Longrightarrow> used (?xs ! ((c + i) mod ?n))"
    using probe_exists [of e ?n "\<lambda>q. \<not> used (?xs ! q)" c] c by auto
  have "m \<noteq> 0" using m(2) rich(1) c by (cases "m = 0") auto
  obtain ys where ys: "shift_forward tb (bk c) (bk ((c + m) mod ?n)) (bk ((c + m) mod ?n)) = Some (tb\<lparr>sh_data := ys\<rparr>)"
    "length ys = ?n" "\<And>r. r < ?n \<Longrightarrow> ys ! ((c + r) mod ?n) =
      (if 1 \<le> r \<and> r \<le> m then ?xs ! ((c + r - 1) mod ?n) else ?xs ! ((c + r) mod ?n))"
    using shift_forward_moves [OF sh c m(1)] by blast
  have ins: "sh_inserted T k key tb (fill_entry T key (SH_HASH_KEY T key) (bk c) (tb\<lparr>sh_data := ys\<rparr>)) c"
    by (rule placed [OF sh rb c m home jn room rich(3) ys(2,3)])
  have find: "find_empty tb (bk c) 0 = Some (Some (bk ((c + m) mod ?n))) \<or> find_empty tb (bk c) 0 = Some None \<and> sh_full_enough tb"
    using find_empty_finds [OF sh _ m(2), of 0 0] m(3) \<open>m \<noteq> 0\<close> c by simp
  have far: "SH_DISTANCE_FROM_OPTIMAL tb (SH_INITIAL_BUCKET tb (SH_ENTRY_HASH T (?xs ! c))) (bk c) < bk j"
    using distance_bk [OF sh c, of T] rich(3) u by (simp add: word_less_nat_alt)
  show ?thesis using find rich far ins ys(1) insert_loop.simps [of T key "SH_HASH_KEY T key" "bk c" "bk j" tb]
    by (auto simp: Let_def u used_def)
qed

lemma insert_loop_done:
  fixes key :: 'k
  assumes ok: "sh_ok T k tb"
  defines "c0 \<equiv> unat (SH_HASH_KEY T key) mod 2 ^ k"
  assumes m: "m < 2 ^ k" "sh_stop T (sh_data tb) key ((c0 + m) mod 2 ^ k)"
      "\<And>i. i < m \<Longrightarrow> \<not> sh_stop T (sh_data tb) key ((c0 + i) mod 2 ^ k)"
  shows "j \<le> m \<Longrightarrow>
    j \<le> (if used (sh_data tb ! ((c0 + j + (2 ^ k - 1)) mod 2 ^ k)) then sh_dist T (sh_data tb) ((c0 + j + (2 ^ k - 1)) mod 2 ^ k) + 1 else 0) \<Longrightarrow>
    \<exists>r tb'. insert_loop T key (SH_HASH_KEY T key) (bk ((c0 + j) mod 2 ^ k)) (bk j) tb = Some (r, tb') \<and>
      (r = Restart \<and> tb' = tb \<and> sh_full_enough tb \<or>
       (\<exists>p. r = Entry (bk p) True \<and> tb' = tb \<and> p < 2 ^ k \<and> used (sh_data tb ! p) \<and> SH_EQUAL T (el_key (sh_data tb ! p)) key) \<or>
       (\<exists>p. r = Entry (bk p) False \<and> sh_inserted T k key tb tb' p \<and> (\<forall>x\<in>#sh_entries tb. \<not> SH_EQUAL T (el_key x) key)))"
proof (induction "m - j" arbitrary: j rule: less_induct)
  case less
  let ?n = "2 ^ k" and ?c = "(c0 + j) mod 2 ^ k" and ?xs = "sh_data tb"
  have sh: "sh_shape tb k" and M: "sh_entries_ok T (sh_entries tb)" and rb: "sh_robin T ?xs"
    using ok by (simp_all add: sh_ok_def)
  have len: "length ?xs = ?n" by (rule sh_ok_length [OF ok])
  have c: "?c < ?n" and u: "unat (bk ?c) = ?c" using unat_bk [OF sh, of ?c] by simp_all
  have before: "\<And>i. i < j \<Longrightarrow> \<not> sh_stop T ?xs key ((c0 + i) mod ?n)" using m(3) less.prems(1) by simp
  have jn: "j < ?n" "unat (bk j) = j" using less.prems(1) m(1) unat_bk [OF sh, of j] by simp_all
  have prev: "(?c + (?n - 1)) mod ?n = (c0 + j + (?n - 1)) mod ?n" by (rule mod_add_left_eq)
  have home: "(unat (SH_HASH_KEY T key) mod ?n + j) mod ?n = ?c" unfolding c0_def by (rule refl)
  have room: "j \<le> (if used (?xs ! ((?c + (?n - 1)) mod ?n)) then sh_dist T ?xs ((?c + (?n - 1)) mod ?n) + 1 else 0)"
    unfolding prev by (rule less.prems(2))
  note absent = absent_beyond [OF ok before [unfolded c0_def], folded c0_def]
  note simps = insert_loop.simps [of T key "SH_HASH_KEY T key" "bk ?c" "bk j" tb]
  consider (empty) "\<not> used (?xs ! ?c)" | (match) "used (?xs ! ?c)" "SH_COMPARE_KEYS T (SH_HASH_KEY T key) key (?xs ! ?c)"
    | (rich) "used (?xs ! ?c)" "\<not> SH_COMPARE_KEYS T (SH_HASH_KEY T key) key (?xs ! ?c)" "sh_dist T ?xs ?c < j"
    | (skip) "used (?xs ! ?c)" "\<not> SH_COMPARE_KEYS T (SH_HASH_KEY T key) key (?xs ! ?c)" "j \<le> sh_dist T ?xs ?c"
    by linarith
  then show ?case
  proof cases
    case empty
    have "sh_inserted T k key tb (fill_entry T key (SH_HASH_KEY T key) (bk ?c) (tb\<lparr>sh_data := ?xs\<rparr>)) ?c"
      by (rule placed [OF sh rb c, of 0 key j ?xs]) (use empty c jn len home room in auto)
    then show ?thesis using empty absent simps by (auto simp: Let_def u not_used)
  next
    case match
    then show ?thesis using compare_keys [OF M entry_in] c len simps by (auto simp: Let_def u used_def)
  next
    case rich
    then show ?thesis using insert_displaces [OF ok c jn(1) home room rich] absent by (auto 0 4)
  next
    case skip
    have near: "\<not> SH_DISTANCE_FROM_OPTIMAL tb (SH_INITIAL_BUCKET tb (SH_ENTRY_HASH T (?xs ! ?c))) (bk ?c) < bk j"
      using distance_bk [OF sh c, of T] skip(3) jn(2) by (simp add: word_less_nat_alt)
    have "j \<noteq> m" using m(2) skip(1,2) by (auto simp: sh_stop_def)
    then have j: "j + 1 \<le> m" "m - (j + 1) < m - j" using less.prems(1) by simp_all
    have behind: "(c0 + (j + 1) + (?n - 1)) mod ?n = ?c" by simp
    have step: "SH_NEXT tb (bk ?c) = bk ((c0 + (j + 1)) mod ?n)" "bk j + 1 = bk (j + 1)"
      using next_bk [OF sh c] by (simp_all add: mod_Suc_eq)
    have "j + 1 \<le> (if used (?xs ! ?c) then sh_dist T ?xs ?c + 1 else 0)" using skip by simp
    note IH = less.hyps [OF j(2) j(1), unfolded behind, OF this]
    show ?thesis using skip near simps IH step
      by (cases "SH_GROW_MAX_DIB < bk (j + 1) \<and> sh_full_enough tb") (auto simp: Let_def u used_def)
  qed
qed

end

end
