(* ===== verification/SimpleHashGrow.thy ===== *)
theory SimpleHashGrow
  imports SimpleHashInsert
begin

text \<open>\<open>SH_GROW\<close> of \<open>lib/simplehash.h\<close> copies the elements without comparing anything: it starts at an element
  that is at home and puts each one into the first empty bucket from its new home on.  That this keeps the
  order is \<open>grown\<close>, the invariant of the copying loop, in which homes are counted from the starting bucket;
  \<open>grow_keeps\<close> is the result.  With it the whole insertion returns and keeps the invariant
  (\<open>insert_inserts\<close>), however often it restarts.\<close>

unbundle bit_operations_syntax

section \<open>Growth\<close>

lemma mask_of_size: "1 \<le> k \<Longrightarrow> k \<le> 32 \<Longrightarrow> unat (s :: u64) = 2 ^ k \<Longrightarrow> (ucast (s - 1) :: u32) = mask k"
proof -
  assume k: "1 \<le> k" "k \<le> 32" and s: "unat s = 2 ^ k"
  have "s = push_bit k 1" using clz64.unat_power [of k] s k(2) by (simp add: word_unat_eq_iff)
  then have "s - 1 = mask k" by (simp add: mask_eq_exp_minus_1)
  then show ?thesis using k(2) by (simp add: ucast_mask_eq min_absorb2)
qed

lemma compute_parameters:
  assumes "unat newsize \<le> 2 ^ 32"
  shows "SH_COMPUTE_PARAMETERS T tb newsize = Inl HashTableTooLarge \<and> 2 ^ 31 \<le> unat (SH_SIZEOF T) \<or>
    (\<exists>k s. 1 \<le> k \<and> k \<le> 32 \<and> unat newsize \<le> 2 ^ k \<and> 2 ^ k < 2 * max 2 (unat newsize) \<and> unat s = 2 ^ k \<and>
       SH_COMPUTE_PARAMETERS T tb newsize = Inr (tb\<lparr>sh_size := s, sh_sizemask := mask k,
         sh_grow_threshold := word_of_nat (sh_threshold (2 ^ k))\<rparr>))"
proof -
  let ?w = "max newsize 2"
  have w: "unat ?w = max 2 (unat newsize)" by (simp add: max_def word_le_nat_alt)
  then have "?w \<noteq> 0" "unat ?w \<le> 2 ^ (LENGTH(64) - 1)" using assms by (auto simp: max_def split: if_splits)
  from clz64.nextpower [OF this] obtain k where k: "unat (pg_nextpower2_64 BuiltinBits ?w) = 2 ^ k"
    "unat ?w \<le> 2 ^ k" "2 ^ k < 2 * unat ?w" by (auto simp: pg_nextpower2_64_def)
  let ?s = "pg_nextpower2_64 BuiltinBits ?w"
  have "2 ^ k < (2 :: nat) ^ 33" using k(3) assms w by (simp add: max_def split: if_splits)
  then have "k < 33" by (rule power_less_imp_less_exp [rotated]) simp
  moreover have "k \<noteq> 0" using k(2) w by (cases "k = 0") auto
  ultimately have kk: "1 \<le> k" "k \<le> 32" by simp_all
  have max: "?s = SH_MAX_SIZE \<longleftrightarrow> 2 ^ k = (2 :: nat) ^ 32"
    using k(1) by (simp add: SH_MAX_SIZE_def word_unat_eq_iff)
  have large: "2 ^ 31 \<le> unat (SH_SIZEOF T)" if "0xFFFFFFFFFFFFFFFF div 2 \<le> SH_SIZEOF T * ?s"
  proof (rule ccontr)
    assume "\<not> 2 ^ 31 \<le> unat (SH_SIZEOF T)"
    then have "unat (SH_SIZEOF T) \<le> 2 ^ 31 - 1" by simp
    moreover have "unat ?s \<le> 2 ^ 32" unfolding k(1) using kk(2) by (intro power_increasing) auto
    ultimately have le: "unat (SH_SIZEOF T) * unat ?s \<le> (2 ^ 31 - 1) * 2 ^ 32" by (rule mult_le_mono)
    then have "unat (SH_SIZEOF T * ?s) = unat (SH_SIZEOF T) * unat ?s" by (simp add: unat_word_ariths)
    moreover have "unat (0xFFFFFFFFFFFFFFFF div 2 :: u64) = 2 ^ 63 - 1" by simp
    ultimately show False using that le by (simp add: word_le_nat_alt)
  qed
  have "SH_COMPUTE_PARAMETERS T tb newsize = Inl HashTableTooLarge \<and> 2 ^ 31 \<le> unat (SH_SIZEOF T) \<or>
      SH_COMPUTE_PARAMETERS T tb newsize = Inr (tb\<lparr>sh_size := ?s, sh_sizemask := mask k,
         sh_grow_threshold := word_of_nat (sh_threshold (2 ^ k))\<rparr>)"
    using max mask_of_size [OF kk k(1)] large by (simp add: SH_COMPUTE_PARAMETERS_def Let_def k(1) sh_threshold_def)
  then show ?thesis using kk k w by auto
qed

lemma unat_threshold: "k \<le> 32 \<Longrightarrow> unat (word_of_nat (sh_threshold (2 ^ k)) :: u32) = sh_threshold (2 ^ k)"
  using sh_threshold_less [of "2 ^ k"] power_le_32 [of k] by (simp add: unat_of_nat)

lemma sh_threshold_mono: "1 \<le> k \<Longrightarrow> k < k' \<Longrightarrow> k' \<le> 32 \<Longrightarrow> sh_threshold (2 ^ k) < sh_threshold (2 ^ k')"
proof -
  assume k: "1 \<le> k" "k < k'" "k' \<le> 32"
  have "(2 :: nat) ^ (k + 1) \<le> 2 ^ k'" using k(2) by (intro power_increasing) auto
  then have le: "2 * 2 ^ k \<le> (2 :: nat) ^ k'" by simp
  have "(2 :: nat) ^ 1 \<le> 2 ^ k" using k(1) by (intro power_increasing) auto
  then have two: "(2 :: nat) \<le> 2 ^ k" by simp
  have "(2 :: nat) ^ k < 2 ^ 32" using k by (intro power_strict_increasing) auto
  then show ?thesis using le two by (auto simp: sh_threshold_def)
qed

text \<open>Where the copy starts: at an empty bucket or at an element that is at home.\<close>

lemma grow_start_spec:
  assumes old: "length xs = oldsize" "\<exists>e<oldsize. \<not> used (xs ! e)" and i: "i \<le> oldsize" "\<And>l. l < i \<Longrightarrow> used (xs ! l)"
    and sh: "sh_shape tb k" "oldsize dvd 2 ^ k"
  shows "grow_start T tb xs oldsize i < oldsize \<and>
    (used (xs ! grow_start T tb xs oldsize i) \<longrightarrow> sh_home T oldsize (xs ! grow_start T tb xs oldsize i) = grow_start T tb xs oldsize i)"
  using i
proof (induction "oldsize - i" arbitrary: i)
  case 0
  then show ?case using old(2) by auto
next
  case (Suc d)
  then have i: "i < oldsize" by linarith
  have home: "unat (SH_INITIAL_BUCKET tb (SH_ENTRY_HASH T (xs ! i))) = i \<Longrightarrow> sh_home T oldsize (xs ! i) = i"
    using i mod_mod_cancel [OF sh(2), of "unat (SH_ENTRY_HASH T (xs ! i))"]
    by (simp add: SH_INITIAL_BUCKET_nat [OF sh(1)] sh_home_def)
  show ?case
  proof (cases "used (xs ! i) \<and> unat (SH_INITIAL_BUCKET tb (SH_ENTRY_HASH T (xs ! i))) \<noteq> i")
    case True
    then have "used (xs ! l)" if "l < i + 1" for l using that Suc.prems(2) by (cases "l = i") auto
    then have "grow_start T tb xs oldsize (i + 1) < oldsize \<and>
      (used (xs ! grow_start T tb xs oldsize (i + 1)) \<longrightarrow>
       sh_home T oldsize (xs ! grow_start T tb xs oldsize (i + 1)) = grow_start T tb xs oldsize (i + 1))"
      using Suc.hyps(1) [of "i + 1"] Suc.hyps(2) i by simp
    then show ?thesis using True i by (simp add: grow_start.simps [of T tb xs oldsize i] used_def)
  next
    case False
    then show ?thesis using i home by (auto simp: grow_start.simps [of T tb xs oldsize i] used_def)
  qed
qed

lemma grow_slot_finds:
  assumes sh: "sh_shape tb k" and m: "\<not> used (sh_data tb ! ((c + m) mod 2 ^ k))"
    and before: "\<And>i. i < m \<Longrightarrow> used (sh_data tb ! ((c + i) mod 2 ^ k))"
  shows "j \<le> m \<Longrightarrow> grow_slot tb (bk ((c + j) mod 2 ^ k)) = Some (bk ((c + m) mod 2 ^ k))"
proof (induction "m - j" arbitrary: j)
  case 0
  then have "j = m" by simp
  with m unat_bk [OF sh, of "(c + m) mod 2 ^ k"] show ?case by (subst grow_slot.simps) (simp add: not_used)
next
  case (Suc d)
  let ?n = "2 ^ k" and ?j = "(c + j) mod 2 ^ k"
  have step: "SH_NEXT tb (bk ?j) = bk ((c + (j + 1)) mod ?n)" using next_bk [OF sh, of ?j] by (simp add: mod_Suc_eq)
  have u: "unat (bk ?j) = ?j" by (rule unat_bk [OF sh]) simp
  show ?case
    using before [of j] Suc.hyps(1) [of "j + 1"] Suc.hyps(2) Suc.prems
    unfolding grow_slot.simps [of tb "bk ?j"] step u by (simp add: not_used [symmetric])
qed

lemma nat_mod_cancel: "(a + d) mod n = (b + d) mod n \<Longrightarrow> a mod n = b mod (n :: nat)"
proof -
  assume eq: "(a + d) mod n = (b + d) mod n"
  show ?thesis
  proof (cases "n = 0")
    case False
    have "(x + d + (n - d mod n)) mod n = x mod n" for x
    proof -
      have "(x + d + (n - d mod n)) mod n = (x + (n - d mod n) + d) mod n" by (simp add: ac_simps)
      also have "\<dots> = (x + (n - d mod n) + d mod n) mod n" by (rule mod_add_right_eq [symmetric])
      also have "x + (n - d mod n) + d mod n = x + n" using mod_less_divisor [of n d] False by linarith
      finally show ?thesis by simp
    qed
    then show ?thesis using eq by (metis mod_add_left_eq)
  qed (use eq in simp)
qed

text \<open>From a bucket that is empty or holds an element that is at home, the distances are those of a
  line, and the homes come in order.\<close>

lemma line_dist:
  assumes "robin n U D" "U 0 \<Longrightarrow> D 0 = 0"
  shows "t < n \<Longrightarrow> U t \<Longrightarrow> D t \<le> t"
proof (induction t)
  case (Suc t)
  then show ?case using robinD [OF assms(1), of t] by (auto split: if_splits)
qed (use assms in simp)

lemma line_order:
  assumes "robin n U D"
  shows "t \<le> t' \<Longrightarrow> t' < n \<Longrightarrow> U t \<Longrightarrow> U t' \<Longrightarrow> t + D t' \<le> t' + D t"
proof (induction t')
  case (Suc t')
  show ?case
  proof (cases "t = Suc t'")
    case False
    then show ?thesis using Suc robinD [OF assms, of t'] by (auto split: if_splits)
  qed simp
qed simp

text \<open>The home of an element counted from bucket \<open>s\<close>.\<close>

definition sh_rel :: "('k, 'v) sh_template \<Rightarrow> nat \<Rightarrow> nat \<Rightarrow> ('k, 'v) SH_ELEMENT_TYPE \<Rightarrow> nat" where
  "sh_rel T n s x = (sh_home T n x + n - s) mod n"

lemma sh_rel_back: "s < n \<Longrightarrow> (s + sh_rel T n s x) mod n = sh_home T n x"
proof -
  assume "s < n"
  then have "(s + sh_rel T n s x) mod n = (s + (sh_home T n x + n - s)) mod n" by (simp add: sh_rel_def mod_simps)
  also have "\<dots> = (sh_home T n x + n) mod n" using \<open>s < n\<close> by simp
  finally show ?thesis using \<open>s < n\<close> by (simp add: sh_home_def)
qed

lemma sh_rel_less: "s < n \<Longrightarrow> sh_rel T n s x < n"
  by (simp add: sh_rel_def)

lemma dist_from_rel:
  assumes "s < n" "length zs = n" "r < n" "sh_rel T n s (zs ! ((s + r) mod n)) \<le> r"
  shows "sh_dist T zs ((s + r) mod n) = r - sh_rel T n s (zs ! ((s + r) mod n))"
proof -
  let ?q = "(s + r) mod n" and ?R = "sh_rel T n s (zs ! ((s + r) mod n))"
  let ?h = "sh_home T n (zs ! ?q)"
  have h: "?h < n" "(s + ?R) mod n = ?h" using assms(1) sh_rel_back by (simp_all add: sh_home_def)
  have "(?h + ring_dist n (\<lambda>q. sh_home T n (zs ! q)) ?q) mod n = ?q"
    using assms(1) h(1) by (intro ring_back) simp_all
  also have "?q = (s + ?R + (r - ?R)) mod n" using assms(4) by simp
  also have "\<dots> = (?h + (r - ?R)) mod n" using h(2) by (metis mod_add_left_eq)
  finally have "(ring_dist n (\<lambda>q. sh_home T n (zs ! q)) ?q + ?h) mod n = (r - ?R + ?h) mod n" by (simp add: add.commute)
  from nat_mod_cancel [OF this] show ?thesis
    using assms ring_dist_less [of n "\<lambda>q. sh_home T n (zs ! q)" ?q] by (simp add: less_imp_diff_less)
qed

text \<open>An element of the old table keeps its home counted from \<open>s\<close>, up to a multiple of the old size.\<close>

lemma rel_of_old:
  assumes "s < n" "n dvd n'" "n' > 0" "length xs = n" "t < n" "sh_dist T xs ((s + t) mod n) \<le> t"
  shows "sh_rel T n' s (xs ! ((s + t) mod n)) mod n = t - sh_dist T xs ((s + t) mod n)"
proof -
  let ?q = "(s + t) mod n" and ?D = "sh_dist T xs ((s + t) mod n)"
  let ?x = "xs ! ?q"
  have n: "n > 0" "n \<le> n'" using assms(1-3) by (auto dest: dvd_imp_le)
  have "sh_home T n' ?x mod n = sh_home T n ?x" using assms(2) by (simp add: sh_home_def mod_mod_cancel)
  moreover have "(s + sh_rel T n' s ?x) mod n' = sh_home T n' ?x" using assms(1) n(2) by (intro sh_rel_back) simp
  ultimately have a: "(sh_rel T n' s ?x + s) mod n = sh_home T n ?x"
    using mod_mod_cancel [OF assms(2), of "s + sh_rel T n' s ?x"] by (simp add: add.commute)
  have "(sh_home T n ?x + ?D) mod n = ?q"
    using ring_back [of n ?q "\<lambda>q. sh_home T n (xs ! q)"] n(1) assms(4) by (simp add: sh_home_def)
  also have "?q = (t - ?D + s + ?D) mod n" using assms(6) by (simp add: add.commute)
  finally have "sh_home T n ?x mod n = (t - ?D + s) mod n" by (rule nat_mod_cancel)
  then have "(sh_rel T n' s ?x + s) mod n = (t - ?D + s) mod n" using a by (simp add: sh_home_def)
  from nat_mod_cancel [OF this] show ?thesis using assms(5) by simp
qed

text \<open>What the copy has done after the first \<open>i\<close> buckets.\<close>

definition grown ::
    "('k, 'v) sh_template \<Rightarrow> ('k, 'v) SH_ELEMENT_TYPE list \<Rightarrow> nat \<Rightarrow> nat \<Rightarrow> nat \<Rightarrow> ('k, 'v) SH_ELEMENT_TYPE list \<Rightarrow> bool" where
  "grown T xs n' s i zs \<longleftrightarrow>
     length zs = n' \<and> sh_robin T zs \<and> mset (filter used zs) = mset (filter used (take i (rotate s xs))) \<and>
     (\<forall>r<n'. used (zs ! ((s + r) mod n')) \<longrightarrow>
        sh_rel T n' s (zs ! ((s + r) mod n')) \<le> r \<and>
        sh_rel T n' s (zs ! ((s + r) mod n')) div length xs = r div length xs \<and> r mod length xs < i \<and>
        (\<forall>t. i \<le> t \<and> t < length xs \<and> used (xs ! ((s + t) mod length xs)) \<longrightarrow>
           sh_rel T n' s (zs ! ((s + r) mod n')) mod length xs + sh_dist T xs ((s + t) mod length xs) \<le> t))"

text \<open>The slot of the next element, and what its neighbour says about the distance.\<close>

lemma grown_slot:
  assumes g: "grown T xs n' s i zs" and n: "length xs = n" "n dvd n'" "n' > 0" "s < n" "i < n"
    and x: "used (xs ! ((s + i) mod n))" "sh_dist T xs ((s + i) mod n) \<le> i"
  defines "R \<equiv> sh_rel T n' s (xs ! ((s + i) mod n))"
  obtains j where "R + j < n'" "(R + j) div n = R div n" "R mod n + j \<le> i" "(R + j) mod n = R mod n + j"
    "\<not> used (zs ! ((s + (R + j)) mod n'))" "\<And>l. l < j \<Longrightarrow> used (zs ! ((s + (R + l)) mod n'))"
proof -
  let ?D = "sh_dist T xs ((s + i) mod n)"
  have u: "R mod n = i - ?D" using rel_of_old [OF n(4,2,3,1,5) x(2)] by (simp add: R_def)
  have le: "n \<le> n'" using n(2,3) by (simp add: dvd_imp_le)
  have Rn: "R < n'" using n(4) le by (simp add: R_def sh_rel_less)
  have window: "R + j < n'" "(R + j) div n = R div n" "(R + j) mod n = R mod n + j" if "j \<le> ?D" for j
  proof -
    have lt: "R mod n + j < n" using that u x(2) n(5) by linarith
    have e: "R + j = R mod n + j + R div n * n" by simp
    show "(R + j) div n = R div n" "(R + j) mod n = R mod n + j"
      using n(4) lt unfolding e by (simp_all only: div_mult_self1 mod_mult_self1 mod_less div_less)
    obtain c where c: "n' = n * c" using n(2) by (rule dvdE)
    have "R div n < c" using Rn n(4) by (simp add: c less_mult_imp_div_less mult.commute)
    then have "n * (R div n + 1) \<le> n * c" by (intro mult_le_mono2) simp
    then have "n * (R div n) + n \<le> n * c" by (simp only: distrib_left mult_1_right)
    moreover have "R + j = n * (R div n) + (R mod n + j)" by simp
    ultimately show "R + j < n'" unfolding c using lt by linarith
  qed
  have "\<not> used (zs ! ((s + (R + ?D)) mod n'))"
  proof
    assume us: "used (zs ! ((s + (R + ?D)) mod n'))"
    have "(R + ?D) mod n < i" using g us window(1) [of ?D] by (simp add: grown_def n(1))
    then show False using window(3) [of ?D] u x(2) by simp
  qed
  then have "(LEAST j. \<not> used (zs ! ((s + (R + j)) mod n'))) \<le> ?D"
    "\<not> used (zs ! ((s + (R + (LEAST j. \<not> used (zs ! ((s + (R + j)) mod n'))))) mod n'))"
    by (rule Least_le, rule LeastI)
  then show thesis using window u x(2) not_less_Least [of _ "\<lambda>j. \<not> used (zs ! ((s + (R + j)) mod n'))"]
    by (intro that [of "LEAST j. \<not> used (zs ! ((s + (R + j)) mod n'))"]) auto
qed

lemma take_rotate_Suc:
  "s < length xs \<Longrightarrow> i < length xs \<Longrightarrow> take (Suc i) (rotate s xs) = take i (rotate s xs) @ [xs ! ((s + i) mod length xs)]"
  by (simp add: take_Suc_conv_app_nth nth_rotate)

lemma grown_skip:
  assumes "grown T xs n' s i zs" "s < length xs" "i < length xs" "\<not> used (xs ! ((s + i) mod length xs))"
  shows "grown T xs n' s (Suc i) zs"
  using assms by (auto simp: grown_def take_rotate_Suc less_Suc_eq_le less_imp_le)

text \<open>The element before the new one is as far from its home as the order asks.\<close>

lemma grown_neighbour:
  assumes g: "grown T xs n' s i zs" and n: "length xs = n" "n dvd n'" "n' > 0" "s < n" "i < n"
    and x: "used (xs ! ((s + i) mod n))" "sh_dist T xs ((s + i) mod n) \<le> i"
    and R: "R = sh_rel T n' s (xs ! ((s + i) mod n))" "R + l < n'" "(R + l) div n = R div n"
    and us: "used (zs ! ((s + (R + l)) mod n'))"
  shows "l \<le> sh_dist T zs ((s + (R + l)) mod n')"
proof -
  let ?y = "zs ! ((s + (R + l)) mod n')"
  have s: "s < n'" using n(2-4) by (meson dvd_imp_le less_le_trans)
  have u: "R mod n = i - sh_dist T xs ((s + i) mod n)" using rel_of_old [OF n(4,2,3,1,5) x(2)] by (simp add: R(1))
  have len: "length zs = n'" using g unfolding grown_def by blast
  have y: "sh_rel T n' s ?y \<le> R + l" "sh_rel T n' s ?y div n = (R + l) div n"
    "sh_rel T n' s ?y mod n + sh_dist T xs ((s + i) mod n) \<le> i"
    using g us R(2) n(1,5) x(1) by (auto simp: grown_def)
  have "sh_rel T n' s ?y mod n \<le> R mod n" using y(3) u x(2) by linarith
  moreover have "sh_rel T n' s ?y div n = R div n" using y(2) R(3) by simp
  ultimately have "sh_rel T n' s ?y \<le> R"
    using div_mult_mod_eq [of "sh_rel T n' s ?y" n] div_mult_mod_eq [of R n] by (metis add_le_cancel_left)
  then show ?thesis using dist_from_rel [OF s len R(2) y(1)] by simp
qed

lemma grown_put_robin:
  assumes g: "grown T xs n' s i zs" and n: "length xs = n" "n dvd n'" "n' > 0" "s < n" "i < n"
    and x: "used (xs ! ((s + i) mod n))" "sh_dist T xs ((s + i) mod n) \<le> i"
    and R: "R = sh_rel T n' s (xs ! ((s + i) mod n))"
    and j: "R + j < n'" "(R + j) div n = R div n" "\<not> used (zs ! ((s + (R + j)) mod n'))"
      "\<And>l. l < j \<Longrightarrow> used (zs ! ((s + (R + l)) mod n'))"
  shows "sh_robin T (zs[(s + (R + j)) mod n' := xs ! ((s + i) mod n)])"
    and "mset (filter used (zs[(s + (R + j)) mod n' := xs ! ((s + i) mod n)])) = add_mset (xs ! ((s + i) mod n)) (mset (filter used zs))"
proof -
  let ?x = "xs ! ((s + i) mod n)" and ?c = "(s + (R + j)) mod n'"
  let ?zs = "zs[?c := ?x]"
  have s: "s < n'" using n(2-4) by (meson dvd_imp_le less_le_trans)
  have rb: "sh_robin T zs" and "length zs = n'" using g unfolding grown_def by blast+
  then have len: "length zs = n'" "length ?zs = n'" by simp_all
  have c: "?c < n'" using n(3) by simp
  have nth: "?zs ! ((?c + r) mod n') = (if r = 0 then ?x else if r \<le> 0 then zs ! ((?c + r - 1) mod n') else zs ! ((?c + r) mod n'))"
    if "r < n'" for r
    using that c len ring_shift [of ?c n' r 0] by (cases "r = 0") auto
  have empty: "\<not> used (zs ! ((?c + 0) mod n'))" using j(3) c by simp
  show "mset (filter used ?zs) = add_mset ?x (mset (filter used zs))" by (rule insert_entries [OF len c n(3) empty nth x(1)])
  show "sh_robin T ?zs"
  proof (rule insert_robin [OF len c n(3) empty _ nth x(1)])
    have "(sh_home T n' ?x + j) mod n' = ((s + R) mod n' + j) mod n'" using sh_rel_back [OF s, of T ?x] by (simp add: R)
    also have "\<dots> = ?c" by (simp add: mod_add_left_eq add.assoc)
    finally show "(sh_home T n' ?x + j) mod n' = ?c" .
    show "j \<le> (if used (zs ! ((?c + (n' - 1)) mod n')) then sh_dist T zs ((?c + (n' - 1)) mod n') + 1 else 0)"
    proof (cases j)
      case (Suc l)
      have e: "(?c + (n' - 1)) mod n' = (s + (R + l)) mod n'"
      proof -
        have "(?c + (n' - 1)) mod n' = (s + (R + j) + (n' - 1)) mod n'" by (rule mod_add_left_eq)
        also have "s + (R + j) + (n' - 1) = s + (R + l) + n'" using Suc n(3) by simp
        finally show ?thesis by simp
      qed
      have lt: "R + l < n'" "R div n \<le> (R + l) div n" "(R + l) div n \<le> (R + j) div n"
        using j(1) Suc by (simp_all add: div_le_mono)
      have us: "used (zs ! ((s + (R + l)) mod n'))" using j(4) Suc by simp
      have "l \<le> sh_dist T zs ((s + (R + l)) mod n')"
        by (rule grown_neighbour [OF g n x R lt(1) _ us]) (use lt(2,3) j(2) in linarith)
      with us Suc show ?thesis unfolding e by simp
    qed simp
  qed (use j(1) rb in simp_all)
qed

lemma grown_put:
  assumes g: "grown T xs n' s i zs" and n: "length xs = n" "n dvd n'" "n' > 0" "s < n" "i < n"
    and x: "used (xs ! ((s + i) mod n))" "sh_dist T xs ((s + i) mod n) \<le> i"
    and order: "\<And>t. i \<le> t \<Longrightarrow> t < n \<Longrightarrow> used (xs ! ((s + t) mod n)) \<Longrightarrow>
      i + sh_dist T xs ((s + t) mod n) \<le> t + sh_dist T xs ((s + i) mod n)"
  defines "R \<equiv> sh_rel T n' s (xs ! ((s + i) mod n))"
  assumes j: "R + j < n'" "(R + j) div n = R div n" "R mod n + j \<le> i" "(R + j) mod n = R mod n + j"
    "\<not> used (zs ! ((s + (R + j)) mod n'))" "\<And>l. l < j \<Longrightarrow> used (zs ! ((s + (R + l)) mod n'))"
  shows "grown T xs n' s (Suc i) (zs[(s + (R + j)) mod n' := xs ! ((s + i) mod n)])"
proof -
  let ?x = "xs ! ((s + i) mod n)" and ?c = "(s + (R + j)) mod n'"
  let ?zs = "zs[?c := ?x]"
  have s: "s < n'" using n(2-4) by (meson dvd_imp_le less_le_trans)
  have len: "length zs = n'" using g unfolding grown_def by blast
  have c: "?c < n'" using n(3) by simp
  have u: "R mod n = i - sh_dist T xs ((s + i) mod n)" using rel_of_old [OF n(4,2,3,1,5) x(2)] by (simp add: R_def)
  have "sh_rel T n' s (?zs ! ((s + r) mod n')) \<le> r \<and>
        sh_rel T n' s (?zs ! ((s + r) mod n')) div n = r div n \<and> r mod n < Suc i \<and>
        (\<forall>t. Suc i \<le> t \<and> t < n \<and> used (xs ! ((s + t) mod n)) \<longrightarrow>
           sh_rel T n' s (?zs ! ((s + r) mod n')) mod n + sh_dist T xs ((s + t) mod n) \<le> t)"
    if r: "r < n'" and us: "used (?zs ! ((s + r) mod n'))" for r
  proof (cases "r = R + j")
    case True
    have "R mod n + sh_dist T xs ((s + t) mod n) \<le> t" if "Suc i \<le> t" "t < n" "used (xs ! ((s + t) mod n))" for t
      using order [of t] that u x(2) by simp
    moreover have "?zs ! ((s + r) mod n') = ?x" using True c len by simp
    ultimately show ?thesis using True j(2,3,4) by (simp add: R_def [symmetric])
  next
    case False
    then have "?zs ! ((s + r) mod n') = zs ! ((s + r) mod n')" using ring_shift [OF s r j(1)] by simp
    with us r g n(1) show ?thesis by (auto simp: grown_def less_Suc_eq)
  qed
  moreover note put = grown_put_robin [OF g n x R_def [THEN meta_eq_to_obj_eq] j(1,2,5,6)]
  moreover have "mset (filter used ?zs) = mset (filter used (take (Suc i) (rotate s xs)))"
    using put(2) g n x(1) by (simp add: grown_def take_rotate_Suc)
  ultimately show ?thesis using len n(1) by (simp add: grown_def)
qed

text \<open>One turn of the loop, and the loop.\<close>

lemma grow_copy_grown:
  assumes sh: "sh_shape tb k" and g: "grown T xs (2 ^ k) s i (sh_data tb)"
    and n: "length xs = n" "n dvd 2 ^ k" "s < n" "i < n"
    and line: "\<And>t. t < n \<Longrightarrow> used (xs ! ((s + t) mod n)) \<Longrightarrow> sh_dist T xs ((s + t) mod n) \<le> t"
      "\<And>t t'. t \<le> t' \<Longrightarrow> t' < n \<Longrightarrow> used (xs ! ((s + t) mod n)) \<Longrightarrow> used (xs ! ((s + t') mod n)) \<Longrightarrow>
        t + sh_dist T xs ((s + t') mod n) \<le> t' + sh_dist T xs ((s + t) mod n)"
  shows "\<exists>zs. grow_copy T (xs ! ((s + i) mod n)) tb = Some (tb\<lparr>sh_data := zs\<rparr>) \<and> grown T xs (2 ^ k) s (Suc i) zs"
proof (cases "used (xs ! ((s + i) mod n))")
  case True
  let ?x = "xs ! ((s + i) mod n)" and ?n' = "2 ^ k :: nat"
  define R where "R = sh_rel T ?n' s ?x"
  have s: "s < ?n'" using n(2,3) by (meson dvd_imp_le less_le_trans zero_less_numeral zero_less_power)
  obtain j where j: "R + j < ?n'" "(R + j) div n = R div n" "R mod n + j \<le> i" "(R + j) mod n = R mod n + j"
    "\<not> used (sh_data tb ! ((s + (R + j)) mod ?n'))" "\<And>l. l < j \<Longrightarrow> used (sh_data tb ! ((s + (R + l)) mod ?n'))"
    by (rule grown_slot [OF g n(1,2) _ n(3,4) True line(1) [OF n(4) True]]) (auto simp: R_def)
  have home: "SH_INITIAL_BUCKET tb (SH_ENTRY_HASH T ?x) = bk ((s + R) mod ?n')"
    using sh_rel_back [OF s, of T ?x] by (simp add: R_def initial_bk [OF sh] sh_home_def)
  have "grow_slot tb (bk ((s + R + 0) mod ?n')) = Some (bk ((s + R + j) mod ?n'))"
    by (rule grow_slot_finds [OF sh]) (use j(5,6) in \<open>simp_all add: add.assoc\<close>)
  then have slot: "grow_slot tb (bk ((s + R) mod ?n')) = Some (bk ((s + (R + j)) mod ?n'))" by (simp add: add.assoc)
  have "unat (bk ((s + (R + j)) mod ?n')) = (s + (R + j)) mod ?n'" by (rule unat_bk [OF sh]) simp
  then have "grow_copy T ?x tb = Some (tb\<lparr>sh_data := (sh_data tb)[(s + (R + j)) mod ?n' := ?x]\<rparr>)"
    using True by (simp add: grow_copy_def used_def home slot)
  moreover have "grown T xs ?n' s (Suc i) ((sh_data tb)[(s + (R + j)) mod ?n' := ?x])"
    unfolding R_def by (rule grown_put [OF g n(1,2) _ n(3,4) True line(1) [OF n(4) True]])
      (use line(2) [OF _ _ True] j in \<open>auto simp: R_def\<close>)
  ultimately show ?thesis by blast
next
  case False
  then show ?thesis using grown_skip [OF g] n by (intro exI [of _ "sh_data tb"]) (simp add: grow_copy_def used_def)
qed

lemma grow_loop_grown:
  assumes n: "length xs = n" "n dvd 2 ^ k" "s < n"
    and line: "\<And>t. t < n \<Longrightarrow> used (xs ! ((s + t) mod n)) \<Longrightarrow> sh_dist T xs ((s + t) mod n) \<le> t"
      "\<And>t t'. t \<le> t' \<Longrightarrow> t' < n \<Longrightarrow> used (xs ! ((s + t) mod n)) \<Longrightarrow> used (xs ! ((s + t') mod n)) \<Longrightarrow>
        t + sh_dist T xs ((s + t') mod n) \<le> t' + sh_dist T xs ((s + t) mod n)"
  shows "sh_shape tb k \<Longrightarrow> i \<le> n \<Longrightarrow> grown T xs (2 ^ k) s i (sh_data tb) \<Longrightarrow>
    \<exists>zs. grow_loop T xs n i ((s + i) mod n) tb = Some (tb\<lparr>sh_data := zs\<rparr>) \<and> grown T xs (2 ^ k) s n zs"
proof (induction "n - i" arbitrary: i tb)
  case 0
  then have "i = n" by simp
  then show ?case using 0 by (intro exI [of _ "sh_data tb"]) (simp add: grow_loop.simps [of T xs n n])
next
  case (Suc d)
  then have i: "i < n" by linarith
  obtain zs where zs: "grow_copy T (xs ! ((s + i) mod n)) tb = Some (tb\<lparr>sh_data := zs\<rparr>)" "grown T xs (2 ^ k) s (Suc i) zs"
    using grow_copy_grown [OF Suc.prems(1,3) n i line] by auto
  have sh: "sh_shape (tb\<lparr>sh_data := zs\<rparr>) k" using Suc.prems(1) zs(2) by (simp add: sh_shape_def grown_def)
  have next_i: "(if (s + i) mod n + 1 \<ge> n then 0 else (s + i) mod n + 1) = (s + (i + 1)) mod n"
  proof -
    have "(s + i) mod n < n" using n(3) by (intro mod_less_divisor) simp
    then have "n \<le> Suc ((s + i) mod n) \<longleftrightarrow> Suc ((s + i) mod n) = n" by linarith
    then show ?thesis by (simp add: mod_Suc)
  qed
  show ?case
    unfolding grow_loop.simps [of T xs n i] next_i
    using Suc.hyps(1) [of "i + 1" "tb\<lparr>sh_data := zs\<rparr>"] Suc.hyps(2) Suc.prems i zs sh by simp
qed

context sh_keys
begin

lemma grown_start: "length xs \<le> n' \<Longrightarrow> grown T xs n' s 0 (replicate n' (SH_ZEROED T))"
proof -
  have "\<not> used (replicate n' (SH_ZEROED T) ! q)" if "q < n'" for q using that zeroed by simp
  moreover have "filter used (replicate n' (SH_ZEROED T)) = []" using zeroed by simp
  moreover have "robin n' (\<lambda>q. used (replicate n' (SH_ZEROED T) ! q)) d" for d
    unfolding robin_def using calculation(1) by (metis less_nat_zero_code mod_less_divisor neq0_conv)
  ultimately show ?thesis unfolding grown_def
    by (simp del: filter_replicate)
qed

lemma grown_table:
  fixes tb :: "('k, 'v) SH_TYPE" and new :: "('k, 'v) SH_TYPE"
  assumes ok: "sh_ok T k tb" and new: "sh_shape (new\<lparr>sh_data := replicate (2 ^ k') (SH_ZEROED T)\<rparr>) k'" "k \<le> k'"
  shows "\<exists>zs. grow_loop T (sh_data tb) (2 ^ k) 0 (grow_start T (new\<lparr>sh_data := replicate (2 ^ k') (SH_ZEROED T)\<rparr>) (sh_data tb) (2 ^ k) 0)
        (new\<lparr>sh_data := replicate (2 ^ k') (SH_ZEROED T)\<rparr>) = Some (new\<lparr>sh_data := zs\<rparr>) \<and>
      length zs = 2 ^ k' \<and> sh_robin T zs \<and> mset (filter used zs) = sh_entries tb"
proof -
  let ?xs = "sh_data tb" and ?n = "2 ^ k :: nat" and ?tb = "new\<lparr>sh_data := replicate (2 ^ k') (SH_ZEROED T)\<rparr>"
  let ?U = "\<lambda>s t. used (?xs ! ((s + t) mod ?n))" and ?D = "\<lambda>s t. sh_dist T ?xs ((s + t) mod ?n)"
  have len: "length ?xs = ?n" by (rule sh_ok_length [OF ok])
  have dvd: "?n dvd 2 ^ k'" by (rule le_imp_power_dvd [OF new(2)])
  obtain e where e: "e < ?n" "\<not> used (?xs ! e)" by (rule sh_ok_empty [OF ok])
  define s where "s = grow_start T ?tb ?xs ?n 0"
  have s: "s < ?n" "used (?xs ! s) \<Longrightarrow> sh_home T ?n (?xs ! s) = s"
    using grow_start_spec [OF len _ _ _ new(1) dvd, of 0] e by (auto simp: s_def)
  have "robin ?n (\<lambda>q. used (?xs ! q)) (sh_dist T ?xs)" using ok len by (simp add: sh_ok_def)
  then have r: "robin ?n (?U s) (?D s)" by (rule iffD1 [OF robin_rotate [OF s(1)]])
  have "?D s 0 = 0" if "?U s 0" using s that by (simp add: ring_dist_def len)
  note line = line_dist [OF r this] line_order [OF r]
  obtain zs where zs: "grow_loop T ?xs ?n 0 ((s + 0) mod ?n) ?tb = Some (?tb\<lparr>sh_data := zs\<rparr>)" "grown T ?xs (2 ^ k') s ?n zs"
    using grow_loop_grown [OF len dvd s(1) line new(1), of 0] grown_start [of ?xs "2 ^ k'" s] len
      power_increasing [OF new(2), of "2 :: nat"] by auto
  have "sh_entries tb = mset (filter used (rotate s ?xs))" by (simp add: sh_entries_def mset_rotate)
  moreover have "length zs = 2 ^ k'" "sh_robin T zs" "mset (filter used zs) = mset (filter used (take ?n (rotate s ?xs)))"
    using zs(2) unfolding grown_def by blast+
  moreover have "take ?n (rotate s ?xs) = rotate s ?xs" by (simp add: len)
  ultimately show ?thesis using zs(1) s(1) by (intro exI [of _ zs]) (simp add: s_def)
qed

theorem grow_keeps:
  assumes ok: "sh_ok T k tb" and size: "2 ^ k < unat newsize" "unat newsize \<le> 2 ^ 32"
  shows "SH_GROW T tb newsize = Some (Inl HashTableTooLarge) \<and> 2 ^ 31 \<le> unat (SH_SIZEOF T) \<or>
    (\<exists>k' tb'. SH_GROW T tb newsize = Some (Inr tb') \<and> k < k' \<and> unat newsize \<le> 2 ^ k' \<and> sh_ok T k' tb' \<and>
       unat (sh_grow_threshold tb') = sh_threshold (2 ^ k') \<and>
       sh_entries tb' = sh_entries tb \<and> sh_members tb' = sh_members tb)"
proof -
  have sh: "sh_shape tb k" using ok by (simp add: sh_ok_def)
  consider (large) "SH_COMPUTE_PARAMETERS T tb newsize = Inl HashTableTooLarge" "2 ^ 31 \<le> unat (SH_SIZEOF T)" | (new) k' sz where "1 \<le> k'" "k' \<le> 32"
      "unat newsize \<le> 2 ^ k'" "unat sz = 2 ^ k'"
      "SH_COMPUTE_PARAMETERS T tb newsize = Inr (tb\<lparr>sh_size := sz, sh_sizemask := mask k',
         sh_grow_threshold := word_of_nat (sh_threshold (2 ^ k'))\<rparr>)"
    using compute_parameters [OF size(2), of T tb] by auto
  then show ?thesis
  proof cases
    case large
    then show ?thesis by (simp add: SH_GROW_def Let_def)
  next
    case new
    let ?new = "tb\<lparr>sh_size := sz, sh_sizemask := mask k', sh_grow_threshold := word_of_nat (sh_threshold (2 ^ k'))\<rparr>"
    have "2 ^ k < (2 :: nat) ^ k'" using size(1) new(3) by linarith
    then have kk: "k < k'" by simp
    have "sh_shape (?new\<lparr>sh_data := replicate (2 ^ k') (SH_ZEROED T)\<rparr>) k'" using new(1,2,4) by (simp add: sh_shape_def)
    from grown_table [OF ok this] kk obtain zs where zs:
      "grow_loop T (sh_data tb) (2 ^ k) 0 (grow_start T (?new\<lparr>sh_data := replicate (2 ^ k') (SH_ZEROED T)\<rparr>) (sh_data tb) (2 ^ k) 0)
        (?new\<lparr>sh_data := replicate (2 ^ k') (SH_ZEROED T)\<rparr>) = Some (?new\<lparr>sh_data := zs\<rparr>)"
      "length zs = 2 ^ k'" "sh_robin T zs" "mset (filter used zs) = sh_entries tb" by auto
    have "SH_GROW T tb newsize = Some (Inr (?new\<lparr>sh_data := zs\<rparr>))"
      using zs(1) new(4,5) sh by (simp add: SH_GROW_def Let_def sh_shape_def)
    moreover have "sh_ok T k' (?new\<lparr>sh_data := zs\<rparr>)"
      using ok zs(2-4) new(1,2,4) kk sh_threshold_mono [of k k'] unat_threshold [OF new(2)]
      by (auto simp: sh_ok_def sh_shape_def sh_entries_def)
    ultimately show ?thesis using kk new(2,3) zs(4) unat_threshold [OF new(2)] by (auto simp: sh_entries_def)
  qed
qed

end

text \<open>The result of an insertion.\<close>

definition insert_result ::
    "('k, 'v) sh_template \<Rightarrow> 'k \<Rightarrow> ('k, 'v) SH_TYPE \<Rightarrow> sh_error + u32 \<times> bool \<Rightarrow> ('k, 'v) SH_TYPE \<Rightarrow> bool" where
  "insert_result T key tb res tb' \<longleftrightarrow>
     (case res of
        Inl e \<Rightarrow> sh_entries tb' = sh_entries tb
      | Inr (i, found) \<Rightarrow>
          unat i < length (sh_data tb') \<and> sh_data tb' ! unat i \<in># sh_entries tb' \<and> SH_EQUAL T (el_key (sh_data tb' ! unat i)) key \<and>
          (if found then sh_entries tb' = sh_entries tb
           else sh_entries tb' = add_mset (sh_data tb' ! unat i) (sh_entries tb) \<and>
             el_key (sh_data tb' ! unat i) = key \<and> (\<forall>x\<in>#sh_entries tb. \<not> SH_EQUAL T (el_key x) key)))"

context sh_keys
begin

lemma entries_ok_add:
  assumes "sh_entries_ok T M" and "SH_STORE_HASH T \<longrightarrow> el_hash x = SH_HASH_KEY T (el_key x)"
    and absent: "\<forall>y\<in>#M. \<not> SH_EQUAL T (el_key y) (el_key x)"
  shows "sh_entries_ok T (add_mset x M)"
proof -
  have "{#y \<in># M. SH_EQUAL T (el_key y) key#} = {#}" if "SH_EQUAL T (el_key x) key" for key
  proof -
    have "set_mset {#y \<in># M. SH_EQUAL T (el_key y) key#} = {}"
      using absent equal_sym [OF that] equal_trans by auto
    then show ?thesis by (simp only: set_mset_eq_empty_iff)
  qed
  then have "size {#y \<in># add_mset x M. SH_EQUAL T (el_key y) key#} \<le> 1" for key
    using assms(1) by (cases "SH_EQUAL T (el_key x) key") (auto simp: sh_entries_ok_def)
  with assms(1,2) show ?thesis by (simp add: sh_entries_ok_def)
qed

lemma inserted_ok:
  assumes ok: "sh_ok T k tb" and ins: "sh_inserted T k key tb tb' p"
    and absent: "\<forall>x\<in>#sh_entries tb. \<not> SH_EQUAL T (el_key x) key" and room: "size (sh_entries tb) < sh_threshold (2 ^ k)"
  shows "sh_ok T k tb'"
proof -
  let ?x = "sh_data tb' ! p"
  have M: "sh_entries tb' = add_mset ?x (sh_entries tb)" "el_key ?x = key"
    "SH_STORE_HASH T \<longrightarrow> el_hash ?x = SH_HASH_KEY T key"
    using ins by (simp_all add: sh_inserted_def)
  have "k \<le> 32" using ok by (simp add: sh_ok_def sh_shape_def)
  then have "size (sh_entries tb) + 1 < 4294967296"
    using room sh_threshold_less [of "2 ^ k"] power_le_32 [of k] by simp
  then have "unat (sh_members tb + 1) = size (sh_entries tb) + 1"
    using ok by (simp add: sh_ok_def unat_word_ariths)
  moreover have "sh_entries_ok T (sh_entries tb')"
    unfolding M(1) using ok absent M(2,3) by (intro entries_ok_add) (auto simp: sh_ok_def)
  ultimately show ?thesis using ok ins room M(1) by (auto simp: sh_ok_def sh_inserted_def)
qed

lemma insert_loop_result:
  assumes ok: "sh_ok T k tb" and room: "size (sh_entries tb) < sh_threshold (2 ^ k)"
  obtains "insert_loop T key (SH_HASH_KEY T key) (SH_INITIAL_BUCKET tb (SH_HASH_KEY T key)) 0 tb = Some (Restart, tb)" "sh_full_enough tb"
  | i found tb' where
      "insert_loop T key (SH_HASH_KEY T key) (SH_INITIAL_BUCKET tb (SH_HASH_KEY T key)) 0 tb = Some (Entry i found, tb')"
      "sh_ok T k tb'" "insert_result T key tb (Inr (i, found)) tb'"
proof -
  have sh: "sh_shape tb k" using ok by (simp add: sh_ok_def)
  let ?c = "unat (SH_HASH_KEY T key) mod 2 ^ k"
  obtain m where m: "m < 2 ^ k" "sh_stop T (sh_data tb) key ((?c + m) mod 2 ^ k)"
    "\<And>i. i < m \<Longrightarrow> \<not> sh_stop T (sh_data tb) key ((?c + i) mod 2 ^ k)"
    by (rule sh_probe [OF ok, of key]) auto
  have start: "SH_INITIAL_BUCKET tb (SH_HASH_KEY T key) = bk ((?c + 0) mod 2 ^ k)" "bk 0 = 0"
    using initial_bk [OF sh] by simp_all
  consider "insert_loop T key (SH_HASH_KEY T key) (bk ((?c + 0) mod 2 ^ k)) (bk 0) tb = Some (Restart, tb)" "sh_full_enough tb"
    | p where "insert_loop T key (SH_HASH_KEY T key) (bk ((?c + 0) mod 2 ^ k)) (bk 0) tb = Some (Entry (bk p) True, tb)"
        "p < 2 ^ k" "used (sh_data tb ! p)" "SH_EQUAL T (el_key (sh_data tb ! p)) key"
    | p tb' where "insert_loop T key (SH_HASH_KEY T key) (bk ((?c + 0) mod 2 ^ k)) (bk 0) tb = Some (Entry (bk p) False, tb')"
        "sh_inserted T k key tb tb' p" "\<forall>x\<in>#sh_entries tb. \<not> SH_EQUAL T (el_key x) key"
    using insert_loop_done [OF ok m, of 0] by auto
  then show thesis
  proof cases
    case 1
    then show ?thesis using that(1) start by simp
  next
    case 2
    have "unat (bk p) = p" by (rule unat_bk [OF sh 2(2)])
    then have "insert_result T key tb (Inr (bk p, True)) tb"
      using 2 entry_in [of p tb] sh_ok_length [OF ok] by (simp add: insert_result_def)
    then show ?thesis using that(2) [OF _ ok] 2(1) start by simp
  next
    case 3
    have p: "unat (bk p) = p" using 3(2) by (intro unat_bk [OF sh]) (simp add: sh_inserted_def)
    show ?thesis
    proof (rule that(2))
      show "insert_loop T key (SH_HASH_KEY T key) (SH_INITIAL_BUCKET tb (SH_HASH_KEY T key)) 0 tb = Some (Entry (bk p) False, tb')"
        using 3(1) start by simp
      show "sh_ok T k tb'" by (rule inserted_ok [OF ok 3(2,3) room])
      show "insert_result T key tb (Inr (bk p, False)) tb'"
        using 3(2,3) equal_refl by (simp add: insert_result_def p sh_inserted_def sh_shape_def)
    qed
  qed
qed

lemma insert_result_trans:
  "sh_entries tb1 = sh_entries tb \<Longrightarrow> insert_result T key tb1 res tb' \<Longrightarrow> insert_result T key tb res tb'"
  by (simp only: insert_result_def)

lemma sh_ok_restart: "sh_ok T k tb \<Longrightarrow> sh_ok T k (tb\<lparr>sh_grow_threshold := 0\<rparr>)"
  by (auto simp: sh_ok_def sh_shape_def sh_entries_def)

text \<open>What a round of the insertion has come to: an error, the entry, or another round in a table that
  is full enough to grow.\<close>

lemma insert_round:
  assumes ok: "sh_ok T k1 tb1" and room: "size (sh_entries tb1) < sh_threshold (2 ^ k1)"
    and same: "sh_entries tb1 = sh_entries tb"
    and eq: "SH_INSERT_HASH_INTERNAL T key (SH_HASH_KEY T key) tb = do {
      (r, tb) \<leftarrow> insert_loop T key (SH_HASH_KEY T key) (SH_INITIAL_BUCKET tb1 (SH_HASH_KEY T key)) 0 tb1;
      (case r of
         Restart \<Rightarrow> SH_INSERT_HASH_INTERNAL T key (SH_HASH_KEY T key) (tb\<lparr>sh_grow_threshold := 0\<rparr>)
       | Entry i found \<Rightarrow> Some (Inr (i, found), tb)) }"
  obtains (entry) i found tb' where "SH_INSERT_HASH_INTERNAL T key (SH_HASH_KEY T key) tb = Some (Inr (i, found), tb')"
      "sh_ok T k1 tb'" "insert_result T key tb (Inr (i, found)) tb'"
    | (again) "SH_INSERT_HASH_INTERNAL T key (SH_HASH_KEY T key) tb =
        SH_INSERT_HASH_INTERNAL T key (SH_HASH_KEY T key) (tb1\<lparr>sh_grow_threshold := 0\<rparr>)" "sh_full_enough tb1"
proof (rule insert_loop_result [OF ok room, of key])
  assume "insert_loop T key (SH_HASH_KEY T key) (SH_INITIAL_BUCKET tb1 (SH_HASH_KEY T key)) 0 tb1 = Some (Restart, tb1)"
    "sh_full_enough tb1"
  then show thesis using eq by (intro again) simp_all
next
  fix i found tb'
  assume "insert_loop T key (SH_HASH_KEY T key) (SH_INITIAL_BUCKET tb1 (SH_HASH_KEY T key)) 0 tb1 = Some (Entry i found, tb')"
    "sh_ok T k1 tb'" "insert_result T key tb1 (Inr (i, found)) tb'"
  then show thesis using eq insert_result_trans [OF same] by (intro entry) simp_all
qed

lemma insert_step:
  assumes ok: "sh_ok T k tb"
  obtains (error) e where "SH_INSERT_HASH_INTERNAL T key (SH_HASH_KEY T key) tb = Some (Inl e, tb)"
      "2 ^ 31 \<le> unat (SH_SIZEOF T) \<or> k = 32"
    | (entry) k1 i found tb' where "SH_INSERT_HASH_INTERNAL T key (SH_HASH_KEY T key) tb = Some (Inr (i, found), tb')"
      "sh_ok T k1 tb'" "k \<le> k1" "insert_result T key tb (Inr (i, found)) tb'"
    | (again) k1 tb1 where "SH_INSERT_HASH_INTERNAL T key (SH_HASH_KEY T key) tb =
        SH_INSERT_HASH_INTERNAL T key (SH_HASH_KEY T key) (tb1\<lparr>sh_grow_threshold := 0\<rparr>)"
      "sh_ok T k1 tb1" "sh_full_enough tb1" "sh_entries tb1 = sh_entries tb" "sh_members tb1 = sh_members tb"
      "k < k1 \<or> k1 = k \<and> sh_grow_threshold tb \<noteq> 0"
proof -
  let ?h = "SH_HASH_KEY T key"
  have k: "1 \<le> k" "k \<le> 32" "unat (sh_size tb) = 2 ^ k" using ok by (simp_all add: sh_ok_def sh_shape_def)
  note simps = SH_INSERT_HASH_INTERNAL.simps [of T key ?h tb]
  consider (room) "\<not> sh_grow_threshold tb \<le> sh_members tb" | (max) "sh_grow_threshold tb \<le> sh_members tb" "sh_size tb = SH_MAX_SIZE"
    | (grow) "sh_grow_threshold tb \<le> sh_members tb" "sh_size tb \<noteq> SH_MAX_SIZE" by blast
  then show thesis
  proof cases
    case room
    then have thr: "sh_grow_threshold tb \<noteq> 0" by auto
    then have free: "size (sh_entries tb) < sh_threshold (2 ^ k)" using room ok by (auto simp: sh_ok_def word_le_nat_alt)
    have "SH_INSERT_HASH_INTERNAL T key ?h tb = do {
        (r, tb) \<leftarrow> insert_loop T key ?h (SH_INITIAL_BUCKET tb ?h) 0 tb;
        (case r of
           Restart \<Rightarrow> SH_INSERT_HASH_INTERNAL T key ?h (tb\<lparr>sh_grow_threshold := 0\<rparr>)
         | Entry i found \<Rightarrow> Some (Inr (i, found), tb)) }" using room simps by simp
    from insert_round [OF ok free refl this] show thesis using ok thr by cases (blast intro: entry again)+
  next
    case max
    have "(2 :: nat) ^ k = 2 ^ 32" using k(3) max by (simp add: SH_MAX_SIZE_def)
    then have "k = 32" by (simp only: power_inject_exp)
    then show thesis using max simps by (intro error [of HashTableSizeExceeded]) simp_all
  next
    case grow
    have "k \<noteq> 32" using k(3) grow(2) by (auto simp: SH_MAX_SIZE_def word_unat_eq_iff)
    then have lt: "k < 32" using k(2) by simp
    have "(2 :: nat) ^ (k + 1) \<le> 2 ^ 32" using lt by (intro power_increasing) auto
    then have double: "unat (sh_size tb * 2) = 2 * 2 ^ k" "2 * 2 ^ k \<le> (2 :: nat) ^ 32"
      using k(3) by (simp_all add: unat_word_ariths)
    from grow_keeps [OF ok, of "sh_size tb * 2"] double
    consider "SH_GROW T tb (sh_size tb * 2) = Some (Inl HashTableTooLarge)" "2 ^ 31 \<le> unat (SH_SIZEOF T)"
      | k1 tb1 where "SH_GROW T tb (sh_size tb * 2) = Some (Inr tb1)" "k < k1" "sh_ok T k1 tb1"
          "sh_entries tb1 = sh_entries tb" "sh_members tb1 = sh_members tb" by auto
    then show thesis
    proof cases
      case 1
      then show thesis using grow simps by (intro error [of HashTableTooLarge]) simp_all
    next
      case 2
      have "k1 \<le> 32" using 2(3) by (simp add: sh_ok_def sh_shape_def)
      have "size (sh_entries tb) \<le> sh_threshold (2 ^ k)" using ok by (simp add: sh_ok_def)
      also have "\<dots> < sh_threshold (2 ^ k1)" by (rule sh_threshold_mono [OF k(1) 2(2) \<open>k1 \<le> 32\<close>])
      finally have free: "size (sh_entries tb1) < sh_threshold (2 ^ k1)" using 2(4) by simp
      have "SH_INSERT_HASH_INTERNAL T key ?h tb = do {
          (r, tb) \<leftarrow> insert_loop T key ?h (SH_INITIAL_BUCKET tb1 ?h) 0 tb1;
          (case r of
             Restart \<Rightarrow> SH_INSERT_HASH_INTERNAL T key ?h (tb\<lparr>sh_grow_threshold := 0\<rparr>)
           | Entry i found \<Rightarrow> Some (Inr (i, found), tb)) }" using grow 2(1) simps by simp
      from insert_round [OF 2(3) free 2(4) this] show thesis using 2 by cases (blast intro: entry again less_imp_le)+
    qed
  qed
qed

theorem insert_inserts:
  "sh_ok T k tb \<Longrightarrow>
     \<exists>res tb' k'. SH_INSERT_HASH_INTERNAL T key (SH_HASH_KEY T key) tb = Some (res, tb') \<and> sh_ok T k' tb' \<and> k \<le> k' \<and>
       insert_result T key tb res tb' \<and>
       (unat (SH_SIZEOF T) < 2 ^ 31 \<and> k < 32 \<and> 10 * unat (sh_members tb) < 2 ^ 31 \<longrightarrow> (\<exists>e. res = Inr e))"
proof (induction "2 * (32 - k) + (if sh_grow_threshold tb = 0 then 0 else 1 :: nat)" arbitrary: k tb rule: less_induct)
  case less
  show ?case
  proof (rule insert_step [OF less.prems, of key])
    fix e
    assume "SH_INSERT_HASH_INTERNAL T key (SH_HASH_KEY T key) tb = Some (Inl e, tb)" "2 ^ 31 \<le> unat (SH_SIZEOF T) \<or> k = 32"
    with less.prems show ?thesis
      by (intro exI [of _ "Inl e"] exI [of _ tb] exI [of _ k]) (auto simp: insert_result_def)
  next
    fix k1 i found tb'
    assume "SH_INSERT_HASH_INTERNAL T key (SH_HASH_KEY T key) tb = Some (Inr (i, found), tb')" "sh_ok T k1 tb'" "k \<le> k1"
      "insert_result T key tb (Inr (i, found)) tb'"
    then show ?thesis by blast
  next
    fix k1 and tb1 :: "('k, 'v) SH_TYPE"
    let ?tb = "tb1\<lparr>sh_grow_threshold := 0\<rparr>"
    assume a: "SH_INSERT_HASH_INTERNAL T key (SH_HASH_KEY T key) tb = SH_INSERT_HASH_INTERNAL T key (SH_HASH_KEY T key) ?tb"
      "sh_ok T k1 tb1" "sh_full_enough tb1" "sh_entries tb1 = sh_entries tb" "sh_members tb1 = sh_members tb"
      "k < k1 \<or> k1 = k \<and> sh_grow_threshold tb \<noteq> 0"
    have k1: "k1 \<le> 32" "unat (sh_size tb1) = 2 ^ k1" using a(2) by (simp_all add: sh_ok_def sh_shape_def)
    have "k1 < 32" if "10 * unat (sh_members tb) < 2 ^ 31"
    proof -
      have "(2 :: nat) ^ k1 < 2 ^ 31" using that a(3,5) k1(2) by (simp add: sh_full_enough_def)
      then have "k1 < 31" by (rule power_less_imp_less_exp [rotated]) simp
      then show ?thesis by simp
    qed
    moreover have "2 * (32 - k1) + (if sh_grow_threshold ?tb = 0 then 0 else 1 :: nat)
        < 2 * (32 - k) + (if sh_grow_threshold tb = 0 then 0 else 1)" using a(6) k1(1) by auto
    note less.hyps [OF this sh_ok_restart [OF a(2)]]
    moreover have "sh_entries ?tb = sh_entries tb" using a(4) by (simp add: sh_entries_def)
    ultimately show ?thesis using a(1,5,6) insert_result_trans [of ?tb tb] by (auto 4 4)
  qed
qed

end

end
