(* ===== verification/SimpleHashDelete.thy ===== *)
theory SimpleHashDelete
  imports SimpleHashGrow
begin

text \<open>The backward shift of a deletion in \<open>lib/simplehash.h\<close>: the run of elements behind the deleted one
  that are away from their home moves down by one bucket.  It loses that element and nothing else
  (\<open>delete_entries\<close>) and keeps the order (\<open>delete_robin\<close>); \<open>delete_item_deletes\<close> and \<open>delete_deletes\<close> are the results
  for the two deletions.\<close>

unbundle bit_operations_syntax

section \<open>Deletion\<close>

lemma robin_delete_0:
  assumes r: "robin n U D" and m: "1 \<le> m" "m < n" "\<And>i. i < m \<Longrightarrow> U i" "\<And>i. 1 \<le> i \<Longrightarrow> i < m \<Longrightarrow> D i \<noteq> 0"
      "U m \<Longrightarrow> D m = 0"
    and U': "\<And>i. i < n \<Longrightarrow> U' i \<longleftrightarrow> U i \<and> i \<noteq> m - 1"
    and D': "\<And>i. i < m - 1 \<Longrightarrow> D' i = D (i + 1) - 1" "\<And>i. m \<le> i \<Longrightarrow> i < n \<Longrightarrow> D' i = D i"
  shows "robin n U' D'"
  unfolding robin_def
proof (intro allI impI)
  fix q assume q: "q < n" and u: "U' ((q + 1) mod n)"
  show "D' ((q + 1) mod n) \<le> (if U' q then D' q + 1 else 0)"
  proof (cases "q + 1 = n")
    case True
    then have "(q + 1) mod n = 0" "m \<le> q" using m(2) by simp_all
    moreover have "1 < m" using u U' [of 0] calculation(1) m(1,2) by (cases "m = 1") auto
    moreover have "D 0 \<le> (if U q then D q + 1 else 0)" using robinD [OF r q] m(1,3) calculation(1) by simp
    moreover have "D 1 \<le> D 0 + 1" using robinD [OF r, of 0] m calculation(3) by simp
    ultimately show ?thesis using D'(1) [of 0] D'(2) [of q] U' [of q] q by auto
  next
    case False
    then have s: "(q + 1) mod n = q + 1" "q + 1 < n" using q by simp_all
    have old: "U (q + 1) \<Longrightarrow> D (q + 1) \<le> (if U q then D q + 1 else 0)" using robinD [OF r q] s by simp
    consider "q + 1 < m - 1" | "q + 1 = m - 1" | "q + 1 = m" | "m \<le> q" by linarith
    then show ?thesis
    proof cases
      case 1
      have "D (q + 2) \<le> D (q + 1) + 1" using robinD [OF r, of "q + 1"] m(2,3) 1 by simp
      moreover have "D (q + 1) \<noteq> 0" using m(4) [of "q + 1"] 1 by simp
      ultimately show ?thesis using s 1 D'(1) [of "q + 1"] D'(1) [of q] U' [of q] m(3) [of q] q by auto
    next
      case 2
      then show ?thesis using s u U' [of "q + 1"] by simp
    next
      case 3
      then show ?thesis using s u U' [of "q + 1"] D'(2) [of "q + 1"] m(5) by simp
    next
      case 4
      then show ?thesis using s u old U' [of q] U' [of "q + 1"] D'(2) [of q] D'(2) [of "q + 1"] m(1) q by auto
    qed
  qed
qed

lemma ring_dist_prev:
  assumes "q < n" "hm' q = hm ((q + 1) mod n)" "hm' q < n" "ring_dist n hm ((q + 1) mod n) \<noteq> 0"
  shows "ring_dist n hm' q = ring_dist n hm ((q + 1) mod n) - 1"
proof -
  have "(ring_dist n hm' q + 1) mod n = ((q + (n - hm' q)) mod n + 1) mod n" using assms(3) by (simp add: ring_dist_def)
  also have "\<dots> = ((q + 1) mod n + (n - hm' q)) mod n" by (simp add: mod_simps)
  also have "\<dots> = ring_dist n hm ((q + 1) mod n)" using assms(2,3) by (simp add: ring_dist_def)
  finally have e: "(ring_dist n hm' q + 1) mod n = ring_dist n hm ((q + 1) mod n)" .
  have "ring_dist n hm' q < n" using assms(1) by (simp add: ring_dist_def)
  then have "ring_dist n hm' q + 1 = n \<or> ring_dist n hm' q + 1 < n" by linarith
  with e assms(4) show ?thesis by auto
qed

text \<open>What the backward shift does: the next \<open>m - 1\<close> elements move down by one bucket.\<close>

definition shifted_back :: "nat \<Rightarrow> nat \<Rightarrow> nat \<Rightarrow> ('k, 'v) SH_ELEMENT_TYPE list \<Rightarrow> ('k, 'v) SH_ELEMENT_TYPE list \<Rightarrow> bool" where
  "shifted_back n p m xs ys \<longleftrightarrow>
     length ys = n \<and>
     (\<forall>r<n. ys ! ((p + r) mod n) =
        (if r < m - 1 then xs ! ((p + r + 1) mod n)
         else if r = m - 1 then (xs ! ((p + r) mod n))\<lparr>el_status := SH_EMPTY\<rparr>
         else xs ! ((p + r) mod n)))"

lemma shifted_backD:
  "shifted_back n p m xs ys \<Longrightarrow> r < n \<Longrightarrow> ys ! ((p + r) mod n) =
     (if r < m - 1 then xs ! ((p + r + 1) mod n)
      else if r = m - 1 then (xs ! ((p + r) mod n))\<lparr>el_status := SH_EMPTY\<rparr>
      else xs ! ((p + r) mod n))"
  by (simp add: shifted_back_def)

lemma shifted_back_1:
  assumes "p < n" "length xs = n"
  shows "shifted_back n p (Suc 0) xs (xs[p := (xs ! p)\<lparr>el_status := SH_EMPTY\<rparr>])"
proof -
  have "p \<noteq> (p + r) mod n" if "r < n" "r \<noteq> 0" for r
    using ring_shift [OF assms(1) that(1), of 0] that assms(1) by simp
  then show ?thesis using assms by (auto simp: shifted_back_def)
qed

lemma shifted_back_step:
  assumes p: "p < n" "length xs = n" and m: "1 \<le> m" "Suc m < n"
    and sb: "shifted_back n ((p + 1) mod n) m (xs[p := xs ! ((p + 1) mod n)]) ys"
  shows "shifted_back n p (Suc m) xs ys"
  unfolding shifted_back_def
proof (intro conjI allI impI)
  let ?p1 = "(p + 1) mod n" and ?xs1 = "xs[p := xs ! ((p + 1) mod n)]"
  show "length ys = n" using sb by (simp add: shifted_back_def)
  fix r assume r: "r < n"
  have other: "?xs1 ! ((p + l) mod n) = xs ! ((p + l) mod n)" if "1 \<le> l" "l < n" for l
    using ring_shift [of p n l 0] that p by simp
  show "ys ! ((p + r) mod n) = (if r < Suc m - 1 then xs ! ((p + r + 1) mod n)
      else if r = Suc m - 1 then (xs ! ((p + r) mod n))\<lparr>el_status := SH_EMPTY\<rparr> else xs ! ((p + r) mod n))"
  proof (cases r)
    case 0
    have "(?p1 + (n - 1)) mod n = (p + 1 + (n - 1)) mod n" by (rule mod_add_left_eq)
    also have "p + 1 + (n - 1) = p + n" using p(1) by simp
    finally have "(?p1 + (n - 1)) mod n = p" using p(1) by simp
    moreover have "ys ! ((?p1 + (n - 1)) mod n) = ?xs1 ! ((?p1 + (n - 1)) mod n)"
      by (subst shifted_backD [OF sb]) (use m in auto)
    ultimately show ?thesis using 0 p m by simp
  next
    case (Suc l)
    have e: "(?p1 + l) mod n = (p + r) mod n" "(?p1 + l + 1) mod n = (p + (r + 1)) mod n"
      using Suc mod_add_left_eq [of "p + 1" n l] mod_add_left_eq [of "p + 1" n "l + 1"] by simp_all
    have "ys ! ((?p1 + l) mod n) = (if l < m - 1 then ?xs1 ! ((?p1 + l + 1) mod n)
        else if l = m - 1 then (?xs1 ! ((?p1 + l) mod n))\<lparr>el_status := SH_EMPTY\<rparr> else ?xs1 ! ((?p1 + l) mod n))"
      by (rule shifted_backD [OF sb]) (use r Suc in simp)
    then show ?thesis using Suc m r other [of r] other [of "r + 1"] unfolding e by auto
  qed
qed

lemma shift_back_moves:
  "sh_shape tb k \<Longrightarrow> p < 2 ^ k \<Longrightarrow> m < 2 ^ k - 1 \<Longrightarrow>
   (\<And>i. 1 \<le> i \<Longrightarrow> i \<le> m \<Longrightarrow> used (sh_data tb ! ((p + i) mod 2 ^ k)) \<and> sh_home T (2 ^ k) (sh_data tb ! ((p + i) mod 2 ^ k)) \<noteq> (p + i) mod 2 ^ k) \<Longrightarrow>
   (used (sh_data tb ! ((p + Suc m) mod 2 ^ k)) \<Longrightarrow> sh_home T (2 ^ k) (sh_data tb ! ((p + Suc m) mod 2 ^ k)) = (p + Suc m) mod 2 ^ k) \<Longrightarrow>
   \<exists>ys. shift_back T (bk p) tb = Some (tb\<lparr>sh_data := ys\<rparr>) \<and> shifted_back (2 ^ k) p (Suc m) (sh_data tb) ys"
proof (induction m arbitrary: p tb)
  case (0 p tb)
  let ?q = "(p + 1) mod 2 ^ k"
  have u: "unat (bk p) = p" "unat (bk ?q) = ?q" "SH_NEXT tb (bk p) = bk ?q"
    using unat_bk [OF 0(1,2)] unat_bk [OF 0(1), of ?q] next_bk [OF 0(1,2)] by simp_all
  have "shift_back T (bk p) tb = Some (tb\<lparr>sh_data := (sh_data tb)[p := (sh_data tb ! p)\<lparr>el_status := SH_EMPTY\<rparr>]\<rparr>)"
    using 0(5) unfolding shift_back.simps [of T "bk p" tb] u Let_def
    by (auto simp: used_def initial_bk [OF 0(1)] sh_home_def)
  then show ?case using shifted_back_1 [OF 0(2), of "sh_data tb"] 0(1) by (auto simp: sh_shape_def)
next
  case (Suc m p tb)
  let ?n = "2 ^ k" and ?q = "(p + 1) mod 2 ^ k" and ?xs = "sh_data tb"
  let ?tb = "tb\<lparr>sh_data := ?xs[p := ?xs ! ?q]\<rparr>"
  have sh: "sh_shape tb k" and p: "p < ?n" by (rule Suc.prems(1,2))+
  have q: "?q < ?n" by simp
  have u: "unat (bk p) = p" "unat (bk ?q) = ?q" "SH_NEXT tb (bk p) = bk ?q"
    using unat_bk [OF sh p] unat_bk [OF sh q] next_bk [OF sh p] by simp_all
  have len: "length ?xs = ?n" using sh by (simp add: sh_shape_def)
  have sh': "sh_shape ?tb k" using sh by (simp add: sh_shape_def)
  have idx: "(?q + i) mod ?n = (p + Suc i) mod ?n" for i by (simp add: mod_simps)
  have same: "sh_data ?tb ! ((p + Suc i) mod ?n) = ?xs ! ((p + Suc i) mod ?n)" if "Suc i < ?n" for i
    using ring_shift [of p ?n "Suc i" 0] that p by simp
  have "\<exists>ys. shift_back T (bk ?q) ?tb = Some (?tb\<lparr>sh_data := ys\<rparr>) \<and> shifted_back ?n ?q (Suc m) (sh_data ?tb) ys"
  proof (rule Suc.IH [OF sh' q])
    show "m < ?n - 1" using Suc.prems(3) by simp
    show "used (sh_data ?tb ! ((?q + i) mod ?n)) \<and> sh_home T ?n (sh_data ?tb ! ((?q + i) mod ?n)) \<noteq> (?q + i) mod ?n" if "1 \<le> i" "i \<le> m" for i
      using Suc.prems(4) [of "Suc i"] Suc.prems(3) that same [of i] unfolding idx by simp
    show "sh_home T ?n (sh_data ?tb ! ((?q + Suc m) mod ?n)) = (?q + Suc m) mod ?n" if "used (sh_data ?tb ! ((?q + Suc m) mod ?n))"
      using that Suc.prems(3,5) same [of "Suc m"] unfolding idx by simp
  qed
  then obtain ys where ys: "shift_back T (bk ?q) ?tb = Some (?tb\<lparr>sh_data := ys\<rparr>)" "shifted_back ?n ?q (Suc m) (sh_data ?tb) ys" by blast
  have "used (?xs ! ?q)" "sh_home T ?n (?xs ! ?q) \<noteq> ?q" using Suc.prems(4) [of 1] by simp_all
  then have "shift_back T (bk p) tb = Some (tb\<lparr>sh_data := ys\<rparr>)"
    using ys(1) bk_inject [OF sh, of "sh_home T ?n (?xs ! ?q)" ?q]
    unfolding shift_back.simps [of T "bk p" tb] u Let_def by (simp add: used_def initial_bk [OF sh] sh_home_def)
  moreover have "shifted_back ?n p (Suc (Suc m)) ?xs ys"
    by (rule shifted_back_step [OF p len]) (use Suc.prems(3) ys(2) in simp_all)
  ultimately show ?case by blast
qed

lemma delete_entries:
  assumes len: "length xs = n" and p: "p < n" and m: "1 \<le> m" "m < n" and u: "\<And>i. i < m \<Longrightarrow> used (xs ! ((p + i) mod n))"
    and sb: "shifted_back n p m xs ys"
  shows "mset (filter used xs) = add_mset (xs ! p) (mset (filter used ys))"
proof -
  let ?rs = "rotate p xs" and ?e = "(xs ! ((p + (m - 1)) mod n))\<lparr>el_status := SH_EMPTY\<rparr>"
  have ys: "length ys = n" using sb by (simp add: shifted_back_def)
  have rs: "?rs ! i = xs ! ((p + i) mod n)" if "i < n" for i using that len by (simp add: nth_rotate)
  have "rotate p ys = take (m - 1) (drop 1 ?rs) @ ?e # drop m ?rs"
  proof (rule nth_equalityI)
    fix i assume "i < length (rotate p ys)"
    then have i: "i < n" using ys by simp
    have old: "rotate p ys ! i = ys ! ((p + i) mod n)" using i ys by (simp add: nth_rotate)
    have l: "length (take (m - 1) (drop 1 ?rs)) = m - 1" using m len by simp
    consider "i < m - 1" | "i = m - 1" | "m \<le> i" by linarith
    then show "rotate p ys ! i = (take (m - 1) (drop 1 ?rs) @ ?e # drop m ?rs) ! i"
    proof cases
      case 1
      then have "(take (m - 1) (drop 1 ?rs) @ ?e # drop m ?rs) ! i = ?rs ! (i + 1)" using l m len by (simp add: nth_append)
      then show ?thesis using old shifted_backD [OF sb i] 1 m by (simp add: rs)
    next
      case 2
      then show ?thesis using old shifted_backD [OF sb i] l by (simp add: nth_append)
    next
      case 3
      then have "(take (m - 1) (drop 1 ?rs) @ ?e # drop m ?rs) ! i = ?rs ! i" using l m i len by (simp add: nth_append nth_Cons')
      then show ?thesis using old shifted_backD [OF sb i] 3 m i by (simp add: rs)
    qed
  qed (use m len ys in auto)
  moreover have "\<not> used ?e" by (simp add: used_def)
  ultimately have "mset (filter used ys) = mset (filter used (take (m - 1) (drop 1 ?rs) @ drop m ?rs))"
    using mset_filter_rotate [of used p ys] by simp
  moreover have "mset (filter used xs) = mset (filter used (?rs ! 0 # take (m - 1) (drop 1 ?rs) @ drop m ?rs))"
  proof -
    have "drop m ?rs = drop (m - 1) (drop 1 ?rs)" using m(1) by simp
    then have "take (m - 1) (drop 1 ?rs) @ drop m ?rs = drop 1 ?rs" by (simp only: append_take_drop_id)
    moreover have "?rs ! 0 # drop 1 ?rs = ?rs" using p len Cons_nth_drop_Suc [of 0 ?rs] by simp
    ultimately show ?thesis by (simp only: mset_filter_rotate)
  qed
  moreover have "?rs ! 0 = xs ! p" "used (xs ! p)" using rs [of 0] u [of 0] p m by simp_all
  ultimately show ?thesis by simp
qed

lemma delete_robin:
  assumes len: "length xs = n" and p: "p < n" and m: "1 \<le> m" "m < n"
    and u: "\<And>i. i < m \<Longrightarrow> used (xs ! ((p + i) mod n))"
    and far: "\<And>i. 1 \<le> i \<Longrightarrow> i < m \<Longrightarrow> sh_home T n (xs ! ((p + i) mod n)) \<noteq> (p + i) mod n"
    and near: "used (xs ! ((p + m) mod n)) \<Longrightarrow> sh_home T n (xs ! ((p + m) mod n)) = (p + m) mod n"
    and sb: "shifted_back n p m xs ys" and r: "sh_robin T xs"
  shows "sh_robin T ys"
proof -
  have n: "n > 0" using p by simp
  have ys: "length ys = n" using sb by (simp add: shifted_back_def)
  let ?d = "sh_dist T xs" and ?d' = "sh_dist T ys"
  have home: "sh_home T n y < n" for y using n by (simp add: sh_home_def)
  have r0: "robin n (\<lambda>i. used (xs ! ((p + i) mod n))) (\<lambda>i. ?d ((p + i) mod n))"
    using r robin_rotate [OF p, of "\<lambda>q. used (xs ! q)" ?d] by (simp add: len)
  have away: "?d ((p + i) mod n) \<noteq> 0" if "1 \<le> i" "i < m" for i
    using far [OF that] ring_back [OF n, of "(p + i) mod n" "\<lambda>q. sh_home T n (xs ! q)"] n home
    by (metis add.right_neutral len mod_less mod_less_divisor)
  have "robin n (\<lambda>i. used (ys ! ((p + i) mod n))) (\<lambda>i. ?d' ((p + i) mod n))"
  proof (rule robin_delete_0 [OF r0 m u away])
    show "?d ((p + m) mod n) = 0" if "used (xs ! ((p + m) mod n))"
      using near [OF that] by (simp add: ring_dist_def len)
    show "used (ys ! ((p + i) mod n)) \<longleftrightarrow> used (xs ! ((p + i) mod n)) \<and> i \<noteq> m - 1" if "i < n" for i
      using shifted_backD [OF sb that] u [of i] u [of "i + 1"] by (auto simp: used_def)
    show "?d' ((p + i) mod n) = ?d ((p + (i + 1)) mod n) - 1" if i: "i < m - 1" for i
    proof -
      let ?q = "(p + i) mod n"
      have q: "?q < n" "(?q + 1) mod n = (p + (i + 1)) mod n" using n by (simp_all add: mod_Suc_eq)
      have "ys ! ?q = xs ! ((?q + 1) mod n)" using shifted_backD [OF sb, of i] i m q(2) by simp
      moreover have "?d ((?q + 1) mod n) \<noteq> 0" using away [of "i + 1"] i q(2) by simp
      ultimately show ?thesis
        using ring_dist_prev [of ?q n "\<lambda>q. sh_home T n (ys ! q)" "\<lambda>q. sh_home T n (xs ! q)"] q home
        by (simp add: len ys)
    qed
    show "?d' ((p + i) mod n) = ?d ((p + i) mod n)" if "m \<le> i" "i < n" for i
      using shifted_backD [OF sb that(2)] that(1) m(1) by (simp add: ring_dist_def len ys)
  qed auto
  then show ?thesis using robin_rotate [OF p, of "\<lambda>q. used (ys ! q)" ?d'] by (simp add: ys)
qed

text \<open>The run of elements behind \<open>p\<close> that are away from their home ends before the ring closes.\<close>

lemma delete_run:
  assumes p: "p < n" "e < n" "\<not> used (xs ! e)" "used (xs ! p)"
  obtains m where "m < n - 1"
    "\<And>i. 1 \<le> i \<Longrightarrow> i \<le> m \<Longrightarrow> used (xs ! ((p + i) mod n)) \<and> sh_home T n (xs ! ((p + i) mod n)) \<noteq> (p + i) mod n"
    "used (xs ! ((p + Suc m) mod n)) \<Longrightarrow> sh_home T n (xs ! ((p + Suc m) mod n)) = (p + Suc m) mod n"
proof -
  let ?P = "\<lambda>m. \<not> (used (xs ! ((p + Suc m) mod n)) \<and> sh_home T n (xs ! ((p + Suc m) mod n)) \<noteq> (p + Suc m) mod n)"
  define j where "j = (e + n - p) mod n"
  have j: "j < n" "(p + j) mod n = e" using p by (simp_all add: j_def mod_add_right_eq)
  have "j \<noteq> 0" using j(2) p by (cases j) auto
  then obtain i where i: "j = Suc i" by (cases j) auto
  have "?P i" using j(2) p(3) i by simp
  then have "(LEAST m. ?P m) \<le> i" "?P (LEAST m. ?P m)" by (rule Least_le, rule LeastI)
  then have m: "(LEAST m. ?P m) < n - 1" "?P (LEAST m. ?P m)" using i j(1) by linarith+
  have "\<not> ?P (l - 1)" if "1 \<le> l" "l \<le> (LEAST m. ?P m)" for l
    by (rule not_less_Least) (use that in linarith)
  then show thesis using m by (intro that [of "LEAST m. ?P m"]) auto
qed

lemma entries_ok_remove:
  assumes ok: "sh_entries_ok T (add_mset x M)" shows "sh_entries_ok T M"
  unfolding sh_entries_ok_def
proof (intro conjI allI)
  show "\<forall>x\<in>#M. SH_STORE_HASH T \<longrightarrow> el_hash x = SH_HASH_KEY T (el_key x)" using ok by (simp add: sh_entries_ok_def)
  fix key
  have "size {#y \<in># M. SH_EQUAL T (el_key y) key#} \<le> size {#y \<in># add_mset x M. SH_EQUAL T (el_key y) key#}"
    by (intro size_mset_mono multiset_filter_mono) simp
  also have "\<dots> \<le> 1" using ok unfolding sh_entries_ok_def by blast
  finally show "size {#y \<in># M. SH_EQUAL T (el_key y) key#} \<le> 1" .
qed

text \<open>What the deletion of bucket \<open>p\<close> has done; the moved elements are those of the run behind it.\<close>

lemma shift_back_deletes:
  assumes ok: "sh_ok T k tb" and p: "p < 2 ^ k" "used (sh_data tb ! p)"
  obtains m ys where "m < 2 ^ k - 1" "shift_back T (bk p) (tb\<lparr>sh_members := sh_members tb - 1\<rparr>) =
      Some (tb\<lparr>sh_members := sh_members tb - 1, sh_data := ys\<rparr>)"
    "shifted_back (2 ^ k) p (Suc m) (sh_data tb) ys"
    "\<forall>i. 1 \<le> i \<and> i \<le> m \<longrightarrow> used (sh_data tb ! ((p + i) mod 2 ^ k))"
    "sh_ok T k (tb\<lparr>sh_members := sh_members tb - 1, sh_data := ys\<rparr>)"
    "sh_entries tb = add_mset (sh_data tb ! p) (sh_entries (tb\<lparr>sh_members := sh_members tb - 1, sh_data := ys\<rparr>))"
proof -
  let ?n = "2 ^ k :: nat" and ?xs = "sh_data tb" and ?tb = "tb\<lparr>sh_members := sh_members tb - 1\<rparr>"
  have sh: "sh_shape tb k" and r: "sh_robin T ?xs" using ok unfolding sh_ok_def by blast+
  then have sh': "sh_shape ?tb k" by (simp add: sh_shape_def)
  have len: "length ?xs = ?n" by (rule sh_ok_length [OF ok])
  obtain e where "e < ?n" "\<not> used (?xs ! e)" by (rule sh_ok_empty [OF ok])
  then obtain m where m: "m < ?n - 1"
    "\<And>i. 1 \<le> i \<Longrightarrow> i \<le> m \<Longrightarrow> used (?xs ! ((p + i) mod ?n)) \<and> sh_home T ?n (?xs ! ((p + i) mod ?n)) \<noteq> (p + i) mod ?n"
    "used (?xs ! ((p + Suc m) mod ?n)) \<Longrightarrow> sh_home T ?n (?xs ! ((p + Suc m) mod ?n)) = (p + Suc m) mod ?n"
    using delete_run [OF p(1) _ _ p(2), where T = T] by blast
  obtain ys where ys: "shift_back T (bk p) ?tb = Some (?tb\<lparr>sh_data := ys\<rparr>)" "shifted_back ?n p (Suc m) ?xs ys"
    using shift_back_moves [OF sh' p(1) m(1), of T] m(2,3) by auto
  have u: "used (?xs ! ((p + i) mod ?n))" if "i < Suc m" for i using that m(2) [of i] p by (cases "i = 0") auto
  have "sh_robin T ys"
    by (rule delete_robin [OF len p(1) _ _ u _ m(3) ys(2) r]) (use m in auto)
  moreover have ent: "sh_entries tb = add_mset (?xs ! p) (sh_entries (?tb\<lparr>sh_data := ys\<rparr>))"
    unfolding sh_entries_def using delete_entries [OF len p(1) _ _ u ys(2)] m(1) by simp
  moreover have "sh_members tb \<noteq> 0" using ok ent by (auto simp: sh_ok_def)
  then have "unat (sh_members tb - 1) = unat (sh_members tb) - 1" by (simp add: unat_minus_one)
  ultimately have "sh_ok T k (?tb\<lparr>sh_data := ys\<rparr>)"
    using ok entries_ok_remove [of T "?xs ! p"] ys(2) by (auto simp: sh_ok_def sh_shape_def shifted_back_def)
  with m ys ent show thesis by (intro that [of m ys]) auto
qed

theorem delete_item_deletes:
  assumes "sh_ok T k tb" "p < 2 ^ k" "used (sh_data tb ! p)"
  shows "\<exists>tb'. SH_DELETE_ITEM T (bk p) tb = Some tb' \<and> sh_ok T k tb' \<and> sh_entries tb = add_mset (sh_data tb ! p) (sh_entries tb')"
  by (rule shift_back_deletes [OF assms]) (auto simp: SH_DELETE_ITEM_def)

context sh_keys
begin

lemma delete_loop_probe:
  assumes sh: "sh_shape tb k" and c: "c < 2 ^ k"
    and stop: "sh_stop T (sh_data tb) key ((c + m) mod 2 ^ k)"
    and before: "\<And>i. i < m \<Longrightarrow> \<not> sh_stop T (sh_data tb) key ((c + i) mod 2 ^ k)" and j: "j \<le> m"
  defines "p \<equiv> (c + m) mod 2 ^ k"
  shows "delete_loop T key (SH_HASH_KEY T key) (bk ((c + j) mod 2 ^ k)) tb =
    (if used (sh_data tb ! p) then map_option (Pair True) (SH_DELETE_ITEM T (bk p) tb) else Some (False, tb))"
  using j
proof (induction "m - j" arbitrary: j)
  case 0
  then have "j = m" by simp
  moreover have "unat (bk p) = p" by (rule unat_bk [OF sh]) (simp add: p_def)
  ultimately show ?case using stop
    by (subst delete_loop.simps)
      (auto simp: p_def [symmetric] Let_def sh_stop_def used_def not_used [unfolded used_def] SH_DELETE_ITEM_def map_option_case
        split: option.splits bind_splits)
next
  case (Suc d)
  let ?j = "(c + j) mod 2 ^ k"
  have lt: "?j < 2 ^ k" by simp
  have u: "unat (bk ?j) = ?j" by (rule unat_bk [OF sh lt])
  have step: "SH_NEXT tb (bk ?j) = bk ((c + (j + 1)) mod 2 ^ k)" using next_bk [OF sh lt] by (simp add: mod_Suc_eq)
  show ?case
    using before [of j] Suc.hyps(1) [of "j + 1"] Suc.hyps(2) Suc.prems
    unfolding delete_loop.simps [of T key _ "bk ?j"] u step
    by (auto simp: Let_def sh_stop_def not_used [symmetric])
qed

theorem delete_deletes:
  assumes ok: "sh_ok T k tb"
  shows "\<exists>found tb'. SH_DELETE T key tb = Some (found, tb') \<and> sh_ok T k tb' \<and>
    (if found then \<exists>x. SH_EQUAL T (el_key x) key \<and> sh_entries tb = add_mset x (sh_entries tb')
     else tb' = tb \<and> (\<forall>x\<in>#sh_entries tb. \<not> SH_EQUAL T (el_key x) key))"
proof -
  have sh: "sh_shape tb k" using ok by (simp add: sh_ok_def)
  let ?c = "unat (SH_HASH_KEY T key) mod 2 ^ k"
  obtain m where m: "sh_stop T (sh_data tb) key ((?c + m) mod 2 ^ k)"
    "\<forall>i<m. \<not> sh_stop T (sh_data tb) key ((?c + i) mod 2 ^ k)"
    and out: "if used (sh_data tb ! ((?c + m) mod 2 ^ k))
     then sh_data tb ! ((?c + m) mod 2 ^ k) \<in># sh_entries tb \<and> SH_EQUAL T (el_key (sh_data tb ! ((?c + m) mod 2 ^ k))) key
     else \<forall>x\<in>#sh_entries tb. \<not> SH_EQUAL T (el_key x) key"
    by (rule probe_outcome [OF ok, of key])
  have "SH_DELETE T key tb = (if used (sh_data tb ! ((?c + m) mod 2 ^ k))
      then map_option (Pair True) (SH_DELETE_ITEM T (bk ((?c + m) mod 2 ^ k)) tb) else Some (False, tb))"
    using delete_loop_probe [OF sh _ m(1), of 0] m(2) initial_bk [OF sh] by (simp add: SH_DELETE_def)
  then show ?thesis using out ok delete_item_deletes [OF ok, of "(?c + m) mod 2 ^ k"]
    by (cases "used (sh_data tb ! ((?c + m) mod 2 ^ k))") auto
qed

end

end
