(* ===== verification/HashFn.thy ===== *)
theory HashFn
  imports Prelude
begin

text \<open>\<open>common/hashfn.h\<close>: the inline functions that hash a 32-bit number, combine two hash values and
  rotate the halves of a 64-bit one.  The multiplications and shifts are those of words and wrap as the
  unsigned arithmetic of C does.  The hash functions for bytes and strings are only declared there.

  The hash of a number loses nothing (\<open>murmurhash32_inj\<close>): both multipliers are odd and each shift can be
  taken back.\<close>

unbundle bit_operations_syntax

definition ROTATE_HIGH_AND_LOW_32BITS :: "u64 \<Rightarrow> u64" where
  "ROTATE_HIGH_AND_LOW_32BITS v =
     (push_bit 1 v AND 0xfffffffefffffffe) OR (drop_bit 31 v AND 0x100000001)"

definition hash_combine :: "u32 \<Rightarrow> u32 \<Rightarrow> u32" where
  "hash_combine a b = a XOR (b + 0x9e3779b9 + push_bit 6 a + drop_bit 2 a)"

definition hash_combine64 :: "u64 \<Rightarrow> u64 \<Rightarrow> u64" where
  "hash_combine64 a b = a XOR (b + 0x49a0f4dd15e5a8e3 + push_bit 54 a + drop_bit 7 a)"

definition murmurhash32 :: "u32 \<Rightarrow> u32" where
  "murmurhash32 data =
     (let h = data;
          h = h XOR drop_bit 16 h;
          h = h * 0x85ebca6b;
          h = h XOR drop_bit 13 h;
          h = h * 0xc2b2ae35;
          h = h XOR drop_bit 16 h
      in h)"

text \<open>Each step can be taken back.\<close>

lemma drop_all: "32 \<le> n \<Longrightarrow> drop_bit n (h :: u32) = 0"
  by (rule bit_word_eqI) (auto simp: bit_drop_bit_eq dest: bit_imp_le_length)

lemma xorshift_16: "(h XOR drop_bit 16 h) XOR drop_bit 16 (h XOR drop_bit 16 h) = (h :: u32)"
  by (simp add: drop_all ac_simps)

lemma xorshift_13:
  "(h XOR drop_bit 13 h) XOR drop_bit 13 (h XOR drop_bit 13 h) XOR drop_bit 26 (h XOR drop_bit 13 h) = (h :: u32)"
  by (simp add: drop_all ac_simps)

lemma inj_xorshift_16: "inj (\<lambda>h :: u32. h XOR drop_bit 16 h)"
  by (rule inj_on_inverseI [of _ "\<lambda>h. h XOR drop_bit 16 h"]) (rule xorshift_16)

lemma inj_xorshift_13: "inj (\<lambda>h :: u32. h XOR drop_bit 13 h)"
  by (rule inj_on_inverseI [of _ "\<lambda>y. y XOR drop_bit 13 y XOR drop_bit 26 y"]) (rule xorshift_13)

lemma inj_times: "a * b = (1 :: u32) \<Longrightarrow> inj (\<lambda>h. h * a)"
  by (rule inj_on_inverseI [of _ "\<lambda>h. h * b"]) (simp add: mult.assoc)

theorem murmurhash32_inj: "inj murmurhash32"
proof -
  have "inj (\<lambda>h :: u32. h * 0x85ebca6b)" by (rule inj_times [of _ "0xa5cb9243"]) simp
  moreover have "inj (\<lambda>h :: u32. h * 0xc2b2ae35)" by (rule inj_times [of _ "0x7ed1b41d"]) simp
  ultimately have "inj ((\<lambda>h :: u32. h XOR drop_bit 16 h) \<circ> (\<lambda>h. h * 0xc2b2ae35) \<circ> (\<lambda>h. h XOR drop_bit 13 h)
      \<circ> (\<lambda>h. h * 0x85ebca6b) \<circ> (\<lambda>h. h XOR drop_bit 16 h))"
    by (intro inj_compose inj_xorshift_16 inj_xorshift_13)
  moreover have "murmurhash32 = (\<lambda>h. h XOR drop_bit 16 h) \<circ> (\<lambda>h. h * 0xc2b2ae35) \<circ> (\<lambda>h. h XOR drop_bit 13 h)
      \<circ> (\<lambda>h. h * 0x85ebca6b) \<circ> (\<lambda>h. h XOR drop_bit 16 h)"
    by (simp add: murmurhash32_def fun_eq_iff Let_def)
  ultimately show ?thesis by simp
qed

theorem hash_combine_inj: "inj (hash_combine a)" "inj (hash_combine64 c)"
  unfolding hash_combine_def hash_combine64_def
  by (rule inj_on_inverseI [of _ "\<lambda>y. (y XOR a) - (0x9e3779b9 + push_bit 6 a + drop_bit 2 a)"], simp add: ac_simps)
    (rule inj_on_inverseI [of _ "\<lambda>y. (y XOR c) - (0x49a0f4dd15e5a8e3 + push_bit 54 c + drop_bit 7 c)"], simp add: ac_simps)

text \<open>\<open>ROTATE_HIGH_AND_LOW_32BITS\<close> rotates both halves by one bit.\<close>

lemma bit_ends: "bit (0x100000001 :: u64) n \<longleftrightarrow> n = 0 \<or> n = 32"
proof -
  have "(0x100000001 :: u64) = push_bit 32 1 OR 1" by simp
  then show ?thesis by (auto simp only: bit_or_iff bit_push_bit_iff bit_1_iff) auto
qed

theorem rotate_halves:
  "bit (ROTATE_HIGH_AND_LOW_32BITS v) n \<longleftrightarrow>
     n < 64 \<and> bit v (if n = 0 then 31 else if n = 32 then 63 else n - 1)"
proof -
  have "(0xfffffffefffffffe :: u64) = NOT 0x100000001" by simp
  then have "ROTATE_HIGH_AND_LOW_32BITS v = (push_bit 1 v AND NOT 0x100000001) OR (drop_bit 31 v AND 0x100000001)"
    by (simp only: ROTATE_HIGH_AND_LOW_32BITS_def)
  then have "bit (ROTATE_HIGH_AND_LOW_32BITS v) n \<longleftrightarrow>
      bit (push_bit 1 v) n \<and> n < 64 \<and> n \<noteq> 0 \<and> n \<noteq> 32 \<or> bit v (31 + n) \<and> (n = 0 \<or> n = 32)"
    by (simp only: bit_or_iff bit_and_iff bit_not_iff bit_ends bit_drop_bit_eq comp_def) (auto simp: possible_bit_def)
  also have "bit (push_bit 1 v) n \<longleftrightarrow> 1 \<le> n \<and> n < 64 \<and> bit v (n - 1)"
    by (simp only: bit_push_bit_iff) (auto simp: possible_bit_def)
  finally show ?thesis by auto
qed

end
