(* ===== verification/SimpleHashMap.thy ===== *)
theory SimpleHashMap
  imports SimpleHashDelete HashFn
begin

text \<open>Creation, reset and the iterator of \<open>lib/simplehash.h\<close>, and what its operations come to: a table is a map
  from keys to values (\<open>sh_map\<close>).  \<open>sh_reach\<close> are the tables that a client reaches from a new one; they are well
  formed (\<open>simplehash_invariant\<close>), the operations act on them as on the map (\<open>simplehash_refines_map\<close>), and
  a scan visits every entry once even when the client deletes the entry it is at
  (\<open>simplehash_scan_complete\<close>).  The locale \<open>sh_keys\<close> is interpreted on the parameters of a table keyed
  by a number, hashed by \<open>murmurhash32\<close>.\<close>

unbundle bit_operations_syntax

section \<open>The table as a map\<close>

definition sh_map :: "('k, 'v) sh_template \<Rightarrow> ('k, 'v) SH_TYPE \<Rightarrow> 'k \<Rightarrow> 'v option" where
  "sh_map T tb key = map_option el_value (List.find (\<lambda>x. used x \<and> SH_EQUAL T (el_key x) key) (sh_data tb))"

text \<open>\<open>entry->value = v\<close> in the bucket that an insertion or a lookup has returned.\<close>

definition sh_set_value :: "u32 \<Rightarrow> 'v \<Rightarrow> ('k, 'v) SH_TYPE \<Rightarrow> ('k, 'v) SH_TYPE" where
  "sh_set_value i v tb = tb\<lparr>sh_data := (sh_data tb)[unat i := (sh_data tb ! unat i)\<lparr>el_value := v\<rparr>]\<rparr>"

lemma option_eqI: "(\<And>v. a = Some v \<longleftrightarrow> b = Some v) \<Longrightarrow> a = b"
  by (cases a; cases b) auto

lemma entries_ok_unique:
  assumes "sh_entries_ok T (add_mset x M)" "SH_EQUAL T (el_key x) key" "y \<in># M"
  shows "\<not> SH_EQUAL T (el_key y) key"
proof
  assume "SH_EQUAL T (el_key y) key"
  then have "{#z \<in># M. SH_EQUAL T (el_key z) key#} \<noteq> {#}" using assms(3) by auto
  moreover have "size {#z \<in># add_mset x M. SH_EQUAL T (el_key z) key#} \<le> 1" using assms(1) unfolding sh_entries_ok_def by blast
  ultimately show False using assms(2,3) by auto
qed

lemma sh_map_Some:
  assumes "sh_entries_ok T (sh_entries tb)"
  shows "sh_map T tb key = Some v \<longleftrightarrow> (\<exists>x\<in>#sh_entries tb. SH_EQUAL T (el_key x) key \<and> el_value x = v)"
proof
  assume "sh_map T tb key = Some v"
  then obtain x where "List.find (\<lambda>x. used x \<and> SH_EQUAL T (el_key x) key) (sh_data tb) = Some x" "el_value x = v"
    by (auto simp: sh_map_def)
  then show "\<exists>x\<in>#sh_entries tb. SH_EQUAL T (el_key x) key \<and> el_value x = v"
    by (auto simp: find_Some_iff sh_entries_def dest: nth_mem)
next
  assume "\<exists>x\<in>#sh_entries tb. SH_EQUAL T (el_key x) key \<and> el_value x = v"
  then obtain x where x: "x \<in># sh_entries tb" "SH_EQUAL T (el_key x) key" "el_value x = v" by blast
  have "List.find (\<lambda>x. used x \<and> SH_EQUAL T (el_key x) key) (sh_data tb) \<noteq> None"
    using x by (auto simp: find_None_iff sh_entries_def)
  then obtain y where y: "List.find (\<lambda>x. used x \<and> SH_EQUAL T (el_key x) key) (sh_data tb) = Some y" by blast
  then have y': "y \<in># sh_entries tb" "SH_EQUAL T (el_key y) key" by (auto simp: find_Some_iff sh_entries_def)
  obtain N where N: "sh_entries tb = add_mset x N" using multi_member_split [OF x(1)] by blast
  have "y = x" using entries_ok_unique [of T x N key y] assms x(2) y' unfolding N by auto
  with y x(3) show "sh_map T tb key = Some v" by (simp add: sh_map_def)
qed

lemma set_value_entries:
  assumes "unat i < length (sh_data tb)" "used (sh_data tb ! unat i)" "sh_entries tb = add_mset (sh_data tb ! unat i) N"
  shows "sh_entries (sh_set_value i v tb) = add_mset ((sh_data tb ! unat i)\<lparr>el_value := v\<rparr>) N"
proof -
  let ?x = "sh_data tb ! unat i"
  have "filter_mset used (mset (sh_data tb)) = add_mset ?x N" using assms(3) by (simp add: sh_entries_def)
  then have "filter_mset used (mset (sh_data tb) - {#?x#}) = N" using assms(2) by simp
  moreover have "used (?x\<lparr>el_value := v\<rparr>)" using assms(2) by (simp add: used_def)
  ultimately show ?thesis using assms(1) by (simp add: sh_entries_def sh_set_value_def mset_update)
qed

lemma entries_ok_value:
  assumes "sh_entries_ok T (add_mset x N)" shows "sh_entries_ok T (add_mset (x\<lparr>el_value := v\<rparr>) N)"
proof -
  have "size {#y \<in># add_mset (x\<lparr>el_value := v\<rparr>) N. SH_EQUAL T (el_key y) key#}
      = size {#y \<in># add_mset x N. SH_EQUAL T (el_key y) key#}" for key by simp
  then show ?thesis using assms unfolding sh_entries_ok_def by simp
qed

lemma set_value_ok:
  assumes ok: "sh_ok T k tb" and i: "unat i < 2 ^ k" "used (sh_data tb ! unat i)"
  shows "sh_ok T k (sh_set_value i v tb)"
proof -
  let ?x = "sh_data tb ! unat i" and ?xs = "sh_data (sh_set_value i v tb)"
  have len: "length (sh_data tb) = 2 ^ k" by (rule sh_ok_length [OF ok])
  obtain N where N: "sh_entries tb = add_mset ?x N" using multi_member_split [OF entry_in [of "unat i" tb]] i len by auto
  have E: "sh_entries (sh_set_value i v tb) = add_mset (?x\<lparr>el_value := v\<rparr>) N"
    using set_value_entries [OF _ i(2) N] i len by simp
  have "used (?xs ! q) \<longleftrightarrow> used (sh_data tb ! q)" "sh_home T n (?xs ! q) = sh_home T n (sh_data tb ! q)" for q n
    using i len by (auto simp: sh_set_value_def nth_list_update used_def sh_home_def SH_ENTRY_HASH_def)
  moreover have "length ?xs = length (sh_data tb)" by (simp add: sh_set_value_def)
  ultimately have "sh_robin T ?xs = sh_robin T (sh_data tb)" by simp
  then have "sh_robin T ?xs" using ok unfolding sh_ok_def by blast
  moreover have "sh_entries_ok T (sh_entries (sh_set_value i v tb))"
    unfolding E by (rule entries_ok_value) (use ok in \<open>simp add: sh_ok_def N [symmetric]\<close>)
  moreover have "size (sh_entries (sh_set_value i v tb)) = size (sh_entries tb)" by (simp add: N E)
  ultimately show ?thesis using ok by (simp add: sh_ok_def sh_shape_def sh_set_value_def)
qed

context sh_keys
begin

lemma map_lookup:
  assumes ok: "sh_ok T k tb"
  shows "\<exists>r. SH_LOOKUP T tb key = Some r \<and> sh_map T tb key = map_option (\<lambda>i. el_value (sh_data tb ! unat i)) r"
proof -
  have M: "sh_entries_ok T (sh_entries tb)" using ok by (simp add: sh_ok_def)
  obtain r where r: "SH_LOOKUP T tb key = Some r"
    "case r of
       None \<Rightarrow> \<forall>x\<in>#sh_entries tb. \<not> SH_EQUAL T (el_key x) key
     | Some i \<Rightarrow> unat i < 2 ^ k \<and> sh_data tb ! unat i \<in># sh_entries tb \<and> SH_EQUAL T (el_key (sh_data tb ! unat i)) key"
    using lookup_finds [OF ok] by blast
  then have "sh_map T tb key = map_option (\<lambda>i. el_value (sh_data tb ! unat i)) r"
    by (cases r) (auto simp: sh_map_Some [OF M] not_Some_eq [symmetric] simp del: not_Some_eq)
  with r(1) show ?thesis by blast
qed

lemma equal_cong: "SH_EQUAL T x y \<Longrightarrow> SH_EQUAL T z x \<longleftrightarrow> SH_EQUAL T z y"
  using equal_sym equal_trans by blast

lemma map_removed:
  assumes M: "sh_entries_ok T (sh_entries tb)" "sh_entries_ok T (sh_entries tb')"
    and x: "sh_entries tb = add_mset x (sh_entries tb')" "SH_EQUAL T (el_key x) key"
  shows "sh_map T tb' = (\<lambda>q. if SH_EQUAL T q key then None else sh_map T tb q)"
proof (intro ext option_eqI)
  fix q v
  have "\<not> SH_EQUAL T (el_key y) q" if "SH_EQUAL T q key" "y \<in># sh_entries tb'" for y
    using entries_ok_unique [OF M(1) [unfolded x(1)] x(2) that(2)] equal_trans that(1) by blast
  moreover have "\<not> SH_EQUAL T (el_key x) q" if "\<not> SH_EQUAL T q key"
    using that x(2) equal_sym equal_trans by blast
  ultimately show "sh_map T tb' q = Some v \<longleftrightarrow> (if SH_EQUAL T q key then None else sh_map T tb q) = Some v"
    by (auto simp: sh_map_Some [OF M(1)] sh_map_Some [OF M(2)] x(1))
qed

lemma map_stored:
  assumes M: "sh_entries_ok T (sh_entries tb)" "sh_entries_ok T (sh_entries tb')"
    and x: "sh_entries tb' = add_mset x N" "SH_EQUAL T (el_key x) key" "el_value x = v"
    and old: "sh_entries tb = N \<or> (\<exists>y. sh_entries tb = add_mset y N \<and> el_key y = el_key x)"
  shows "sh_map T tb' = (\<lambda>q. if SH_EQUAL T q key then Some v else sh_map T tb q)"
proof (intro ext option_eqI)
  fix q w
  have "\<not> SH_EQUAL T (el_key y) q" if "SH_EQUAL T q key" "y \<in># N" for y
    using entries_ok_unique [OF M(2) [unfolded x(1)] x(2) that(2)] equal_trans that(1) by blast
  moreover have "SH_EQUAL T (el_key x) q \<longleftrightarrow> SH_EQUAL T q key"
    using x(2) equal_sym equal_trans by blast
  ultimately show "sh_map T tb' q = Some w \<longleftrightarrow> (if SH_EQUAL T q key then Some v else sh_map T tb q) = Some w"
    using old x(3) by (auto simp: sh_map_Some [OF M(1)] sh_map_Some [OF M(2)] x(1))
qed

lemma map_delete:
  assumes ok: "sh_ok T k tb"
  shows "\<exists>found tb'. SH_DELETE T key tb = Some (found, tb') \<and> sh_ok T k tb' \<and> (found \<longleftrightarrow> sh_map T tb key \<noteq> None) \<and>
    sh_map T tb' = (\<lambda>q. if SH_EQUAL T q key then None else sh_map T tb q)"
proof -
  obtain found tb' where d: "SH_DELETE T key tb = Some (found, tb')" "sh_ok T k tb'"
    "if found then \<exists>x. SH_EQUAL T (el_key x) key \<and> sh_entries tb = add_mset x (sh_entries tb')
     else tb' = tb \<and> (\<forall>x\<in>#sh_entries tb. \<not> SH_EQUAL T (el_key x) key)"
    using delete_deletes [OF ok] by blast
  have M: "sh_entries_ok T (sh_entries tb)" "sh_entries_ok T (sh_entries tb')" using ok d(2) by (simp_all add: sh_ok_def)
  show ?thesis
  proof (cases found)
    case True
    then obtain x where x: "SH_EQUAL T (el_key x) key" "sh_entries tb = add_mset x (sh_entries tb')" using d(3) by auto
    have "sh_map T tb key = Some (el_value x)" using x by (auto simp: sh_map_Some [OF M(1)])
    with d(1,2) True map_removed [OF M x(2,1)] show ?thesis by auto
  next
    case False
    then have a: "tb' = tb" "\<forall>x\<in>#sh_entries tb. \<not> SH_EQUAL T (el_key x) key" using d(3) by simp_all
    have "sh_map T tb q = None" if "SH_EQUAL T q key" for q
      using a(2) equal_trans [OF _ that]
      by (auto simp: sh_map_Some [OF M(1)] not_Some_eq [symmetric] simp del: not_Some_eq)
    then show ?thesis using d(1,2) False a(1) equal_refl by (auto simp: fun_eq_iff)
  qed
qed

lemma map_insert:
  assumes ok: "sh_ok T k tb"
  shows "\<exists>res tb' k'. SH_INSERT T key tb = Some (res, tb') \<and> sh_ok T k' tb' \<and> k \<le> k' \<and>
    (unat (SH_SIZEOF T) < 2 ^ 31 \<and> k < 32 \<and> 10 * unat (sh_members tb) < 2 ^ 31 \<longrightarrow> (\<exists>a. res = Inr a)) \<and>
    (case res of
       Inl e \<Rightarrow> sh_map T tb' = sh_map T tb
     | Inr (i, found) \<Rightarrow> (found \<longleftrightarrow> sh_map T tb key \<noteq> None) \<and>
         sh_ok T k' (sh_set_value i v tb') \<and>
         sh_map T (sh_set_value i v tb') = (\<lambda>q. if SH_EQUAL T q key then Some v else sh_map T tb q))"
proof -
  obtain res tb' k' where ins: "SH_INSERT T key tb = Some (res, tb')" "sh_ok T k' tb'" "k \<le> k'" "insert_result T key tb res tb'"
    "unat (SH_SIZEOF T) < 2 ^ 31 \<and> k < 32 \<and> 10 * unat (sh_members tb) < 2 ^ 31 \<longrightarrow> (\<exists>a. res = Inr a)"
    using insert_inserts [OF ok, of key] unfolding SH_INSERT_def by blast
  have M: "sh_entries_ok T (sh_entries tb)" "sh_entries_ok T (sh_entries tb')" using ok ins(2) by (simp_all add: sh_ok_def)
  show ?thesis
  proof (cases res)
    case (Inl e)
    then have "sh_map T tb' = sh_map T tb"
      using ins(4) by (intro ext option_eqI) (simp add: sh_map_Some [OF M(1)] sh_map_Some [OF M(2)] insert_result_def)
    with ins Inl show ?thesis by auto
  next
    case (Inr a)
    obtain i found where a: "a = (i, found)" by (cases a)
    let ?x = "sh_data tb' ! unat i"
    have r: "?x \<in># sh_entries tb'" "SH_EQUAL T (el_key ?x) key" "unat i < 2 ^ k'"
      "found \<Longrightarrow> sh_entries tb' = sh_entries tb"
      "\<not> found \<Longrightarrow> sh_entries tb' = add_mset ?x (sh_entries tb) \<and> (\<forall>x\<in>#sh_entries tb. \<not> SH_EQUAL T (el_key x) key)"
      using ins(4) Inr a sh_ok_length [OF ins(2)] by (auto simp: insert_result_def)
    have u: "used ?x" using r(1) by (simp add: sh_entries_def)
    obtain N where N: "sh_entries tb' = add_mset ?x N" using multi_member_split [OF r(1)] by blast
    have E: "sh_entries (sh_set_value i v tb') = add_mset (?x\<lparr>el_value := v\<rparr>) N"
      using set_value_entries [OF _ u N] r(3) sh_ok_length [OF ins(2)] by simp
    have ok': "sh_ok T k' (sh_set_value i v tb')" by (rule set_value_ok [OF ins(2) r(3) u])
    then have M': "sh_entries_ok T (sh_entries (sh_set_value i v tb'))" by (simp add: sh_ok_def)
    have "sh_entries tb = N \<or> (\<exists>y. sh_entries tb = add_mset y N \<and> el_key y = el_key (?x\<lparr>el_value := v\<rparr>))"
    proof (cases found)
      case True
      then have "sh_entries tb = add_mset ?x N" using r(4) N by simp
      then show ?thesis by (intro disjI2 exI [of _ ?x]) simp
    next
      case False
      then show ?thesis using r(5) N by simp
    qed
    then have "sh_map T (sh_set_value i v tb') = (\<lambda>q. if SH_EQUAL T q key then Some v else sh_map T tb q)"
      by (intro map_stored [OF M(1) M' E]) (use r(2) in simp_all)
    moreover have "found \<longleftrightarrow> sh_map T tb key \<noteq> None"
      using r(1,2,4,5) by (cases found) (force simp: sh_map_Some [OF M(1)] not_Some_eq [symmetric] simp del: not_Some_eq)+
    ultimately show ?thesis using ins(1-3) Inr a ok' by auto
  qed
qed

end

section \<open>Creation and reset\<close>

context sh_keys
begin

lemma zeroed_table: "sh_robin T (replicate n (SH_ZEROED T))" "filter used (replicate n (SH_ZEROED T)) = []"
proof -
  have "\<not> used (replicate n (SH_ZEROED T) ! q)" if "q < n" for q using that zeroed by simp
  then show "sh_robin T (replicate n (SH_ZEROED T))"
    unfolding robin_def by (metis length_replicate less_nat_zero_code mod_less_divisor neq0_conv)
  show "filter used (replicate n (SH_ZEROED T)) = []" using zeroed by simp
qed

lemma zeroed_ok:
  assumes "sh_shape tb k" "sh_data tb = replicate (2 ^ k) (SH_ZEROED T)" "sh_members tb = 0"
    "unat (sh_grow_threshold tb) = sh_threshold (2 ^ k) \<or> sh_grow_threshold tb = 0"
  shows "sh_ok T k tb \<and> sh_entries tb = {#}"
  using assms zeroed_table(1) [of "2 ^ k"]
  by (simp add: sh_ok_def sh_entries_def zeroed_table(2) sh_entries_ok_def del: filter_replicate)

theorem create_empty:
  "SH_CREATE T nelements = Inl HashTableTooLarge \<and> 2 ^ 31 \<le> unat (SH_SIZEOF T) \<or>
   (\<exists>tb k. SH_CREATE T nelements = Inr tb \<and> sh_ok T k tb \<and> sh_entries tb = {#} \<and>
      min (2 ^ 32) (10 * unat nelements div 9) \<le> 2 ^ k)"
proof -
  let ?m = "10 * unat nelements div 9"
  define sz where "sz = min SH_MAX_SIZE (word_of_nat ?m)"
  have "?m < 2 ^ 64" using unat_bound [of nelements] by simp
  then have m: "unat (word_of_nat ?m :: u64) = ?m" by (simp add: unat_of_nat)
  have "unat SH_MAX_SIZE = 2 ^ 32" by (simp add: SH_MAX_SIZE_def)
  then have sz: "unat sz = min (2 ^ 32) ?m" unfolding sz_def min_def by (simp add: word_le_nat_alt m)
  let ?tb = "\<lparr>sh_size = 0, sh_members = 0, sh_sizemask = 0, sh_grow_threshold = 0, sh_data = []\<rparr> :: ('k, 'v) SH_TYPE"
  consider "SH_COMPUTE_PARAMETERS T ?tb sz = Inl HashTableTooLarge" "2 ^ 31 \<le> unat (SH_SIZEOF T)"
    | k s where "1 \<le> k" "k \<le> 32" "unat sz \<le> 2 ^ k" "unat s = 2 ^ k"
      "SH_COMPUTE_PARAMETERS T ?tb sz = Inr (?tb\<lparr>sh_size := s, sh_sizemask := mask k,
         sh_grow_threshold := word_of_nat (sh_threshold (2 ^ k))\<rparr>)"
    using compute_parameters [of sz T ?tb] sz by auto
  then show ?thesis
  proof cases
    case 1
    then show ?thesis by (simp add: SH_CREATE_def Let_def sz_def)
  next
    case 2
    let ?new = "?tb\<lparr>sh_size := s, sh_sizemask := mask k, sh_grow_threshold := word_of_nat (sh_threshold (2 ^ k)),
      sh_data := replicate (2 ^ k) (SH_ZEROED T)\<rparr>"
    have "SH_CREATE T nelements = Inr ?new" using 2(4,5) by (simp add: SH_CREATE_def Let_def sz_def)
    moreover have "sh_ok T k ?new \<and> sh_entries ?new = {#}"
      by (rule zeroed_ok) (use 2 unat_threshold [OF 2(2)] in \<open>simp_all add: sh_shape_def\<close>)
    ultimately show ?thesis using 2(3) sz by metis
  qed
qed

theorem reset_empty: "sh_ok T k tb \<Longrightarrow> sh_ok T k (SH_RESET T tb) \<and> sh_entries (SH_RESET T tb) = {#}"
  by (rule zeroed_ok) (auto simp: sh_ok_def sh_shape_def SH_RESET_def)

end

section \<open>Iteration\<close>

text \<open>The iterator with \<open>r\<close> buckets to go, over a table of \<open>2 ^ k\<close> buckets whose bucket \<open>s\<close> is empty.\<close>

definition sh_iter :: "nat \<Rightarrow> nat \<Rightarrow> nat \<Rightarrow> SH_ITERATOR" where
  "sh_iter k s r = \<lparr>it_cur = bk ((s + r) mod 2 ^ k), it_end = bk s, it_done = (r = 0)\<rparr>"

text \<open>A client that walks over the table, and deletes the current element when it likes.\<close>

partial_function (option) sh_scan ::
    "('k, 'v) sh_template \<Rightarrow> (('k, 'v) SH_ELEMENT_TYPE \<Rightarrow> bool) \<Rightarrow> ('k, 'v) SH_TYPE \<Rightarrow> SH_ITERATOR \<Rightarrow>
       (('k, 'v) SH_ELEMENT_TYPE list \<times> ('k, 'v) SH_TYPE) option" where
  "sh_scan T P tb iter = do {
     (e, iter) \<leftarrow> SH_ITERATE tb iter;
     (case e of
        None \<Rightarrow> Some ([], tb)
      | Some i \<Rightarrow> do {
          tb' \<leftarrow> (if P (sh_data tb ! unat i) then SH_DELETE_ITEM T i tb else Some tb);
          (xs, tb') \<leftarrow> sh_scan T P tb' iter;
          Some (sh_data tb ! unat i # xs, tb') }) }"

lemma and_mask_bk: "sh_shape tb k \<Longrightarrow> i < 2 ^ k \<Longrightarrow> bk i AND sh_sizemask tb = bk i"
  by (rule word_unat_eq_iff [THEN iffD2]) (simp add: sh_shape_def unat_and_mask unat_bk [of tb k i])

lemma prev_iter: "sh_shape tb k \<Longrightarrow> s < 2 ^ k \<Longrightarrow> Suc r < 2 ^ k \<Longrightarrow>
    (bk ((s + Suc r) mod 2 ^ k) - 1) AND sh_sizemask tb = bk ((s + r) mod 2 ^ k)"
proof -
  assume a: "sh_shape tb k" "s < 2 ^ k" "Suc r < 2 ^ k"
  show ?thesis using prev_bk [OF a(1), of "(s + Suc r) mod 2 ^ k"] ring_pred [of "2 ^ k" s r] by (simp add: SH_PREV_def)
qed

lemma iterate_step:
  assumes sh: "sh_shape tb k" and s: "s < 2 ^ k" and r: "Suc r < 2 ^ k"
  shows "SH_ITERATE tb (sh_iter k s (Suc r)) =
    (if used (sh_data tb ! ((s + Suc r) mod 2 ^ k)) then Some (Some (bk ((s + Suc r) mod 2 ^ k)), sh_iter k s r)
     else SH_ITERATE tb (sh_iter k s r))"
proof -
  have "unat (bk ((s + Suc r) mod 2 ^ k)) = (s + Suc r) mod 2 ^ k" by (rule unat_bk [OF sh]) simp
  moreover have "bk ((s + r) mod 2 ^ k) = bk s \<longleftrightarrow> r = 0"
    using bk_inject [OF sh, of "(s + r) mod 2 ^ k" s] ring_shift [of s "2 ^ k" r 0] s r by simp
  ultimately show ?thesis
    unfolding SH_ITERATE.simps [of tb "sh_iter k s (Suc r)"]
    by (simp add: sh_iter_def Let_def prev_iter [OF sh s r] and_mask_bk [OF sh] s used_def del: add_Suc_right)
qed

lemma scan_step:
  assumes "sh_shape tb k" "s < 2 ^ k" "Suc r < 2 ^ k"
  shows "sh_scan T P tb (sh_iter k s (Suc r)) =
    (let x = sh_data tb ! ((s + Suc r) mod 2 ^ k) in
     if used x
     then do { tb' \<leftarrow> (if P x then SH_DELETE_ITEM T (bk ((s + Suc r) mod 2 ^ k)) tb else Some tb);
       (xs, tb') \<leftarrow> sh_scan T P tb' (sh_iter k s r);
       Some (x # xs, tb') }
     else sh_scan T P tb (sh_iter k s r))"
proof -
  have "unat (bk ((s + Suc r) mod 2 ^ k)) = (s + Suc r) mod 2 ^ k" by (rule unat_bk [OF assms(1)]) simp
  then show ?thesis
    unfolding sh_scan.simps [of T P tb "sh_iter k s (Suc r)"] iterate_step [OF assms] Let_def
    by (cases "used (sh_data tb ! ((s + Suc r) mod 2 ^ k))") (simp_all add: sh_scan.simps [of T P tb "sh_iter k s r"])
qed

text \<open>The elements that a scan with \<open>r\<close> buckets to go is about to see.\<close>

definition sh_run :: "nat \<Rightarrow> nat \<Rightarrow> ('k, 'v) SH_ELEMENT_TYPE list \<Rightarrow> nat \<Rightarrow> ('k, 'v) SH_ELEMENT_TYPE list" where
  "sh_run n s xs r = filter used (map (\<lambda>i. xs ! ((s + i) mod n)) (rev [1..<Suc r]))"

lemma sh_run_0 [simp]: "sh_run n s xs 0 = []"
  by (simp add: sh_run_def)

lemma sh_run_Suc:
  "sh_run n s xs (Suc r) =
     (if used (xs ! ((s + Suc r) mod n)) then xs ! ((s + Suc r) mod n) # sh_run n s xs r else sh_run n s xs r)"
  by (simp add: sh_run_def)

lemma sh_run_cong: "(\<And>i. i \<le> r \<Longrightarrow> ys ! ((s + i) mod n) = xs ! ((s + i) mod n)) \<Longrightarrow> sh_run n s ys r = sh_run n s xs r"
  by (induction r) (simp_all add: sh_run_Suc del: add_Suc_right)

lemma scan_rest:
  "sh_ok T k tb \<Longrightarrow> s < 2 ^ k \<Longrightarrow> \<not> used (sh_data tb ! s) \<Longrightarrow> r < 2 ^ k \<Longrightarrow>
   \<exists>tb'. sh_scan T P tb (sh_iter k s r) =
       Some (sh_run (2 ^ k) s (sh_data tb) r, tb') \<and> sh_ok T k tb' \<and>
     sh_entries tb = {#x \<in># mset (sh_run (2 ^ k) s (sh_data tb) r). P x#} + sh_entries tb'"
proof (induction r arbitrary: tb)
  case 0
  then show ?case by (subst sh_scan.simps, subst SH_ITERATE.simps) (simp add: sh_iter_def)
next
  case (Suc r)
  let ?n = "2 ^ k :: nat" and ?q = "(s + Suc r) mod 2 ^ k"
  have sh: "sh_shape tb k" using Suc.prems(1) by (simp add: sh_ok_def)
  note step = scan_step [OF sh Suc.prems(2,4), of T P]
  show ?case
  proof (cases "used (sh_data tb ! ?q) \<and> P (sh_data tb ! ?q)")
    case False
    then show ?thesis using Suc.IH [OF Suc.prems(1-3)] Suc.prems(4) step by (auto simp: Let_def sh_run_Suc simp del: add_Suc_right)
  next
    case True
    have q: "?q < ?n" by simp
    obtain m ys where d: "m < ?n - 1" "shift_back T (bk ?q) (tb\<lparr>sh_members := sh_members tb - 1\<rparr>) =
        Some (tb\<lparr>sh_members := sh_members tb - 1, sh_data := ys\<rparr>)"
      "shifted_back ?n ?q (Suc m) (sh_data tb) ys" "\<forall>i. 1 \<le> i \<and> i \<le> m \<longrightarrow> used (sh_data tb ! ((?q + i) mod ?n))"
      "sh_ok T k (tb\<lparr>sh_members := sh_members tb - 1, sh_data := ys\<rparr>)"
      "sh_entries tb = add_mset (sh_data tb ! ?q) (sh_entries (tb\<lparr>sh_members := sh_members tb - 1, sh_data := ys\<rparr>))"
      using True by (rule shift_back_deletes [OF Suc.prems(1) q conjunct1])
    let ?tb = "tb\<lparr>sh_members := sh_members tb - 1, sh_data := ys\<rparr>"
    have idx: "(?q + (i + ?n - Suc r)) mod ?n = (s + i) mod ?n" if "i \<le> r" for i
    proof -
      have "(?q + (i + ?n - Suc r)) mod ?n = (s + Suc r + (i + ?n - Suc r)) mod ?n" by (rule mod_add_left_eq)
      also have "s + Suc r + (i + ?n - Suc r) = s + i + ?n" using Suc.prems(4) by simp
      finally show ?thesis by simp
    qed
    have m: "m < ?n - Suc r"
    proof (rule ccontr)
      assume "\<not> m < ?n - Suc r"
      then have "used (sh_data tb ! ((?q + (0 + ?n - Suc r)) mod ?n))"
        by (intro d(4) [rule_format]) (use Suc.prems(4) in linarith)
      then show False using idx [of 0] Suc.prems(2,3) by simp
    qed
    have same: "ys ! ((s + i) mod ?n) = sh_data tb ! ((s + i) mod ?n)" if "i \<le> r" for i
      using shifted_backD [OF d(3), of "i + ?n - Suc r"] m that Suc.prems(4) idx [OF that] by auto
    have "\<not> used (sh_data ?tb ! s)" using same [of 0] Suc.prems(2,3) by simp
    from Suc.IH [OF d(5) Suc.prems(2) this] Suc.prems(4) obtain tb' where IH:
      "sh_scan T P ?tb (sh_iter k s r) = Some (sh_run ?n s ys r, tb')" "sh_ok T k tb'"
      "sh_entries ?tb = {#x \<in># mset (sh_run ?n s ys r). P x#} + sh_entries tb'"
      by auto
    have "sh_run ?n s ys r = sh_run ?n s (sh_data tb) r" by (rule sh_run_cong) (rule same)
    with IH d(2,6) True step show ?thesis by (auto simp: SH_DELETE_ITEM_def Let_def sh_run_Suc simp del: add_Suc_right)
  qed
qed

lemma first_empty_finds:
  assumes "unat (sh_size tb) \<le> 2 ^ 32" "\<exists>e<unat (sh_size tb). \<not> used (sh_data tb ! e)" "\<And>l. l < i \<Longrightarrow> used (sh_data tb ! l)"
  shows "\<exists>s<unat (sh_size tb). first_empty tb i = word_of_nat s \<and> \<not> used (sh_data tb ! s)"
  using assms(3)
proof (induction "unat (sh_size tb) - i" arbitrary: i)
  case 0
  then show ?case using assms(2) by (metis diff_is_0_eq le_trans less_or_eq_imp_le not_le)
next
  case (Suc d)
  then have i: "i < unat (sh_size tb)" by linarith
  show ?case
  proof (cases "used (sh_data tb ! i)")
    case True
    then have "used (sh_data tb ! l)" if "l < i + 1" for l using that Suc.prems by (cases "l = i") auto
    with Suc.hyps(1) [of "i + 1"] Suc.hyps(2) True i show ?thesis by (simp add: first_empty.simps [of tb i] used_def)
  qed (use i in \<open>auto simp: first_empty.simps [of tb i] used_def\<close>)
qed

lemma start_iterate:
  assumes ok: "sh_ok T k tb"
  obtains s where "s < 2 ^ k" "\<not> used (sh_data tb ! s)" "sh_scan T P tb (SH_START_ITERATE tb) = sh_scan T P tb (sh_iter k s (2 ^ k - 1))"
proof -
  have sh: "sh_shape tb k" using ok by (simp add: sh_ok_def)
  then have size: "unat (sh_size tb) = 2 ^ k" and k: "1 \<le> k" "k \<le> 32" by (simp_all add: sh_shape_def)
  have two: "(2 :: nat) ^ 1 \<le> 2 ^ k" using k by (intro power_increasing) auto
  obtain e where "e < 2 ^ k" "\<not> used (sh_data tb ! e)" by (rule sh_ok_empty [OF ok])
  then obtain s where s: "s < 2 ^ k" "first_empty tb 0 = word_of_nat s" "\<not> used (sh_data tb ! s)"
    using first_empty_finds [of tb 0] size power_le_32 [OF k(2)] by auto
  have "(ucast (word_of_nat s :: u64) :: u32) = bk s"
    by (rule word_unat_eq_iff [THEN iffD2])
      (use s(1) power_le_32 [OF k(2)] in \<open>simp add: unsigned_ucast_eq take_bit_eq_mod unat_of_nat\<close>)
  then have start: "SH_START_ITERATE tb = \<lparr>it_cur = bk s, it_end = bk s, it_done = False\<rparr>"
    using s(2) by (simp add: SH_START_ITERATE_def Let_def)
  have prev: "(bk s - 1) AND sh_sizemask tb = bk ((s + (2 ^ k - 1)) mod 2 ^ k)"
    using prev_bk [OF sh s(1)] by (simp add: SH_PREV_def Nat.add_diff_assoc)
  have "bk ((s + (2 ^ k - 1)) mod 2 ^ k) = bk s \<longleftrightarrow> (2 :: nat) ^ k - 1 = 0"
    using bk_inject [OF sh, of "(s + (2 ^ k - 1)) mod 2 ^ k" s] ring_shift [of s "2 ^ k" "2 ^ k - 1" 0] s(1) by simp
  then have "SH_ITERATE tb (SH_START_ITERATE tb) = SH_ITERATE tb (sh_iter k s (2 ^ k - 1))"
    unfolding start SH_ITERATE.simps [of tb "\<lparr>it_cur = bk s, it_end = bk s, it_done = False\<rparr>"]
    using s(1,3) two
    by (simp add: Let_def prev and_mask_bk [OF sh] unat_bk [OF sh] used_def sh_iter_def)
  then have "sh_scan T P tb (SH_START_ITERATE tb) = sh_scan T P tb (sh_iter k s (2 ^ k - 1))"
    by (simp add: sh_scan.simps [of T P tb])
  with s show thesis by (intro that)
qed

theorem scan_visits:
  assumes ok: "sh_ok T k tb"
  shows "\<exists>xs tb'. sh_scan T P tb (SH_START_ITERATE tb) = Some (xs, tb') \<and> mset xs = sh_entries tb \<and>
    sh_ok T k tb' \<and> sh_entries tb' = {#x \<in># sh_entries tb. \<not> P x#}"
proof -
  let ?n = "2 ^ k :: nat"
  obtain s where s: "s < ?n" "\<not> used (sh_data tb ! s)"
    "sh_scan T P tb (SH_START_ITERATE tb) = sh_scan T P tb (sh_iter k s (?n - 1))" by (rule start_iterate [OF ok])
  have len: "length (sh_data tb) = ?n" by (rule sh_ok_length [OF ok])
  let ?ys = "sh_run ?n s (sh_data tb) (?n - 1)"
  have "rotate s (sh_data tb) = map (\<lambda>i. sh_data tb ! ((s + i) mod ?n)) [0..<?n]"
    by (rule nth_equalityI) (simp_all add: len nth_rotate)
  also have "[0..<?n] = 0 # [1..<?n]" by (simp add: upt_rec)
  finally have "filter used (rotate s (sh_data tb)) = filter used (map (\<lambda>i. sh_data tb ! ((s + i) mod ?n)) [1..<?n])"
    using s(1,2) by simp
  then have "sh_entries tb = mset (filter used (map (\<lambda>i. sh_data tb ! ((s + i) mod ?n)) [1..<?n]))"
    by (metis sh_entries_def mset_filter_rotate)
  then have all: "mset ?ys = sh_entries tb" by (simp add: sh_run_def rev_map)
  from scan_rest [OF ok s(1,2), of "?n - 1" P] obtain tb' where
    "sh_scan T P tb (sh_iter k s (?n - 1)) = Some (?ys, tb')" "sh_ok T k tb'"
    "sh_entries tb = {#x \<in># mset ?ys. P x#} + sh_entries tb'"
    by auto
  moreover from this(3) have "sh_entries tb' = {#x \<in># sh_entries tb. \<not> P x#}"
    unfolding all using multiset_partition [of "sh_entries tb" P] by (metis add_left_imp_eq)
  ultimately show ?thesis using s(3) all by auto
qed

section \<open>A table keyed by a number\<close>

text \<open>The parameters as the server's tables give them when the key is a 32-bit number.\<close>

definition number_template :: "'v \<Rightarrow> (u32, 'v) sh_template" where
  "number_template v = \<lparr>SH_EQUAL = (=), SH_HASH_KEY = murmurhash32, SH_STORE_HASH = False, SH_SIZEOF = 16,
     SH_ZEROED = \<lparr>el_status = SH_EMPTY, el_key = 0, el_hash = 0, el_value = v\<rparr>\<rparr>"

lemma number_template_ok: "sh_template_ok (number_template v)"
  by (simp add: sh_template_ok_def number_template_def used_def)

interpretation numbers: sh_keys "number_template v" for v
  by unfold_locales (rule number_template_ok)

lemma number_lookup:
  "sh_ok (number_template v) k tb \<Longrightarrow> \<exists>r. SH_LOOKUP (number_template v) tb key = Some r \<and>
     sh_map (number_template v) tb key = map_option (\<lambda>i. el_value (sh_data tb ! unat i)) r"
  by (rule numbers.map_lookup)

text \<open>With this hash no two keys share one, so every comparison that the stored hash would save is
  one of different keys.\<close>

lemma number_hash_inj: "SH_HASH_KEY (number_template v) x = SH_HASH_KEY (number_template v) y \<longleftrightarrow> x = y"
  using murmurhash32_inj by (simp add: number_template_def inj_eq)

section \<open>The tables of a client\<close>

text \<open>Every table that the operations reach from a new one.\<close>

inductive sh_reach :: "('k, 'v) sh_template \<Rightarrow> ('k, 'v) SH_TYPE \<Rightarrow> bool" for T where
  create: "SH_CREATE T nelements = Inr tb \<Longrightarrow> sh_reach T tb"
| reset: "sh_reach T tb \<Longrightarrow> sh_reach T (SH_RESET T tb)"
| grow: "sh_reach T tb \<Longrightarrow> unat (sh_size tb) < unat newsize \<Longrightarrow> newsize \<le> SH_MAX_SIZE \<Longrightarrow>
    SH_GROW T tb newsize = Some (Inr tb') \<Longrightarrow> sh_reach T tb'"
| insert: "sh_reach T tb \<Longrightarrow> SH_INSERT T key tb = Some (res, tb') \<Longrightarrow> sh_reach T tb'"
| store: "sh_reach T tb \<Longrightarrow> SH_LOOKUP T tb key = Some (Some i) \<Longrightarrow> sh_reach T (sh_set_value i v tb)"
| delete: "sh_reach T tb \<Longrightarrow> SH_DELETE T key tb = Some (found, tb') \<Longrightarrow> sh_reach T tb'"
| delete_item: "sh_reach T tb \<Longrightarrow> SH_LOOKUP T tb key = Some (Some i) \<Longrightarrow> SH_DELETE_ITEM T i tb = Some tb' \<Longrightarrow> sh_reach T tb'"

lemma reach_ok:
  assumes T: "sh_template_ok T" and "sh_reach T tb"
  shows "\<exists>k. sh_ok T k tb"
  using assms(2)
proof induction
  case (create nelements tb)
  then show ?case using sh_keys.create_empty [OF sh_keys.intro [OF T], of nelements] by auto
next
  case (reset tb)
  then show ?case using sh_keys.reset_empty [OF sh_keys.intro [OF T]] by blast
next
  case (grow tb newsize tb')
  then obtain k where ok: "sh_ok T k tb" by blast
  have "unat newsize \<le> 2 ^ 32" using grow.hyps(3) by (simp add: word_le_nat_alt SH_MAX_SIZE_def)
  then show ?case using sh_keys.grow_keeps [OF sh_keys.intro [OF T] ok, of newsize] grow.hyps(2,4) ok
    by (auto simp: sh_ok_def sh_shape_def)
next
  case (insert tb key res tb')
  then obtain k where "sh_ok T k tb" by blast
  then show ?case using sh_keys.insert_inserts [OF sh_keys.intro [OF T], of k tb key] insert.hyps(2)
    by (auto simp: SH_INSERT_def)
next
  case (store tb key i v)
  then obtain k where ok: "sh_ok T k tb" by blast
  then show ?case using sh_keys.lookup_finds [OF sh_keys.intro [OF T] ok, of key] store.hyps(2) set_value_ok [OF ok, of i v]
    by (auto simp: sh_entries_def)
next
  case (delete tb key found tb')
  then obtain k where "sh_ok T k tb" by blast
  then show ?case using sh_keys.delete_deletes [OF sh_keys.intro [OF T], of k tb key] delete.hyps(2) by auto
next
  case (delete_item tb key i tb')
  then obtain k where ok: "sh_ok T k tb" by blast
  then show ?case using sh_keys.lookup_finds [OF sh_keys.intro [OF T] ok, of key] delete_item.hyps(2,3)
      delete_item_deletes [OF ok, of "unat i"]
    by (auto simp: sh_entries_def)
qed

definition small_table :: "(u32, u32) SH_TYPE" where
  "small_table = \<lparr>sh_size = 2, sh_members = 0, sh_sizemask = 1, sh_grow_threshold = 1,
     sh_data = replicate 2 (SH_ZEROED (number_template 0))\<rparr>"

lemma small_reach: "sh_reach (number_template 0) small_table"
proof (rule sh_reach.create)
  show "SH_CREATE (number_template 0) 2 = Inr small_table" 
    by code_simp
qed

section \<open>Properties\<close>

text \<open>C37: Every table that a client reaches from a new one by insertions, deletions, resets, growth and stores into
  entries is well formed: it has a power of two of buckets, the count of members is the number of used
  buckets, at least one bucket is empty (so that the probing loops end), no element is more than one bucket
  further from its home than its predecessor, and no two elements have equal keys.\<close>

theorem simplehash_invariant:
  assumes "sh_template_ok T" "sh_reach T tb"
  shows "(\<exists>k. 1 \<le> k \<and> k \<le> 32 \<and> unat (sh_size tb) = 2 ^ k \<and> length (sh_data tb) = 2 ^ k) \<and>
    unat (sh_members tb) = length (filter used (sh_data tb)) \<and> (\<exists>x\<in>set (sh_data tb). \<not> used x) \<and>
    sh_robin T (sh_data tb) \<and> (\<forall>key. length (filter (\<lambda>x. used x \<and> SH_EQUAL T (el_key x) key) (sh_data tb)) \<le> 1)"
proof -
  obtain k where ok: "sh_ok T k tb" using reach_ok [OF assms] by blast
  then have sh: "sh_shape tb k" "sh_robin T (sh_data tb)" "sh_entries_ok T (sh_entries tb)"
    "unat (sh_members tb) = size (sh_entries tb)" unfolding sh_ok_def by blast+
  obtain e where e: "e < 2 ^ k" "\<not> used (sh_data tb ! e)" by (rule sh_ok_empty [OF ok])
  have "length (filter (\<lambda>x. used x \<and> SH_EQUAL T (el_key x) key) (sh_data tb)) \<le> 1" for key
  proof -
    have "size {#x \<in># sh_entries tb. SH_EQUAL T (el_key x) key#} \<le> 1" using sh(3) unfolding sh_entries_ok_def by blast
    moreover have "{#x \<in># sh_entries tb. SH_EQUAL T (el_key x) key#} = mset (filter (\<lambda>x. SH_EQUAL T (el_key x) key) (filter used (sh_data tb)))"
      by (simp only: sh_entries_def mset_filter)
    ultimately show ?thesis by (simp only: filter_filter size_mset conj_commute)
  qed
  moreover have "unat (sh_members tb) = length (filter used (sh_data tb))" using sh(4) by (simp only: sh_entries_def size_mset)
  moreover have "\<exists>x\<in>set (sh_data tb). \<not> used x" using e sh_ok_length [OF ok] nth_mem [of e "sh_data tb"] by auto
  moreover have "1 \<le> k \<and> k \<le> 32 \<and> unat (sh_size tb) = 2 ^ k \<and> length (sh_data tb) = 2 ^ k" using sh(1) by (simp add: sh_shape_def)
  ultimately show ?thesis using sh(2) by blast
qed

theorem simplehash_invariant_witness:
  "unat (sh_members small_table) = length (filter used (sh_data small_table)) \<and>
   sh_robin (number_template 0) (sh_data small_table)"
  using simplehash_invariant [OF number_template_ok small_reach] by blast

text \<open>C36: The operations of the hash table act as those of a map from keys to values: on every reachable table
  a lookup returns, and finds the value of the key; an insertion returns, tells whether the key was there, and
  after the client's store into the entry the table is the map with the key updated, whatever was moved or
  grown on the way; it fails only if the elements are huge, there are about two hundred million of them, or
  the table has 2^32 buckets, and then the map is as before; a deletion returns, tells whether the key was there, and removes just it.\<close>

theorem simplehash_refines_map:
  assumes "sh_template_ok T" "sh_reach T tb"
  shows "(\<exists>r. SH_LOOKUP T tb key = Some r \<and> map_option (\<lambda>i. el_value (sh_data tb ! unat i)) r = sh_map T tb key) \<and>
    (\<exists>res tb'. SH_INSERT T key tb = Some (res, tb') \<and>
      (unat (SH_SIZEOF T) < 2 ^ 31 \<and> unat (sh_size tb) < 2 ^ 32 \<and> 10 * unat (sh_members tb) < 2 ^ 31 \<longrightarrow> (\<exists>a. res = Inr a)) \<and>
      (case res of
         Inl e \<Rightarrow> sh_map T tb' = sh_map T tb
       | Inr (i, found) \<Rightarrow> (found \<longleftrightarrow> sh_map T tb key \<noteq> None) \<and>
           sh_map T (sh_set_value i v tb') = (\<lambda>q. if SH_EQUAL T q key then Some v else sh_map T tb q))) \<and>
    (\<exists>found tb'. SH_DELETE T key tb = Some (found, tb') \<and> (found \<longleftrightarrow> sh_map T tb key \<noteq> None) \<and>
      sh_map T tb' = (\<lambda>q. if SH_EQUAL T q key then None else sh_map T tb q))"
proof -
  obtain k where ok: "sh_ok T k tb" using reach_ok [OF assms] by blast
  have small: "k < 32" if "unat (sh_size tb) < 2 ^ 32"
    by (rule power_less_imp_less_exp [of "2 :: nat"]) (use that ok in \<open>simp_all add: sh_ok_def sh_shape_def\<close>)
  note K = sh_keys.intro [OF assms(1)]
  obtain r where "SH_LOOKUP T tb key = Some r" "sh_map T tb key = map_option (\<lambda>i. el_value (sh_data tb ! unat i)) r"
    using sh_keys.map_lookup [OF K ok, of key] by blast
  moreover obtain res tb' k' where i: "SH_INSERT T key tb = Some (res, tb')"
      "unat (SH_SIZEOF T) < 2 ^ 31 \<and> k < 32 \<and> 10 * unat (sh_members tb) < 2 ^ 31 \<longrightarrow> (\<exists>a. res = Inr a)"
      "case res of
         Inl e \<Rightarrow> sh_map T tb' = sh_map T tb
       | Inr (i, found) \<Rightarrow> (found \<longleftrightarrow> sh_map T tb key \<noteq> None) \<and> sh_ok T k' (sh_set_value i v tb') \<and>
           sh_map T (sh_set_value i v tb') = (\<lambda>q. if SH_EQUAL T q key then Some v else sh_map T tb q)"
    using sh_keys.map_insert [OF K ok, of key v] by blast
  moreover from i(3) have "case res of
         Inl e \<Rightarrow> sh_map T tb' = sh_map T tb
       | Inr (i, found) \<Rightarrow> (found \<longleftrightarrow> sh_map T tb key \<noteq> None) \<and>
           sh_map T (sh_set_value i v tb') = (\<lambda>q. if SH_EQUAL T q key then Some v else sh_map T tb q)"
    by (auto split: sum.splits)
  moreover note sh_keys.map_delete [OF K ok, of key] small
  ultimately show ?thesis by auto
qed

theorem simplehash_refines_map_witness:
  "(\<exists>res tb'. SH_INSERT (number_template 0) 7 small_table = Some (Inr res, tb') \<and>
      sh_map (number_template 0) (sh_set_value (fst res) 5 tb') = [7 \<mapsto> 5]) \<and>
   (\<exists>tb'. SH_DELETE (number_template 0) 7 small_table = Some (False, tb'))"
proof -
  have T: "SH_SIZEOF (number_template (0 :: u32)) = 16" "SH_EQUAL (number_template (0 :: u32)) = (=)"
    by (simp_all add: number_template_def)
  have t: "unat (sh_size small_table) = 2" "sh_members small_table = 0" by (simp_all add: small_table_def)
  have "sh_map (number_template 0) small_table = Map.empty"
    by (simp add: sh_map_def small_table_def number_template_def used_def fun_eq_iff numeral_2_eq_2)
  with simplehash_refines_map [OF number_template_ok small_reach, of 7 5] show ?thesis
    by (auto simp: T t fun_eq_iff)
qed

text \<open>C38: A scan of a reachable table that deletes the current entry whenever it likes returns, visits
  every entry exactly once, and leaves just the entries that it did not delete.\<close>

theorem simplehash_scan_complete:
  assumes "sh_template_ok T" "sh_reach T tb"
  shows "\<exists>xs tb'. sh_scan T P tb (SH_START_ITERATE tb) = Some (xs, tb') \<and> mset xs = mset (filter used (sh_data tb)) \<and>
    mset (filter used (sh_data tb')) = mset (filter (\<lambda>x. used x \<and> \<not> P x) (sh_data tb))"
proof -
  obtain k where ok: "sh_ok T k tb" using reach_ok [OF assms] by blast
  have "{#x \<in># sh_entries tb. \<not> P x#} = mset (filter (\<lambda>x. used x \<and> \<not> P x) (sh_data tb))"
    by (simp only: sh_entries_def mset_filter [symmetric] filter_filter)
  with scan_visits [OF ok, of P] show ?thesis unfolding sh_entries_def by metis
qed

theorem simplehash_scan_complete_witness:
  "\<exists>tb'. sh_scan (number_template 0) (\<lambda>_. True) small_table (SH_START_ITERATE small_table) = Some ([], tb')"
proof -
  have "filter used (sh_data small_table) = []" by (simp add: small_table_def number_template_def used_def)
  then show ?thesis using simplehash_scan_complete [OF number_template_ok small_reach, of "\<lambda>_. True"] by auto
qed

end
