(* ===== verification/MetadataCache.thy ===== *)
theory MetadataCache
  imports Prelude
begin

text \<open>
  \<open>src/metadata_cache.c\<close>: the shared-memory cache over the tables \<open>partdist.partition_map\<close> and
  \<open>partdist.node_map\<close>.  A pointer that is \<open>NULL\<close> is \<open>None\<close>; the rows that SPI returns are
  parameters, and so is the content of memory nobody has initialised.  A lookup is the
  composition of its critical sections, so that the lemmas can interleave them.  They show
  when a cached answer is the table's and how an invalidation can be lost.
\<close>

section \<open>State\<close>

definition PARTDIST_MAX_SECONDARIES :: nat where
  "PARTDIST_MAX_SECONDARIES = 32"

definition PARTDIST_MAX_HOSTNAME :: nat where
  "PARTDIST_MAX_HOSTNAME = 256"

definition PARTDIST_NODE_MAX_ENTRIES :: nat where
  "PARTDIST_NODE_MAX_ENTRIES = 64"

datatype NodeStatus = NODE_ACTIVE | NODE_DOWN | NODE_SYNCING

record PartitionMapEntry =
  map_partition_id :: oid
  primary_node :: i32
  secondary_nodes :: "i32 list"
  num_secondaries :: nat
  version :: i64

record NodeMapEntry =
  node_id :: i32
  hostname :: string
  port :: i32
  status :: NodeStatus

record PartdistSharedState =
  partition_lock :: "string \<times> nat"
  node_lock :: "string \<times> nat"
  metadata_generation :: i64
  partition_hits :: u64
  partition_misses :: u64
  node_hits :: u64
  node_misses :: u64

record PartitionHashEntry =
  h_primary_node :: i32
  h_secondary_nodes :: "i32 list"
  h_num_secondaries :: nat
  h_meta_version :: i64
  h_is_valid :: bool

record NodeHashEntry =
  hn_node_id :: i32
  hn_hostname :: string
  hn_port :: i32
  hn_status :: NodeStatus
  hn_meta_version :: i64
  hn_is_valid :: bool

record metadata =
  PartdistState :: "PartdistSharedState option"
  PartitionMapHash :: "(oid, PartitionHashEntry) htab option"
  NodeMapHash :: "(i32, NodeHashEntry) htab option"

section \<open>Reading the tables\<close>

text \<open>What SPI answers: it cannot connect, the query raises, it does not end as a \<open>SELECT\<close>, or
  it returns rows.\<close>

datatype 'row spi = ConnectFails | ExecuteRaises | ExecuteNotSelect | Rows "'row list"

record partition_row =
  row_primary :: "i32 option"
  row_secondaries :: "i32 option list option"
  row_version :: "i64 option"

record node_row =
  row_hostname :: "string option"
  row_port :: "i32 option"
  row_status :: "string option"

text \<open>\<open>memcpy\<close> of the first \<open>n\<close> elements, and \<open>strlcpy\<close> into a buffer of \<open>n\<close> bytes.\<close>

definition copy_prefix :: "nat \<Rightarrow> 'a list \<Rightarrow> 'a list \<Rightarrow> 'a list" where
  "copy_prefix n src dst = take n src @ drop n dst"

definition strlcpy :: "string \<Rightarrow> nat \<Rightarrow> string" where
  "strlcpy src n = take (n - 1) src"

text \<open>The loop over the array elements: a \<open>NULL\<close> element leaves its slot as it was.\<close>

fun store_secondaries :: "nat \<Rightarrow> i32 option list \<Rightarrow> i32 list \<Rightarrow> i32 list" where
  "store_secondaries i [] arr = arr"
| "store_secondaries i (x # xs) arr =
     (if i < PARTDIST_MAX_SECONDARIES
      then store_secondaries (Suc i) xs (case x of None \<Rightarrow> arr | Some v \<Rightarrow> arr[i := v])
      else arr)"

definition LoadPartitionFromTable ::
    "oid \<Rightarrow> partition_row spi \<Rightarrow> PartitionMapEntry \<Rightarrow> (pg_error + bool) \<times> PartitionMapEntry" where
  "LoadPartitionFromTable p ans out =
     (case ans of
        ConnectFails \<Rightarrow> (Inl ErrSpi, out)
      | ExecuteRaises \<Rightarrow> (Inl ErrSpi, out)
      | ExecuteNotSelect \<Rightarrow> (Inr False, out)
      | Rows [] \<Rightarrow> (Inr False, out)
      | Rows (row # rows) \<Rightarrow>
          (case row_primary row of
             None \<Rightarrow> (Inr False, out)
           | Some primary \<Rightarrow>
               let out1 = out\<lparr>primary_node := primary, num_secondaries := 0\<rparr>;
                   out2 = (case row_secondaries row of
                             None \<Rightarrow> out1
                           | Some elems \<Rightarrow>
                               out1\<lparr>secondary_nodes := store_secondaries 0 elems (secondary_nodes out1),
                                    num_secondaries := min (length elems) PARTDIST_MAX_SECONDARIES\<rparr>)
               in (Inr True,
                   out2\<lparr>version := (case row_version row of None \<Rightarrow> 1 | Some v \<Rightarrow> v),
                        map_partition_id := p\<rparr>)))"

definition LoadNodeFromTable ::
    "i32 \<Rightarrow> node_row spi \<Rightarrow> NodeMapEntry \<Rightarrow> (pg_error + bool) \<times> NodeMapEntry" where
  "LoadNodeFromTable nid ans out =
     (case ans of
        ConnectFails \<Rightarrow> (Inl ErrSpi, out)
      | ExecuteRaises \<Rightarrow> (Inl ErrSpi, out)
      | ExecuteNotSelect \<Rightarrow> (Inr False, out)
      | Rows [] \<Rightarrow> (Inr False, out)
      | Rows (row # rows) \<Rightarrow>
          (case row_hostname row of
             None \<Rightarrow> (Inr False, out)
           | Some h \<Rightarrow>
               (Inr True,
                out\<lparr>hostname := strlcpy h PARTDIST_MAX_HOSTNAME,
                    port := (case row_port row of None \<Rightarrow> 0 | Some n \<Rightarrow> n),
                    status := (case row_status row of
                                 None \<Rightarrow> NODE_ACTIVE
                               | Some t \<Rightarrow> if t = ''down'' then NODE_DOWN
                                          else if t = ''syncing'' then NODE_SYNCING
                                          else NODE_ACTIVE),
                    node_id := nid\<rparr>)))"

section \<open>Lookups\<close>

text \<open>The critical section under the shared lock: a hit, or a miss to be counted.\<close>

definition partition_probe :: "oid \<Rightarrow> metadata \<Rightarrow> i32 option \<times> metadata" where
  "partition_probe p m =
     (case (PartitionMapHash m, PartdistState m) of
        (Some h, Some st) \<Rightarrow>
          (case hash_find p h of
             Some e \<Rightarrow>
               if h_is_valid e \<and> h_meta_version e = metadata_generation st
               then (Some (h_primary_node e),
                     m\<lparr>PartdistState := Some (st\<lparr>partition_hits := partition_hits st + 1\<rparr>)\<rparr>)
               else (None, m\<lparr>PartdistState := Some (st\<lparr>partition_misses := partition_misses st + 1\<rparr>)\<rparr>)
           | None \<Rightarrow>
               (None, m\<lparr>PartdistState := Some (st\<lparr>partition_misses := partition_misses st + 1\<rparr>)\<rparr>))
      | _ \<Rightarrow> (None, m))"

text \<open>The critical section under the exclusive lock.  \<open>fresh\<close> is the entry \<open>HASH_ENTER\<close> makes.\<close>

definition partition_repopulate ::
    "oid \<Rightarrow> PartitionMapEntry \<Rightarrow> PartitionHashEntry \<Rightarrow> metadata \<Rightarrow> (pg_error + unit) \<times> metadata" where
  "partition_repopulate p loaded fresh m =
     (case (PartitionMapHash m, PartdistState m) of
        (Some h, Some st) \<Rightarrow>
          (let old = (case hash_find p h of Some e \<Rightarrow> e | None \<Rightarrow> fresh);
               n = num_secondaries loaded;
               new = old\<lparr>h_primary_node := primary_node loaded,
                         h_num_secondaries := n,
                         h_secondary_nodes := copy_prefix n (secondary_nodes loaded) (h_secondary_nodes old),
                         h_meta_version := metadata_generation st,
                         h_is_valid := True\<rparr>
           in case hash_enter p new h of
                Inl e \<Rightarrow> (Inl e, m)
              | Inr h' \<Rightarrow> (Inr (), m\<lparr>PartitionMapHash := Some h'\<rparr>))
      | _ \<Rightarrow> (Inr (), m))"

text \<open>\<open>GetPartitionPrimary\<close>; the result \<open>-1\<close> of the source is \<open>- 1\<close> of the 32-bit type.\<close>

definition GetPartitionPrimary ::
    "oid \<Rightarrow> partition_row spi \<Rightarrow> PartitionMapEntry \<Rightarrow> PartitionHashEntry \<Rightarrow> metadata
       \<Rightarrow> (pg_error + i32) \<times> metadata" where
  "GetPartitionPrimary p ans uninit fresh m =
     (case partition_probe p m of
        (Some primary, m1) \<Rightarrow> (Inr primary, m1)
      | (None, m1) \<Rightarrow>
          (case LoadPartitionFromTable p ans uninit of
             (Inl e, loaded) \<Rightarrow> (Inl e, m1)
           | (Inr False, loaded) \<Rightarrow> (Inr (- 1), m1)
           | (Inr True, loaded) \<Rightarrow>
               if sint (primary_node loaded) \<ge> 0
               then (case partition_repopulate p loaded fresh m1 of
                       (Inl e, m2) \<Rightarrow> (Inl e, m2)
                     | (Inr _, m2) \<Rightarrow> (Inr (primary_node loaded), m2))
               else (Inr (primary_node loaded), m1)))"

definition GetPartitionEntry ::
    "oid \<Rightarrow> partition_row spi \<Rightarrow> PartitionMapEntry \<Rightarrow> PartitionHashEntry \<Rightarrow> PartitionMapEntry \<Rightarrow> metadata
       \<Rightarrow> (pg_error + bool) \<times> PartitionMapEntry \<times> metadata" where
  "GetPartitionEntry p ans uninit fresh out m =
     (case GetPartitionPrimary p ans uninit fresh m of
        (Inl e, m1) \<Rightarrow> (Inl e, out, m1)
      | (Inr primary, m1) \<Rightarrow>
          if sint primary < 0 then (Inr False, out, m1)
          else case (PartitionMapHash m1, PartdistState m1) of
                 (Some h, Some st) \<Rightarrow>
                   (case hash_find p h of
                      None \<Rightarrow> (Inr False, out, m1)
                    | Some e \<Rightarrow>
                        if h_is_valid e
                        then (Inr True,
                              out\<lparr>map_partition_id := p, primary_node := h_primary_node e,
                                  num_secondaries := h_num_secondaries e,
                                  secondary_nodes := copy_prefix (h_num_secondaries e)
                                    (h_secondary_nodes e) (secondary_nodes out),
                                  version := h_meta_version e\<rparr>, m1)
                        else (Inr True, out, m1))
               | _ \<Rightarrow>
                   (Inr True,
                    out\<lparr>map_partition_id := p, primary_node := primary, num_secondaries := 0,
                        version := 0\<rparr>, m1))"

definition node_probe :: "i32 \<Rightarrow> metadata \<Rightarrow> NodeMapEntry option \<times> metadata" where
  "node_probe nid m =
     (case (NodeMapHash m, PartdistState m) of
        (Some h, Some st) \<Rightarrow>
          (case hash_find nid h of
             Some e \<Rightarrow>
               if hn_is_valid e \<and> hn_meta_version e = metadata_generation st
               then (Some \<lparr>node_id = hn_node_id e,
                           hostname = strlcpy (hn_hostname e) PARTDIST_MAX_HOSTNAME,
                           port = hn_port e, status = hn_status e\<rparr>,
                     m\<lparr>PartdistState := Some (st\<lparr>node_hits := node_hits st + 1\<rparr>)\<rparr>)
               else (None, m\<lparr>PartdistState := Some (st\<lparr>node_misses := node_misses st + 1\<rparr>)\<rparr>)
           | None \<Rightarrow>
               (None, m\<lparr>PartdistState := Some (st\<lparr>node_misses := node_misses st + 1\<rparr>)\<rparr>))
      | _ \<Rightarrow> (None, m))"

definition node_repopulate :: "i32 \<Rightarrow> NodeMapEntry \<Rightarrow> metadata \<Rightarrow> (pg_error + unit) \<times> metadata" where
  "node_repopulate nid loaded m =
     (case (NodeMapHash m, PartdistState m) of
        (Some h, Some st) \<Rightarrow>
          (case hash_enter nid
                  \<lparr>hn_node_id = node_id loaded,
                   hn_hostname = strlcpy (hostname loaded) PARTDIST_MAX_HOSTNAME,
                   hn_port = port loaded, hn_status = status loaded,
                   hn_meta_version = metadata_generation st, hn_is_valid = True\<rparr> h of
             Inl e \<Rightarrow> (Inl e, m)
           | Inr h' \<Rightarrow> (Inr (), m\<lparr>NodeMapHash := Some h'\<rparr>))
      | _ \<Rightarrow> (Inr (), m))"

text \<open>\<open>GetNodeInfo\<close>: the palloc'd copy is the value, \<open>NULL\<close> is \<open>None\<close>.\<close>

definition GetNodeInfo ::
    "i32 \<Rightarrow> node_row spi \<Rightarrow> NodeMapEntry \<Rightarrow> metadata
       \<Rightarrow> (pg_error + NodeMapEntry option) \<times> metadata" where
  "GetNodeInfo nid ans uninit m =
     (case node_probe nid m of
        (Some node, m1) \<Rightarrow> (Inr (Some node), m1)
      | (None, m1) \<Rightarrow>
          (case LoadNodeFromTable nid ans uninit of
             (Inl e, loaded) \<Rightarrow> (Inl e, m1)
           | (Inr False, loaded) \<Rightarrow> (Inr None, m1)
           | (Inr True, loaded) \<Rightarrow>
               (case node_repopulate nid loaded m1 of
                  (Inl e, m2) \<Rightarrow> (Inl e, m2)
                | (Inr _, m2) \<Rightarrow> (Inr (Some loaded), m2))))"

definition InvalidatePartdistCache :: "metadata \<Rightarrow> metadata" where
  "InvalidatePartdistCache m =
     (case PartdistState m of
        None \<Rightarrow> m
      | Some st \<Rightarrow> m\<lparr>PartdistState := Some (st\<lparr>metadata_generation := metadata_generation st + 1\<rparr>)\<rparr>)"

section \<open>The rows as the cache keeps them\<close>

definition table_primary :: "partition_row spi \<Rightarrow> i32" where
  "table_primary ans =
     (case ans of
        Rows (row # rows) \<Rightarrow> (case row_primary row of Some primary \<Rightarrow> primary | None \<Rightarrow> - 1)
      | _ \<Rightarrow> - 1)"

text \<open>The secondaries of the row, the first 32 of them; \<open>None\<close> when an element is \<open>NULL\<close>.\<close>

definition table_secondaries :: "partition_row spi \<Rightarrow> i32 list option" where
  "table_secondaries ans =
     (case ans of
        Rows (row # rows) \<Rightarrow>
          (case row_secondaries row of
             None \<Rightarrow> Some []
           | Some elems \<Rightarrow>
               if None \<in> set elems then None
               else Some (map the (take PARTDIST_MAX_SECONDARIES elems)))
      | _ \<Rightarrow> None)"

lemma take_copy_prefix: "n \<le> length src \<Longrightarrow> take n (copy_prefix n src dst) = take n src"
  by (simp add: copy_prefix_def)

lemma length_store_secondaries [simp]: "length (store_secondaries i xs arr) = length arr"
  by (induction i xs arr rule: store_secondaries.induct) (auto split: option.splits)

lemma store_secondaries_take:
  "None \<notin> set xs \<Longrightarrow> length arr = PARTDIST_MAX_SECONDARIES \<Longrightarrow> i \<le> PARTDIST_MAX_SECONDARIES \<Longrightarrow>
     take (min (i + length xs) PARTDIST_MAX_SECONDARIES) (store_secondaries i xs arr)
       = take i arr @ map the (take (PARTDIST_MAX_SECONDARIES - i) xs)"
proof (induction i xs arr rule: store_secondaries.induct)
  case (1 i arr)
  then show ?case by (simp add: min_def)
next
  case (2 i x xs arr)
  show ?case
  proof (cases "i < PARTDIST_MAX_SECONDARIES")
    case True
    then obtain v where v: "x = Some v" using "2.prems"(1) by (cases x) auto
    have "take (Suc i) (arr[i := v]) = take i arr @ [v]"
      using True "2.prems"(2) by (simp add: take_Suc_conv_app_nth)
    moreover have "take (PARTDIST_MAX_SECONDARIES - i) (x # xs)
        = x # take (PARTDIST_MAX_SECONDARIES - Suc i) xs"
      using True by (simp add: take_Cons')
    ultimately show ?thesis
      using "2.IH" [OF True] "2.prems" True v by simp
  next
    case False
    with "2.prems" show ?thesis by (simp add: min_def)
  qed
qed

lemma LoadPartition_loaded:
  assumes "LoadPartitionFromTable p ans out = (Inr True, l)"
    and "length (secondary_nodes out) = PARTDIST_MAX_SECONDARIES"
  shows "primary_node l = table_primary ans" and "num_secondaries l \<le> PARTDIST_MAX_SECONDARIES"
    and "length (secondary_nodes l) = PARTDIST_MAX_SECONDARIES" and "map_partition_id l = p"
    and "table_secondaries ans = Some xs \<Longrightarrow> take (num_secondaries l) (secondary_nodes l) = xs"
proof -
  have "primary_node l = table_primary ans \<and> num_secondaries l \<le> PARTDIST_MAX_SECONDARIES
    \<and> length (secondary_nodes l) = PARTDIST_MAX_SECONDARIES \<and> map_partition_id l = p
    \<and> (table_secondaries ans = Some xs \<longrightarrow> take (num_secondaries l) (secondary_nodes l) = xs)"
    using assms store_secondaries_take [of _ "secondary_nodes out" 0]
    by (auto simp: LoadPartitionFromTable_def Let_def table_primary_def table_secondaries_def
        split: spi.splits list.splits option.splits if_splits)
  then show "primary_node l = table_primary ans" and "num_secondaries l \<le> PARTDIST_MAX_SECONDARIES"
    and "length (secondary_nodes l) = PARTDIST_MAX_SECONDARIES" and "map_partition_id l = p"
    and "table_secondaries ans = Some xs \<Longrightarrow> take (num_secondaries l) (secondary_nodes l) = xs"
    by auto
qed

lemma LoadPartition_not_found:
  "LoadPartitionFromTable p ans out = (Inr False, l) \<Longrightarrow> table_primary ans = - 1"
  by (auto simp: LoadPartitionFromTable_def Let_def table_primary_def
      split: spi.splits list.splits option.splits)

section \<open>The invariant of the cache\<close>

text \<open>Every entry fits its fixed-size arrays, was stored in the past, and is marked valid.\<close>

definition entry_ok :: "i64 \<Rightarrow> PartitionHashEntry \<Rightarrow> bool" where
  "entry_ok gen e \<longleftrightarrow>
     length (h_secondary_nodes e) = PARTDIST_MAX_SECONDARIES \<and>
     h_num_secondaries e \<le> PARTDIST_MAX_SECONDARIES \<and> h_is_valid e \<and> h_meta_version e \<le> gen"

definition cache_inv :: "metadata \<Rightarrow> bool" where
  "cache_inv m \<longleftrightarrow>
     (\<forall>h. PartitionMapHash m = Some h \<longrightarrow> hash_inv h) \<and>
     (\<forall>h st p e. PartitionMapHash m = Some h \<longrightarrow> PartdistState m = Some st \<longrightarrow>
        hash_find p h = Some e \<longrightarrow> entry_ok (metadata_generation st) e)"

text \<open>An entry of the current generation has what its row has.\<close>

definition entry_current :: "partition_row spi \<Rightarrow> PartitionHashEntry \<Rightarrow> bool" where
  "entry_current ans e \<longleftrightarrow>
     h_primary_node e = table_primary ans \<and>
     (\<forall>xs. table_secondaries ans = Some xs \<longrightarrow> take (h_num_secondaries e) (h_secondary_nodes e) = xs)"

definition coherent :: "(oid \<Rightarrow> partition_row spi) \<Rightarrow> metadata \<Rightarrow> bool" where
  "coherent T m \<longleftrightarrow>
     (\<forall>h st p e. PartitionMapHash m = Some h \<longrightarrow> PartdistState m = Some st \<longrightarrow>
        hash_find p h = Some e \<longrightarrow> h_meta_version e = metadata_generation st \<longrightarrow> entry_current (T p) e)"

definition uninit_ok :: "PartitionMapEntry \<Rightarrow> PartitionHashEntry \<Rightarrow> bool" where
  "uninit_ok uninit fresh \<longleftrightarrow>
     length (secondary_nodes uninit) = PARTDIST_MAX_SECONDARIES \<and>
     length (h_secondary_nodes fresh) = PARTDIST_MAX_SECONDARIES"

text \<open>A probe only counts.\<close>

lemma probe_effect:
  assumes "partition_probe p m = (r, m')"
  shows "PartitionMapHash m' = PartitionMapHash m" and "NodeMapHash m' = NodeMapHash m"
    and "map_option metadata_generation (PartdistState m') = map_option metadata_generation (PartdistState m)"
  using assms
  by (auto simp: partition_probe_def split: option.splits if_splits)

lemma generation_eqD:
  "map_option metadata_generation x = map_option metadata_generation y \<Longrightarrow> x = Some st \<Longrightarrow>
     \<exists>st'. y = Some st' \<and> metadata_generation st' = metadata_generation st"
  by (cases y) auto

lemma probe_inv:
  assumes "partition_probe p m = (r, m')"
  shows "cache_inv m' = cache_inv m" and "coherent T m' = coherent T m"
proof -
  note e = probe_effect [OF assms]
  show "cache_inv m' = cache_inv m"
    using e(3) unfolding cache_inv_def e(1) by (cases "PartdistState m"; cases "PartdistState m'") auto
  show "coherent T m' = coherent T m"
    using e(3) unfolding coherent_def e(1) by (cases "PartdistState m"; cases "PartdistState m'") auto
qed

lemma probe_hit:
  assumes "partition_probe p m = (Some x, m')" and "coherent T m"
  shows "x = table_primary (T p)"
  using assms unfolding partition_probe_def coherent_def entry_current_def
  by (auto split: option.splits if_splits)

lemma repopulate_stores:
  assumes r: "partition_repopulate p l fresh m = (Inr u, m')" and inv: "cache_inv m"
    and l: "length (secondary_nodes l) = PARTDIST_MAX_SECONDARIES"
      "num_secondaries l \<le> PARTDIST_MAX_SECONDARIES"
    and fresh: "length (h_secondary_nodes fresh) = PARTDIST_MAX_SECONDARIES"
    and h: "PartitionMapHash m = Some h" and st: "PartdistState m = Some st"
  obtains h' e where "PartitionMapHash m' = Some h'" and "PartdistState m' = PartdistState m"
    and "hash_inv h'" and "entry_ok (metadata_generation st) e"
    and "h_meta_version e = metadata_generation st" and "h_primary_node e = primary_node l"
    and "take (h_num_secondaries e) (h_secondary_nodes e) = take (num_secondaries l) (secondary_nodes l)"
    and "\<And>q. hash_find q h' = (if q = p then Some e else hash_find q h)"
proof -
  let ?old = "case hash_find p h of Some e \<Rightarrow> e | None \<Rightarrow> fresh"
  let ?e = "?old\<lparr>h_primary_node := primary_node l, h_num_secondaries := num_secondaries l,
      h_secondary_nodes := copy_prefix (num_secondaries l) (secondary_nodes l) (h_secondary_nodes ?old),
      h_meta_version := metadata_generation st, h_is_valid := True\<rparr>"
  have hi: "hash_inv h" using inv h by (simp add: cache_inv_def)
  have old: "length (h_secondary_nodes ?old) = PARTDIST_MAX_SECONDARIES"
    using inv h st fresh by (auto simp: cache_inv_def entry_ok_def split: option.splits)
  obtain h' where e: "hash_enter p ?e h = Inr h'" "m' = m\<lparr>PartitionMapHash := Some h'\<rparr>"
    using r h st by (auto simp: partition_repopulate_def Let_def split: sum.splits)
  have ok: "entry_ok (metadata_generation st) ?e"
    using l old by (simp add: entry_ok_def copy_prefix_def)
  have "take (h_num_secondaries ?e) (h_secondary_nodes ?e) = take (num_secondaries l) (secondary_nodes l)"
    using l by (simp add: copy_prefix_def)
  then show thesis
    using e ok ht.inv_enter [OF hi e(1)] ht.find_enter [OF hi e(1)]
    by (intro that [of h' ?e]) simp_all
qed

lemma repopulate_detached:
  "partition_repopulate p l fresh m = (r, m') \<Longrightarrow> PartitionMapHash m = None \<or> PartdistState m = None \<Longrightarrow>
     m' = m \<and> r = Inr ()"
  by (auto simp: partition_repopulate_def split: option.splits)

lemma repopulate_error:
  "partition_repopulate p l fresh m = (Inl e, m') \<Longrightarrow> m' = m \<and> e = ErrOutOfSharedMemory"
  by (auto simp: partition_repopulate_def Let_def hash_enter_error split: option.splits sum.splits)

text \<open>What a successful load stores keeps the invariant, and the coherence with the rows it read.\<close>

lemma repopulate_keeps:
  assumes r: "partition_repopulate p l fresh m = (Inr u, m')" and inv: "cache_inv m"
    and load: "LoadPartitionFromTable p (T p) uninit = (Inr True, l)" and u: "uninit_ok uninit fresh"
  shows "cache_inv m'" and "coherent T m \<Longrightarrow> coherent T m'"
proof -
  have ul: "length (secondary_nodes uninit) = PARTDIST_MAX_SECONDARIES"
    and uf: "length (h_secondary_nodes fresh) = PARTDIST_MAX_SECONDARIES"
    using u by (auto simp: uninit_ok_def)
  note ld = LoadPartition_loaded [OF load ul]
  have "cache_inv m' \<and> (coherent T m \<longrightarrow> coherent T m')"
  proof (cases "PartitionMapHash m = None \<or> PartdistState m = None")
    case True
    with repopulate_detached [OF r] inv show ?thesis by auto
  next
    case False
    then obtain h st where hs: "PartitionMapHash m = Some h" "PartdistState m = Some st" by auto
    obtain h' e where x: "PartitionMapHash m' = Some h'" "PartdistState m' = PartdistState m"
      "hash_inv h'" "entry_ok (metadata_generation st) e" "h_primary_node e = primary_node l"
      "take (h_num_secondaries e) (h_secondary_nodes e) = take (num_secondaries l) (secondary_nodes l)"
      "\<And>q. hash_find q h' = (if q = p then Some e else hash_find q h)"
      by (rule repopulate_stores [OF r inv ld(3,2) uf hs]) blast
    have cur: "entry_current (T p) e"
      using ld(1,5) x(5,6) by (simp add: entry_current_def)
    have "cache_inv m'" using inv hs x by (auto simp: cache_inv_def split: if_splits)
    moreover have "coherent T m'" if "coherent T m"
      using that hs x cur by (auto simp: coherent_def split: if_splits)
    ultimately show ?thesis by blast
  qed
  then show "cache_inv m'" and "coherent T m \<Longrightarrow> coherent T m'" by blast+
qed

lemma GetPartitionPrimary_coherent:
  assumes g: "GetPartitionPrimary p (T p) uninit fresh m = (r, m')" and inv: "cache_inv m"
    and co: "coherent T m" and u: "uninit_ok uninit fresh"
  shows "cache_inv m'" and "coherent T m'" and "r = Inr x \<Longrightarrow> x = table_primary (T p)"
proof -
  obtain o1 m1 where pr: "partition_probe p m = (o1, m1)" by fastforce
  obtain lr l where load: "LoadPartitionFromTable p (T p) uninit = (lr, l)" by fastforce
  have 1: "cache_inv m1" "coherent T m1" using probe_inv [OF pr] inv co by auto
  have ul: "length (secondary_nodes uninit) = PARTDIST_MAX_SECONDARIES"
    using u by (simp add: uninit_ok_def)
  obtain rr m2 where rp: "partition_repopulate p l fresh m1 = (rr, m2)" by fastforce
  have "cache_inv m' \<and> coherent T m' \<and> (\<forall>x. r = Inr x \<longrightarrow> x = table_primary (T p))"
  proof (cases o1)
    case (Some x)
    with g pr 1 probe_hit [OF pr [unfolded Some] co] show ?thesis
      by (auto simp: GetPartitionPrimary_def)
  next
    case miss: None
    show ?thesis
    proof (cases "lr = Inr True \<and> sint (primary_node l) \<ge> 0")
      case False
      with g pr load miss 1 LoadPartition_not_found [of p "T p" uninit l]
        LoadPartition_loaded(1) [OF _ ul, of p "T p" l]
      show ?thesis
        by (auto simp: GetPartitionPrimary_def split: sum.splits bool.splits if_splits)
    next
      case True
      then have ldt: "LoadPartitionFromTable p (T p) uninit = (Inr True, l)" using load by simp
      show ?thesis
      proof (cases rr)
        case (Inl e)
        with g pr ldt miss True rp repopulate_error [of p l fresh m1 e m2] 1 show ?thesis
          by (auto simp: GetPartitionPrimary_def)
      next
        case (Inr v)
        with g pr ldt miss True rp repopulate_keeps [where T = T, OF rp [unfolded Inr] 1(1) ldt u] 1(2)
          LoadPartition_loaded(1) [OF ldt ul]
        show ?thesis by (auto simp: GetPartitionPrimary_def)
      qed
    qed
  qed
  then show "cache_inv m'" and "coherent T m'" and "r = Inr x \<Longrightarrow> x = table_primary (T p)" by blast+
qed

text \<open>After an invalidation no entry is of the current generation, so any rows are coherent.\<close>

lemma Invalidate_coherent:
  assumes "cache_inv m" and "\<And>st. PartdistState m = Some st \<Longrightarrow> unat (metadata_generation st) + 1 < 2 ^ 64"
  shows "cache_inv (InvalidatePartdistCache m)" and "coherent T (InvalidatePartdistCache m)"
proof -
  have up: "v \<noteq> g + 1 \<and> v \<le> g + 1" if "v \<le> g" "unat g + 1 < 2 ^ 64" for v g :: i64
  proof -
    have "unat (g + 1) = unat g + 1" using that(2) by (simp add: unat_word_ariths)
    with that(1) show ?thesis by (auto simp: word_le_nat_alt)
  qed
  show "cache_inv (InvalidatePartdistCache m)"
    using assms up by (auto simp: cache_inv_def InvalidatePartdistCache_def entry_ok_def split: option.splits)
  show "coherent T (InvalidatePartdistCache m)"
    using assms up
    by (fastforce simp: coherent_def cache_inv_def InvalidatePartdistCache_def entry_ok_def split: option.splits)
qed

text \<open>A lookup that finds the partition leaves an entry of the current generation behind.\<close>

lemma probe_hit_entry:
  assumes "partition_probe p m = (Some x, m')"
  obtains h st e where "PartitionMapHash m' = Some h" and "PartdistState m' = Some st"
    and "hash_find p h = Some e" and "h_meta_version e = metadata_generation st"
  using assms by (auto simp: partition_probe_def split: option.splits if_splits)

lemma GetPartitionPrimary_entry:
  assumes g: "GetPartitionPrimary p ans uninit fresh m = (Inr x, m')" and x: "sint x \<ge> 0"
    and inv: "cache_inv m" and u: "uninit_ok uninit fresh"
    and att: "PartitionMapHash m \<noteq> None" "PartdistState m \<noteq> None"
  obtains h st e where "PartitionMapHash m' = Some h" and "PartdistState m' = Some st"
    and "hash_find p h = Some e" and "h_meta_version e = metadata_generation st"
proof -
  obtain o1 m1 where pr: "partition_probe p m = (o1, m1)" by fastforce
  obtain lr l where load: "LoadPartitionFromTable p ans uninit = (lr, l)" by fastforce
  obtain rr m2 where rp: "partition_repopulate p l fresh m1 = (rr, m2)" by fastforce
  note pe = probe_effect [OF pr]
  show thesis
  proof (cases o1)
    case (Some y)
    with g pr have "m' = m1" by (simp add: GetPartitionPrimary_def)
    with probe_hit_entry [OF pr [unfolded Some]] that show thesis by blast
  next
    case None
    then have miss: "lr = Inr True" "rr = Inr ()" "m' = m2"
      using g pr load rp x by (auto simp: GetPartitionPrimary_def split: sum.splits bool.splits if_splits)
    obtain h where h: "PartitionMapHash m1 = Some h" using att(1) pe(1) by auto
    obtain st where st: "PartdistState m1 = Some st" using att(2) pe(3) by (cases "PartdistState m1") auto
    have i1: "cache_inv m1" using probe_inv(1) [OF pr] inv by simp
    have ul: "length (secondary_nodes uninit) = PARTDIST_MAX_SECONDARIES"
      and uf: "length (h_secondary_nodes fresh) = PARTDIST_MAX_SECONDARIES"
      using u by (auto simp: uninit_ok_def)
    note ld = LoadPartition_loaded [OF load [unfolded miss(1)] ul]
    show thesis
      by (rule repopulate_stores [OF rp [unfolded miss(2)] i1 ld(3,2) uf h st])
        (use that miss(3) st in auto)
  qed
qed

section \<open>The node cache\<close>

text \<open>The status a node has in its table, \<open>None\<close> where there is no usable row.\<close>

definition table_status :: "node_row spi \<Rightarrow> NodeStatus option" where
  "table_status ans =
     (case ans of
        Rows (row # rows) \<Rightarrow>
          (if row_hostname row = None then None
           else Some (if row_status row = Some ''down'' then NODE_DOWN
                      else if row_status row = Some ''syncing'' then NODE_SYNCING else NODE_ACTIVE))
      | _ \<Rightarrow> None)"

definition node_cache_inv :: "metadata \<Rightarrow> bool" where
  "node_cache_inv m \<longleftrightarrow>
     (\<forall>h. NodeMapHash m = Some h \<longrightarrow> hash_inv h) \<and>
     (\<forall>h st n e. NodeMapHash m = Some h \<longrightarrow> PartdistState m = Some st \<longrightarrow> hash_find n h = Some e \<longrightarrow>
        hn_meta_version e \<le> metadata_generation st)"

definition node_coherent :: "(i32 \<Rightarrow> node_row spi) \<Rightarrow> metadata \<Rightarrow> bool" where
  "node_coherent N m \<longleftrightarrow>
     (\<forall>h st n e. NodeMapHash m = Some h \<longrightarrow> PartdistState m = Some st \<longrightarrow> hash_find n h = Some e \<longrightarrow>
        hn_meta_version e = metadata_generation st \<longrightarrow> table_status (N n) = Some (hn_status e))"

lemma LoadNode_loaded:
  "LoadNodeFromTable n ans out = (Inr True, l) \<Longrightarrow> table_status ans = Some (status l) \<and> node_id l = n"
  "LoadNodeFromTable n ans out = (Inr False, l) \<Longrightarrow> table_status ans = None"
  by (auto simp: LoadNodeFromTable_def table_status_def split: spi.splits list.splits option.splits)

lemma node_probe_effect:
  assumes "node_probe n m = (r, m')"
  shows "PartitionMapHash m' = PartitionMapHash m" and "NodeMapHash m' = NodeMapHash m"
    and "map_option metadata_generation (PartdistState m') = map_option metadata_generation (PartdistState m)"
  using assms
  by (auto simp: node_probe_def split: option.splits if_splits)

lemma node_probe_hit:
  "node_probe n m = (Some node, m') \<Longrightarrow> node_coherent N m \<Longrightarrow> table_status (N n) = Some (status node)"
  unfolding node_probe_def node_coherent_def by (auto split: option.splits if_splits)

lemma node_repopulate_effect:
  assumes "node_repopulate n l m = (r, m')"
  shows "PartitionMapHash m' = PartitionMapHash m" and "PartdistState m' = PartdistState m"
    and "node_cache_inv m \<Longrightarrow> node_cache_inv m'"
    and "node_cache_inv m \<Longrightarrow> node_coherent N m \<Longrightarrow> table_status (N n) = Some (status l) \<Longrightarrow> node_coherent N m'"
proof -
  have stored: "k = n \<and> x = e \<or> hash_find k h = Some x"
    if "hash_inv h" "hash_enter n e h = Inr h'" "hash_find k h' = Some x" for h h' e k x
    using that ht.find_enter [OF that(1,2), of k] by (auto split: if_splits)
  show "PartitionMapHash m' = PartitionMapHash m" and "PartdistState m' = PartdistState m"
    using assms by (auto simp: node_repopulate_def Let_def split: option.splits sum.splits)
  show "node_cache_inv m \<Longrightarrow> node_cache_inv m'"
    using assms
    by (auto simp: node_repopulate_def node_cache_inv_def Let_def dest: ht.inv_enter stored
        split: option.splits sum.splits if_splits)
  show "node_cache_inv m \<Longrightarrow> node_coherent N m \<Longrightarrow> table_status (N n) = Some (status l) \<Longrightarrow> node_coherent N m'"
    using assms
    by (auto simp: node_repopulate_def node_cache_inv_def node_coherent_def Let_def dest: stored
        split: option.splits sum.splits if_splits)
qed

lemma node_inv_cong:
  assumes "NodeMapHash m' = NodeMapHash m"
    and "map_option metadata_generation (PartdistState m') = map_option metadata_generation (PartdistState m)"
  shows "node_cache_inv m' = node_cache_inv m" and "node_coherent N m' = node_coherent N m"
  using assms(2) unfolding node_cache_inv_def node_coherent_def assms(1)
  by (cases "PartdistState m"; cases "PartdistState m'"; auto)+

lemma cache_inv_cong:
  assumes "PartitionMapHash m' = PartitionMapHash m"
    and "map_option metadata_generation (PartdistState m') = map_option metadata_generation (PartdistState m)"
  shows "cache_inv m' = cache_inv m" and "coherent T m' = coherent T m"
  using assms(2) unfolding cache_inv_def coherent_def assms(1)
  by (cases "PartdistState m"; cases "PartdistState m'"; auto)+

lemma repopulate_frame:
  assumes "partition_repopulate p l fresh m = (r, m')"
  shows "NodeMapHash m' = NodeMapHash m" and "PartdistState m' = PartdistState m"
  using assms by (auto simp: partition_repopulate_def Let_def split: option.splits sum.splits)

lemma GetPartitionPrimary_node:
  assumes "GetPartitionPrimary p ans uninit fresh m = (r, m')"
  shows "node_cache_inv m' = node_cache_inv m" and "node_coherent N m' = node_coherent N m"
    and "PartdistState m' = None \<longleftrightarrow> PartdistState m = None"
    and "PartitionMapHash m' = None \<longleftrightarrow> PartitionMapHash m = None"
proof -
  obtain o1 m1 where pr: "partition_probe p m = (o1, m1)" by fastforce
  obtain lr l where load: "LoadPartitionFromTable p ans uninit = (lr, l)" by fastforce
  obtain rr m2 where rp: "partition_repopulate p l fresh m1 = (rr, m2)" by fastforce
  note pe = probe_effect [OF pr] and re = repopulate_frame [OF rp]
  have "m' = m1 \<or> m' = m2"
    using assms pr load rp
    by (auto simp: GetPartitionPrimary_def split: option.splits sum.splits bool.splits if_splits)
  moreover have "map_option metadata_generation (PartdistState m2) = map_option metadata_generation (PartdistState m)"
    using pe(3) re(2) by simp
  ultimately have nm: "NodeMapHash m' = NodeMapHash m"
    and gm: "map_option metadata_generation (PartdistState m') = map_option metadata_generation (PartdistState m)"
    using pe re by auto
  show "node_cache_inv m' = node_cache_inv m" and "node_coherent N m' = node_coherent N m"
    by (rule node_inv_cong [OF nm gm])+
  show "PartdistState m' = None \<longleftrightarrow> PartdistState m = None"
    using gm by (cases "PartdistState m"; cases "PartdistState m'") auto
  have "PartitionMapHash m2 = None \<longleftrightarrow> PartitionMapHash m1 = None"
    using rp by (auto simp: partition_repopulate_def Let_def split: option.splits sum.splits)
  with \<open>m' = m1 \<or> m' = m2\<close> pe(1) show "PartitionMapHash m' = None \<longleftrightarrow> PartitionMapHash m = None" by auto
qed

lemma GetNodeInfo_coherent:
  assumes g: "GetNodeInfo n (N n) uninit m = (r, m')" and inv: "node_cache_inv m" and co: "node_coherent N m"
  shows "node_cache_inv m'" and "node_coherent N m'"
    and "r = Inr x \<Longrightarrow> map_option status x = table_status (N n)"
    and "cache_inv m' = cache_inv m" and "coherent T m' = coherent T m"
proof -
  obtain o1 m1 where pr: "node_probe n m = (o1, m1)" by fastforce
  obtain lr l where load: "LoadNodeFromTable n (N n) uninit = (lr, l)" by fastforce
  obtain rr m2 where rp: "node_repopulate n l m1 = (rr, m2)" by fastforce
  note pe = node_probe_effect [OF pr] and re = node_repopulate_effect [OF rp]
  have 1: "node_cache_inv m1" "node_coherent N m1" using node_inv_cong [OF pe(2,3)] inv co by auto
  have c1: "cache_inv m1 = cache_inv m" "coherent T m1 = coherent T m" by (rule cache_inv_cong [OF pe(1,3)])+
  have c2: "cache_inv m2 = cache_inv m1" "coherent T m2 = coherent T m1"
    using cache_inv_cong [of m2 m1] re(1,2) by auto
  have 2: "node_cache_inv m2" "table_status (N n) = Some (status l) \<Longrightarrow> node_coherent N m2"
    using re(3,4) 1 by blast+
  note lo = LoadNode_loaded [of n "N n" uninit l]
  have "node_cache_inv m' \<and> node_coherent N m' \<and> (\<forall>x. r = Inr x \<longrightarrow> map_option status x = table_status (N n))
      \<and> (cache_inv m' = cache_inv m) \<and> (coherent T m' = coherent T m)"
  proof (cases o1)
    case (Some node)
    with g pr 1 c1 node_probe_hit [OF pr [unfolded Some] co] show ?thesis
      by (auto simp: GetNodeInfo_def)
  next
    case None
    show ?thesis
    proof (cases "lr = Inr True")
      case True
      with g pr None load rp 2 c1 c2 lo(1) show ?thesis
        by (cases rr) (auto simp: GetNodeInfo_def)
    next
      case False
      with g pr None load 1 c1 lo(2) show ?thesis
        by (auto simp: GetNodeInfo_def split: sum.splits bool.splits)
    qed
  qed
  then show "node_cache_inv m'" and "node_coherent N m'"
    and "r = Inr x \<Longrightarrow> map_option status x = table_status (N n)"
    and "cache_inv m' = cache_inv m" and "coherent T m' = coherent T m" by blast+
qed

section \<open>Properties\<close>

text \<open>Lookups that are not overlapped, and changes of the table that end with an invalidation.\<close>

inductive cache_run :: "(oid \<Rightarrow> partition_row spi) \<Rightarrow> metadata \<Rightarrow> bool" where
  run_start: "PartitionMapHash m = None \<or> PartitionMapHash m = Some \<lparr>max_entries = n, entries = []\<rparr> \<Longrightarrow>
     cache_run T m"
| run_lookup: "cache_run T m \<Longrightarrow> uninit_ok uninit fresh \<Longrightarrow>
     GetPartitionPrimary p (T p) uninit fresh m = (r, m') \<Longrightarrow> cache_run T m'"
| run_change: "cache_run T m \<Longrightarrow>
     (\<And>st. PartdistState m = Some st \<Longrightarrow> unat (metadata_generation st) + 1 < 2 ^ 64) \<Longrightarrow>
     cache_run T' (InvalidatePartdistCache m)"

lemma cache_run_inv: "cache_run T m \<Longrightarrow> cache_inv m \<and> coherent T m"
proof (induction rule: cache_run.induct)
  case (run_start m n T)
  then show ?case by (auto simp: cache_inv_def coherent_def hash_inv_def hash_find_def)
next
  case (run_lookup T m uninit fresh p r m')
  then show ?case
    using GetPartitionPrimary_coherent(1,2) [where T = T, OF run_lookup(3)] by blast
next
  case (run_change T m T')
  then show ?case using Invalidate_coherent(1) [of m] Invalidate_coherent(2) [of m T'] by blast
qed

text \<open>Memory for the examples.\<close>

definition blank_entry :: PartitionMapEntry where
  "blank_entry = \<lparr>map_partition_id = 0, primary_node = 0, secondary_nodes = replicate 32 0,
                  num_secondaries = 0, version = 0\<rparr>"

definition blank_hash_entry :: PartitionHashEntry where
  "blank_hash_entry = \<lparr>h_primary_node = 0, h_secondary_nodes = replicate 32 0, h_num_secondaries = 0,
                       h_meta_version = 0, h_is_valid = False\<rparr>"

definition empty_cache :: "nat \<Rightarrow> metadata" where
  "empty_cache n =
     \<lparr>PartdistState = Some \<lparr>partition_lock = (''pg_partdist'', 0), node_lock = (''pg_partdist'', 1),
        metadata_generation = 0, partition_hits = 0, partition_misses = 0, node_hits = 0, node_misses = 0\<rparr>,
      PartitionMapHash = Some \<lparr>max_entries = n, entries = []\<rparr>,
      NodeMapHash = Some \<lparr>max_entries = PARTDIST_NODE_MAX_ENTRIES, entries = []\<rparr>\<rparr>"

definition row_on :: "i32 \<Rightarrow> i32 option list \<Rightarrow> partition_row spi" where
  "row_on primary secs =
     Rows [\<lparr>row_primary = Some primary, row_secondaries = Some secs, row_version = Some 5\<rparr>]"

lemma blank_ok: "uninit_ok blank_entry blank_hash_entry"
  by (simp add: uninit_ok_def blank_entry_def blank_hash_entry_def PARTDIST_MAX_SECONDARIES_def)

lemma empty_cache_run: "cache_run T (empty_cache n)"
  by (rule run_start [of _ n]) (simp add: empty_cache_def)

text \<open>C6: When lookups do not overlap and every change of \<open>partition_map\<close> is followed by an
  invalidation, \<open>GetPartitionPrimary\<close> returns the primary that the table has now (\<open>-1\<close> where it has
  no usable row), whatever the cache holds, for any table and any history.\<close>

theorem cached_primary_is_current:
  assumes "cache_run T m" and "uninit_ok uninit fresh"
    and "GetPartitionPrimary p (T p) uninit fresh m = (Inr x, m')"
  shows "x = table_primary (T p)"
  using GetPartitionPrimary_coherent(3) [where T = T, OF assms(3) _ _ assms(2)] cache_run_inv [OF assms(1)] by blast

theorem cached_primary_is_current_witness:
  "\<exists>m x m'. cache_run (\<lambda>p. row_on 2 []) m \<and>
     GetPartitionPrimary 9 (row_on 2 []) blank_entry blank_hash_entry m = (Inr x, m') \<and> x = 2"
proof -
  let ?T = "\<lambda>p. row_on 1 []" and ?T' = "\<lambda>p. row_on 2 []"
  obtain r m1 where 1: "GetPartitionPrimary 9 (?T 9) blank_entry blank_hash_entry (empty_cache 4) = (r, m1)"
    by fastforce
  have m1: "cache_run ?T m1"
    by (rule run_lookup [OF empty_cache_run blank_ok 1])
  have 2: "cache_run ?T' (InvalidatePartdistCache m1)"
    by (rule run_change [OF m1])
      (use 1 in \<open>auto simp: GetPartitionPrimary_def partition_probe_def empty_cache_def hash_find_def
        LoadPartitionFromTable_def row_on_def Let_def partition_repopulate_def hash_enter_def\<close>)
  have g: "\<exists>x m'. GetPartitionPrimary 9 (?T' 9) blank_entry blank_hash_entry (InvalidatePartdistCache m1) = (Inr x, m')"
    using 1 by (auto simp: GetPartitionPrimary_def partition_probe_def empty_cache_def hash_find_def
        LoadPartitionFromTable_def row_on_def Let_def partition_repopulate_def hash_enter_def
        InvalidatePartdistCache_def)
  then obtain x m' where g: "GetPartitionPrimary 9 (?T' 9) blank_entry blank_hash_entry
      (InvalidatePartdistCache m1) = (Inr x, m')" by blast
  have "x = 2" using cached_primary_is_current [OF 2 blank_ok g] by (simp add: table_primary_def row_on_def)
  with 2 g show ?thesis by blast
qed

text \<open>\<open>GetPartitionEntry\<close> on an attached process returns the row's primary and its first 32
  secondaries when none of them is \<open>NULL\<close>; its \<open>version\<close> is the metadata generation of the
  cache, not the row's version.\<close>

theorem GetPartitionEntry_functional:
  assumes "cache_run T m" and "uninit_ok uninit fresh"
    and "PartitionMapHash m \<noteq> None" and "PartdistState m \<noteq> None"
    and "GetPartitionEntry p (T p) uninit fresh out m = (Inr True, out', m')"
  shows "map_partition_id out' = p \<and> primary_node out' = table_primary (T p) \<and>
    num_secondaries out' \<le> PARTDIST_MAX_SECONDARIES \<and>
    (\<forall>xs. table_secondaries (T p) = Some xs \<longrightarrow>
       take (num_secondaries out') (secondary_nodes out') = xs) \<and>
    (\<exists>st. PartdistState m' = Some st \<and> version out' = metadata_generation st)"
proof -
  obtain r m1 where g: "GetPartitionPrimary p (T p) uninit fresh m = (r, m1)" by fastforce
  with assms(5) obtain x where x: "r = Inr x" "sint x \<ge> 0" "m' = m1"
    by (auto simp: GetPartitionEntry_def not_less split: sum.splits if_splits option.splits)
  have inv: "cache_inv m" "coherent T m" using cache_run_inv [OF assms(1)] by auto
  note after = GetPartitionPrimary_coherent [where T = T, OF g inv assms(2)]
  obtain h st e where e: "PartitionMapHash m1 = Some h" "PartdistState m1 = Some st"
    "hash_find p h = Some e" "h_meta_version e = metadata_generation st"
    by (rule GetPartitionPrimary_entry [OF g [unfolded x(1)] x(2) inv(1) assms(2-4)])
  have ok: "entry_ok (metadata_generation st) e" using after(1) e unfolding cache_inv_def by blast
  have cur: "entry_current (T p) e" using after(2) e unfolding coherent_def by blast
  have out': "out' = out\<lparr>map_partition_id := p, primary_node := h_primary_node e,
      num_secondaries := h_num_secondaries e,
      secondary_nodes := copy_prefix (h_num_secondaries e) (h_secondary_nodes e) (secondary_nodes out),
      version := h_meta_version e\<rparr>"
    using assms(5) g x e ok by (simp add: GetPartitionEntry_def entry_ok_def)
  show ?thesis
    using ok cur e x(3) unfolding out' by (simp add: entry_ok_def entry_current_def take_copy_prefix)
qed

theorem GetPartitionEntry_functional_witness:
  "\<exists>out' m'. GetPartitionEntry 9 (row_on 2 [Some 3, Some 4]) blank_entry blank_hash_entry blank_entry
       (empty_cache 4) = (Inr True, out', m') \<and>
     take (num_secondaries out') (secondary_nodes out') = [3, 4] \<and> version out' = 0"
proof -
  let ?T = "\<lambda>p. row_on 2 [Some 3, Some 4]"
  have g: "\<exists>out' m'. GetPartitionEntry 9 (?T 9) blank_entry blank_hash_entry blank_entry (empty_cache 4)
      = (Inr True, out', m') \<and> (\<forall>st. PartdistState m' = Some st \<longrightarrow> metadata_generation st = 0)"
    by (simp add: GetPartitionEntry_def GetPartitionPrimary_def partition_probe_def empty_cache_def
        hash_find_def LoadPartitionFromTable_def row_on_def Let_def partition_repopulate_def hash_enter_def)
  then obtain out' m' where g: "GetPartitionEntry 9 (?T 9) blank_entry blank_hash_entry blank_entry (empty_cache 4)
      = (Inr True, out', m')" "\<forall>st. PartdistState m' = Some st \<longrightarrow> metadata_generation st = 0" by blast
  have att: "PartitionMapHash (empty_cache 4) \<noteq> None" "PartdistState (empty_cache 4) \<noteq> None"
    by (simp_all add: empty_cache_def)
  from GetPartitionEntry_functional [OF empty_cache_run blank_ok att g(1)] g show ?thesis
    by (auto simp: table_secondaries_def row_on_def PARTDIST_MAX_SECONDARIES_def)
qed

text \<open>An invalidation that falls between a lookup's read of the table and its store into the
  cache is lost: the row read before is stored under the generation that came after, and every
  later lookup returns it from the cache, whatever the table says, until the next invalidation.\<close>

theorem invalidation_lost:
  assumes "cache_inv m" and "uninit_ok uninit fresh"
    and "PartitionMapHash m \<noteq> None" and "PartdistState m \<noteq> None"
    and "LoadPartitionFromTable p before uninit = (Inr True, loaded)"
    and "\<And>st. PartdistState m = Some st \<Longrightarrow> unat (metadata_generation st) + 1 < 2 ^ 64"
    and "partition_repopulate p loaded fresh (InvalidatePartdistCache m) = (Inr (), m')"
  shows "\<exists>m''. GetPartitionPrimary p now uninit' fresh' m' = (Inr (primary_node loaded), m'')"
proof -
  let ?m = "InvalidatePartdistCache m"
  obtain h st where hs: "PartitionMapHash ?m = Some h" "PartdistState ?m = Some st"
    using assms(3,4) by (auto simp: InvalidatePartdistCache_def split: option.splits)
  have ul: "length (secondary_nodes uninit) = PARTDIST_MAX_SECONDARIES"
    and uf: "length (h_secondary_nodes fresh) = PARTDIST_MAX_SECONDARIES"
    using assms(2) by (auto simp: uninit_ok_def)
  note ld = LoadPartition_loaded [OF assms(5) ul]
  have inv: "cache_inv ?m" by (rule Invalidate_coherent(1) [OF assms(1,6)])
  obtain h' e where "PartitionMapHash m' = Some h'" "PartdistState m' = PartdistState ?m"
    "entry_ok (metadata_generation st) e" "h_meta_version e = metadata_generation st"
    "h_primary_node e = primary_node loaded" "hash_find p h' = Some e"
    by (rule repopulate_stores [OF assms(7) inv ld(3,2) uf hs]) auto
  then show ?thesis
    using hs by (simp add: GetPartitionPrimary_def partition_probe_def entry_ok_def)
qed

theorem invalidation_lost_witness:
  "\<exists>loaded m' m''. LoadPartitionFromTable 9 (row_on 1 []) blank_entry = (Inr True, loaded) \<and>
     partition_repopulate 9 loaded blank_hash_entry (InvalidatePartdistCache (empty_cache 4)) = (Inr (), m') \<and>
     GetPartitionPrimary 9 (row_on 2 []) blank_entry blank_hash_entry m' = (Inr 1, m'')"
proof -
  obtain loaded where l: "LoadPartitionFromTable 9 (row_on 1 []) blank_entry = (Inr True, loaded)"
    "primary_node loaded = 1"
    by (simp add: LoadPartitionFromTable_def row_on_def Let_def)
  obtain m' where m': "partition_repopulate 9 loaded blank_hash_entry
      (InvalidatePartdistCache (empty_cache 4)) = (Inr (), m')"
    by (simp add: partition_repopulate_def InvalidatePartdistCache_def empty_cache_def hash_find_def
        hash_enter_def Let_def)
  have inv: "cache_inv (empty_cache 4)"
    using cache_run_inv [OF empty_cache_run [of "\<lambda>p. row_on 1 []" 4]] by simp
  have att: "PartitionMapHash (empty_cache 4) \<noteq> None" "PartdistState (empty_cache 4) \<noteq> None"
    and gen: "\<And>st. PartdistState (empty_cache 4) = Some st \<Longrightarrow> unat (metadata_generation st) + 1 < 2 ^ 64"
    by (auto simp: empty_cache_def)
  from invalidation_lost [OF inv blank_ok att l(1) gen m'] l m' show ?thesis by auto
qed

text \<open>The cache is bounded: when it is full, looking up a registered partition that has no entry
  raises an error, although its row was read.\<close>

theorem lookup_fails_when_full:
  assumes "PartitionMapHash m = Some h" and "PartdistState m = Some st"
    and "hash_find p h = None" and "length (entries h) = max_entries h"
    and "ans = Rows (row # rows)" and "row_primary row = Some primary" and "sint primary \<ge> 0"
  shows "fst (GetPartitionPrimary p ans uninit fresh m) = Inl ErrOutOfSharedMemory"
  using assms
  by (simp add: GetPartitionPrimary_def partition_probe_def LoadPartitionFromTable_def Let_def
      partition_repopulate_def hash_enter_def hash_find_def split: option.splits)

theorem lookup_fails_when_full_witness:
  "fst (GetPartitionPrimary 9 (row_on 2 []) blank_entry blank_hash_entry (empty_cache 0))
     = Inl ErrOutOfSharedMemory"
  by (rule lookup_fails_when_full [where primary = 2, OF _ _ _ _ row_on_def])
    (simp add: empty_cache_def hash_find_def)+

end
