(* ===== verification/PgList.thy ===== *)
theory PgList
  imports Prelude
begin

text \<open>
  The list type of the server, \<open>nodes/pg_list.h\<close>, through which the hooks walk over the result
  relations and the range table of a statement: the inline access functions and the looping
  macros.  A list is a pointer to a header with an array of cells, and the empty list is the null
  pointer; a cell is a union, here its 64 bits, and a pointer to a cell is its index in the array.
  \<open>None\<close> as the value of an access function is the failure of its \<open>Assert\<close>.  The lemmas show that
  each loop visits the elements it promises, in order, and how it leaves its cell variables.
\<close>

section \<open>Lists and cells\<close>

type_synonym ListCell = u64

datatype NodeTag = T_List | T_IntList | T_OidList | T_XidList

record List =
  list_tag :: NodeTag
  len :: nat
  max_length :: nat
  elements :: "ListCell list"

abbreviation NIL :: "List option" where
  "NIL \<equiv> None"

text \<open>The members of the union, on a little-endian machine.\<close>

definition lfirst :: "ListCell \<Rightarrow> u64" where
  "lfirst c = c"

definition lfirst_int :: "ListCell \<Rightarrow> i32" where
  "lfirst_int c = ucast c"

definition lfirst_oid :: "ListCell \<Rightarrow> oid" where
  "lfirst_oid c = ucast c"

definition lfirst_xid :: "ListCell \<Rightarrow> u32" where
  "lfirst_xid c = ucast c"

definition list_head :: "List option \<Rightarrow> nat option" where
  "list_head l = (case l of None \<Rightarrow> None | Some _ \<Rightarrow> Some 0)"

definition list_tail :: "List option \<Rightarrow> nat option" where
  "list_tail l = (case l of None \<Rightarrow> None | Some h \<Rightarrow> Some (len h - 1))"

definition list_second_cell :: "List option \<Rightarrow> nat option" where
  "list_second_cell l = (case l of None \<Rightarrow> None | Some h \<Rightarrow> if len h \<ge> 2 then Some 1 else None)"

definition list_length :: "List option \<Rightarrow> nat" where
  "list_length l = (case l of None \<Rightarrow> 0 | Some h \<Rightarrow> len h)"

definition list_nth_cell :: "List option \<Rightarrow> int \<Rightarrow> nat option" where
  "list_nth_cell l n =
     (case l of
        None \<Rightarrow> None
      | Some h \<Rightarrow> if n \<ge> 0 \<and> n < int (len h) then Some (nat n) else None)"

definition list_last_cell :: "List option \<Rightarrow> nat option" where
  "list_last_cell l = (case l of None \<Rightarrow> None | Some h \<Rightarrow> Some (len h - 1))"

text \<open>What a cell pointer points to.\<close>

definition cell_value :: "List option \<Rightarrow> nat \<Rightarrow> ListCell" where
  "cell_value l c = (case l of None \<Rightarrow> 0 | Some h \<Rightarrow> elements h ! c)"

definition list_nth :: "List option \<Rightarrow> int \<Rightarrow> u64 option" where
  "list_nth l n =
     (if map_option list_tag l = Some T_List
      then map_option (\<lambda>c. lfirst (cell_value l c)) (list_nth_cell l n) else None)"

definition list_nth_int :: "List option \<Rightarrow> int \<Rightarrow> i32 option" where
  "list_nth_int l n =
     (if map_option list_tag l = Some T_IntList
      then map_option (\<lambda>c. lfirst_int (cell_value l c)) (list_nth_cell l n) else None)"

definition list_nth_oid :: "List option \<Rightarrow> int \<Rightarrow> oid option" where
  "list_nth_oid l n =
     (if map_option list_tag l = Some T_OidList
      then map_option (\<lambda>c. lfirst_oid (cell_value l c)) (list_nth_cell l n) else None)"

definition linitial :: "List option \<Rightarrow> u64 option" where
  "linitial l = map_option (\<lambda>c. lfirst (cell_value l c)) (list_nth_cell l 0)"

definition lsecond :: "List option \<Rightarrow> u64 option" where
  "lsecond l = map_option (\<lambda>c. lfirst (cell_value l c)) (list_nth_cell l 1)"

definition lthird :: "List option \<Rightarrow> u64 option" where
  "lthird l = map_option (\<lambda>c. lfirst (cell_value l c)) (list_nth_cell l 2)"

definition lfourth :: "List option \<Rightarrow> u64 option" where
  "lfourth l = map_option (\<lambda>c. lfirst (cell_value l c)) (list_nth_cell l 3)"

definition llast :: "List option \<Rightarrow> u64 option" where
  "llast l = map_option (\<lambda>c. lfirst (cell_value l c)) (list_last_cell l)"

definition list_cell_number :: "List \<Rightarrow> nat \<Rightarrow> nat option" where
  "list_cell_number h c = (if c < len h then Some c else None)"

definition lnext :: "List \<Rightarrow> nat \<Rightarrow> nat option" where
  "lnext h c = (if c + 1 < len h then Some (c + 1) else None)"

section \<open>Loops over one list\<close>

text \<open>The state of \<open>foreach\<close>, and the test in its header, which also sets the cell variable.\<close>

record ForEachState =
  fe_l :: "List option"
  fe_i :: int

definition foreach_cell :: "ForEachState \<Rightarrow> nat option" where
  "foreach_cell st =
     (case fe_l st of
        None \<Rightarrow> None
      | Some h \<Rightarrow> if fe_i st < int (len h) then Some (nat (fe_i st)) else None)"

text \<open>A body gets the cell and the program's state, and says whether the loop goes on or was left
  by a \<open>break\<close>.  The value of the loop is the cell variable after it, and the state.\<close>

function foreach_loop :: "ForEachState \<Rightarrow> (nat \<Rightarrow> 's \<Rightarrow> bool \<times> 's) \<Rightarrow> 's \<Rightarrow> nat option \<times> 's" where
  "foreach_loop st body s =
     (case foreach_cell st of
        None \<Rightarrow> (None, s)
      | Some c \<Rightarrow>
          (case body c s of
             (go_on, s') \<Rightarrow>
               if go_on then foreach_loop (st\<lparr>fe_i := fe_i st + 1\<rparr>) body s' else (Some c, s')))"
  by auto
termination
  by (relation "measure (\<lambda>(st, _, _). case fe_l st of None \<Rightarrow> 0 | Some h \<Rightarrow> nat (int (len h) - fe_i st))")
    (auto simp: foreach_cell_def split: option.splits if_splits)

declare foreach_loop.simps [simp del]

definition pg_foreach :: "List option \<Rightarrow> (nat \<Rightarrow> 's \<Rightarrow> bool \<times> 's) \<Rightarrow> 's \<Rightarrow> nat option \<times> 's" where
  "pg_foreach lst = foreach_loop \<lparr>fe_l = lst, fe_i = 0\<rparr>"

definition for_each_from_setup :: "List option \<Rightarrow> int \<Rightarrow> ForEachState" where
  "for_each_from_setup lst n = \<lparr>fe_l = lst, fe_i = n\<rparr>"

definition for_each_from :: "List option \<Rightarrow> int \<Rightarrow> (nat \<Rightarrow> 's \<Rightarrow> bool \<times> 's) \<Rightarrow> 's \<Rightarrow> nat option \<times> 's" where
  "for_each_from lst n = foreach_loop (for_each_from_setup lst n)"

definition for_each_cell_setup :: "List option \<Rightarrow> nat option \<Rightarrow> ForEachState" where
  "for_each_cell_setup lst initcell =
     \<lparr>fe_l = lst, fe_i = (case initcell of Some c \<Rightarrow> int c | None \<Rightarrow> int (list_length lst))\<rparr>"

definition for_each_cell :: "List option \<Rightarrow> nat option \<Rightarrow> (nat \<Rightarrow> 's \<Rightarrow> bool \<times> 's) \<Rightarrow> 's \<Rightarrow> nat option \<times> 's" where
  "for_each_cell lst initcell = foreach_loop (for_each_cell_setup lst initcell)"

text \<open>A loop that deletes the current cell when \<open>keep\<close> says no.  \<open>delete_cell\<close> is the server's
  \<open>list_delete_cell\<close>; \<open>foreach_delete_current\<close> also steps the index back.\<close>

definition foreach_delete_current ::
    "(List \<Rightarrow> nat \<Rightarrow> List option) \<Rightarrow> ForEachState \<Rightarrow> nat \<Rightarrow> ForEachState" where
  "foreach_delete_current delete_cell st c =
     st\<lparr>fe_i := fe_i st - 1, fe_l := Option.bind (fe_l st) (\<lambda>h. delete_cell h c)\<rparr>"

partial_function (option) delete_loop ::
    "(List \<Rightarrow> nat \<Rightarrow> List option) \<Rightarrow> (ListCell \<Rightarrow> bool) \<Rightarrow> ForEachState \<Rightarrow> ListCell list
       \<Rightarrow> (ListCell list \<times> List option) option" where
  "delete_loop delete_cell keep st visited =
     (case foreach_cell st of
        None \<Rightarrow> Some (visited, fe_l st)
      | Some c \<Rightarrow>
          let x = cell_value (fe_l st) c;
              st1 = (if keep x then st else foreach_delete_current delete_cell st c)
          in delete_loop delete_cell keep (st1\<lparr>fe_i := fe_i st1 + 1\<rparr>) (visited @ [x]))"

section \<open>Loops over several lists\<close>

definition multi_for_advance_cell :: "List option \<Rightarrow> int \<Rightarrow> nat option" where
  "multi_for_advance_cell l i =
     (case l of None \<Rightarrow> None | Some h \<Rightarrow> if i < int (len h) then Some (nat i) else None)"

text \<open>The lists with their indexes; the loop ends when a cell variable is null.\<close>

function multi_for ::
    "(List option \<times> int) list \<Rightarrow> (nat list \<Rightarrow> 's \<Rightarrow> bool \<times> 's) \<Rightarrow> 's \<Rightarrow> nat option list \<times> 's" where
  "multi_for ps body s =
     (let cells = map (\<lambda>(l, i). multi_for_advance_cell l i) ps
      in if ps = [] \<or> None \<in> set cells then (cells, s)
         else (case body (map the cells) s of
                 (go_on, s') \<Rightarrow>
                   if go_on then multi_for (map (\<lambda>(l, i). (l, i + 1)) ps) body s' else (cells, s')))"
  by auto
termination
proof (relation "measure (\<lambda>(ps, _, _). case ps of [] \<Rightarrow> 0 | (l, i) # _ \<Rightarrow> nat (int (list_length l) - i))")
  fix ps :: "(List option \<times> int) list" and body :: "nat list \<Rightarrow> 's \<Rightarrow> bool \<times> 's" and s s' cells y go_on
  assume "cells = map (\<lambda>(l, i). multi_for_advance_cell l i) ps" and "\<not> (ps = [] \<or> None \<in> set cells)"
  then show "((map (\<lambda>(l, i). (l, i + 1)) ps, body, s'), ps, body, s)
      \<in> measure (\<lambda>(ps, _, _). case ps of [] \<Rightarrow> 0 | (l, i) # _ \<Rightarrow> nat (int (list_length l) - i))"
    by (cases ps) (auto simp: multi_for_advance_cell_def list_length_def split: option.splits if_splits)
qed simp

declare multi_for.simps [simp del]

definition forboth :: "List option \<Rightarrow> List option \<Rightarrow> (nat list \<Rightarrow> 's \<Rightarrow> bool \<times> 's) \<Rightarrow> 's \<Rightarrow> nat option list \<times> 's" where
  "forboth list1 list2 = multi_for [(list1, 0), (list2, 0)]"

definition for_both_cell_setup ::
    "List option \<Rightarrow> nat option \<Rightarrow> List option \<Rightarrow> nat option \<Rightarrow> (List option \<times> int) list" where
  "for_both_cell_setup list1 initcell1 list2 initcell2 =
     [(list1, (case initcell1 of Some c \<Rightarrow> int c | None \<Rightarrow> int (list_length list1))),
      (list2, (case initcell2 of Some c \<Rightarrow> int c | None \<Rightarrow> int (list_length list2)))]"

definition for_both_cell ::
    "List option \<Rightarrow> nat option \<Rightarrow> List option \<Rightarrow> nat option
       \<Rightarrow> (nat list \<Rightarrow> 's \<Rightarrow> bool \<times> 's) \<Rightarrow> 's \<Rightarrow> nat option list \<times> 's" where
  "for_both_cell list1 initcell1 list2 initcell2 =
     multi_for (for_both_cell_setup list1 initcell1 list2 initcell2)"

definition forthree ::
    "List option \<Rightarrow> List option \<Rightarrow> List option \<Rightarrow> (nat list \<Rightarrow> 's \<Rightarrow> bool \<times> 's) \<Rightarrow> 's \<Rightarrow> nat option list \<times> 's" where
  "forthree list1 list2 list3 = multi_for [(list1, 0), (list2, 0), (list3, 0)]"

definition forfour ::
    "List option \<Rightarrow> List option \<Rightarrow> List option \<Rightarrow> List option
       \<Rightarrow> (nat list \<Rightarrow> 's \<Rightarrow> bool \<times> 's) \<Rightarrow> 's \<Rightarrow> nat option list \<times> 's" where
  "forfour list1 list2 list3 list4 = multi_for [(list1, 0), (list2, 0), (list3, 0), (list4, 0)]"

definition forfive ::
    "List option \<Rightarrow> List option \<Rightarrow> List option \<Rightarrow> List option \<Rightarrow> List option
       \<Rightarrow> (nat list \<Rightarrow> 's \<Rightarrow> bool \<times> 's) \<Rightarrow> 's \<Rightarrow> nat option list \<times> 's" where
  "forfive list1 list2 list3 list4 list5 =
     multi_for [(list1, 0), (list2, 0), (list3, 0), (list4, 0), (list5, 0)]"

section \<open>What a list holds\<close>

definition list_contents :: "List option \<Rightarrow> ListCell list" where
  "list_contents l = (case l of None \<Rightarrow> [] | Some h \<Rightarrow> take (len h) (elements h))"

text \<open>The array is as long as the header says, and only \<open>NIL\<close> is empty.\<close>

definition list_ok :: "List option \<Rightarrow> bool" where
  "list_ok l \<longleftrightarrow> (case l of None \<Rightarrow> True
     | Some h \<Rightarrow> 1 \<le> len h \<and> len h \<le> max_length h \<and> length (elements h) = max_length h)"

lemma length_contents [simp]: "list_ok l \<Longrightarrow> length (list_contents l) = list_length l"
  by (auto simp: list_ok_def list_contents_def list_length_def split: option.splits)

lemma cell_value_contents: "c < list_length l \<Longrightarrow> cell_value l c = list_contents l ! c"
  by (auto simp: cell_value_def list_contents_def list_length_def split: option.splits)

lemma list_empty_iff: "list_ok l \<Longrightarrow> l = NIL \<longleftrightarrow> list_contents l = []"
  by (auto simp: list_ok_def list_contents_def split: option.splits)

lemma nth_cell_iff: "list_nth_cell l n = (if 0 \<le> n \<and> n < int (list_length l) then Some (nat n) else None)"
  by (auto simp: list_nth_cell_def list_length_def split: option.splits)

lemma foreach_cell_iff:
  "0 \<le> fe_i st \<Longrightarrow> foreach_cell st = (if nat (fe_i st) < list_length (fe_l st) then Some (nat (fe_i st)) else None)"
  by (auto simp: foreach_cell_def list_length_def split: option.splits)

section \<open>The loops in terms of the elements\<close>

text \<open>A body run over given cells until it breaks.\<close>

fun run_cells :: "'c list \<Rightarrow> ('c \<Rightarrow> 's \<Rightarrow> bool \<times> 's) \<Rightarrow> 's \<Rightarrow> 'c option \<times> 's" where
  "run_cells [] body s = (None, s)"
| "run_cells (c # cs) body s =
     (case body c s of (go_on, s') \<Rightarrow> if go_on then run_cells cs body s' else (Some c, s'))"

lemma foreach_loop_cells:
  "0 \<le> fe_i st \<Longrightarrow> foreach_loop st body s = run_cells [nat (fe_i st)..<list_length (fe_l st)] body s"
proof (induction st body s rule: foreach_loop.induct)
  case (1 st body s)
  show ?case
  proof (cases "nat (fe_i st) < list_length (fe_l st)")
    case True
    then have c: "foreach_cell st = Some (nat (fe_i st))" using "1.prems" by (simp add: foreach_cell_iff)
    have "nat (fe_i st + 1) = Suc (nat (fe_i st))" using "1.prems" by simp
    then have "[nat (fe_i st)..<list_length (fe_l st)] = nat (fe_i st) # [nat (fe_i st + 1)..<list_length (fe_l st)]"
      using True by (simp add: upt_conv_Cons)
    with c "1.IH" [OF c] "1.prems" show ?thesis
      by (subst foreach_loop.simps) (auto split: prod.splits)
  next
    case False
    with "1.prems" show ?thesis by (subst foreach_loop.simps) (simp add: foreach_cell_iff)
  qed
qed


text \<open>How many rounds a loop over several lists makes, and its cells in and after them.\<close>

definition rounds :: "(List option \<times> int) list \<Rightarrow> nat" where
  "rounds ps = Min ((\<lambda>(l, i). list_length l - nat i) ` set ps)"

definition cells_at :: "(List option \<times> int) list \<Rightarrow> nat \<Rightarrow> nat list" where
  "cells_at ps k = map (\<lambda>(l, i). nat i + k) ps"

definition cells_after :: "(List option \<times> int) list \<Rightarrow> nat \<Rightarrow> nat option list" where
  "cells_after ps k = map (\<lambda>(l, i). if nat i + k < list_length l then Some (nat i + k) else None) ps"

lemma less_rounds_iff: "ps \<noteq> [] \<Longrightarrow> k < rounds ps \<longleftrightarrow> (\<forall>(l, i)\<in>set ps. nat i + k < list_length l)"
  unfolding rounds_def by (subst Min_gr_iff) (auto simp: less_diff_conv2 less_diff_conv add.commute)

definition advanced :: "(List option \<times> int) list \<Rightarrow> nat \<Rightarrow> (List option \<times> int) list" where
  "advanced ps k = map (\<lambda>(l, i). (l, i + int k)) ps"

lemma advanced_0 [simp]: "advanced ps 0 = ps"
  by (auto simp: advanced_def intro: map_idI)

lemma advanced_Nil [simp]: "advanced ps k = [] \<longleftrightarrow> ps = []"
  by (simp add: advanced_def)

lemma advanced_Suc: "map (\<lambda>(l, i). (l, i + 1)) (advanced ps k) = advanced ps (Suc k)"
  by (auto simp: advanced_def)

lemma advance_cell_iff:
  "0 \<le> i \<Longrightarrow> multi_for_advance_cell l (i + int k) =
     (if nat i + k < list_length l then Some (nat i + k) else None)"
  by (auto simp: multi_for_advance_cell_def list_length_def nat_add_distrib zless_nat_conj split: option.splits)

lemma advanced_cells:
  assumes "\<forall>(l, i)\<in>set ps. 0 \<le> i"
  shows "map (\<lambda>(l, i). multi_for_advance_cell l i) (advanced ps k) = cells_after ps k"
  using assms by (auto simp: cells_after_def advanced_def advance_cell_iff)

lemma cells_after_round: "ps \<noteq> [] \<Longrightarrow> k < rounds ps \<Longrightarrow> cells_after ps k = map Some (cells_at ps k)"
  by (auto simp: less_rounds_iff cells_after_def cells_at_def)

lemma cells_after_end: "ps \<noteq> [] \<Longrightarrow> None \<in> set (cells_after ps k) \<longleftrightarrow> \<not> k < rounds ps"
  by (force simp: less_rounds_iff cells_after_def image_iff)

lemma multi_for_cells:
  assumes "ps \<noteq> []" and "\<forall>(l, i)\<in>set ps. 0 \<le> i" and "k \<le> rounds ps"
  shows "multi_for (advanced ps k) body s =
    (case run_cells [k..<rounds ps] (\<lambda>k. body (cells_at ps k)) s of
       (None, s') \<Rightarrow> (cells_after ps (rounds ps), s')
     | (Some k', s') \<Rightarrow> (map Some (cells_at ps k'), s'))"
  using assms(3)
proof (induction "rounds ps - k" arbitrary: k s)
  case 0
  then have "k = rounds ps" by simp
  then show ?case
    using assms(1) cells_after_end [of ps k]
    by (subst multi_for.simps) (simp add: advanced_cells [OF assms(2)] Let_def)
next
  case (Suc n)
  then have k: "k < rounds ps" by simp
  obtain go_on s1 where b: "body (cells_at ps k) s = (go_on, s1)" by fastforce
  have "multi_for (advanced ps k) body s =
      (if go_on then multi_for (advanced ps (Suc k)) body s1 else (map Some (cells_at ps k), s1))"
    using assms(1) b
    by (subst multi_for.simps)
      (auto simp: advanced_cells [OF assms(2)] cells_after_round [OF assms(1) k] advanced_Suc Let_def comp_def)
  with Suc.hyps(1) [of "Suc k" s1] Suc.hyps(2) k b show ?case
    by (simp add: upt_conv_Cons [OF k])
qed


text \<open>What the server's \<open>list_delete_cell\<close> is documented to do: the cell goes, the others stay in order.\<close>

definition deletes_cell :: "(List \<Rightarrow> nat \<Rightarrow> List option) \<Rightarrow> bool" where
  "deletes_cell delete_cell \<longleftrightarrow>
     (\<forall>h c. list_ok (Some h) \<and> c < len h \<longrightarrow>
        list_ok (delete_cell h c) \<and>
        list_contents (delete_cell h c) = take c (list_contents (Some h)) @ drop (Suc c) (list_contents (Some h)))"

lemma delete_loop_contents:
  assumes "deletes_cell del" and "list_ok (fe_l st)" and "fe_i st = int (length kept)"
    and "list_contents (fe_l st) = kept @ rest"
  shows "\<exists>l'. delete_loop del keep st visited = Some (visited @ rest, l') \<and> list_ok l' \<and>
    list_contents l' = kept @ filter keep rest"
  using assms(2-4)
proof (induction rest arbitrary: st kept visited)
  case Nil
  then have "list_length (fe_l st) = length kept" by (metis append_Nil2 length_contents)
  then have "foreach_cell st = None" using Nil.prems(2) by (simp add: foreach_cell_iff)
  then show ?case using Nil.prems by (subst delete_loop.simps) simp
next
  case (Cons x rest)
  let ?st1 = "if keep x then st else foreach_delete_current del st (length kept)"
  have "list_length (fe_l st) = length kept + Suc (length rest)"
    using Cons.prems(1,3) length_contents by fastforce
  then have c: "foreach_cell st = Some (length kept)" and lt: "length kept < list_length (fe_l st)"
    using Cons.prems(2) by (simp_all add: foreach_cell_iff)
  then have v: "cell_value (fe_l st) (length kept) = x" by (simp add: cell_value_contents Cons.prems(3))
  obtain h where h: "fe_l st = Some h" using lt by (cases "fe_l st") (auto simp: list_length_def)
  have "list_ok (del h (length kept)) \<and> list_contents (del h (length kept)) = kept @ rest"
    using assms(1) Cons.prems(1,3) h lt by (simp add: deletes_cell_def list_length_def)
  then have "list_ok (fe_l ?st1)" "fe_i ?st1 + 1 = int (length (if keep x then kept @ [x] else kept))"
    "list_contents (fe_l ?st1) = (if keep x then kept @ [x] else kept) @ rest"
    using Cons.prems h by (simp_all add: foreach_delete_current_def)
  then obtain l' where "delete_loop del keep (?st1\<lparr>fe_i := fe_i ?st1 + 1\<rparr>) (visited @ [x]) = Some ((visited @ [x]) @ rest, l')"
    "list_ok l'" "list_contents l' = (if keep x then kept @ [x] else kept) @ filter keep rest"
    using Cons.IH [of "?st1\<lparr>fe_i := fe_i ?st1 + 1\<rparr>" "if keep x then kept @ [x] else kept" "visited @ [x]"] by auto
  then show ?case by (subst delete_loop.simps) (simp add: c v Let_def split: if_splits)
qed

section \<open>Loops that an error ends\<close>

text \<open>The hooks run a loop body on every element until one raises an error.  \<open>until_error\<close> is such a
  body as a body of \<open>foreach\<close>: the error leaves the loop.\<close>

definition until_error ::
    "('c \<Rightarrow> 's \<Rightarrow> 'e option \<times> 's) \<Rightarrow> (nat \<Rightarrow> 'c) \<Rightarrow> nat \<Rightarrow> 'e option \<times> 's \<Rightarrow> bool \<times> 'e option \<times> 's" where
  "until_error body value_of c st = (let r = body (value_of c) (snd st) in (fst r = None, r))"

text \<open>A recursion over the elements that runs a given loop body on each.\<close>

locale list_walk =
  fixes body :: "'c \<Rightarrow> 's \<Rightarrow> 'e option \<times> 's" and walk :: "'c list \<Rightarrow> 's \<Rightarrow> 'e option \<times> 's"
  assumes walk_Nil: "walk [] s = (None, s)"
    and walk_Cons: "walk (x # xs) s =
      (case body x s of (None, s1) \<Rightarrow> walk xs s1 | (Some e, s1) \<Rightarrow> (Some e, s1))"
begin

lemma run_cells_walk:
  "snd (run_cells cs (until_error body value_of) (None, s)) = walk (map value_of cs) s \<and>
   (fst (run_cells cs (until_error body value_of) (None, s)) = None \<longleftrightarrow> fst (walk (map value_of cs) s) = None)"
proof (induction cs arbitrary: s)
  case (Cons c cs)
  then show ?case
    by (auto simp: walk_Cons [of "value_of c" "map value_of cs" s] until_error_def [of body value_of c] Let_def
        split: prod.splits option.splits)
qed (simp add: walk_Nil)

lemma foreach_walk:
  assumes "list_ok lst"
  shows "pg_foreach lst (until_error body (\<lambda>c. value_of (cell_value lst c))) (None, s)
    = (cell, r) \<Longrightarrow> r = walk (map value_of (list_contents lst)) s \<and> (cell = None \<longleftrightarrow> fst r = None)"
proof -
  have "map (\<lambda>c. value_of (cell_value lst c)) [0..<list_length lst] = map value_of (list_contents lst)"
    by (rule nth_equalityI) (simp_all add: assms cell_value_contents)
  then show "pg_foreach lst (until_error body (\<lambda>c. value_of (cell_value lst c))) (None, s)
    = (cell, r) \<Longrightarrow> r = walk (map value_of (list_contents lst)) s \<and> (cell = None \<longleftrightarrow> fst r = None)"
    using run_cells_walk [of "[0..<list_length lst]" "\<lambda>c. value_of (cell_value lst c)" s]
    by (simp add: pg_foreach_def foreach_loop_cells)
qed

end

section \<open>Properties\<close>

text \<open>\<open>foreach\<close> and its variants visit exactly the cells they promise, in order and each once, until a
  break: all of them, those from the given number on, or those from the given cell on.  After a loop
  that ran to its end the cell variable is null, after a break it is the cell of the break.\<close>

theorem foreach_visits:
  "pg_foreach lst body s = run_cells [0..<list_length lst] body s \<and>
   (0 \<le> n \<longrightarrow> for_each_from lst n body s = run_cells [nat n..<list_length lst] body s) \<and>
   for_each_cell lst (Some c) body s = run_cells [c..<list_length lst] body s \<and>
   for_each_cell lst None body s = (None, s)"
  by (simp add: pg_foreach_def for_each_from_def for_each_from_setup_def for_each_cell_def for_each_cell_setup_def
      foreach_loop_cells)

theorem foreach_visits_witness:
  "for_each_from (Some \<lparr>list_tag = T_IntList, len = 3, max_length = 4, elements = [7, 8, 9, 0]\<rparr>) 1
     (\<lambda>c vs. (True, vs @ [c])) [] = (None, [1, 2])"
  using foreach_visits [of "Some \<lparr>list_tag = T_IntList, len = 3, max_length = 4, elements = [7, 8, 9, 0]\<rparr>"
      "\<lambda>c vs. (True, vs @ [c])" "[]" 1]
  by (simp add: list_length_def upt_rec)

text \<open>\<open>forboth\<close> visits the common prefix of two lists, and leaves each cell variable on the element after
  the prefix, or null when its list has none: the variables tell which list was longer.\<close>

theorem forboth_visits:
  "forboth l1 l2 body s =
    (let m = min (list_length l1) (list_length l2)
     in case run_cells [0..<m] (\<lambda>k. body [k, k]) s of
          (None, s') \<Rightarrow> ([if m < list_length l1 then Some m else None, if m < list_length l2 then Some m else None], s')
        | (Some k, s') \<Rightarrow> ([Some k, Some k], s'))"
proof -
  let ?ps = "[(l1, 0), (l2, 0)]"
  have r: "rounds ?ps = min (list_length l1) (list_length l2)" by (simp add: rounds_def)
  have c: "cells_at ?ps k = [k, k]" for k by (simp add: cells_at_def)
  have a: "cells_after ?ps m = [if m < list_length l1 then Some m else None, if m < list_length l2 then Some m else None]" for m
    by (simp add: cells_after_def)
  show ?thesis
    using multi_for_cells [of ?ps 0 body s] unfolding forboth_def Let_def r c a list.map by simp
qed

text \<open>Deleting the current element in a \<open>foreach\<close> misses none: the loop returns, has visited every element
  of the original list once, in order, and leaves the list of those it kept.\<close>

theorem foreach_delete_misses_none:
  assumes "deletes_cell delete_cell" and "list_ok lst"
  shows "\<exists>lst'. delete_loop delete_cell keep \<lparr>fe_l = lst, fe_i = 0\<rparr> [] = Some (list_contents lst, lst') \<and>
    list_ok lst' \<and> list_contents lst' = filter keep (list_contents lst)"
  using delete_loop_contents [of delete_cell "\<lparr>fe_l = lst, fe_i = 0\<rparr>" "[]" "list_contents lst" keep "[]"] assms
  by simp

theorem foreach_delete_misses_none_witness:
  "\<exists>lst'. delete_loop (\<lambda>h c. if len h = 1 then None
        else Some (h\<lparr>len := len h - 1, elements := take c (elements h) @ drop (Suc c) (elements h) @ [0]\<rparr>)) (\<lambda>x. x \<noteq> 7)
      \<lparr>fe_l = Some \<lparr>list_tag = T_List, len = 3, max_length = 4, elements = [7, 7, 9, 0]\<rparr>, fe_i = 0\<rparr> []
    = Some ([7, 7, 9], lst') \<and> list_contents lst' = [9]"
proof -
  let ?del = "\<lambda>h c. if len h = 1 then None
        else Some (h\<lparr>len := len h - 1, elements := take c (elements h) @ drop (Suc c) (elements h) @ [0]\<rparr>)"
  let ?l = "Some \<lparr>list_tag = T_List, len = 3, max_length = 4, elements = [7, 7, 9, 0]\<rparr>"
  have "deletes_cell ?del"
    by (auto simp: deletes_cell_def list_ok_def list_contents_def drop_take min_def)
      (intro arg_cong [of _ _ "\<lambda>n. take n _"], linarith)
  moreover have "list_ok ?l" by (simp add: list_ok_def)
  ultimately show ?thesis
    using foreach_delete_misses_none [of ?del ?l "\<lambda>x. x \<noteq> 7"] by (simp add: list_contents_def) blast
qed

end
