(* ===== verification/ServerTypes.thy ===== *)
theory ServerTypes
  imports PgList
begin

text \<open>
  The parts of the server's data structures the hooks read: the query descriptor with its planned
  statement, and the utility statements.  Index \<open>rti\<close> of the range table is 1-based, and the
  server only builds plans whose indexes are in the table.
\<close>

datatype CmdType = CMD_SELECT | CMD_INSERT | CMD_UPDATE | CMD_DELETE | CMD_MERGE | CMD_UTILITY | CMD_NOTHING

datatype RTEKind = RTE_RELATION | RTE_OTHER

record RangeTblEntry =
  rtekind :: RTEKind
  relid :: oid
  aliasname :: "string option"

record RangeVar =
  relname :: string
  schemaname :: "string option"

record CopyStmt =
  is_from :: bool
  copy_relation :: "RangeVar option"

datatype utility_node = CopyNode CopyStmt | OtherNode

record PlannedStmt =
  resultRelations :: "nat list"
  rtable :: "RangeTblEntry list"
  utilityStmt :: utility_node

record QueryDesc =
  operation :: CmdType
  plannedstmt :: "PlannedStmt option"
  sourceText :: string

definition rt_fetch :: "nat \<Rightarrow> RangeTblEntry list \<Rightarrow> RangeTblEntry" where
  "rt_fetch rti rtbl = rtbl ! (rti - 1)"

definition is_dml :: "CmdType \<Rightarrow> bool" where
  "is_dml c \<longleftrightarrow> c = CMD_INSERT \<or> c = CMD_UPDATE \<or> c = CMD_DELETE"

end
