(* ===== verification/WriteRouter.thy ===== *)
theory WriteRouter
  imports MetadataCache ServerTypes
begin

text \<open>
  \<open>src/router/write_router.c\<close>: the routing decision for a write to a partition, and the
  \<open>ExecutorStart\<close> hook that applies it to every result relation of a DML statement.  The
  lemmas relate the decision to the two tables, and show which statements the hook lets through.
\<close>

section \<open>The routing decision\<close>

datatype RouteStatus = ROUTE_LOCAL | ROUTE_REMOTE | ROUTE_NOT_FOUND | ROUTE_NODE_DOWN

record WriteRequest =
  req_partition_id :: oid
  xid :: u32
  cid :: u32
  query_string :: "string option"

fun RouteStatusString :: "RouteStatus \<Rightarrow> string" where
  "RouteStatusString ROUTE_LOCAL = ''local''"
| "RouteStatusString ROUTE_REMOTE = ''remote''"
| "RouteStatusString ROUTE_NOT_FOUND = ''not_found''"
| "RouteStatusString ROUTE_NODE_DOWN = ''node_down''"

text \<open>The two tables as SPI answers for them, and the uninitialised memory of the lookups.\<close>

record tables =
  partition_rows :: "oid \<Rightarrow> partition_row spi"
  node_rows :: "i32 \<Rightarrow> node_row spi"
  uninit_partition :: PartitionMapEntry
  uninit_node :: NodeMapEntry
  fresh_entry :: PartitionHashEntry

abbreviation get_primary :: "tables \<Rightarrow> oid \<Rightarrow> metadata \<Rightarrow> (pg_error + i32) \<times> metadata" where
  "get_primary tb p \<equiv> GetPartitionPrimary p (partition_rows tb p) (uninit_partition tb) (fresh_entry tb)"

definition RouteWriteRequest ::
    "tables \<Rightarrow> i32 \<Rightarrow> WriteRequest \<Rightarrow> metadata \<Rightarrow> (pg_error + RouteStatus) \<times> metadata" where
  "RouteWriteRequest tb local_node_id req m =
     (case get_primary tb (req_partition_id req) m of
        (Inl e, m1) \<Rightarrow> (Inl e, m1)
      | (Inr primary, m1) \<Rightarrow>
          if sint primary < 0 then (Inr ROUTE_NOT_FOUND, m1)
          else
            (case GetNodeInfo primary (node_rows tb primary) (uninit_node tb) m1 of
               (Inl e, m2) \<Rightarrow> (Inl e, m2)
             | (Inr node, m2) \<Rightarrow>
                 if node \<noteq> None \<and> status (the node) = NODE_DOWN then (Inr ROUTE_NODE_DOWN, m2)
                 else if sint local_node_id \<ge> 0 \<and> primary = local_node_id then (Inr ROUTE_LOCAL, m2)
                 else (Inr ROUTE_REMOTE, m2)))"

text \<open>The decision as a function of the tables alone.\<close>

definition route_spec :: "tables \<Rightarrow> i32 \<Rightarrow> oid \<Rightarrow> RouteStatus" where
  "route_spec tb local_node_id p =
     (let primary = table_primary (partition_rows tb p)
      in if sint primary < 0 then ROUTE_NOT_FOUND
         else if table_status (node_rows tb primary) = Some NODE_DOWN then ROUTE_NODE_DOWN
         else if sint local_node_id \<ge> 0 \<and> primary = local_node_id then ROUTE_LOCAL
         else ROUTE_REMOTE)"

section \<open>The ExecutorStart hook\<close>

text \<open>\<open>foreach(lc, pstmt->resultRelations)\<close>: the routes logged, and the error that ends the loop.\<close>

fun route_loop ::
    "tables \<Rightarrow> i32 \<Rightarrow> string \<Rightarrow> (u32 \<times> u32) \<Rightarrow> RangeTblEntry list \<Rightarrow> nat list \<Rightarrow> (oid \<times> string) list \<Rightarrow> metadata
       \<Rightarrow> pg_error option \<times> (oid \<times> string) list \<times> metadata" where
  "route_loop tb local_node_id src ids rtbl [] log m = (None, log, m)"
| "route_loop tb local_node_id src ids rtbl (rti # rtis) log m =
     (let rel = relid (rt_fetch rti rtbl);
          req = \<lparr>req_partition_id = rel, xid = fst ids, cid = snd ids, query_string = Some src\<rparr>
      in case RouteWriteRequest tb local_node_id req m of
           (Inl e, m1) \<Rightarrow> (Some e, log, m1)
         | (Inr route, m1) \<Rightarrow>
             let log1 = log @ [(rel, RouteStatusString route)]
             in if route = ROUTE_REMOTE
                then (case get_primary tb rel m1 of
                        (Inl e, m2) \<Rightarrow> (Some e, log1, m2)
                      | (Inr primary, m2) \<Rightarrow> (Some (ErrRemoteWrite rel primary), log1, m2))
                else if route = ROUTE_NODE_DOWN then (Some (ErrNodeDown rel), log1, m1)
                else route_loop tb local_node_id src ids rtbl rtis log1 m1)"

text \<open>The body of the loop, for one cell of \<open>resultRelations\<close>.\<close>

definition route_body ::
    "tables \<Rightarrow> i32 \<Rightarrow> string \<Rightarrow> (u32 \<times> u32) \<Rightarrow> RangeTblEntry list \<Rightarrow> nat \<Rightarrow> (oid \<times> string) list \<times> metadata
       \<Rightarrow> pg_error option \<times> (oid \<times> string) list \<times> metadata" where
  "route_body tb local_node_id src ids rtbl rti st =
     (let rte = rt_fetch rti rtbl;
          rel = relid rte;
          req = \<lparr>req_partition_id = rel, xid = fst ids, cid = snd ids, query_string = Some src\<rparr>
      in case RouteWriteRequest tb local_node_id req (snd st) of
           (Inl e, m1) \<Rightarrow> (Some e, fst st, m1)
         | (Inr route, m1) \<Rightarrow>
             let log1 = fst st @ [(rel, RouteStatusString route)]
             in if route = ROUTE_REMOTE
                then (case get_primary tb rel m1 of
                        (Inl e, m2) \<Rightarrow> (Some e, log1, m2)
                      | (Inr primary, m2) \<Rightarrow> (Some (ErrRemoteWrite rel primary), log1, m2))
                else if route = ROUTE_NODE_DOWN then (Some (ErrNodeDown rel), log1, m1)
                else (None, log1, m1))"

text \<open>The errors leave it as a \<open>break\<close> would: it is a \<open>foreach\<close> with this body over the cells of the list.\<close>

interpretation route_walk: list_walk "route_body tb l src ids rtbl"
    "\<lambda>rtis st. route_loop tb l src ids rtbl rtis (fst st) (snd st)"
  by unfold_locales (auto simp: route_body_def Let_def split: sum.splits prod.splits)

definition pg_partdist_executor_start ::
    "tables \<Rightarrow> i32 \<Rightarrow> (u32 \<times> u32) \<Rightarrow> QueryDesc \<Rightarrow> bool \<Rightarrow> metadata
       \<Rightarrow> pg_error option \<times> (oid \<times> string) list \<times> bool \<times> metadata" where
  "pg_partdist_executor_start tb local_node_id ids qd in_hook m =
     (if in_hook then (None, [], in_hook, m)
      else if \<not> is_dml (operation qd) then (None, [], in_hook, m)
      else if sint local_node_id < 0 then (None, [], in_hook, m)
      else if PartitionMapHash m = None then (None, [], in_hook, m)
      else case plannedstmt qd of
             None \<Rightarrow> (None, [], in_hook, m)
           | Some pstmt \<Rightarrow>
               if resultRelations pstmt = [] \<and> rtable pstmt = [] then (None, [], in_hook, m)
               else if resultRelations pstmt = [] then (None, [], in_hook, m)
               else case route_loop tb local_node_id (sourceText qd) ids (rtable pstmt)
                           (resultRelations pstmt) [] m of
                      (r, log, m1) \<Rightarrow> (r, log, False, m1))"

section \<open>Routing and the tables\<close>

text \<open>Both caches agree with the tables, and their memory is well formed.\<close>

definition route_inv :: "tables \<Rightarrow> metadata \<Rightarrow> bool" where
  "route_inv tb m \<longleftrightarrow>
     cache_inv m \<and> coherent (partition_rows tb) m \<and> node_cache_inv m \<and> node_coherent (node_rows tb) m \<and>
     uninit_ok (uninit_partition tb) (fresh_entry tb)"

lemma get_primary_route:
  assumes "get_primary tb p m = (r, m')" and "route_inv tb m"
  shows "route_inv tb m'" and "r = Inr x \<Longrightarrow> x = table_primary (partition_rows tb p)"
  using GetPartitionPrimary_coherent [where T = "partition_rows tb", OF assms(1)]
    GetPartitionPrimary_node [OF assms(1)] assms(2)
  by (auto simp: route_inv_def)

lemma RouteWriteRequest_spec:
  assumes "RouteWriteRequest tb l req m = (r, m')" and "route_inv tb m"
  shows "route_inv tb m'" and "r = Inr x \<Longrightarrow> x = route_spec tb l (req_partition_id req)"
proof -
  let ?p = "req_partition_id req"
  obtain rp m1 where g: "get_primary tb ?p m = (rp, m1)" by fastforce
  note pr = get_primary_route [OF g assms(2)]
  have "route_inv tb m' \<and> (\<forall>x. r = Inr x \<longrightarrow> x = route_spec tb l ?p)"
  proof (cases rp)
    case (Inl e)
    with assms(1) g pr(1) show ?thesis by (auto simp: RouteWriteRequest_def)
  next
    case (Inr primary)
    obtain rn m2 where n: "GetNodeInfo primary (node_rows tb primary) (uninit_node tb) m1 = (rn, m2)"
      by fastforce
    have i1: "node_cache_inv m1" "node_coherent (node_rows tb) m1" using pr(1) by (auto simp: route_inv_def)
    note nd = GetNodeInfo_coherent [where N = "node_rows tb", OF n i1]
    have 2: "route_inv tb m2"
      using pr(1) nd(1,2) nd(4,5) unfolding route_inv_def by blast
    have p: "primary = table_primary (partition_rows tb ?p)" using pr(2) Inr by simp
    show ?thesis
    proof (cases rn)
      case (Inl e)
      with assms(1) g Inr n pr(1) 2 p show ?thesis
        by (auto simp: RouteWriteRequest_def route_spec_def split: if_splits)
    next
      case inr: (Inr node)
      have "map_option status node = table_status (node_rows tb primary)" using nd(3) inr by simp
      then have "(node \<noteq> None \<and> status (the node) = NODE_DOWN)
          = (table_status (node_rows tb primary) = Some NODE_DOWN)"
        by (cases node) auto
      with assms(1) g Inr n inr pr(1) 2 p show ?thesis
        by (auto simp: RouteWriteRequest_def route_spec_def Let_def split: if_splits)
    qed
  qed
  then show "route_inv tb m'" and "r = Inr x \<Longrightarrow> x = route_spec tb l ?p" by blast+
qed

text \<open>A lookup fails only where SPI fails or a cache is full.\<close>

abbreviation lookup_error :: "pg_error \<Rightarrow> bool" where
  "lookup_error e \<equiv> e = ErrSpi \<or> e = ErrOutOfSharedMemory"

lemma get_primary_error: "get_primary tb p m = (Inl e, m') \<Longrightarrow> lookup_error e"
  by (auto simp: GetPartitionPrimary_def LoadPartitionFromTable_def Let_def
      dest: repopulate_error split: option.splits prod.splits sum.splits bool.splits if_splits
        spi.splits list.splits)

lemma GetNodeInfo_error: "GetNodeInfo n ans u m = (Inl e, m') \<Longrightarrow> lookup_error e"
  by (auto simp: GetNodeInfo_def LoadNodeFromTable_def Let_def node_repopulate_def hash_enter_error
      split: option.splits prod.splits sum.splits bool.splits if_splits spi.splits list.splits)

lemma RouteWriteRequest_error: "RouteWriteRequest tb l req m = (Inl e, m') \<Longrightarrow> lookup_error e"
  by (auto simp: RouteWriteRequest_def dest: get_primary_error GetNodeInfo_error
      split: sum.splits prod.splits if_splits)

text \<open>The statement's result relations, and the verdict on one of them.\<close>

definition result_oids :: "nat list \<Rightarrow> RangeTblEntry list \<Rightarrow> oid list" where
  "result_oids rtis rtbl = map (\<lambda>rti. relid (rt_fetch rti rtbl)) rtis"

definition admitted :: "RouteStatus \<Rightarrow> bool" where
  "admitted route \<longleftrightarrow> route = ROUTE_LOCAL \<or> route = ROUTE_NOT_FOUND"

definition rejection :: "tables \<Rightarrow> i32 \<Rightarrow> oid \<Rightarrow> pg_error \<Rightarrow> bool" where
  "rejection tb l p e \<longleftrightarrow>
     (route_spec tb l p = ROUTE_REMOTE \<and> e = ErrRemoteWrite p (table_primary (partition_rows tb p))) \<or>
     (route_spec tb l p = ROUTE_NODE_DOWN \<and> e = ErrNodeDown p)"

lemma route_loop_spec:
  assumes "route_loop tb l src ids rtbl rtis log m = (r, log', m')" and "route_inv tb m"
  shows "route_inv tb m' \<and>
    (case r of
       None \<Rightarrow> (\<forall>p\<in>set (result_oids rtis rtbl). admitted (route_spec tb l p)) \<and>
               log' = log @ map (\<lambda>p. (p, RouteStatusString (route_spec tb l p))) (result_oids rtis rtbl)
     | Some e \<Rightarrow> lookup_error e \<or> (\<exists>p\<in>set (result_oids rtis rtbl). rejection tb l p e))"
  using assms
proof (induction rtis arbitrary: log m)
  case Nil
  then show ?case by (auto simp: result_oids_def)
next
  case (Cons rti rtis)
  let ?p = "relid (rt_fetch rti rtbl)"
  let ?req = "\<lparr>req_partition_id = ?p, xid = fst ids, cid = snd ids, query_string = Some src\<rparr>"
  obtain rr m1 where w: "RouteWriteRequest tb l ?req m = (rr, m1)" by fastforce
  note ws = RouteWriteRequest_spec [OF w Cons.prems(2)]
  have oids: "result_oids (rti # rtis) rtbl = ?p # result_oids rtis rtbl" by (simp add: result_oids_def)
  show ?case
  proof (cases rr)
    case (Inl e)
    with Cons.prems(1) w ws(1) RouteWriteRequest_error [of tb l ?req m e m1] show ?thesis
      by (auto simp: Let_def)
  next
    case (Inr route)
    then have route: "route = route_spec tb l ?p" using ws(2) by simp
    obtain rp m2 where g: "get_primary tb ?p m1 = (rp, m2)" by fastforce
    note gs = get_primary_route [OF g ws(1)]
    consider (rem) "route = ROUTE_REMOTE" | (down) "route = ROUTE_NODE_DOWN" | (ok) "admitted route"
      by (cases route) (auto simp: admitted_def)
    then show ?thesis
    proof cases
      case rem
      with Cons.prems(1) w Inr g gs route show ?thesis
        by (cases rp) (auto simp: Let_def oids rejection_def dest: get_primary_error)
    next
      case down
      with Cons.prems(1) w Inr ws(1) route show ?thesis
        by (auto simp: Let_def oids rejection_def)
    next
      case ok
      then have "route_loop tb l src ids rtbl rtis (log @ [(?p, RouteStatusString route)]) m1 = (r, log', m')"
        using Cons.prems(1) w Inr by (auto simp: Let_def admitted_def)
      from Cons.IH [OF this ws(1)] ok route show ?thesis
        by (auto simp: oids split: option.splits)
    qed
  qed
qed

text \<open>Tables and a server for the examples: partition 9 is on node 2, which is down.\<close>

definition example_tables :: "NodeStatus \<Rightarrow> tables" where
  "example_tables st =
     \<lparr>partition_rows = (\<lambda>p. if p = 9 then row_on 2 [] else Rows []),
      node_rows = (\<lambda>n. Rows [\<lparr>row_hostname = Some ''h'', row_port = Some 5432,
        row_status = (if st = NODE_DOWN then Some ''down'' else None)\<rparr>]),
      uninit_partition = blank_entry,
      uninit_node = \<lparr>node_id = 0, hostname = [], port = 0, status = NODE_ACTIVE\<rparr>,
      fresh_entry = blank_hash_entry\<rparr>"

lemma example_inv: "route_inv (example_tables st) (empty_cache n)"
  using cache_run_inv [OF empty_cache_run] blank_ok
  by (auto simp: route_inv_def example_tables_def node_cache_inv_def node_coherent_def empty_cache_def
      hash_inv_def hash_find_def)

section \<open>Properties\<close>

text \<open>C8: Whatever the two caches hold, as long as they agree with the tables,
  \<open>RouteWriteRequest\<close> decides as the tables say: not found without a row, down when the
  primary's node is down, local exactly on the configured node, remote otherwise.\<close>

theorem routing_decision:
  assumes "route_inv tb m" and "RouteWriteRequest tb l req m = (r, m')"
  shows "route_inv tb m' \<and>
    (case r of Inr route \<Rightarrow> route = route_spec tb l (req_partition_id req) | Inl e \<Rightarrow> lookup_error e)"
  using RouteWriteRequest_spec [OF assms(2,1)] RouteWriteRequest_error [of tb l req m _ m'] assms(2)
  by (auto split: sum.splits)

theorem routing_decision_witness:
  "route_inv (example_tables NODE_DOWN) (empty_cache 4) \<and>
   (\<exists>m'. RouteWriteRequest (example_tables NODE_DOWN) 2
      \<lparr>req_partition_id = 9, xid = 0, cid = 0, query_string = None\<rparr> (empty_cache 4) = (Inr ROUTE_NODE_DOWN, m'))"
proof -
  let ?req = "\<lparr>req_partition_id = 9, xid = 0, cid = 0, query_string = None\<rparr>"
  obtain r m' where r: "RouteWriteRequest (example_tables NODE_DOWN) 2 ?req (empty_cache 4) = (r, m')"
    by fastforce
  have "\<exists>x. r = Inr x"
    using r by (auto simp: RouteWriteRequest_def example_tables_def empty_cache_def row_on_def
        GetPartitionPrimary_def partition_probe_def hash_find_def LoadPartitionFromTable_def Let_def
        partition_repopulate_def hash_enter_def GetNodeInfo_def node_probe_def LoadNodeFromTable_def
        node_repopulate_def PARTDIST_NODE_MAX_ENTRIES_def)
  then obtain x where x: "r = Inr x" by blast
  have "route_spec (example_tables NODE_DOWN) 2 9 = ROUTE_NODE_DOWN"
    by (simp add: route_spec_def Let_def example_tables_def row_on_def table_primary_def table_status_def)
  then show ?thesis
    using routing_decision [OF example_inv r] r x example_inv by auto
qed

text \<open>C12: What the \<open>ExecutorStart\<close> hook admits.  Take a node with a configured id (not the default
  -1), a backend attached to the shared caches whose partition and node entries agree with the
  tables (no lost invalidation), a call that is not nested in the hook itself, and a DML statement
  whose plan has result relations.  The hook lets the statement through only if every result relation
  is local or not registered in the tables; otherwise it raises, naming a result relation whose
  primary is another node or is down, or reporting a failed lookup.  In all cases its reentrancy flag
  is clear afterwards and the caches still agree with the tables.\<close>

theorem executor_start_admits:
  assumes "route_inv tb m" and "is_dml (operation qd)" and "sint l \<ge> 0"
    and "PartitionMapHash m \<noteq> None" and "plannedstmt qd = Some pstmt" and "resultRelations pstmt \<noteq> []"
    and "pg_partdist_executor_start tb l ids qd False m = (r, log, flag, m')"
  shows "\<not> flag \<and> route_inv tb m' \<and>
    (case r of
       None \<Rightarrow> (\<forall>p\<in>set (result_oids (resultRelations pstmt) (rtable pstmt)). admitted (route_spec tb l p))
     | Some e \<Rightarrow> lookup_error e
         \<or> (\<exists>p\<in>set (result_oids (resultRelations pstmt) (rtable pstmt)). rejection tb l p e))"
proof -
  obtain r1 log1 m1 where w: "route_loop tb l (sourceText qd) ids (rtable pstmt) (resultRelations pstmt) [] m
      = (r1, log1, m1)" by (metis prod_cases3)
  have "r = r1" "flag = False" "m' = m1"
    using assms w by (auto simp: pg_partdist_executor_start_def split: if_splits)
  with route_loop_spec [OF w assms(1)] show ?thesis by (auto split: option.splits)
qed

theorem executor_start_admits_witness:
  "\<exists>log m'. pg_partdist_executor_start (example_tables NODE_ACTIVE) 1 (0, 0)
     \<lparr>operation = CMD_INSERT, plannedstmt = Some \<lparr>resultRelations = [1],
        rtable = [\<lparr>rtekind = RTE_RELATION, relid = 9, aliasname = None\<rparr>], utilityStmt = OtherNode\<rparr>,
      sourceText = []\<rparr> False (empty_cache 4) = (Some (ErrRemoteWrite 9 2), log, False, m')"
proof -
  let ?rte = "\<lparr>rtekind = RTE_RELATION, relid = 9, aliasname = None\<rparr>"
  let ?ps = "\<lparr>resultRelations = [1], rtable = [?rte], utilityStmt = OtherNode\<rparr>"
  let ?qd = "\<lparr>operation = CMD_INSERT, plannedstmt = Some ?ps, sourceText = []\<rparr>"
  obtain r log flag m' where x: "pg_partdist_executor_start (example_tables NODE_ACTIVE) 1 (0, 0) ?qd False
      (empty_cache 4) = (r, log, flag, m')" by (metis prod_cases4)
  have "\<exists>a b. r = Some (ErrRemoteWrite a b)"
    using x by (auto simp: pg_partdist_executor_start_def is_dml_def Let_def rt_fetch_def
        RouteWriteRequest_def example_tables_def empty_cache_def row_on_def
        GetPartitionPrimary_def partition_probe_def hash_find_def LoadPartitionFromTable_def
        partition_repopulate_def hash_enter_def GetNodeInfo_def node_probe_def LoadNodeFromTable_def
        node_repopulate_def PARTDIST_NODE_MAX_ENTRIES_def)
  then obtain a b where ab: "r = Some (ErrRemoteWrite a b)" by blast
  have spec: "table_primary (partition_rows (example_tables NODE_ACTIVE) 9) = 2"
    by (simp add: example_tables_def row_on_def table_primary_def)
  have att: "is_dml (operation ?qd)" "sint (1 :: i32) \<ge> 0" "PartitionMapHash (empty_cache 4) \<noteq> None"
    "plannedstmt ?qd = Some ?ps" "resultRelations ?ps \<noteq> []"
    by (simp_all add: is_dml_def empty_cache_def)
  from executor_start_admits [OF example_inv att x] x ab spec show ?thesis
    by (auto simp: result_oids_def rt_fetch_def rejection_def)
qed

end
