(* ===== verification/CitusHooks.thy ===== *)
theory CitusHooks
  imports WalRecords WriteRouter
begin

text \<open>
  The hook side of \<open>src/wal/partition_wal.c\<close>: recognising the shards of Citus, deciding whether
  a relation gets partition WAL records, and the \<open>ExecutorFinish\<close> and \<open>ProcessUtility\<close> hooks
  that write them.  The system catalogs are parameters; the static variables of the C file are the
  fields of \<open>backend\<close>.
\<close>

section \<open>Recognising shards\<close>

text \<open>\<open>strrchr\<close>: the part of the string from its last occurrence of the character on.\<close>

fun strrchr :: "string \<Rightarrow> char \<Rightarrow> string option" where
  "strrchr [] c = None"
| "strrchr (x # xs) c =
     (case strrchr xs c of Some ys \<Rightarrow> Some ys | None \<Rightarrow> if x = c then Some (x # xs) else None)"

text \<open>\<^verbatim>\<open>while (*p) { if (*p < '0' || *p > '9') return false; p++; }\<close>\<close>

fun all_digits :: "string \<Rightarrow> bool" where
  "all_digits [] = True"
| "all_digits (c # cs) =
     (if (of_char c :: nat) < of_char CHR ''0'' \<or> (of_char c :: nat) > of_char CHR ''9'' then False
      else all_digits cs)"

definition IsCitusShardName :: "string option \<Rightarrow> bool" where
  "IsCitusShardName name =
     (case name of
        None \<Rightarrow> False
      | Some nm \<Rightarrow>
          if nm = [] then False
          else case strrchr nm CHR ''_'' of
                 None \<Rightarrow> False
               | Some underscore \<Rightarrow>
                   if tl underscore = [] then False
                   else if \<not> all_digits (tl underscore) then False
                   else length (tl underscore) \<ge> 4)"

text \<open>The catalogs.  \<open>local_group\<close> is \<open>None\<close> when there is no \<open>pg_dist_local_group\<close>; a scan raises,
  finds no row, or finds a row with a null or a group id.  \<open>dist_partition\<close> is \<open>None\<close> when there
  is no \<open>pg_dist_partition\<close>; a scan raises or tells whether the relation is there.\<close>

datatype group_scan = GroupScanRaises | NoGroupRow | GroupRow "i32 option"

record citus_catalog =
  get_rel_name :: "oid \<Rightarrow> string option"
  local_group :: "group_scan option"
  dist_partition :: "(oid \<Rightarrow> bool option) option"

record backend =
  cached_group_id :: i32
  DistTableCache :: "(oid \<Rightarrow> bool option) option"
  in_partwal_finish :: bool
  in_partwal_utility :: bool

definition fresh_backend :: backend where
  "fresh_backend = \<lparr>cached_group_id = - 2, DistTableCache = None, in_partwal_finish = False,
                    in_partwal_utility = False\<rparr>"

definition IsCitusShardTable :: "citus_catalog \<Rightarrow> oid \<Rightarrow> bool" where
  "IsCitusShardTable cat rel = (if rel = InvalidOid then False else IsCitusShardName (get_rel_name cat rel))"

definition GetLocalCitusGroupId :: "citus_catalog \<Rightarrow> backend \<Rightarrow> i32 \<times> backend" where
  "GetLocalCitusGroupId cat b =
     (if cached_group_id b \<noteq> - 2 then (cached_group_id b, b)
      else
        let g = (case local_group cat of
                   None \<Rightarrow> - 1
                 | Some GroupScanRaises \<Rightarrow> - 1
                 | Some NoGroupRow \<Rightarrow> - 1
                 | Some (GroupRow None) \<Rightarrow> - 1
                 | Some (GroupRow (Some d)) \<Rightarrow> d)
        in (g, b\<lparr>cached_group_id := g\<rparr>))"

definition GetCitusDistTableStatus :: "citus_catalog \<Rightarrow> oid \<Rightarrow> backend \<Rightarrow> bool \<times> backend" where
  "GetCitusDistTableStatus cat rel b =
     (let cache = (case DistTableCache b of None \<Rightarrow> (\<lambda>r. None) | Some c \<Rightarrow> c)
      in case cache rel of
           Some is_dist \<Rightarrow> (is_dist, b\<lparr>DistTableCache := Some cache\<rparr>)
         | None \<Rightarrow>
             let is_dist = (case dist_partition cat of
                              None \<Rightarrow> False
                            | Some scan \<Rightarrow> (case scan rel of None \<Rightarrow> False | Some found \<Rightarrow> found))
             in (is_dist, b\<lparr>DistTableCache := Some (cache(rel := Some is_dist))\<rparr>))"

section \<open>Which relations get records\<close>

text \<open>The code asks the shared partition cache, not the table \<open>partdist.partition_map\<close>: a partition counts
  as registered while it has an entry in \<open>PartitionMapHash\<close>.  One that the table holds but that no
  lookup has cached yet does not (\<open>uncached_partition_unlogged\<close> below), although the comments on
  \<open>ShouldWritePartWAL\<close> speak of the table.\<close>

definition registered :: "metadata \<Rightarrow> oid \<Rightarrow> bool" where
  "registered md rel =
     (case (PartitionMapHash md, PartdistState md) of
        (Some h, Some st) \<Rightarrow> hash_find rel h \<noteq> None
      | _ \<Rightarrow> False)"

definition ShouldWritePartWAL ::
    "citus_catalog \<Rightarrow> metadata \<Rightarrow> oid \<Rightarrow> string option \<Rightarrow> backend \<Rightarrow> bool \<times> backend" where
  "ShouldWritePartWAL cat md rel rel_alias b =
     (if registered md rel then (True, b)
      else if IsCitusShardName rel_alias then (True, b)
      else if IsCitusShardTable cat rel then (True, b)
      else case GetLocalCitusGroupId cat b of
             (g, b1) \<Rightarrow>
               if sint g > 0
               then (case GetCitusDistTableStatus cat rel b1 of
                       (True, b2) \<Rightarrow> (True, b2)
                     | (False, b2) \<Rightarrow> (False, b2))
               else (False, b1))"

section \<open>The hooks\<close>

text \<open>One pass of a \<open>foreach\<close>: a record for every relation that gets one; an error ends it.\<close>

fun finish_loop ::
    "'w wal_ops \<Rightarrow> citus_catalog \<Rightarrow> metadata \<Rightarrow> XLogRecPtr \<Rightarrow> RangeTblEntry list \<Rightarrow> backend \<Rightarrow> 'w server
       \<Rightarrow> pg_error option \<times> backend \<times> 'w server" where
  "finish_loop ops cat md orig_lsn [] b sv = (None, b, sv)"
| "finish_loop ops cat md orig_lsn (rte # rtes) b sv =
     (case ShouldWritePartWAL cat md (relid rte) (aliasname rte) b of
        (False, b1) \<Rightarrow> finish_loop ops cat md orig_lsn rtes b1 sv
      | (True, b1) \<Rightarrow>
          (case WritePartitionWALRecord ops (relid rte) PARTWAL_FLAG_DATA orig_lsn sv of
             (Inl e, sv1) \<Rightarrow> (Some e, b1, sv1)
           | (Inr lsn, sv1) \<Rightarrow> finish_loop ops cat md orig_lsn rtes b1 sv1))"

text \<open>The relations of the statement: its result relations, or every plain relation of the range
  table when it has none.\<close>

definition finish_targets :: "PlannedStmt \<Rightarrow> RangeTblEntry list" where
  "finish_targets pstmt =
     (if resultRelations pstmt \<noteq> [] then map (\<lambda>rti. rt_fetch rti (rtable pstmt)) (resultRelations pstmt)
      else filter (\<lambda>rte. \<not> (rtekind rte \<noteq> RTE_RELATION \<or> relid rte = InvalidOid)) (rtable pstmt))"

text \<open>The bodies of the two loops: for one relation, for one cell of \<open>resultRelations\<close>, and for one cell
  of the range table, which may be passed over.\<close>

definition finish_body ::
    "'w wal_ops \<Rightarrow> citus_catalog \<Rightarrow> metadata \<Rightarrow> XLogRecPtr \<Rightarrow> RangeTblEntry \<Rightarrow> backend \<times> 'w server
       \<Rightarrow> pg_error option \<times> backend \<times> 'w server" where
  "finish_body ops cat md orig_lsn rte st =
     (case ShouldWritePartWAL cat md (relid rte) (aliasname rte) (fst st) of
        (False, b1) \<Rightarrow> (None, b1, snd st)
      | (True, b1) \<Rightarrow>
          (case WritePartitionWALRecord ops (relid rte) PARTWAL_FLAG_DATA orig_lsn (snd st) of
             (Inl e, sv1) \<Rightarrow> (Some e, b1, sv1)
           | (Inr lsn, sv1) \<Rightarrow> (None, b1, sv1)))"

definition finish_result_body ::
    "'w wal_ops \<Rightarrow> citus_catalog \<Rightarrow> metadata \<Rightarrow> XLogRecPtr \<Rightarrow> RangeTblEntry list \<Rightarrow> nat \<Rightarrow> backend \<times> 'w server
       \<Rightarrow> pg_error option \<times> backend \<times> 'w server" where
  "finish_result_body ops cat md orig_lsn rtbl rti st = finish_body ops cat md orig_lsn (rt_fetch rti rtbl) st"

definition finish_rtable_body ::
    "'w wal_ops \<Rightarrow> citus_catalog \<Rightarrow> metadata \<Rightarrow> XLogRecPtr \<Rightarrow> RangeTblEntry \<Rightarrow> backend \<times> 'w server
       \<Rightarrow> pg_error option \<times> backend \<times> 'w server" where
  "finish_rtable_body ops cat md orig_lsn rte st =
     (if rtekind rte \<noteq> RTE_RELATION \<or> relid rte = InvalidOid then (None, st)
      else finish_body ops cat md orig_lsn rte st)"

interpretation finish_results: list_walk "finish_result_body ops cat md orig_lsn rtbl"
    "\<lambda>rtis st. finish_loop ops cat md orig_lsn (map (\<lambda>rti. rt_fetch rti rtbl) rtis) (fst st) (snd st)"
  by unfold_locales (auto simp: finish_result_body_def finish_body_def split: sum.splits prod.splits bool.splits)

interpretation finish_rtable: list_walk "finish_rtable_body ops cat md orig_lsn"
    "\<lambda>rtes st. finish_loop ops cat md orig_lsn
       (filter (\<lambda>rte. \<not> (rtekind rte \<noteq> RTE_RELATION \<or> relid rte = InvalidOid)) rtes) (fst st) (snd st)"
  by unfold_locales (auto simp: finish_rtable_body_def finish_body_def split: sum.splits prod.splits bool.splits)

definition wal_attached :: "'w server \<Rightarrow> bool" where
  "wal_attached sv \<longleftrightarrow> partwal_shmem_set (memory sv) \<and> lsn_hash_set (memory sv)"

definition pg_partdist_executor_finish ::
    "'w wal_ops \<Rightarrow> citus_catalog \<Rightarrow> metadata \<Rightarrow> XLogRecPtr \<Rightarrow> QueryDesc \<Rightarrow> backend \<Rightarrow> 'w server
       \<Rightarrow> pg_error option \<times> backend \<times> 'w server" where
  "pg_partdist_executor_finish ops cat md XactLastRecEnd qd b sv =
     (if in_partwal_finish b then (None, b, sv)
      else if \<not> is_dml (operation qd) then (None, b, sv)
      else if \<not> XLogInsertAllowed ops (wal sv) then (None, b, sv)
      else if \<not> wal_attached sv then (None, b, sv)
      else case plannedstmt qd of
             None \<Rightarrow> (None, b, sv)
           | Some pstmt \<Rightarrow>
               let orig_lsn = (if XactLastRecEnd = InvalidXLogRecPtr
                               then GetXLogInsertRecPtr ops (wal sv) else XactLastRecEnd)
               in case finish_loop ops cat md orig_lsn (finish_targets pstmt)
                         (b\<lparr>in_partwal_finish := True\<rparr>) sv of
                    (r, b1, sv1) \<Rightarrow> (r, b1\<lparr>in_partwal_finish := False\<rparr>, sv1))"

text \<open>\<open>RangeVarGetRelid\<close> with \<open>missing_ok\<close> is the parameter \<open>lookup\<close>: \<open>InvalidOid\<close> if there is none.\<close>

definition pg_partdist_process_utility ::
    "'w wal_ops \<Rightarrow> citus_catalog \<Rightarrow> (RangeVar \<Rightarrow> oid) \<Rightarrow> metadata \<Rightarrow> XLogRecPtr \<Rightarrow> PlannedStmt \<Rightarrow> backend
       \<Rightarrow> 'w server \<Rightarrow> pg_error option \<times> backend \<times> 'w server" where
  "pg_partdist_process_utility ops cat lookup md XactLastRecEnd pstmt b sv =
     (if in_partwal_utility b then (None, b, sv)
      else if \<not> XLogInsertAllowed ops (wal sv) then (None, b, sv)
      else if \<not> wal_attached sv then (None, b, sv)
      else case utilityStmt pstmt of
             OtherNode \<Rightarrow> (None, b, sv)
           | CopyNode copyStmt \<Rightarrow>
               if \<not> is_from copyStmt then (None, b, sv)
               else case copy_relation copyStmt of
                      None \<Rightarrow> (None, b, sv)
                    | Some rv \<Rightarrow>
                        let rel = lookup rv
                        in if rel = InvalidOid then (None, b, sv)
                           else
                             (case ShouldWritePartWAL cat md rel (Some (relname rv))
                                     (b\<lparr>in_partwal_utility := True\<rparr>) of
                                (False, b1) \<Rightarrow> (None, b1\<lparr>in_partwal_utility := False\<rparr>, sv)
                              | (True, b1) \<Rightarrow>
                                  let orig_lsn = (if XactLastRecEnd = InvalidXLogRecPtr
                                                  then GetXLogInsertRecPtr ops (wal sv) else XactLastRecEnd)
                                  in case WritePartitionWALRecord ops rel PARTWAL_FLAG_DATA orig_lsn sv of
                                       (Inl e, sv1) \<Rightarrow> (Some e, b1\<lparr>in_partwal_utility := False\<rparr>, sv1)
                                     | (Inr lsn, sv1) \<Rightarrow> (None, b1\<lparr>in_partwal_utility := False\<rparr>, sv1)))"

section \<open>Shard names\<close>

lemma digit_range: "48 \<le> (of_char c :: nat) \<and> of_char c \<le> (57 :: nat) \<longleftrightarrow> c \<in> set ''0123456789''"
proof -
  have "c \<in> set ''0123456789'' \<longleftrightarrow> (of_char c :: nat) \<in> set (map of_char ''0123456789'')"
    by (simp only: set_map inj_image_mem_iff [OF inj_of_char])
  also have "\<dots> \<longleftrightarrow> 48 \<le> (of_char c :: nat) \<and> of_char c \<le> (57 :: nat)"
    by (simp, presburger)
  finally show ?thesis by blast
qed

lemma all_digits_iff: "all_digits s \<longleftrightarrow> set s \<subseteq> set ''0123456789''"
proof -
  obtain D where D: "D = set ''0123456789''" by simp
  have "all_digits (c # cs) \<longleftrightarrow> c \<in> D \<and> all_digits cs" for c cs
    using digit_range [of c] unfolding D [symmetric] by auto
  then have "all_digits s \<longleftrightarrow> set s \<subseteq> D"
    by (induction s) (simp_all del: all_digits.simps(2))
  then show ?thesis by (simp only: D)
qed

lemma strrchr_None: "strrchr s c = None \<longleftrightarrow> c \<notin> set s"
  by (induction s) (auto split: option.splits)

lemma strrchr_last: "c \<notin> set post \<Longrightarrow> strrchr (pre @ c # post) c = Some (c # post)"
  using strrchr_None [of post c] by (induction pre) auto

lemma strrchr_SomeD: "strrchr s c = Some u \<Longrightarrow> \<exists>pre post. s = pre @ c # post \<and> c \<notin> set post \<and> u = c # post"
proof (induction s arbitrary: u)
  case (Cons x xs)
  show ?case
  proof (cases "strrchr xs c")
    case None
    with Cons.prems have "x = c" "u = c # xs" by (auto split: if_splits)
    with None show ?thesis by (intro exI [of _ "[]"] exI [of _ xs]) (simp add: strrchr_None)
  next
    case (Some ys)
    with Cons obtain pre post where "xs = pre @ c # post" "c \<notin> set post" "u = c # post" by auto
    then show ?thesis by (intro exI [of _ "x # pre"] exI [of _ post]) simp
  qed
qed simp

lemma IsCitusShardName_iff:
  "IsCitusShardName (Some s) \<longleftrightarrow>
     (\<exists>base digits. s = base @ CHR ''_'' # digits \<and> 4 \<le> length digits \<and> set digits \<subseteq> set ''0123456789'')"
  (is "?L \<longleftrightarrow> ?R")
proof
  assume ?L
  then obtain u where u: "strrchr s CHR ''_'' = Some u" "all_digits (tl u)" "4 \<le> length (tl u)"
    by (auto simp: IsCitusShardName_def split: if_splits option.splits)
  from strrchr_SomeD [OF u(1)] obtain pre post where "s = pre @ CHR ''_'' # post" "u = CHR ''_'' # post"
    by blast
  with u(2,3) show ?R unfolding all_digits_iff by (intro exI [of _ pre] exI [of _ post]) simp
next
  assume ?R
  then obtain base digits where s: "s = base @ CHR ''_'' # digits" "4 \<le> length digits"
    "set digits \<subseteq> set ''0123456789''" by blast
  have "CHR ''_'' \<notin> set digits" using s(3) by auto
  then have "strrchr s CHR ''_'' = Some (CHR ''_'' # digits)" using strrchr_last s(1) by simp
  moreover have "all_digits digits" using s(3) by (simp only: all_digits_iff)
  ultimately show ?L using s(1,2) by (auto simp: IsCitusShardName_def)
qed

section \<open>The decision and the caches\<close>

definition catalog_group :: "citus_catalog \<Rightarrow> i32" where
  "catalog_group cat =
     (case local_group cat of Some (GroupRow (Some d)) \<Rightarrow> d | _ \<Rightarrow> - 1)"

definition catalog_distributed :: "citus_catalog \<Rightarrow> oid \<Rightarrow> bool" where
  "catalog_distributed cat rel =
     (case dist_partition cat of None \<Rightarrow> False | Some scan \<Rightarrow> scan rel = Some True)"

text \<open>What the two static caches hold is what the catalogs say.\<close>

definition backend_ok :: "citus_catalog \<Rightarrow> backend \<Rightarrow> bool" where
  "backend_ok cat b \<longleftrightarrow>
     (cached_group_id b = - 2 \<or> cached_group_id b = catalog_group cat) \<and>
     (\<forall>c rel d. DistTableCache b = Some c \<longrightarrow> c rel = Some d \<longrightarrow> d = catalog_distributed cat rel)"

definition wants_wal :: "citus_catalog \<Rightarrow> metadata \<Rightarrow> oid \<Rightarrow> string option \<Rightarrow> bool" where
  "wants_wal cat md rel rel_alias \<longleftrightarrow>
     registered md rel \<or> IsCitusShardName rel_alias \<or> IsCitusShardTable cat rel
       \<or> sint (catalog_group cat) > 0 \<and> catalog_distributed cat rel"

lemma GetLocalCitusGroupId_ok:
  assumes "GetLocalCitusGroupId cat b = (g, b')" and "backend_ok cat b"
  shows "g = catalog_group cat" and "backend_ok cat b'" and "in_partwal_finish b' = in_partwal_finish b"
    and "in_partwal_utility b' = in_partwal_utility b"
  using assms
  by (auto simp: GetLocalCitusGroupId_def Let_def backend_ok_def catalog_group_def
      split: if_splits option.splits group_scan.splits)

lemma GetCitusDistTableStatus_ok:
  assumes "GetCitusDistTableStatus cat rel b = (d, b')" and "backend_ok cat b"
  shows "d = catalog_distributed cat rel" and "backend_ok cat b'"
    and "in_partwal_finish b' = in_partwal_finish b" and "in_partwal_utility b' = in_partwal_utility b"
proof -
  obtain cache where cache: "cache = (case DistTableCache b of None \<Rightarrow> (\<lambda>r. None) | Some c \<Rightarrow> c)" by simp
  have ok: "\<forall>r d. cache r = Some d \<longrightarrow> d = catalog_distributed cat r"
    using assms(2) by (auto simp: cache backend_ok_def split: option.splits)
  have scan: "(case dist_partition cat of None \<Rightarrow> False
      | Some scan \<Rightarrow> (case scan rel of None \<Rightarrow> False | Some found \<Rightarrow> found)) = catalog_distributed cat rel"
    by (auto simp: catalog_distributed_def split: option.splits)
  have "\<exists>c. b' = b\<lparr>DistTableCache := Some c\<rparr> \<and> (\<forall>r d. c r = Some d \<longrightarrow> d = catalog_distributed cat r)
      \<and> d = catalog_distributed cat rel"
  proof (cases "cache rel")
    case (Some e)
    with assms(1) ok show ?thesis
      by (auto simp: GetCitusDistTableStatus_def cache [symmetric])
  next
    case None
    then have "d = catalog_distributed cat rel" "b' = b\<lparr>DistTableCache := Some (cache(rel := Some d))\<rparr>"
      using assms(1) by (auto simp: GetCitusDistTableStatus_def cache [symmetric] scan Let_def)
    with ok show ?thesis by (intro exI [of _ "cache(rel := Some d)"]) auto
  qed
  then show "d = catalog_distributed cat rel" and "backend_ok cat b'"
    and "in_partwal_finish b' = in_partwal_finish b" and "in_partwal_utility b' = in_partwal_utility b"
    using assms(2) by (auto simp: backend_ok_def)
qed

lemma ShouldWritePartWAL_ok:
  assumes "ShouldWritePartWAL cat md rel rel_alias b = (w, b')" and "backend_ok cat b"
  shows "w = wants_wal cat md rel rel_alias" and "backend_ok cat b'"
    and "in_partwal_finish b' = in_partwal_finish b" and "in_partwal_utility b' = in_partwal_utility b"
proof -
  obtain g b1 where g: "GetLocalCitusGroupId cat b = (g, b1)" by fastforce
  obtain d b2 where d: "GetCitusDistTableStatus cat rel b1 = (d, b2)" by fastforce
  note go = GetLocalCitusGroupId_ok [OF g assms(2)]
  note dok = GetCitusDistTableStatus_ok [OF d go(2)]
  have "w = wants_wal cat md rel rel_alias \<and> backend_ok cat b' \<and>
    in_partwal_finish b' = in_partwal_finish b \<and> in_partwal_utility b' = in_partwal_utility b"
  proof (cases "registered md rel \<or> IsCitusShardName rel_alias \<or> IsCitusShardTable cat rel")
    case True
    then have "w = True \<and> b' = b" using assms(1) by (auto simp: ShouldWritePartWAL_def split: if_splits)
    with True assms(2) show ?thesis by (auto simp: wants_wal_def)
  next
    case False
    show ?thesis
    proof (cases "sint g > 0")
      case True
      then have "w = d \<and> b' = b2"
        using assms(1) g d False by (cases d) (auto simp: ShouldWritePartWAL_def)
      with False True go dok show ?thesis by (simp add: wants_wal_def)
    next
      case low: False
      then have "w = False \<and> b' = b1" using assms(1) g False by (simp add: ShouldWritePartWAL_def)
      with False low go show ?thesis by (simp add: wants_wal_def)
    qed
  qed
  then show "w = wants_wal cat md rel rel_alias" and "backend_ok cat b'"
    and "in_partwal_finish b' = in_partwal_finish b" and "in_partwal_utility b' = in_partwal_utility b"
    by blast+
qed

text \<open>One record per relation that wants one, all with the statement's LSN.\<close>

definition finish_headers :: "citus_catalog \<Rightarrow> metadata \<Rightarrow> RangeTblEntry list \<Rightarrow> oid list" where
  "finish_headers cat md rtes =
     map relid (filter (\<lambda>rte. wants_wal cat md (relid rte) (aliasname rte)) rtes)"

lemma wal_headers_write:
  assumes "wal_ops_ok ops" and "alloc_ready (memory sv)" and "XLogInsertAllowed ops (wal sv)"
    and "WritePartitionWALRecord ops p flgs orig_lsn sv = (r, sv')"
  shows "alloc_ready (memory sv')"
    and "wal_headers ops (wal sv') = wal_headers ops (wal sv) @
      (case r of Inl e \<Rightarrow> [] | Inr l \<Rightarrow> [new_header p flgs orig_lsn (next_lsn_of p (memory sv) (files sv))])"
  using WritePartitionWALRecord_outcome [OF assms] assms(2)
  by (auto simp: wal_headers_def split: sum.splits)

lemma finish_loop_spec:
  assumes ops: "wal_ops_ok ops" "\<And>w. XLogInsertAllowed ops w"
    and "alloc_ready (memory sv)" and "backend_ok cat b"
    and "finish_loop ops cat md orig_lsn rtes b sv = (r, b', sv')"
  shows "backend_ok cat b' \<and> alloc_ready (memory sv') \<and>
    (\<exists>hs. wal_headers ops (wal sv') = wal_headers ops (wal sv) @ hs \<and>
       (\<forall>h\<in>set hs. magic h = PARTWAL_MAGIC \<and> flags h = PARTWAL_FLAG_DATA \<and> orig_node_lsn h = orig_lsn) \<and>
       (if r = None then map partition_id hs = finish_headers cat md rtes
        else \<exists>rest. finish_headers cat md rtes = map partition_id hs @ rest))"
  using assms(3-5)
proof (induction rtes arbitrary: b sv)
  case Nil
  then show ?case by (auto simp: finish_headers_def)
next
  case (Cons rte rtes)
  obtain w b1 where sw: "ShouldWritePartWAL cat md (relid rte) (aliasname rte) b = (w, b1)" by fastforce
  note so = ShouldWritePartWAL_ok [OF sw Cons.prems(2)]
  obtain rw sv1 where ww: "WritePartitionWALRecord ops (relid rte) PARTWAL_FLAG_DATA orig_lsn sv = (rw, sv1)"
    by fastforce
  note wo = wal_headers_write [OF ops(1) Cons.prems(1) ops(2) ww]
  show ?case
  proof (cases w)
    case False
    then have "finish_loop ops cat md orig_lsn rtes b1 sv = (r, b', sv')" using Cons.prems(3) sw by simp
    moreover have "finish_headers cat md (rte # rtes) = finish_headers cat md rtes"
      using False so(1) by (simp add: finish_headers_def)
    ultimately show ?thesis using Cons.IH [OF Cons.prems(1) so(2)] by metis
  next
    case True
    show ?thesis
    proof (cases rw)
      case (Inl e)
      with Cons.prems(3) sw ww True wo so(2) show ?thesis by auto
    next
      case (Inr l)
      then have lp: "finish_loop ops cat md orig_lsn rtes b1 sv1 = (r, b', sv')"
        using Cons.prems(3) sw ww True by simp
      let ?h = "new_header (relid rte) PARTWAL_FLAG_DATA orig_lsn (next_lsn_of (relid rte) (memory sv) (files sv))"
      obtain hs where hs: "wal_headers ops (wal sv') = wal_headers ops (wal sv1) @ hs"
        "\<forall>h\<in>set hs. magic h = PARTWAL_MAGIC \<and> flags h = PARTWAL_FLAG_DATA \<and> orig_node_lsn h = orig_lsn"
        "if r = None then map partition_id hs = finish_headers cat md rtes
         else \<exists>rest. finish_headers cat md rtes = map partition_id hs @ rest"
        "backend_ok cat b'" "alloc_ready (memory sv')"
        using Cons.IH [OF wo(1) so(2) lp] by blast
      have fh: "finish_headers cat md (rte # rtes) = relid rte # finish_headers cat md rtes"
        using True so(1) by (simp add: finish_headers_def)
      show ?thesis
        using hs wo(2) Inr unfolding fh
        by (intro conjI exI [of _ "?h # hs"]) (auto simp: new_header_def split: if_splits)
    qed
  qed
qed

section \<open>Properties\<close>

text \<open>C28: A relation name counts as a Citus shard exactly if it ends with an underscore and at least
  four decimal digits.\<close>

theorem shard_name_characterised:
  "IsCitusShardName (Some s) \<longleftrightarrow>
     (\<exists>base digits. s = base @ CHR ''_'' # digits \<and> 4 \<le> length digits \<and> set digits \<subseteq> set ''0123456789'')"
  by (rule IsCitusShardName_iff)

text \<open>A worker of group 1 with the distributed table 50; the others are ordinary tables.\<close>

definition worker_catalog :: citus_catalog where
  "worker_catalog =
     \<lparr>get_rel_name = (\<lambda>r. if r = 60 then Some ''orders_102177'' else Some ''plain''),
      local_group = Some (GroupRow (Some 1)), dist_partition = Some (\<lambda>r. Some (r = 50))\<rparr>"

lemma fresh_backend_ok: "backend_ok cat fresh_backend"
  by (simp add: backend_ok_def fresh_backend_def)

text \<open>C11: What the \<open>ExecutorFinish\<close> hook adds to the WAL.  Suppose that the WAL state is attached, that
  WAL may be inserted, that what the backend has cached of the Citus catalogs (its group, the tables
  it looked up) is still what they say, and that the hook is not nested in itself.  After a DML
  statement with a plan, when the hook ends without error, exactly one data record has been added for
  each target relation that has an entry in the shared partition cache, looks like a Citus shard by its
  alias or its name, or is distributed while the node is a worker (group above 0): in the order of the
  targets, and all with the LSN of the transaction's last record (where there is none, the current
  insert position).  After an error the records of a first part of these relations are there.  Either
  way the reentrancy flag is clear and the caches still agree with the catalogs.\<close>

theorem executor_finish_writes:
  assumes "wal_ops_ok ops" and "\<And>w. XLogInsertAllowed ops w" and "alloc_ready (memory sv)" and "backend_ok cat b"
    and "\<not> in_partwal_finish b" and "is_dml (operation qd)" and "plannedstmt qd = Some pstmt"
    and "orig_lsn = (if XactLastRecEnd = InvalidXLogRecPtr then GetXLogInsertRecPtr ops (wal sv) else XactLastRecEnd)"
    and "pg_partdist_executor_finish ops cat md XactLastRecEnd qd b sv = (r, b', sv')"
  shows "\<not> in_partwal_finish b' \<and> backend_ok cat b' \<and>
    (\<exists>hs. wal_headers ops (wal sv') = wal_headers ops (wal sv) @ hs \<and>
       (\<forall>h\<in>set hs. magic h = PARTWAL_MAGIC \<and> flags h = PARTWAL_FLAG_DATA \<and> orig_node_lsn h = orig_lsn) \<and>
       (if r = None then map partition_id hs = finish_headers cat md (finish_targets pstmt)
        else \<exists>rest. finish_headers cat md (finish_targets pstmt) = map partition_id hs @ rest))"
proof -
  let ?b = "b\<lparr>in_partwal_finish := True\<rparr>"
  obtain r1 b1 sv1 where l: "finish_loop ops cat md orig_lsn (finish_targets pstmt) ?b sv = (r1, b1, sv1)"
    by (metis prod_cases3)
  have att: "wal_attached sv" using assms(3) by (simp add: wal_attached_def alloc_ready_def)
  have out: "r = r1" "b' = b1\<lparr>in_partwal_finish := False\<rparr>" "sv' = sv1"
    using assms(2,5-9) l att unfolding pg_partdist_executor_finish_def Let_def assms(8) [symmetric] by auto
  have "backend_ok cat ?b" using assms(4) by (simp add: backend_ok_def)
  from finish_loop_spec [OF assms(1,2,3) this l] show ?thesis
    unfolding out by (simp add: backend_ok_def)
qed

theorem executor_finish_writes_witness:
  "\<exists>r b' sv' hs. pg_partdist_executor_finish list_wal worker_catalog (empty_cache 4) 99
       \<lparr>operation = CMD_INSERT, plannedstmt = Some \<lparr>resultRelations = [1, 2],
          rtable = [\<lparr>rtekind = RTE_RELATION, relid = 70, aliasname = None\<rparr>,
                    \<lparr>rtekind = RTE_RELATION, relid = 50, aliasname = Some ''t''\<rparr>],
          utilityStmt = OtherNode\<rparr>, sourceText = []\<rparr> fresh_backend fresh_server = (r, b', sv') \<and>
     wal_headers list_wal (wal sv') = hs \<and> (r = None \<longrightarrow> map partition_id hs = [50])"
proof -
  let ?ps = "\<lparr>resultRelations = [1, 2],
          rtable = [\<lparr>rtekind = RTE_RELATION, relid = 70, aliasname = None\<rparr>,
                    \<lparr>rtekind = RTE_RELATION, relid = 50, aliasname = Some ''t''\<rparr>], utilityStmt = OtherNode\<rparr>"
  let ?qd = "\<lparr>operation = CMD_INSERT, plannedstmt = Some ?ps, sourceText = []\<rparr>"
  obtain r b' sv' where x: "pg_partdist_executor_finish list_wal worker_catalog (empty_cache 4) 99 ?qd
      fresh_backend fresh_server = (r, b', sv')" by (metis prod_cases3)
  have "finish_headers worker_catalog (empty_cache 4) (finish_targets ?ps) = [50]"
    by (simp add: finish_headers_def finish_targets_def rt_fetch_def wants_wal_def registered_def
        empty_cache_def hash_find_def worker_catalog_def IsCitusShardTable_def IsCitusShardName_def
        catalog_group_def catalog_distributed_def)
  moreover have "wal_headers list_wal (wal fresh_server) = []"
    by (simp add: wal_headers_def list_wal_def fresh_server_def)
  moreover have "\<not> in_partwal_finish fresh_backend" by (simp add: fresh_backend_def)
  ultimately show ?thesis
    using executor_finish_writes [OF list_wal_ok list_wal_allowed fresh_server_ready fresh_backend_ok _ _ _ refl x] x
    by (auto simp: is_dml_def)
qed

text \<open>The relation that a utility statement makes the hook write a record for.\<close>

definition copy_target :: "citus_catalog \<Rightarrow> (RangeVar \<Rightarrow> oid) \<Rightarrow> metadata \<Rightarrow> PlannedStmt \<Rightarrow> oid option" where
  "copy_target cat lookup md pstmt =
     (case utilityStmt pstmt of
        OtherNode \<Rightarrow> None
      | CopyNode c \<Rightarrow>
          (case copy_relation c of
             None \<Rightarrow> None
           | Some rv \<Rightarrow>
               if is_from c \<and> lookup rv \<noteq> InvalidOid \<and> wants_wal cat md (lookup rv) (Some (relname rv))
               then Some (lookup rv) else None))"

text \<open>C27: What the \<open>ProcessUtility\<close> hook adds to the WAL.  Suppose that the WAL state is attached, that
  WAL may be inserted, that what the backend has cached of the Citus catalogs is still what they say,
  and that the hook is not nested in itself.  For a \<open>COPY FROM\<close> into an existing relation that has an
  entry in the shared partition cache, looks like a Citus shard, or is distributed while the node is a
  worker, the WAL gets exactly one header: a data record of that relation with its next partition LSN
  and the LSN of the transaction's last record (where there is none, the current insert position),
  or none if the hook reports an error.  For every other utility statement the hook reports no error
  and leaves files, memory and WAL as they were.  Its reentrancy flag is clear afterwards and the
  caches still agree with the catalogs.\<close>

theorem process_utility_writes:
  assumes "wal_ops_ok ops" and "XLogInsertAllowed ops (wal sv)" and "alloc_ready (memory sv)" and "backend_ok cat b"
    and "\<not> in_partwal_utility b"
    and "orig_lsn = (if XactLastRecEnd = InvalidXLogRecPtr then GetXLogInsertRecPtr ops (wal sv) else XactLastRecEnd)"
    and "pg_partdist_process_utility ops cat lookup md XactLastRecEnd pstmt b sv = (r, b', sv')"
  shows "\<not> in_partwal_utility b' \<and> backend_ok cat b' \<and>
    (case copy_target cat lookup md pstmt of
       None \<Rightarrow> r = None \<and> sv' = sv
     | Some rel \<Rightarrow>
         wal_headers ops (wal sv') = wal_headers ops (wal sv) @
           (if r = None then [new_header rel PARTWAL_FLAG_DATA orig_lsn (next_lsn_of rel (memory sv) (files sv))] else []))"
proof -
  have att: "wal_attached sv" using assms(3) by (simp add: wal_attached_def alloc_ready_def)
  let ?b = "b\<lparr>in_partwal_utility := True\<rparr>"
  have okb: "backend_ok cat ?b" using assms(4) by (simp add: backend_ok_def)
  show ?thesis
  proof (cases "\<exists>c rv. utilityStmt pstmt = CopyNode c \<and> is_from c \<and> copy_relation c = Some rv \<and> lookup rv \<noteq> InvalidOid")
    case False
    then have "sv' = sv" "b' = b" "r = None"
      using assms(2,5,7) att
      by (auto simp: pg_partdist_process_utility_def Let_def split: utility_node.splits option.splits if_splits)
    moreover have "copy_target cat lookup md pstmt = None"
      using False by (auto simp: copy_target_def split: utility_node.split option.split)
    ultimately show ?thesis using assms(4,5) by simp
  next
    case True
    then obtain c rv where c: "utilityStmt pstmt = CopyNode c" "is_from c" "copy_relation c = Some rv"
      "lookup rv \<noteq> InvalidOid" by blast
    obtain w b1 where sw: "ShouldWritePartWAL cat md (lookup rv) (Some (relname rv)) ?b = (w, b1)" by fastforce
    note so = ShouldWritePartWAL_ok [OF sw okb]
    have target: "copy_target cat lookup md pstmt = (if w then Some (lookup rv) else None)"
      using c so(1) by (simp add: copy_target_def)
    obtain rw sv1 where ww: "WritePartitionWALRecord ops (lookup rv) PARTWAL_FLAG_DATA orig_lsn sv = (rw, sv1)"
      by fastforce
    note wo = wal_headers_write(2) [OF assms(1,3,2) ww]
    have out: "b' = b1\<lparr>in_partwal_utility := False\<rparr> \<and>
        (if w then sv' = sv1 \<and> r = (case rw of Inl e \<Rightarrow> Some e | Inr l \<Rightarrow> None) else sv' = sv \<and> r = None)"
      using assms(2,5,7) att c sw ww unfolding pg_partdist_process_utility_def Let_def assms(6) [symmetric]
      by (cases w; cases rw) auto
    have "backend_ok cat b'" using so(2) out by (simp add: backend_ok_def)
    with out wo target show ?thesis by (cases w; cases rw) auto
  qed
qed

theorem process_utility_writes_witness:
  "\<exists>r b' sv'. pg_partdist_process_utility list_wal worker_catalog (\<lambda>rv. 60) (empty_cache 4) 99
       \<lparr>resultRelations = [], rtable = [],
        utilityStmt = CopyNode \<lparr>is_from = True, copy_relation = Some \<lparr>relname = ''orders_102177'', schemaname = None\<rparr>\<rparr>\<rparr>
       fresh_backend fresh_server = (r, b', sv') \<and>
     (r = None \<longrightarrow> wal_headers list_wal (wal sv') =
        [new_header 60 PARTWAL_FLAG_DATA 99 (next_lsn_of 60 (memory fresh_server) (files fresh_server))])"
proof -
  let ?rv = "\<lparr>relname = ''orders_102177'', schemaname = None\<rparr>"
  let ?ps = "\<lparr>resultRelations = [], rtable = [],
        utilityStmt = CopyNode \<lparr>is_from = True, copy_relation = Some ?rv\<rparr>\<rparr>"
  obtain r b' sv' where x: "pg_partdist_process_utility list_wal worker_catalog (\<lambda>rv. 60) (empty_cache 4) 99 ?ps
      fresh_backend fresh_server = (r, b', sv')" by (metis prod_cases3)
  have "IsCitusShardName (Some ''orders_102177'')" by code_simp
  then have "copy_target worker_catalog (\<lambda>rv. 60) (empty_cache 4) ?ps = Some 60"
    by (simp add: copy_target_def wants_wal_def)
  moreover have "wal_headers list_wal (wal fresh_server) = []"
    by (simp add: wal_headers_def list_wal_def fresh_server_def)
  moreover have "\<not> in_partwal_utility fresh_backend" by (simp add: fresh_backend_def)
  ultimately show ?thesis
    using process_utility_writes [OF list_wal_ok list_wal_allowed fresh_server_ready fresh_backend_ok _ refl x] x
    by auto
qed

text \<open>A partition without an entry in the shared cache gets no record on a node that is not a worker,
  unless its name is a shard's: whether \<open>partdist.partition_map\<close> holds it is not asked.  With an entry
  it gets one, on any node.\<close>

lemma uncached_partition_unlogged:
  assumes "backend_ok cat b" and "\<not> IsCitusShardName rel_alias" and "\<not> IsCitusShardTable cat rel"
    and "\<not> sint (catalog_group cat) > 0"
  shows "fst (ShouldWritePartWAL cat md rel rel_alias b) = registered md rel"
proof -
  obtain w b' where sw: "ShouldWritePartWAL cat md rel rel_alias b = (w, b')" by fastforce
  then show ?thesis using ShouldWritePartWAL_ok(1) [OF sw assms(1)] assms(2-4) by (simp add: wants_wal_def)
qed

text \<open>What a backend once found about Citus it keeps for its lifetime, failures included: after a
  failed look-up of the node's group, distributed tables are not recognised by that backend, even
  when the catalogs later say that the node is a worker and the table is distributed.\<close>

theorem group_failure_is_remembered:
  assumes "catalog_group before = - 1" and "\<not> registered md rel" and "\<not> IsCitusShardName rel_alias"
    and "\<not> IsCitusShardTable before other" and "\<not> registered md other" and "\<not> IsCitusShardTable now rel"
    and "cached_group_id b = - 2"
  shows "fst (ShouldWritePartWAL now md rel rel_alias (snd (ShouldWritePartWAL before md other None b))) = False"
proof -
  have "snd (ShouldWritePartWAL before md other None b) = b\<lparr>cached_group_id := - 1\<rparr>"
    using assms by (auto simp: ShouldWritePartWAL_def IsCitusShardName_def GetLocalCitusGroupId_def Let_def
        catalog_group_def split: option.splits group_scan.splits)
  with assms show ?thesis
    by (simp add: ShouldWritePartWAL_def GetLocalCitusGroupId_def)
qed

theorem group_failure_is_remembered_witness:
  "wants_wal worker_catalog (empty_cache 4) 50 None \<and>
   fst (ShouldWritePartWAL worker_catalog (empty_cache 4) 50 None
     (snd (ShouldWritePartWAL (worker_catalog\<lparr>local_group := Some GroupScanRaises\<rparr>) (empty_cache 4) 50 None
        fresh_backend))) = False"
proof -
  let ?bad = "worker_catalog\<lparr>local_group := Some GroupScanRaises\<rparr>"
  have 1: "catalog_group ?bad = - 1" "\<not> registered (empty_cache 4) 50" "\<not> IsCitusShardName None"
    "\<not> IsCitusShardTable ?bad 50" "\<not> IsCitusShardTable worker_catalog 50" "cached_group_id fresh_backend = - 2"
    by (simp_all add: catalog_group_def registered_def empty_cache_def hash_find_def IsCitusShardName_def
        IsCitusShardTable_def worker_catalog_def fresh_backend_def)
  have "wants_wal worker_catalog (empty_cache 4) 50 None"
    by (simp add: wants_wal_def worker_catalog_def catalog_group_def catalog_distributed_def)
  with group_failure_is_remembered [OF 1(1,2,3,4,2,5,6)] show ?thesis by blast
qed

end
