(* ===== verification/PgPartdist.thy ===== *)
theory PgPartdist
  imports CitusHooks DemuxShared
begin

text \<open>
  \<open>src/pg_partdist.c\<close> and the shared-memory hooks of \<open>src/metadata_cache.c\<close>: the module's entry
  point, the hook wrappers that chain to the hooks installed before, and the SQL functions over the
  metadata cache.  The earlier hooks and the server's standard functions are parameters.  The lemmas
  show that start-up uses only what was requested and keeps what another process made, and in which
  order and on which paths the wrappers run the chain and the extension's own handlers.
\<close>

section \<open>Shared memory\<close>

text \<open>The sizes of the three structures on a 64-bit machine, padding included.\<close>

definition sizeof_PartdistSharedState :: nat where
  "sizeof_PartdistSharedState = 8 + 8 + 8 + 4 * 8"

definition sizeof_PartitionHashEntry :: nat where
  "sizeof_PartitionHashEntry = 4 + 4 + 4 * PARTDIST_MAX_SECONDARIES + 4 + 4 + 8 + 8"

definition sizeof_NodeHashEntry :: nat where
  "sizeof_NodeHashEntry = 4 + PARTDIST_MAX_HOSTNAME + 4 + 4 + 4 + 8 + 8"

definition pg_partdist_shmem_size :: "(nat \<Rightarrow> nat \<Rightarrow> nat) \<Rightarrow> (nat \<Rightarrow> nat \<Rightarrow> nat) \<Rightarrow> nat" where
  "pg_partdist_shmem_size add_size hash_estimate_size =
     (let size1 = add_size 0 sizeof_PartdistSharedState;
          size2 = add_size size1 (hash_estimate_size PARTDIST_PARTITION_MAX_ENTRIES sizeof_PartitionHashEntry)
      in add_size size2 (hash_estimate_size PARTDIST_NODE_MAX_ENTRIES sizeof_NodeHashEntry))"

definition pg_partdist_shmem_request_hook ::
    "(nat \<Rightarrow> nat \<Rightarrow> nat) \<Rightarrow> (nat \<Rightarrow> nat \<Rightarrow> nat) \<Rightarrow> shmem_request list" where
  "pg_partdist_shmem_request_hook add_size hash_estimate_size =
     [RequestAddinShmemSpace (pg_partdist_shmem_size add_size hash_estimate_size),
      RequestNamedLWLockTranche ''pg_partdist'' 2]
     @ RequestPartitionWALShmem add_size hash_estimate_size
     @ RequestDemuxShmem"

text \<open>What exists in the shared segment under the names of the three components.\<close>

record shared_segment =
  seg_state :: "PartdistSharedState option"
  seg_partitions :: "(oid, PartitionHashEntry) htab option"
  seg_nodes :: "(i32, NodeHashEntry) htab option"
  seg_wal :: partwal_memory
  seg_demux :: "DemuxSharedState option"

text \<open>The process's view of it: the pointers of \<open>metadata_cache.c\<close>, \<open>partition_wal.c\<close> and
  \<open>demux_worker.c\<close> with what they point to.\<close>

record shared_view =
  view_metadata :: metadata
  view_wal :: partwal_memory
  view_demux :: "DemuxSharedState option"

definition pg_partdist_shmem_startup_hook :: "shared_segment \<Rightarrow> shared_view" where
  "pg_partdist_shmem_startup_hook seg =
     (let state = (case seg_state seg of
                     Some st \<Rightarrow> st
                   | None \<Rightarrow> \<lparr>partition_lock = (''pg_partdist'', 0), node_lock = (''pg_partdist'', 1),
                              metadata_generation = 0, partition_hits = 0, partition_misses = 0,
                              node_hits = 0, node_misses = 0\<rparr>);
          parts = (case seg_partitions seg of
                     Some h \<Rightarrow> h | None \<Rightarrow> \<lparr>max_entries = PARTDIST_PARTITION_MAX_ENTRIES, entries = []\<rparr>);
          nodes = (case seg_nodes seg of
                     Some h \<Rightarrow> h | None \<Rightarrow> \<lparr>max_entries = PARTDIST_NODE_MAX_ENTRIES, entries = []\<rparr>)
      in \<lparr>view_metadata = \<lparr>PartdistState = Some state, PartitionMapHash = Some parts, NodeMapHash = Some nodes\<rparr>,
          view_wal = PartitionWALShmemInit (seg_wal seg),
          view_demux = Some (DemuxShmemInit (seg_demux seg))\<rparr>)"

section \<open>Processes and hooks\<close>

record 'w process =
  p_view :: shared_view
  p_server :: "'w server"
  p_backend :: backend
  p_in_hook :: bool
  p_log :: "(oid \<times> string) list"

text \<open>What the server and the other extensions provide to the handlers.\<close>

record 'w environment =
  e_tables :: tables
  e_local_node_id :: i32
  e_ids :: "u32 \<times> u32"
  e_ops :: "'w wal_ops"
  e_catalog :: citus_catalog
  e_lookup :: "RangeVar \<Rightarrow> oid"
  e_XactLastRecEnd :: "'w process \<Rightarrow> XLogRecPtr"

type_synonym 'w query_hook = "QueryDesc \<Rightarrow> 'w process \<Rightarrow> pg_error option \<times> 'w process"
type_synonym 'w utility_hook = "PlannedStmt \<Rightarrow> 'w process \<Rightarrow> pg_error option \<times> 'w process"

datatype ObjectAccessType =
  OAT_POST_CREATE | OAT_DROP | OAT_POST_ALTER | OAT_NAMESPACE_SEARCH | OAT_FUNCTION_EXECUTE | OAT_TRUNCATE

type_synonym 'w object_hook =
  "ObjectAccessType \<Rightarrow> oid \<Rightarrow> oid \<Rightarrow> i32 \<Rightarrow> 'w process \<Rightarrow> pg_error option \<times> 'w process"

definition partdist_shmem_request ::
    "(nat \<Rightarrow> nat \<Rightarrow> nat) \<Rightarrow> (nat \<Rightarrow> nat \<Rightarrow> nat) \<Rightarrow> (shmem_request list \<Rightarrow> shmem_request list) option
       \<Rightarrow> shmem_request list \<Rightarrow> shmem_request list" where
  "partdist_shmem_request add_size hash_estimate_size prev reqs =
     (case prev of Some f \<Rightarrow> f reqs | None \<Rightarrow> reqs)
       @ pg_partdist_shmem_request_hook add_size hash_estimate_size"

definition partdist_shmem_startup ::
    "(shared_segment \<Rightarrow> shared_segment) option \<Rightarrow> shared_segment \<Rightarrow> shared_view" where
  "partdist_shmem_startup prev seg =
     pg_partdist_shmem_startup_hook (case prev of Some f \<Rightarrow> f seg | None \<Rightarrow> seg)"

definition partdist_executor_start ::
    "'w environment \<Rightarrow> 'w query_hook \<Rightarrow> 'w query_hook option \<Rightarrow> 'w query_hook" where
  "partdist_executor_start env standard prev qd s =
     (case pg_partdist_executor_start (e_tables env) (e_local_node_id env) (e_ids env) qd (p_in_hook s)
             (view_metadata (p_view s)) of
        (r, log, h, m) \<Rightarrow>
          let s1 = s\<lparr>p_view := (p_view s)\<lparr>view_metadata := m\<rparr>, p_in_hook := h, p_log := p_log s @ log\<rparr>
          in case r of
               Some e \<Rightarrow> (Some e, s1)
             | None \<Rightarrow> (case prev of Some f \<Rightarrow> f qd s1 | None \<Rightarrow> standard qd s1))"

definition partdist_executor_finish ::
    "'w environment \<Rightarrow> 'w query_hook \<Rightarrow> 'w query_hook option \<Rightarrow> 'w query_hook" where
  "partdist_executor_finish env standard prev qd s =
     (case (case prev of Some f \<Rightarrow> f qd s | None \<Rightarrow> standard qd s) of
        (Some e, s1) \<Rightarrow> (Some e, s1)
      | (None, s1) \<Rightarrow>
          (case pg_partdist_executor_finish (e_ops env) (e_catalog env) (view_metadata (p_view s1))
                  (e_XactLastRecEnd env s1) qd (p_backend s1) (p_server s1) of
             (r, b, sv) \<Rightarrow> (r, s1\<lparr>p_backend := b, p_server := sv\<rparr>)))"

definition RelationRelationId :: oid where
  "RelationRelationId = 1259"

definition partdist_object_access ::
    "'w environment \<Rightarrow> 'w object_hook option \<Rightarrow> 'w object_hook" where
  "partdist_object_access env prev access classId objectId subId s =
     (case (case prev of Some f \<Rightarrow> f access classId objectId subId s | None \<Rightarrow> (None, s)) of
        (Some e, s1) \<Rightarrow> (Some e, s1)
      | (None, s1) \<Rightarrow>
          if access \<noteq> OAT_POST_CREATE \<or> classId \<noteq> RelationRelationId \<or> subId \<noteq> 0 then (None, s1)
          else if objectId = InvalidOid then (None, s1)
          else if \<not> IsCitusShardTable (e_catalog env) objectId then (None, s1)
          else (case InitPartitionWALDirectory objectId (files (p_server s1)) of
                  (Inr _, t) \<Rightarrow> (None, s1\<lparr>p_server := (p_server s1)\<lparr>files := t\<rparr>\<rparr>)
                | (Inl e, t) \<Rightarrow>
                    (None, s1\<lparr>p_server := (p_server s1)\<lparr>files := warn (WarnInitDirectory objectId) t\<rparr>\<rparr>)))"

definition partdist_process_utility ::
    "'w environment \<Rightarrow> 'w utility_hook \<Rightarrow> 'w utility_hook option \<Rightarrow> 'w utility_hook" where
  "partdist_process_utility env standard prev pstmt s =
     (case (case prev of Some f \<Rightarrow> f pstmt s | None \<Rightarrow> standard pstmt s) of
        (Some e, s1) \<Rightarrow> (Some e, s1)
      | (None, s1) \<Rightarrow>
          (case pg_partdist_process_utility (e_ops env) (e_catalog env) (e_lookup env) (view_metadata (p_view s1))
                  (e_XactLastRecEnd env s1) pstmt (p_backend s1) (p_server s1) of
             (r, b, sv) \<Rightarrow> (r, s1\<lparr>p_backend := b, p_server := sv\<rparr>)))"

section \<open>Loading the module\<close>

text \<open>The server's hook variables and registries.\<close>

record 'w hooks =
  shmem_request_hook :: "(shmem_request list \<Rightarrow> shmem_request list) option"
  shmem_startup_hook :: "(shared_segment \<Rightarrow> shared_view) option"
  earlier_startup :: "(shared_segment \<Rightarrow> shared_segment) option"
  ExecutorStart_hook :: "'w query_hook option"
  ExecutorFinish_hook :: "'w query_hook option"
  object_access_hook :: "'w object_hook option"
  ProcessUtility_hook :: "'w utility_hook option"
  int_variables :: "(string \<times> i32 \<times> i32 \<times> i32) list"
  rmgrs :: "u8 \<Rightarrow> RmgrData option"
  bgworkers :: "BackgroundWorker list"

text \<open>The server's functions that the installed hooks fall back to, and its size functions.\<close>

record 'w server_functions =
  standard_ExecutorStart :: "'w query_hook"
  standard_ExecutorFinish :: "'w query_hook"
  standard_ProcessUtility :: "'w utility_hook"
  f_add_size :: "nat \<Rightarrow> nat \<Rightarrow> nat"
  f_hash_estimate_size :: "nat \<Rightarrow> nat \<Rightarrow> nat"

text \<open>\<open>_PG_init\<close>.  The start-up hook of the earlier extensions is the field \<open>earlier_startup\<close>, since it
  works on their shared structures and not on this module's pointers.\<close>

definition PG_init ::
    "u64 \<Rightarrow> 'w environment \<Rightarrow> 'w server_functions \<Rightarrow> bool \<Rightarrow> 'w hooks \<Rightarrow> 'w hooks" where
  "PG_init wss env std process_shared_preload_libraries_in_progress h =
     (if \<not> process_shared_preload_libraries_in_progress then h
      else h\<lparr>int_variables := int_variables h @ [(''pg_partdist.local_node_id'', - 1, - 1, 0x7FFFFFFF)],
             shmem_request_hook :=
               Some (partdist_shmem_request (f_add_size std) (f_hash_estimate_size std) (shmem_request_hook h)),
             shmem_startup_hook := Some (partdist_shmem_startup (earlier_startup h)),
             ExecutorStart_hook :=
               Some (partdist_executor_start env (standard_ExecutorStart std) (ExecutorStart_hook h)),
             ExecutorFinish_hook :=
               Some (partdist_executor_finish env (standard_ExecutorFinish std) (ExecutorFinish_hook h)),
             object_access_hook := Some (partdist_object_access env (object_access_hook h)),
             ProcessUtility_hook :=
               Some (partdist_process_utility env (standard_ProcessUtility std) (ProcessUtility_hook h)),
             rmgrs := RegisterPartitionWALRmgr wss (rmgrs h),
             bgworkers := RegisterDemuxWorker (bgworkers h)\<rparr>)"

section \<open>SQL functions\<close>

definition pg_partdist_version :: string where
  "pg_partdist_version = ''1.0''"

text \<open>\<open>None\<close> is SQL \<open>NULL\<close>.\<close>

definition pg_partdist_get_primary :: "tables \<Rightarrow> oid \<Rightarrow> metadata \<Rightarrow> (pg_error + i32 option) \<times> metadata" where
  "pg_partdist_get_primary tb p m =
     (case get_primary tb p m of
        (Inl e, m1) \<Rightarrow> (Inl e, m1)
      | (Inr primary, m1) \<Rightarrow> if sint primary < 0 then (Inr None, m1) else (Inr (Some primary), m1))"

definition pg_partdist_cache_invalidate :: "metadata \<Rightarrow> metadata" where
  "pg_partdist_cache_invalidate m = InvalidatePartdistCache m"

definition pg_partdist_bump_metadata_version :: "metadata \<Rightarrow> metadata" where
  "pg_partdist_bump_metadata_version m =
     (case PartdistState m of
        None \<Rightarrow> m
      | Some st \<Rightarrow> m\<lparr>PartdistState := Some (st\<lparr>metadata_generation := metadata_generation st + 1\<rparr>)\<rparr>)"

definition pg_partdist_cache_stats :: "bool \<Rightarrow> metadata \<Rightarrow> pg_error + i64 list" where
  "pg_partdist_cache_stats composite m =
     (if \<not> composite then Inl ErrFeatureNotSupported
      else Inr (case PartdistState m of
                  None \<Rightarrow> [0, 0, 0, 0, 0]
                | Some st \<Rightarrow> [partition_hits st, partition_misses st, node_hits st, node_misses st,
                              metadata_generation st]))"

definition pg_partdist_route_write ::
    "tables \<Rightarrow> i32 \<Rightarrow> (u32 \<times> u32) \<Rightarrow> oid \<Rightarrow> metadata \<Rightarrow> (pg_error + string) \<times> metadata" where
  "pg_partdist_route_write tb local_node_id ids p m =
     (case RouteWriteRequest tb local_node_id
             \<lparr>req_partition_id = p, xid = fst ids, cid = snd ids, query_string = None\<rparr> m of
        (Inl e, m1) \<Rightarrow> (Inl e, m1)
      | (Inr route, m1) \<Rightarrow> (Inr (RouteStatusString route), m1))"

section \<open>Start-up\<close>

definition ring_empty :: "DemuxSharedState \<Rightarrow> bool" where
  "ring_empty st \<longleftrightarrow>
     latency_head st = 0 \<and> latency_count st = 0 \<and> latency_buf st = replicate 1024 0 \<and>
     last_processed_lsn st = InvalidXLogRecPtr \<and> \<not> worker_active st"

text \<open>A segment nobody has initialised, and the segment that a start-up leaves for other processes.\<close>

definition fresh_segment :: shared_segment where
  "fresh_segment = \<lparr>seg_state = None, seg_partitions = None, seg_nodes = None, seg_wal = unattached, seg_demux = None\<rparr>"

definition seg_of :: "shared_view \<Rightarrow> shared_segment" where
  "seg_of v =
     \<lparr>seg_state = PartdistState (view_metadata v), seg_partitions = PartitionMapHash (view_metadata v),
      seg_nodes = NodeMapHash (view_metadata v),
      seg_wal = (view_wal v)\<lparr>partwal_shmem_set := False, lsn_hash_set := False\<rparr>, seg_demux = view_demux v\<rparr>"

text \<open>The first start-up leaves empty tables of the configured sizes and zero counters, the memory
  from which LSNs can be allocated, and only takes locks that the request hook asked for: two different
  ones of its own tranche, and one each of the tranches of the WAL and the Demux worker.\<close>

theorem startup_locks_requested:
  "let v = partdist_shmem_startup None fresh_segment;
       reqs = partdist_shmem_request add_size hash_estimate_size prev_requests earlier
   in (case (PartdistState (view_metadata v), wal_state (view_wal v), view_demux v) of
         (Some st, Some ws, Some ds) \<Rightarrow>
           RequestNamedLWLockTranche (fst (partition_lock st)) 2 \<in> set reqs \<and> snd (partition_lock st) < 2 \<and>
           RequestNamedLWLockTranche (fst (node_lock st)) 2 \<in> set reqs \<and> snd (node_lock st) < 2 \<and>
           partition_lock st \<noteq> node_lock st \<and>
           RequestNamedLWLockTranche (lsn_lock ws) 1 \<in> set reqs \<and>
           RequestNamedLWLockTranche (demux_lock ds) 1 \<in> set reqs \<and>
           pg_partdist_cache_stats True (view_metadata v) = Inr [0, 0, 0, 0, 0] \<and> ring_empty ds
       | _ \<Rightarrow> False) \<and>
      PartitionMapHash (view_metadata v) = Some \<lparr>max_entries = 1024, entries = []\<rparr> \<and>
      NodeMapHash (view_metadata v) = Some \<lparr>max_entries = 64, entries = []\<rparr> \<and>
      alloc_ready (view_wal v) \<and> lsn_hash (view_wal v) = Some \<lparr>max_entries = 1024, entries = []\<rparr>"
  by (simp add: partdist_shmem_startup_def pg_partdist_shmem_startup_hook_def fresh_segment_def Let_def
      partdist_shmem_request_def pg_partdist_shmem_request_hook_def RequestPartitionWALShmem_def
      RequestDemuxShmem_def PartitionWALShmemInit_def unattached_def DemuxShmemInit_def ring_empty_def
      pg_partdist_cache_stats_def alloc_ready_def hash_inv_def PARTDIST_PARTITION_MAX_ENTRIES_def
      PARTDIST_NODE_MAX_ENTRIES_def
      DEMUX_LATENCY_SAMPLES_def)

text \<open>A process that attaches later sees what is there: its start-up changes neither the counters nor
  an entry of any table, whatever the processes before it have stored.\<close>

theorem startup_attaches:
  "partdist_shmem_startup None (seg_of (partdist_shmem_startup prev seg)) = partdist_shmem_startup prev seg"
  by (simp add: partdist_shmem_startup_def pg_partdist_shmem_startup_hook_def seg_of_def Let_def
      PartitionWALShmemInit_def DemuxShmemInit_def)

section \<open>The installed hooks\<close>

text \<open>C15: A remote write never starts.  Take a node with a configured id (not the default -1), a backend
  attached to the shared caches whose partition and node entries agree with the tables (no lost
  invalidation), and a call that is not nested in the router's own hook.  Then a DML statement with a
  result relation whose primary is another node, or is down, does not start: the installed
  \<open>ExecutorStart\<close> hook raises before the hooks of other extensions or the standard function run,
  naming a result relation that is not admitted, or reporting a failed lookup, and leaves the WAL, the
  files and the backend as they were.\<close>

theorem remote_write_never_starts:
  assumes "route_inv (e_tables env) (view_metadata (p_view s))" and "is_dml (operation qd)"
    and "sint (e_local_node_id env) \<ge> 0" and "PartitionMapHash (view_metadata (p_view s)) \<noteq> None"
    and "\<not> p_in_hook s" and "plannedstmt qd = Some pstmt"
    and "p \<in> set (result_oids (resultRelations pstmt) (rtable pstmt))"
    and "\<not> admitted (route_spec (e_tables env) (e_local_node_id env) p)"
    and "ExecutorStart_hook (PG_init wss env std True h) = Some hook"
  shows "\<exists>e s'. hook qd s = (Some e, s') \<and> p_server s' = p_server s \<and> p_backend s' = p_backend s \<and>
    (lookup_error e \<or>
     (\<exists>q\<in>set (result_oids (resultRelations pstmt) (rtable pstmt)). rejection (e_tables env) (e_local_node_id env) q e))"
proof -
  let ?m = "view_metadata (p_view s)" and ?rtis = "resultRelations pstmt"
  have ne: "?rtis \<noteq> []" using assms(7) by (auto simp: result_oids_def)
  obtain r log m where w: "route_loop (e_tables env) (e_local_node_id env) (sourceText qd) (e_ids env) (rtable pstmt) ?rtis [] ?m
      = (r, log, m)" by (metis prod_cases3)
  note spec = route_loop_spec [OF w assms(1)]
  obtain e where e: "r = Some e" using spec assms(7,8) by (cases r) auto
  have "pg_partdist_executor_start (e_tables env) (e_local_node_id env) (e_ids env) qd (p_in_hook s) ?m
      = (Some e, log, False, m)"
    using w e ne assms(2-6) by (simp add: pg_partdist_executor_start_def not_less)
  moreover have "hook = partdist_executor_start env (standard_ExecutorStart std) (ExecutorStart_hook h)"
    using assms(9) by (simp add: PG_init_def)
  ultimately show ?thesis using spec e by (simp add: partdist_executor_start_def Let_def)
qed

text \<open>The range table index that a cell of \<open>resultRelations\<close> holds.\<close>

definition index_at :: "List option \<Rightarrow> nat \<Rightarrow> nat" where
  "index_at lst c = unat (lfirst_int (cell_value lst c))"

text \<open>The hooks walk over the lists of the server in the order and to the end the code says: where a
  plan's \<open>resultRelations\<close> and \<open>rtable\<close> are lists in memory, routing a statement and writing its
  records are the \<open>foreach\<close> loops over their cells with the loop bodies of the code, each left at the
  first error; the second loop of the finish hook runs exactly when the first list is \<open>NIL\<close>.\<close>

theorem hooks_walk_server_lists:
  fixes node_at :: "ListCell \<Rightarrow> RangeTblEntry"
  assumes "list_ok lst" and "resultRelations pstmt = map (\<lambda>c. unat (lfirst_int c)) (list_contents lst)"
    and "list_ok rlst" and "rtable pstmt = map node_at (list_contents rlst)"
  shows "route_loop tb l src ids (rtable pstmt) (resultRelations pstmt) log m =
      snd (pg_foreach lst (until_error (route_body tb l src ids (rtable pstmt)) (index_at lst)) (None, log, m)) \<and>
    finish_loop ops cat md orig_lsn (finish_targets pstmt) b sv =
      (if lst \<noteq> NIL
       then snd (pg_foreach lst (until_error (finish_result_body ops cat md orig_lsn (rtable pstmt)) (index_at lst)) (None, b, sv))
       else snd (pg_foreach rlst (until_error (finish_rtable_body ops cat md orig_lsn) (\<lambda>c. node_at (cell_value rlst c)))
         (None, b, sv)))"
proof (intro conjI)
  have at: "index_at lst = (\<lambda>c. unat (lfirst_int (cell_value lst c)))" by (intro ext) (simp add: index_at_def)
  show "route_loop tb l src ids (rtable pstmt) (resultRelations pstmt) log m =
      snd (pg_foreach lst (until_error (route_body tb l src ids (rtable pstmt)) (index_at lst)) (None, log, m))"
    unfolding at assms(2) using route_walk.foreach_walk [OF assms(1) surjective_pairing, of tb l src ids "rtable pstmt"
        "\<lambda>c. unat (lfirst_int c)" "(log, m)"] by simp
  have "resultRelations pstmt = [] \<longleftrightarrow> lst = NIL" using list_empty_iff [OF assms(1)] assms(2) by simp
  then show "finish_loop ops cat md orig_lsn (finish_targets pstmt) b sv =
      (if lst \<noteq> NIL
       then snd (pg_foreach lst (until_error (finish_result_body ops cat md orig_lsn (rtable pstmt)) (index_at lst)) (None, b, sv))
       else snd (pg_foreach rlst (until_error (finish_rtable_body ops cat md orig_lsn) (\<lambda>c. node_at (cell_value rlst c)))
         (None, b, sv)))"
    unfolding at finish_targets_def
    using finish_results.foreach_walk [OF assms(1) surjective_pairing, of ops cat md orig_lsn "rtable pstmt"
        "\<lambda>c. unat (lfirst_int c)" "(b, sv)"]
      finish_rtable.foreach_walk [OF assms(3) surjective_pairing, of ops cat md orig_lsn node_at "(b, sv)"] assms(2,4)
    by simp
qed

text \<open>The object-access hook never makes a statement fail: for a newly created shard table it
  creates the partition's directory (when no call fails) and for everything else it does nothing; no
  segment file changes, and an error of the directory's creation only leaves a warning.\<close>

theorem shard_directory_created:
  "\<exists>s'. partdist_object_access env None access classId objectId subId s = (None, s') \<and>
     file_content (files (p_server s')) = file_content (files (p_server s)) \<and>
     wal (p_server s') = wal (p_server s) \<and> memory (p_server s') = memory (p_server s) \<and>
     (if access = OAT_POST_CREATE \<and> classId = RelationRelationId \<and> subId = 0 \<and> IsCitusShardTable (e_catalog env) objectId
      then script (files (p_server s)) = [] \<longrightarrow> partition_wal_exists objectId (files (p_server s'))
      else s' = s)"
proof -
  obtain r t where i: "InitPartitionWALDirectory objectId (files (p_server s)) = (r, t)" by fastforce
  have fc: "file_content t = file_content (files (p_server s))"
    using Init_files(1,2) [OF i] by (intro ext) (simp add: file_content_def)
  have "same_files t (warn x t)" for x by (simp add: warn_def)
  then have w: "file_content (warn x t) = file_content t" for x by (rule file_content_same)
  have noid: "IsCitusShardTable (e_catalog env) objectId \<Longrightarrow> objectId \<noteq> InvalidOid"
    by (auto simp: IsCitusShardTable_def)
  show ?thesis
  proof (cases "access = OAT_POST_CREATE \<and> classId = RelationRelationId \<and> subId = 0
      \<and> IsCitusShardTable (e_catalog env) objectId")
    case True
    show ?thesis
    proof (cases r)
      case (Inr u)
      then have "script (files (p_server s)) = [] \<longrightarrow> partition_wal_exists objectId t" using Init_exists i by simp
      with True Inr i fc noid show ?thesis by (simp add: partdist_object_access_def)
    next
      case (Inl e)
      then have "script (files (p_server s)) \<noteq> []"
        using i by (auto simp: InitPartitionWALDirectory_def mkdir_root_def mkdir_part_def split: if_splits)
      with True Inl i fc noid w show ?thesis by (simp add: partdist_object_access_def)
    qed
  next
    case False
    then show ?thesis by (simp add: partdist_object_access_def del: de_Morgan_conj) (auto simp: partdist_object_access_def)
  qed
qed

text \<open>A server whose catalog knows one shard, for the examples.\<close>

definition example_process :: "wal_record list process" where
  "example_process =
     \<lparr>p_view = (partdist_shmem_startup None fresh_segment)\<lparr>view_metadata := empty_cache 4\<rparr>, p_server = fresh_server,
      p_backend = fresh_backend, p_in_hook = False, p_log = []\<rparr>"

definition example_environment :: "(wal_record list) environment" where
  "example_environment =
     \<lparr>e_tables = example_tables NODE_ACTIVE, e_local_node_id = 1, e_ids = (0, 0), e_ops = list_wal,
      e_catalog = \<lparr>get_rel_name = (\<lambda>r. if r = 9 then Some ''orders_102008'' else None), local_group = None,
                   dist_partition = None\<rparr>,
      e_lookup = (\<lambda>rv. InvalidOid), e_XactLastRecEnd = (\<lambda>s. 8)\<rparr>"

definition example_functions :: "(wal_record list) server_functions" where
  "example_functions =
     \<lparr>standard_ExecutorStart = (\<lambda>qd s. (None, s)), standard_ExecutorFinish = (\<lambda>qd s. (None, s)),
      standard_ProcessUtility = (\<lambda>ps s. (None, s)), f_add_size = (+), f_hash_estimate_size = (*)\<rparr>"

definition example_hooks :: "(wal_record list) hooks" where
  "example_hooks =
     \<lparr>shmem_request_hook = None, shmem_startup_hook = None, earlier_startup = None, ExecutorStart_hook = None,
      ExecutorFinish_hook = None, object_access_hook = None, ProcessUtility_hook = None, int_variables = [],
      rmgrs = (\<lambda>i. None), bgworkers = []\<rparr>"

theorem remote_write_never_starts_witness:
  "\<exists>e s'. the (ExecutorStart_hook (PG_init 0x1000000 example_environment example_functions True example_hooks))
      \<lparr>operation = CMD_INSERT, plannedstmt = Some \<lparr>resultRelations = [1],
        rtable = [\<lparr>rtekind = RTE_RELATION, relid = 9, aliasname = None\<rparr>], utilityStmt = OtherNode\<rparr>,
       sourceText = []\<rparr> example_process = (Some e, s')"
proof -
  let ?rte = "\<lparr>rtekind = RTE_RELATION, relid = 9, aliasname = None\<rparr>"
  let ?ps = "\<lparr>resultRelations = [1], rtable = [?rte], utilityStmt = OtherNode\<rparr>"
  let ?qd = "\<lparr>operation = CMD_INSERT, plannedstmt = Some ?ps, sourceText = []\<rparr>"
  have inv: "route_inv (e_tables example_environment) (view_metadata (p_view example_process))"
    by (simp add: example_environment_def example_process_def example_inv)
  have rem: "\<not> admitted (route_spec (e_tables example_environment) (e_local_node_id example_environment) 9)"
    by (simp add: example_environment_def route_spec_def example_tables_def row_on_def table_primary_def
        table_status_def admitted_def Let_def)
  show ?thesis
    using remote_write_never_starts [OF inv _ _ _ _ _ _ rem, of ?qd ?ps "0x1000000" example_functions example_hooks]
    by (simp add: is_dml_def result_oids_def rt_fetch_def PG_init_def)
      (auto simp: example_environment_def example_process_def empty_cache_def)
qed

theorem shard_directory_created_witness:
  "\<exists>s'. partdist_object_access example_environment None OAT_POST_CREATE RelationRelationId 9 0 example_process = (None, s') \<and>
     partition_wal_exists 9 (files (p_server s'))"
proof -
  have shard: "IsCitusShardTable (e_catalog example_environment) 9"
    by (simp add: IsCitusShardTable_def example_environment_def IsCitusShardName_def)
  have "script (files (p_server example_process)) = []" by (simp add: example_process_def fresh_server_def)
  with shard shard_directory_created [of example_environment OAT_POST_CREATE RelationRelationId 9 0 example_process]
  show ?thesis by auto
qed

section \<open>The SQL functions over the cache\<close>

text \<open>Bumping the metadata version and invalidating the cache are the same operation on the shared
  state, and after it every partition misses: no lookup is answered from an entry stored before.\<close>

theorem bump_invalidates_all:
  assumes "cache_inv m" and "PartdistState m = Some st" and "unat (metadata_generation st) + 1 < 2 ^ 64"
  shows "pg_partdist_bump_metadata_version m = pg_partdist_cache_invalidate m \<and>
    fst (partition_probe p (pg_partdist_bump_metadata_version m)) = None"
proof -
  have eq: "pg_partdist_bump_metadata_version m = InvalidatePartdistCache m"
    by (simp add: pg_partdist_bump_metadata_version_def InvalidatePartdistCache_def)
  have co: "coherent T (InvalidatePartdistCache m)" for T
    by (rule Invalidate_coherent(2) [OF assms(1)]) (use assms(2,3) in simp)
  have "fst (partition_probe p (InvalidatePartdistCache m)) = None"
  proof (rule ccontr)
    assume "fst (partition_probe p (InvalidatePartdistCache m)) \<noteq> None"
    then obtain x m' where pr: "partition_probe p (InvalidatePartdistCache m) = (Some x, m')"
      by (metis option.exhaust prod.collapse)
    have "x = table_primary (Rows [])" "x = table_primary (row_on 5 [])"
      using probe_hit [OF pr co [of "\<lambda>_. Rows []"]] probe_hit [OF pr co [of "\<lambda>_. row_on 5 []"]] by auto
    then show False by (simp add: table_primary_def row_on_def)
  qed
  then show ?thesis using eq by (simp add: pg_partdist_cache_invalidate_def)
qed

theorem bump_invalidates_all_witness:
  "fst (partition_probe 9 (pg_partdist_bump_metadata_version (empty_cache 4))) = None"
proof -
  have "cache_inv (empty_cache 4)" using cache_run_inv [OF empty_cache_run] by blast
  moreover obtain st where "PartdistState (empty_cache 4) = Some st" "metadata_generation st = 0"
    by (simp add: empty_cache_def)
  ultimately show ?thesis using bump_invalidates_all [of "empty_cache 4" st 9] by auto
qed

text \<open>\<open>cache_stats\<close> accounts for every lookup: over any sequence of look-ups of primaries on an
  attached process, hits and misses together grow by the number of look-ups, and the node counters and
  the generation stay.\<close>

fun lookups :: "tables \<Rightarrow> oid list \<Rightarrow> metadata \<Rightarrow> metadata" where
  "lookups tb [] m = m"
| "lookups tb (p # ps) m = lookups tb ps (snd (pg_partdist_get_primary tb p m))"

lemma probe_counts:
  assumes "PartitionMapHash m = Some h" and "PartdistState m = Some st"
  shows "\<exists>st'. PartdistState (snd (partition_probe p m)) = Some st' \<and>
    partition_hits st' + partition_misses st' = partition_hits st + partition_misses st + 1 \<and>
    node_hits st' = node_hits st \<and> node_misses st' = node_misses st \<and>
    metadata_generation st' = metadata_generation st"
proof (cases "hash_find p h")
  case None
  with assms show ?thesis by (simp add: partition_probe_def)
next
  case (Some e)
  with assms show ?thesis
    by (cases "h_is_valid e \<and> h_meta_version e = metadata_generation st") (auto simp: partition_probe_def)
qed

lemma repopulate_state:
  assumes "partition_repopulate p l fresh m = (r, m')"
  shows "PartdistState m' = PartdistState m" and "PartitionMapHash m \<noteq> None \<Longrightarrow> PartitionMapHash m' \<noteq> None"
  using assms by (auto simp: partition_repopulate_def Let_def split: option.splits sum.splits)

lemma get_primary_state:
  "PartdistState (snd (get_primary tb p m)) = PartdistState (snd (partition_probe p m))"
  "PartitionMapHash m \<noteq> None \<Longrightarrow> PartitionMapHash (snd (get_primary tb p m)) \<noteq> None"
proof -
  obtain o1 m1 where pr: "partition_probe p m = (o1, m1)" by fastforce
  obtain lr l where ld: "LoadPartitionFromTable p (partition_rows tb p) (uninit_partition tb) = (lr, l)" by fastforce
  obtain rr m2 where rp: "partition_repopulate p l (fresh_entry tb) m1 = (rr, m2)" by fastforce
  have "snd (get_primary tb p m) = m1 \<or> snd (get_primary tb p m) = m2"
    using pr ld rp by (auto simp: GetPartitionPrimary_def split: option.splits sum.splits bool.splits)
  with repopulate_state [OF rp] probe_effect(1) [OF pr] pr
  show "PartdistState (snd (get_primary tb p m)) = PartdistState (snd (partition_probe p m))"
    "PartitionMapHash m \<noteq> None \<Longrightarrow> PartitionMapHash (snd (get_primary tb p m)) \<noteq> None" by auto
qed

lemma get_primary_snd: "snd (pg_partdist_get_primary tb p m) = snd (get_primary tb p m)"
  by (auto simp: pg_partdist_get_primary_def split: prod.split sum.split)

theorem cache_stats_count_lookups:
  assumes "PartitionMapHash m \<noteq> None" and "pg_partdist_cache_stats True m = Inr [h, ms, nh, nm, g]"
    and "PartdistState m \<noteq> None"
  shows "\<exists>h' ms'. pg_partdist_cache_stats True (lookups tb ps m) = Inr [h', ms', nh, nm, g] \<and>
    h' + ms' = h + ms + of_nat (length ps)"
  using assms
proof (induction ps arbitrary: m h ms)
  case (Cons p ps)
  obtain st where st: "PartdistState m = Some st" using Cons.prems(3) by blast
  obtain t where t: "PartitionMapHash m = Some t" using Cons.prems(1) by blast
  let ?m = "snd (get_primary tb p m)"
  obtain st' where st': "PartdistState ?m = Some st'"
    "partition_hits st' + partition_misses st' = partition_hits st + partition_misses st + 1"
    "node_hits st' = node_hits st" "node_misses st' = node_misses st" "metadata_generation st' = metadata_generation st"
    using probe_counts [OF t st, of p] get_primary_state(1) [where tb = tb and p = p and m = m] by auto
  have "pg_partdist_cache_stats True ?m = Inr [partition_hits st', partition_misses st', nh, nm, g]"
    using st st' Cons.prems(2) by (simp add: pg_partdist_cache_stats_def)
  from Cons.IH [OF get_primary_state(2) [OF Cons.prems(1)] this] st'(1,2) st Cons.prems(2)
  show ?case by (auto simp: get_primary_snd pg_partdist_cache_stats_def ac_simps)
qed simp

theorem cache_stats_count_lookups_witness:
  "\<exists>h' ms'. pg_partdist_cache_stats True (lookups (example_tables NODE_ACTIVE) [9, 9, 4] (empty_cache 4))
     = Inr [h', ms', 0, 0, 0] \<and> h' + ms' = 3"
  using cache_stats_count_lookups [of "empty_cache 4" 0 0 0 0 0 "example_tables NODE_ACTIVE" "[9, 9, 4]"]
  by (simp add: empty_cache_def pg_partdist_cache_stats_def)

text \<open>The SQL functions answer as the tables say, as long as what the caches hold agrees with them: \<open>get_primary\<close> is \<open>NULL\<close>
  exactly for a partition without a usable row, and \<open>route_write\<close> is the name of the table's route;
  otherwise they raise a look-up error.\<close>

theorem sql_functions_follow_tables:
  assumes "route_inv tb m"
  shows "(case fst (pg_partdist_get_primary tb p m) of
            Inr x \<Rightarrow> x = (if sint (table_primary (partition_rows tb p)) < 0 then None
                        else Some (table_primary (partition_rows tb p)))
          | Inl e \<Rightarrow> lookup_error e) \<and>
    (case fst (pg_partdist_route_write tb l ids p m) of
       Inr x \<Rightarrow> x = RouteStatusString (route_spec tb l p) | Inl e \<Rightarrow> lookup_error e)"
proof
  obtain r m' where g: "get_primary tb p m = (r, m')" by fastforce
  show "case fst (pg_partdist_get_primary tb p m) of
            Inr x \<Rightarrow> x = (if sint (table_primary (partition_rows tb p)) < 0 then None
                        else Some (table_primary (partition_rows tb p)))
          | Inl e \<Rightarrow> lookup_error e"
    using g get_primary_route(2) [OF g assms] get_primary_error [where tb = tb and p = p and m = m]
    by (cases r) (auto simp: pg_partdist_get_primary_def)
  let ?req = "\<lparr>req_partition_id = p, xid = fst ids, cid = snd ids, query_string = None\<rparr>"
  obtain q m2 where w: "RouteWriteRequest tb l ?req m = (q, m2)" by fastforce
  show "case fst (pg_partdist_route_write tb l ids p m) of
       Inr x \<Rightarrow> x = RouteStatusString (route_spec tb l p) | Inl e \<Rightarrow> lookup_error e"
    using w RouteWriteRequest_spec(2) [OF w assms] RouteWriteRequest_error [of tb l ?req m]
    by (cases q) (auto simp: pg_partdist_route_write_def)
qed

theorem sql_functions_follow_tables_witness:
  "case fst (pg_partdist_route_write (example_tables NODE_DOWN) 1 (0, 0) 4 (empty_cache 4)) of
     Inr x \<Rightarrow> x = ''not_found'' | Inl e \<Rightarrow> lookup_error e"
proof -
  have eq: "RouteStatusString (route_spec (example_tables NODE_DOWN) 1 4) = ''not_found''"
    by (simp add: route_spec_def Let_def example_tables_def table_primary_def)
  show ?thesis
    using sql_functions_follow_tables [OF example_inv [of NODE_DOWN 4], where p = 4 and l = 1 and ids = "(0, 0)"]
    unfolding eq by (rule conjunct2)
qed

end
