(* ===== verification/Spec2Isabelle.thy ===== *)
theory Spec2Isabelle
  imports StoreInvariant XLogFiles Datums Ilist Int128 BitUtils TransactionIds MemoryChunks AsciiCheck Atomics Qunique
    SimpleHashMap PgPartdist
begin

text \<open>
  A verification development for \<open>pg_partdist\<close>, the PostgreSQL extension of ShardPG under
  \<open>src/pg-partdist-src\<close>: every C function of the extension, the inline functions and macros of
  the server's headers it builds on, and the properties that make them work together.

  The program.  A table is split into partitions, each with a primary node.  \<open>metadata_cache.c\<close>
  caches in shared memory which node that is; \<open>router/write_router.c\<close> uses it to reject, in the
  \<open>ExecutorStart\<close> hook, a write whose primary is elsewhere.  After a write, the \<open>ExecutorFinish\<close>
  and \<open>ProcessUtility\<close> hooks of \<open>wal/partition_wal.c\<close> decide which relations are partitions and
  write one 32-byte header per partition into the server's WAL, under a custom resource manager and
  with the partition's next LSN.  The Demux worker, \<open>worker/demux_worker.c\<close>, reads the WAL back and
  copies the headers with a buffered writer, \<open>wal/partition_wal_writer.c\<close>, into segment files below
  \<open>pg_parwal/<partition>\<close>; crash recovery copies them with the redo callback.  SQL functions read the
  files, check them, and wait for the worker.  \<open>pg_partdist.c\<close> installs all of it.

  The theories, in the order of their imports.

  \<^item> \<open>Prelude\<close>: machine types, the errors and warnings the code raises, \<open>strcmp\<close>, the exchange sort
    that the code repeats in four places (locale \<open>exchange_order\<close>), and PostgreSQL's bounded shared
    hash table (locale \<open>bounded_map\<close>).
  \<^item> \<open>XLogNames\<close>: segment arithmetic and file names of \<open>access/xlog_internal.h\<close>, \<open>GetPartitionWALPath\<close>.
  \<^item> \<open>XLogFiles\<close>: the rest of that header: the other file names of the WAL directory, segment boundaries,
    page headers, and the alignment macros of \<open>c.h\<close>.
  \<^item> \<open>WalHeader\<close>: \<open>PartWALHeader\<close> and \<open>PartWALSkip\<close> with their bytes, and the record-by-record read.
  \<^item> \<open>ParwalStore\<close>: the files below \<open>pg_parwal\<close> as a record of directories and inodes, the system
    calls on them, directory creation, cleanup and reset.  A call takes its outcome (success, an
    error number, a short write) from a script, so a theorem about all scripts is one about all faults.
  \<^item> \<open>SegmentScan\<close>, \<open>PartitionLog\<close>: \<open>GetLastWrittenPartitionLSN\<close> and the SQL readers, and what they
    read as one log per partition.
  \<^item> \<open>WalWriter\<close>: the buffered writer, with its refinement of an unbuffered log.
  \<^item> \<open>LsnAlloc\<close>: the LSN counters and \<open>AllocPartitionLSN\<close>, whose critical sections are the steps of a
    transition system for concurrent callers.
  \<^item> \<open>WatermarkLog\<close>: the contract that recovery and the worker share, a log that skips what it has
    (locale \<open>watermark_log\<close>, interpreted on both).
  \<^item> \<open>WalRecords\<close>: \<open>WritePartitionWALRecord\<close>, the resource manager, reset, and the SQL functions
    around them.
  \<^item> \<open>DemuxShared\<close>, \<open>DemuxStats\<close>, \<open>DemuxWriters\<close>, \<open>DemuxRouting\<close>, \<open>DemuxMain\<close>: the Demux worker, from
    its shared state and progress file to the turns of its main loop.
  \<^item> \<open>StoreInvariant\<close>: the invariant of the files under every operation and every fault.
  \<^item> \<open>MetadataCache\<close>, \<open>ServerTypes\<close>, \<open>WriteRouter\<close>, \<open>CitusHooks\<close>: the metadata caches, the parse tree
    fields the hooks look at, the router, and the hooks that write records.
  \<^item> \<open>PgPartdist\<close>: shared-memory start-up, the chain of hooks, \<open>_PG_init\<close>, and the remaining SQL functions.
  \<^item> \<open>PgList\<close>: the server's lists and their loops (\<open>nodes/pg_list.h\<close>), through which the hooks walk over a
    plan; its locale \<open>list_walk\<close> is interpreted on the loops of the router and of the finish hook, each
    with its loop body.
  \<^item> \<open>Datums\<close>, \<open>Ilist\<close>, \<open>IntOverflow\<close>: the other code that the server's headers compile into a module and
    that stands on its own: the conversions of \<open>postgres.h\<close> (locale \<open>datum_type\<close>, interpreted on every
    type), the linked lists of \<open>lib/ilist.h\<close> (locale \<open>intrusive_queue\<close>, interpreted on both lists with
    two ends), and the checked arithmetic of \<open>common/int.h\<close> with each body the preprocessor can select.
  \<^item> \<open>BitUtils\<close>, \<open>SortTemplate\<close>: the bit operations and byte orders of \<open>port/pg_bitutils.h\<close> and
    \<open>port/pg_bswap.h\<close> (locale \<open>leftmost_one\<close>: what the powers of two ask of a position function), and
    the quicksort of \<open>lib/sort_template.h\<close> (locale \<open>comparator\<close>, which gives the order that the exchange
    sorts of the extension need; with \<open>strcmp\<close> both sorts give the same list).
  \<^item> \<open>HashFn\<close>, \<open>SimpleHash\<close>, \<open>SimpleHashInsert\<close>, \<open>SimpleHashGrow\<close>, \<open>SimpleHashDelete\<close>, \<open>SimpleHashMap\<close>: the hash
    functions of \<open>common/hashfn.h\<close> and the hash table template \<open>lib/simplehash.h\<close>, with its operations in the
    order of their names, up to the map that a table implements (locale \<open>sh_keys\<close>).
  \<^item> \<open>Int128\<close>, \<open>TransactionIds\<close>, \<open>MemoryChunks\<close>, \<open>ByteSearch\<close>: 128-bit sums and products from 64-bit halves
    (\<open>common/int128.h\<close>), transaction ids and their 64-bit form (\<open>access/transam.h\<close>), the bit fields in front of
    allocated memory (\<open>utils/memutils_memorychunk.h\<close>), and the search through bytes eight at a time
    (\<open>port/simd.h\<close>, \<open>port/pg_lfind.h\<close>; locale \<open>byte_vector\<close>).
  \<^item> \<open>Qunique\<close>, \<open>AsciiCheck\<close>: two users of these parts, the removal of duplicates after a sort
    (\<open>lib/qunique.h\<close>) and the check for 7-bit characters (\<open>utils/ascii.h\<close>).
  \<^item> \<open>Atomics\<close>: the atomic operations of \<open>port/atomics/generic.h\<close> and \<open>port/atomics/generic-gcc.h\<close> as calls that run
    at the same time, with a schedule for their steps.

  Correspondence.  Definitions have the names of the C functions and types; a C function whose loop
  or critical section matters is composed of definitions for these parts.  A pointer that may be
  \<open>NULL\<close> is an option; \<open>ereport(ERROR)\<close> is the left side of a sum, \<open>ereport(WARNING)\<close> an entry of the
  store's warnings; integers are words of their width, except counters and lengths whose bound is
  proved or structural, which are naturals.  The parallel arrays of the worker's cache are one list
  of pairs.  A double in the latency statistics is the exact real result of each operation with the
  rounding of the machine, a parameter, applied to it.

  Parameters.  What the server provides is an argument: \<open>XLogInsert\<close>, \<open>XLogFlush\<close> and the insert
  position (\<open>wal_ops\<close>, with the law \<open>wal_ops_ok\<close> that an insertion appends its record), what the WAL
  reader, the clock and the signals deliver in a turn of the worker (\<open>turn\<close>), with what the worker
  finds in a pointer that it reads unassigned after a read that raised (\<open>stale_record\<close>), the answers of SPI, the
  system catalogs of Citus, the hooks installed before, and the size functions of shared memory.

  Bounds.  There is no fuel: every loop is structural or has a termination proof (the script of
  faults shrinks on \<open>EINTR\<close>, the buffer on a short write, the wait of \<open>demux_flush\<close> by its
  counter), except the loops over linked lists and the one that deletes from a server list: these are
  partial functions, proved to return on every well-formed list; so are the probes of a hash table, which
  end at an empty bucket and are proved to find one.  The loops of the atomic operations, which other
  processes can delay, are steps of a schedule, with a bound on the failures of each.  The endless loop of the worker is a fold over a finite list of turns, so a statement
  about all lists of turns is one about all its finite runs.  Logs are read in full only up to the
  256 segment files that the code lists; the theorems that need it assume it.

  What the theorems show.  Records keep the order and the numbering of their partition from the
  write to the rows that SQL returns (\<open>writes_reach_readers\<close>, and its parts in the theories above);
  recovery and the worker agree; allocation is safe under concurrency; routing and the hooks act as
  the tables say; the published position, the progress file and the bounds of the worker hold under
  faults.  Where the code does not keep a promise its comments make, the theorem says what happens
  instead: an invalidation that is lost, a record lost after a failed open, a torn record that
  recovery builds on, a partial flush that is repeated, a restart that does not resume, WAL that
  is skipped with its segment, and a read error after which the worker goes on with an unassigned
  record (which may end it).

  Not modelled: PostgreSQL and Citus themselves, of which only installed headers are present (the
  prototypes, node types and generated tables in them have no behaviour of their own); the inline
  functions of headers that only forward to the server's code, such as the table access methods, and those
  that are assembly or intrinsics of one architecture; floating point and its headers; the
  allocation and release of memory, log levels and message texts; the SQL scripts and shell tests.
  Locks appear as the critical sections they protect.  Reads of a file are taken to return what is
  there in one piece.
\<close>

section \<open>Records between a write and the worker\<close>























section \<open>Recovery and the worker\<close>

text \<open>Redo depends on the header in a record only.\<close>

lemma redo_data:
  "is_data_record r \<Longrightarrow>
     partdist_wal_redo wss r s = partdist_wal_redo wss (redo_record (decode_header (take sizeof_header (main_data r)))) s"
  by (simp add: is_data_record_def partdist_wal_redo_def redo_record_def)

lemma redo_stream:
  "list_all is_data_record rs \<Longrightarrow>
     fold (\<lambda>r s. snd (partdist_wal_redo wss r s)) rs s = fold (redo wss) (stream_headers rs) s"
proof (induction rs arbitrary: s)
  case (Cons r rs)
  then show ?case using redo_data [of r wss s] by (simp add: stream_headers_def)
qed (simp add: stream_headers_def)

text \<open>C5: Crash recovery and the Demux worker agree.  Take a WAL of data records of the extension (the
  worker checks the kind of a record, the redo callback does not), of at most 512 partitions, no
  failing system call, a valid WAL segment size, and a partition \<open>p\<close> in order: its files are readable and hold whole records of
  its own with growing LSNs, and the segments of its new records come in order, none before the newest
  file, and keep the directory within 256 files.  Then from the same files and over the same WAL the
  redo callback and the worker's routing leave the same log in \<open>p\<close>.\<close>

theorem recovery_equals_worker:
  assumes "recovery_ok wss p s" and "list_all is_data_record rs"
    and "finite P" and "card P \<le> DEMUX_MAX_PARTITIONS" and "list_all (\<lambda>h. partition_id h \<in> P) (stream_headers rs)"
    and "admissible (record_segno wss) wss p
      (accepted (last_lsn (scan_headers p s)) (filter (own_record p) (stream_headers rs))) s"
  shows "scan_headers p (fold (\<lambda>r s. snd (partdist_wal_redo wss r s)) rs s) =
    scan_headers p (dstore (fold (process_record wss) rs \<lparr>writers = [], dstore = s\<rparr>))"
proof -
  have "plog_ok wss P p \<lparr>writers = [], dstore = s\<rparr>"
    using assms(1,3,4) by (simp add: plog_ok_def demux_ok_def recovery_ok_def cache_shape_def part_ok_def)
  from dmx.replay(3) [where ks = "[]", OF assms(5) this] rec.replay(3) [of "stream_headers rs" wss p s "[]"] assms(1,6)
  show ?thesis
    unfolding redo_stream [OF assms(2)] process_stream by (simp add: list_all_iff)
qed

theorem recovery_equals_worker_witness:
  "scan_headers 7 (fold (\<lambda>r s. snd (partdist_wal_redo 0x1000000 r s)) (map redo_record [new_header 7 1 0x1000028 1]) fresh_store) =
   scan_headers 7 (dstore (fold (process_record 0x1000000) (map redo_record [new_header 7 1 0x1000028 1]) \<lparr>writers = [], dstore = fresh_store\<rparr>))"
proof (rule recovery_equals_worker [OF fresh_recovery_ok, of _ "{7}"])
  let ?h = "new_header 7 1 0x1000028 1"
  have "filter (own_record 7) (stream_headers (map redo_record [?h])) = [?h]"
    unfolding redo_record_stream by (simp add: own_record_def new_header_def)
  moreover have "admissible (record_segno 0x1000000) 0x1000000 7 (accepted m [?h]) fresh_store" for m
    by (rule fresh_admissible) simp_all
  ultimately show "admissible (record_segno 0x1000000) 0x1000000 7 (accepted (last_lsn (scan_headers 7 fresh_store))
      (filter (own_record 7) (stream_headers (map redo_record [?h])))) fresh_store" by simp
  show "list_all is_data_record (map redo_record [?h])"
    by (simp add: is_data_record_def redo_record_def XLogRecGetInfo_def PARTWAL_RMGR_INFO_DATA_def)
  show "list_all (\<lambda>h. partition_id h \<in> {7}) (stream_headers (map redo_record [?h]))"
    unfolding redo_record_stream by (simp add: new_header_def)
qed (simp_all add: DEMUX_MAX_PARTITIONS_def)

end
